(* ===== verification/Prelude.thy ===== *)
theory Prelude
  imports Main "HOL-Library.Word"
begin

text \<open>
  Shared vocabulary of the development: the machine integer types of
  \<^verbatim>\<open>lib/defines.h\<close>, the outcome of a kernel operation (it returns, it panics, it
  goes to sleep, or it leaves the defined behaviour of C), its sequencing, and the
  generic lemmas on lists and words that several components use.
\<close>

unbundle bit_operations_syntax

section \<open>Integer types\<close>

type_synonym u8 = "8 word"
type_synonym u16 = "16 word"
type_synonym u32 = "32 word"
type_synonym u64 = "64 word"

section \<open>Outcomes\<close>

text \<open>
  \<^term>\<open>Ret\<close> is a normal return. \<^term>\<open>Panic\<close> is a call of \<^verbatim>\<open>_panic\<close>, directly or through
  a failed \<^verbatim>\<open>ASSERT\<close>: the kernel never returns from it. \<^term>\<open>Sleep\<close> is an operation
  that gives up the processor waiting for another thread and would not go on by
  itself. \<^term>\<open>Undef\<close> is undefined behaviour: a null or dangling dereference or an
  access outside an array.
\<close>

datatype 'a outcome = Ret 'a | Panic | Sleep | Undef

primrec andthen :: "'a outcome \<Rightarrow> ('a \<Rightarrow> 'b outcome) \<Rightarrow> 'b outcome" where
  "andthen (Ret x) f = f x"
| "andthen Panic f = Panic"
| "andthen Sleep f = Sleep"
| "andthen Undef f = Undef"

definition ASSERT :: "bool \<Rightarrow> unit outcome" where
  "ASSERT b = (if b then Ret () else Panic)"

named_theorems outcome_simps

lemma ASSERT_simps [simp, outcome_simps]:
  "ASSERT True = Ret ()" "ASSERT False = Panic"
  by (simp_all add: ASSERT_def)

lemma ASSERT_True: "b \<Longrightarrow> ASSERT b = Ret ()"
  by (simp add: ASSERT_def)

lemma ASSERT_eq_Ret [simp, outcome_simps]: "ASSERT b = Ret u \<longleftrightarrow> b"
  by (simp add: ASSERT_def)

lemma andthen_eq_Ret [outcome_simps]:
  "andthen m f = Ret y \<longleftrightarrow> (\<exists>x. m = Ret x \<and> f x = Ret y)"
  by (cases m) auto

lemma andthen_Ret_right [simp]: "andthen m Ret = m"
  by (cases m) auto

lemma andthen_assoc:
  "andthen (andthen m f) g = andthen m (\<lambda>x. andthen (f x) g)"
  by (cases m) auto

lemma andthen_cong [fundef_cong]:
  "m = m' \<Longrightarrow> (\<And>x. m' = Ret x \<Longrightarrow> f x = f' x) \<Longrightarrow> andthen m f = andthen m' f'"
  by (cases m') auto

section \<open>Loops that may not end\<close>

text \<open>
  A loop that may run forever is a partial function: \<^term>\<open>None\<close> means that it does not return. \<open>run_then\<close>
  continues with the result of such a computation.
\<close>

definition run_then :: "'a outcome option \<Rightarrow> ('a \<Rightarrow> 'b outcome option) \<Rightarrow> 'b outcome option" where
  "run_then r f =
     (case r of
        None \<Rightarrow> None
      | Some x \<Rightarrow> (case x of Ret a \<Rightarrow> f a | Panic \<Rightarrow> Some Panic | Sleep \<Rightarrow> Some Sleep | Undef \<Rightarrow> Some Undef))"

lemma run_then_simps [simp]:
  "run_then None f = None" "run_then (Some (Ret a)) f = f a" "run_then (Some Panic) f = Some Panic"
  "run_then (Some Sleep) f = Some Sleep" "run_then (Some Undef) f = Some Undef"
  by (simp_all add: run_then_def)

lemma run_then_eq_Ret [outcome_simps]:
  "run_then r f = Some (Ret y) \<longleftrightarrow> (\<exists>x. r = Some (Ret x) \<and> f x = Some (Ret y))"
  by (auto simp: run_then_def split: option.splits outcome.splits)

lemma run_then_mono [partial_function_mono]:
  fixes B :: "('a \<Rightarrow> 'b option) \<Rightarrow> 'c outcome option" and C :: "'c \<Rightarrow> ('a \<Rightarrow> 'b option) \<Rightarrow> 'd outcome option"
  assumes B: "mono_option B" and C: "\<And>y. mono_option (\<lambda>f. C y f)"
  shows "mono_option (\<lambda>f. run_then (B f) (\<lambda>y. C y f))"
proof (rule monotoneI)
  fix f g :: "'a \<Rightarrow> 'b option"
  assume fg: "fun_ord option_ord f g"
  have "option_ord (B f) (B g)" using monotoneD [OF B] fg by blast
  then consider "B f = None" | "B f = B g" by (auto simp: flat_ord_def)
  then show "option_ord (run_then (B f) (\<lambda>y. C y f)) (run_then (B g) (\<lambda>y. C y g))"
  proof cases
    case 1 then show ?thesis by (simp add: flat_ord_def)
  next
    case 2
    have "\<And>y. option_ord (C y f) (C y g)" using monotoneD [OF C] fg by blast
    then show ?thesis using 2 by (auto simp: run_then_def flat_ord_def split: option.splits outcome.splits)
  qed
qed

end
