(* ===== verification/Kstring.thy ===== *)
theory Kstring
  imports Prelude
begin

text \<open>
  The memory and string routines of \<^verbatim>\<open>lib/string.c\<close> and the rounding and minimum
  helpers of \<^verbatim>\<open>lib/defines.h\<close>. Memory is a function from byte addresses to bytes, so
  that overlapping arguments alias as they do in C. Each \<^verbatim>\<open>for\<close> loop is a recursion on
  its counter.
\<close>

type_synonym mem = "nat \<Rightarrow> u8"

section \<open>Rounding and minimum\<close>

definition round_down :: "u64 \<Rightarrow> u64 \<Rightarrow> u64" where
  "round_down a b = a - a mod b"

definition round_up :: "u64 \<Rightarrow> u64 \<Rightarrow> u64" where
  "round_up a b = round_down (a + b - 1) b"

definition cMIN :: "'a::ord \<Rightarrow> 'a \<Rightarrow> 'a" where
  "cMIN a b = (if a \<le> b then a else b)"

definition cMAX :: "'a::ord \<Rightarrow> 'a \<Rightarrow> 'a" where
  "cMAX a b = (if a \<ge> b then a else b)"

lemma cMIN_min: "cMIN (a::'a::linorder) b = min a b"
  by (simp add: cMIN_def min_def)

lemma cMAX_max: "cMAX (a::'a::linorder) b = max a b"
  by (auto simp: cMAX_def max_def)

section \<open>Block operations\<close>

function memset_loop :: "mem \<Rightarrow> nat \<Rightarrow> u8 \<Rightarrow> nat \<Rightarrow> nat \<Rightarrow> mem" where
  "memset_loop m s c i n =
     (if i < n then memset_loop (m(s + i := c)) s c (Suc i) n else m)"
  by pat_completeness auto
termination
  by (relation "measure (\<lambda>(m, s, c, i, n). n - i)") auto

text \<open>The \<^verbatim>\<open>int\<close> argument is masked to its low byte.\<close>

definition memset :: "mem \<Rightarrow> nat \<Rightarrow> u32 \<Rightarrow> nat \<Rightarrow> mem" where
  "memset m s c n = memset_loop m s (ucast (c AND 0xff)) 0 n"

function memcpy_loop :: "mem \<Rightarrow> nat \<Rightarrow> nat \<Rightarrow> nat \<Rightarrow> nat \<Rightarrow> mem" where
  "memcpy_loop m d s i n =
     (if i < n then memcpy_loop (m(d + i := m (s + i))) d s (Suc i) n else m)"
  by pat_completeness auto
termination
  by (relation "measure (\<lambda>(m, d, s, i, n). n - i)") auto

definition memcpy :: "mem \<Rightarrow> nat \<Rightarrow> nat \<Rightarrow> nat \<Rightarrow> mem" where
  "memcpy m d s n = memcpy_loop m d s 0 n"

function memcmp_loop :: "mem \<Rightarrow> nat \<Rightarrow> nat \<Rightarrow> nat \<Rightarrow> nat \<Rightarrow> int" where
  "memcmp_loop m s1 s2 i n =
     (if i < n then
        (let c1 = uint (m (s1 + i)); c2 = uint (m (s2 + i))
         in if c1 \<noteq> c2 then c1 - c2 else memcmp_loop m s1 s2 (Suc i) n)
      else 0)"
  by pat_completeness auto
termination
  by (relation "measure (\<lambda>(m, s1, s2, i, n). n - i)") auto

definition memcmp :: "mem \<Rightarrow> nat \<Rightarrow> nat \<Rightarrow> nat \<Rightarrow> int" where
  "memcmp m s1 s2 n = memcmp_loop m s1 s2 0 n"

text \<open>
  \<^verbatim>\<open>memmove\<close> copies backwards from the end when the destination starts inside the
  source, and forwards otherwise; both loops count \<^verbatim>\<open>n\<close> down and move the pointers.
\<close>

primrec memmove_back :: "mem \<Rightarrow> nat \<Rightarrow> nat \<Rightarrow> nat \<Rightarrow> mem" where
  "memmove_back m d s 0 = m"
| "memmove_back m d s (Suc n) =
     memmove_back (m(d + n := m (s + n))) d s n"

fun memmove_fwd :: "mem \<Rightarrow> nat \<Rightarrow> nat \<Rightarrow> nat \<Rightarrow> mem" where
  "memmove_fwd m d s 0 = m"
| "memmove_fwd m d s (Suc n) = memmove_fwd (m(d := m s)) (Suc d) (Suc s) n"

definition memmove :: "mem \<Rightarrow> nat \<Rightarrow> nat \<Rightarrow> nat \<Rightarrow> mem" where
  "memmove m d s n =
     (if s < d \<and> d - s < n then memmove_back m d s n else memmove_fwd m d s n)"

section \<open>C strings\<close>

text \<open>The first loop of \<^verbatim>\<open>strncpy\<close>: it stops at the terminator or after \<open>n\<close> bytes.\<close>

function strncpy_copy :: "mem \<Rightarrow> nat \<Rightarrow> nat \<Rightarrow> nat \<Rightarrow> nat \<Rightarrow> mem \<times> nat" where
  "strncpy_copy m d s i n =
     (if i < n \<and> m (s + i) \<noteq> 0
      then strncpy_copy (m(d + i := m (s + i))) d s (Suc i) n
      else (m, i))"
  by pat_completeness auto
termination
  by (relation "measure (\<lambda>(m, d, s, i, n). n - i)") auto

definition strncpy :: "mem \<Rightarrow> nat \<Rightarrow> nat \<Rightarrow> nat \<Rightarrow> mem" where
  "strncpy m d s n =
     (let (m1, i) = strncpy_copy m d s 0 n in memset_loop m1 d 0 i n)"

definition strncpy_fast :: "mem \<Rightarrow> nat \<Rightarrow> nat \<Rightarrow> nat \<Rightarrow> mem" where
  "strncpy_fast m d s n =
     (let (m1, i) = strncpy_copy m d s 0 n
      in if i < n then m1(d + i := 0) else m1)"

function strncmp_loop :: "mem \<Rightarrow> nat \<Rightarrow> nat \<Rightarrow> nat \<Rightarrow> nat \<Rightarrow> int" where
  "strncmp_loop m s1 s2 i n =
     (if i < n then
        (if m (s1 + i) \<noteq> m (s2 + i) then uint (m (s1 + i)) - uint (m (s2 + i))
         else if m (s1 + i) = 0 \<or> m (s2 + i) = 0 then 0
         else strncmp_loop m s1 s2 (Suc i) n)
      else 0)"
  by pat_completeness auto
termination
  by (relation "measure (\<lambda>(m, s1, s2, i, n). n - i)") auto

definition strncmp :: "mem \<Rightarrow> nat \<Rightarrow> nat \<Rightarrow> nat \<Rightarrow> int" where
  "strncmp m s1 s2 n = strncmp_loop m s1 s2 0 n"

text \<open>\<^verbatim>\<open>strlen\<close> has no bound: without a terminator it does not return.\<close>

partial_function (option) strlen_loop :: "mem \<Rightarrow> nat \<Rightarrow> nat \<Rightarrow> nat option" where
  "strlen_loop m s i = (if m (s + i) \<noteq> 0 then strlen_loop m s (Suc i) else Some i)"

definition strlen :: "mem \<Rightarrow> nat \<Rightarrow> nat option" where
  "strlen m s = strlen_loop m s 0"

declare memset_loop.simps [simp del] memcpy_loop.simps [simp del]
  memcmp_loop.simps [simp del] strncpy_copy.simps [simp del]
  strncmp_loop.simps [simp del]

section \<open>Correctness of the block operations\<close>

text \<open>The bytes of \<open>m\<close> from \<open>s\<close> on, as a list: the reference for all copies.\<close>

definition region :: "mem \<Rightarrow> nat \<Rightarrow> nat \<Rightarrow> u8 list" where
  "region m s n = map (\<lambda>i. m (s + i)) [0..<n]"

text \<open>The memory in which the \<open>n\<close> bytes at \<open>d\<close> are those \<open>src\<close> had at \<open>s\<close>.\<close>

definition blit :: "mem \<Rightarrow> nat \<Rightarrow> mem \<Rightarrow> nat \<Rightarrow> nat \<Rightarrow> mem" where
  "blit m d src s n = (\<lambda>a. if d \<le> a \<and> a < d + n then src (s + (a - d)) else m a)"

lemma region_eq_iff:
  "region m s n = region m' s' n \<longleftrightarrow> (\<forall>i<n. m (s + i) = m' (s' + i))"
  by (auto simp: region_def list_eq_iff_nth_eq)

lemma length_region [simp]: "length (region m s n) = n"
  by (simp add: region_def)

lemma nth_region [simp]: "i < n \<Longrightarrow> region m s n ! i = m (s + i)"
  by (simp add: region_def)

lemma blit_0 [simp]: "blit m d src s 0 = m"
  by (auto simp: blit_def fun_eq_iff)

lemma memset_loop_eq:
  "memset_loop m s c i n = (\<lambda>a. if s + i \<le> a \<and> a < s + n then c else m a)"
proof (induction m s c i n rule: memset_loop.induct)
  case (1 m s c i n)
  show ?case
  proof (cases "i < n")
    case True
    have "memset_loop m s c i n = memset_loop (m(s + i := c)) s c (Suc i) n"
      using True by (simp add: memset_loop.simps [of m s c i n])
    also have "\<dots> = (\<lambda>a. if s + Suc i \<le> a \<and> a < s + n then c else (m(s + i := c)) a)"
      by (rule "1.IH" [OF True])
    also have "\<dots> = (\<lambda>a. if s + i \<le> a \<and> a < s + n then c else m a)"
      using True by (auto simp: fun_eq_iff)
    finally show ?thesis .
  next
    case False
    then show ?thesis by (auto simp: fun_eq_iff memset_loop.simps [of m s c i n])
  qed
qed

lemma memcpy_loop_eq:
  assumes "d + n \<le> s \<or> s + n \<le> d \<or> d \<le> s"
  shows "memcpy_loop m d s i n =
    (\<lambda>a. if d + i \<le> a \<and> a < d + n then m (s + (a - d)) else m a)"
  using assms
proof (induction m d s i n rule: memcpy_loop.induct)
  case (1 m d s i n)
  let ?m = "m(d + i := m (s + i))"
  show ?case
  proof (cases "i < n")
    case True
    have "memcpy_loop m d s i n = memcpy_loop ?m d s (Suc i) n"
      using True by (simp add: memcpy_loop.simps [of m d s i n])
    also have "\<dots> = (\<lambda>a. if d + Suc i \<le> a \<and> a < d + n then ?m (s + (a - d)) else ?m a)"
      by (rule "1.IH" [OF True "1.prems"])
    also have "\<dots> = (\<lambda>a. if d + i \<le> a \<and> a < d + n then m (s + (a - d)) else m a)"
      using True "1.prems" by (auto simp: fun_eq_iff)
    finally show ?thesis .
  next
    case False
    then show ?thesis by (auto simp: fun_eq_iff memcpy_loop.simps [of m d s i n])
  qed
qed

lemma memmove_back_eq:
  "s \<le> d \<Longrightarrow> memmove_back m d s n = blit m d m s n"
proof (induction n arbitrary: m)
  case 0
  then show ?case by simp
next
  case (Suc n)
  then show ?case by (auto simp: blit_def fun_eq_iff less_Suc_eq)
qed

lemma memmove_fwd_eq:
  "d \<le> s \<or> s + n \<le> d \<Longrightarrow> memmove_fwd m d s n = blit m d m s n"
proof (induction m d s n rule: memmove_fwd.induct)
  case (1 m d s)
  then show ?case by simp
next
  case (2 m d s n)
  then have "memmove_fwd (m(d := m s)) (Suc d) (Suc s) n =
      blit (m(d := m s)) (Suc d) (m(d := m s)) (Suc s) n"
    by (auto simp: fun_upd_def)
  with 2(2) show ?case
    by (auto simp: blit_def fun_eq_iff Suc_le_eq Suc_diff_Suc le_less)
qed

lemma memmove_eq: "memmove m d s n = blit m d m s n"
proof (cases "s < d \<and> d - s < n")
  case True
  then show ?thesis by (simp add: memmove_def memmove_back_eq)
next
  case False
  then have "d \<le> s \<or> s + n \<le> d" by linarith
  then have "memmove_fwd m d s n = blit m d m s n" by (rule memmove_fwd_eq)
  with False show ?thesis by (simp only: memmove_def if_False)
qed

lemma region_blit [simp]: "region (blit m d src s n) d n = region src s n"
  by (simp add: blit_def region_def)

section \<open>Correctness of the string operations\<close>

text \<open>The C string at \<open>s\<close>, cut off after \<open>n\<close> bytes.\<close>

definition cstr :: "mem \<Rightarrow> nat \<Rightarrow> nat \<Rightarrow> u8 list" where
  "cstr m s n = takeWhile (\<lambda>b. b \<noteq> 0) (region m s n)"

lemma region_0 [simp]: "region m s 0 = []"
  by (simp add: region_def)

lemma region_Suc: "region m s (Suc n) = m s # region m (Suc s) n"
  by (simp add: region_def upt_conv_Cons map_Suc_upt [symmetric] del: upt_Suc)

lemma region_from: "i < n \<Longrightarrow> region m (s + i) (n - i) = m (s + i) # region m (s + Suc i) (n - Suc i)"
  by (metis Suc_diff_Suc add_Suc_right region_Suc)

text \<open>\<^term>\<open>strncmp\<close> on lists: a structural reference for the loop.\<close>

fun cmp_bytes :: "u8 list \<Rightarrow> u8 list \<Rightarrow> int" where
  "cmp_bytes (x # xs) (y # ys) =
     (if x \<noteq> y then uint x - uint y else if x = 0 then 0 else cmp_bytes xs ys)"
| "cmp_bytes _ _ = 0"

lemma strncmp_loop_cmp_bytes:
  "strncmp_loop m s1 s2 i n =
     cmp_bytes (region m (s1 + i) (n - i)) (region m (s2 + i) (n - i))"
proof (induction m s1 s2 i n rule: strncmp_loop.induct)
  case (1 m s1 s2 i n)
  show ?case
  proof (cases "i < n")
    case True
    with 1 show ?thesis
      by (simp add: strncmp_loop.simps [of m s1 s2 i n] region_from)
  next
    case False
    then show ?thesis by (simp add: strncmp_loop.simps [of m s1 s2 i n])
  qed
qed

lemma cmp_bytes_eq_0:
  "length xs = length ys \<Longrightarrow>
   cmp_bytes xs ys = 0 \<longleftrightarrow>
   takeWhile (\<lambda>b. b \<noteq> 0) xs = takeWhile (\<lambda>b. b \<noteq> 0) ys"
  by (induction xs ys rule: cmp_bytes.induct) (auto simp: uint_0_iff simp flip: word_uint_eq_iff)

lemma uint_diff_less_0: "uint (x::u8) - uint y < 0 \<longleftrightarrow> x < y"
  by (simp add: word_less_def)

lemma cmp_bytes_less_0:
  "length xs = length ys \<Longrightarrow>
   cmp_bytes xs ys < 0 \<longleftrightarrow>
   ord_class.lexordp (takeWhile (\<lambda>b. b \<noteq> 0) xs) (takeWhile (\<lambda>b. b \<noteq> 0) ys)"
proof (induction xs ys rule: cmp_bytes.induct)
  case (1 x xs y ys)
  consider "x = y" | "x \<noteq> y" "x = 0" | "x \<noteq> y" "y = 0" | "x \<noteq> y" "x \<noteq> 0" "y \<noteq> 0"
    by blast
  then show ?case
  proof cases
    case 1
    with "1.IH" "1.prems" show ?thesis by simp
  next
    case 2
    then have "uint y \<noteq> 0" by (simp add: uint_0_iff)
    then have "0 < uint y" by (simp add: order_less_le)
    with 2 show ?thesis by simp
  next
    case 3
    then show ?thesis by (simp add: uint_diff_less_0 del: diff_less_0_iff_less)
  next
    case 4
    then show ?thesis
      by (auto simp: uint_diff_less_0 simp del: diff_less_0_iff_less)
  qed
qed simp_all

lemma strncpy_copy_eq:
  assumes "d + n \<le> s \<or> s + n \<le> d" and "i \<le> n"
  shows "strncpy_copy m d s i n =
    (let k = i + length (cstr m (s + i) (n - i))
     in (\<lambda>a. if d + i \<le> a \<and> a < d + k then m (s + (a - d)) else m a, k))"
  using assms
proof (induction m d s i n rule: strncpy_copy.induct)
  case (1 m d s i n)
  let ?m = "m(d + i := m (s + i))"
  show ?case
  proof (cases "i < n \<and> m (s + i) \<noteq> 0")
    case True
    have keep: "region ?m (s + Suc i) (n - Suc i) = region m (s + Suc i) (n - Suc i)"
      using "1.prems" True by (auto simp: region_eq_iff)
    have cs: "length (cstr m (s + i) (n - i)) = Suc (length (cstr m (s + Suc i) (n - Suc i)))"
      using True by (simp add: cstr_def region_from)
    have "strncpy_copy m d s i n = strncpy_copy ?m d s (Suc i) n"
      using True by (simp add: strncpy_copy.simps [of m d s i n])
    also have "\<dots> = (let k = Suc i + length (cstr ?m (s + Suc i) (n - Suc i))
       in (\<lambda>a. if d + Suc i \<le> a \<and> a < d + k then ?m (s + (a - d)) else ?m a, k))"
      using True "1.prems" by (intro "1.IH") auto
    also have "cstr ?m (s + Suc i) (n - Suc i) = cstr m (s + Suc i) (n - Suc i)"
      by (simp only: cstr_def keep)
    finally show ?thesis
      using True "1.prems" cs length_takeWhile_le
        [of "\<lambda>b. b \<noteq> 0" "region m (s + Suc i) (n - Suc i)"]
      by (auto simp: Let_def fun_eq_iff cstr_def)
  next
    case False
    then have "cstr m (s + i) (n - i) = []"
      using "1.prems"(2) by (cases "i < n") (auto simp: cstr_def region_from)
    with False show ?thesis
      by (auto simp: strncpy_copy.simps [of m d s i n] fun_eq_iff)
  qed
qed

lemma strlen_loop_Some:
  assumes "m (s + k) = 0" and "\<forall>j<k. i \<le> j \<longrightarrow> m (s + j) \<noteq> 0" and "i \<le> k"
  shows "strlen_loop m s i = Some k"
  using assms
proof (induction "k - i" arbitrary: i)
  case 0
  then show ?case by (simp add: strlen_loop.simps)
next
  case (Suc d)
  then have "i < k" by simp
  with Suc have "strlen_loop m s (Suc i) = Some k" by auto
  with \<open>i < k\<close> Suc.prems show ?case by (simp add: strlen_loop.simps [of m s i])
qed

lemma length_cstr_le: "length (cstr m s n) \<le> n"
  using length_takeWhile_le [of "\<lambda>b. b \<noteq> 0" "region m s n"] by (simp add: cstr_def)

lemma nth_cstr: "i < length (cstr m s n) \<Longrightarrow> cstr m s n ! i = m (s + i)"
  using length_cstr_le [of m s n]
  by (simp add: cstr_def takeWhile_nth)

section \<open>Properties\<close>

text \<open>\<^verbatim>\<open>memmove\<close> is correct for every overlap of its arguments: the \<open>n\<close> bytes at the
  destination are the bytes the source held before the call, and no other byte changes.\<close>

theorem memmove_correct: "memmove m d s n = blit m d m s n"
  by (rule memmove_eq)

text \<open>\<^verbatim>\<open>strncmp\<close> decides the lexicographic order of the two C strings, each cut off
  after \<open>n\<close> bytes: it is zero exactly when they are equal and negative exactly when the
  first is smaller.\<close>

theorem strncmp_correct:
  "(strncmp m s1 s2 n = 0 \<longleftrightarrow> cstr m s1 n = cstr m s2 n) \<and>
   (strncmp m s1 s2 n < 0 \<longleftrightarrow> ord_class.lexordp (cstr m s1 n) (cstr m s2 n))"
  by (simp add: strncmp_def strncmp_loop_cmp_bytes cmp_bytes_eq_0 cmp_bytes_less_0 cstr_def)

text \<open>On disjoint buffers \<^verbatim>\<open>strncpy\<close> leaves in the destination exactly the source
  string, cut off after \<open>n\<close> bytes and padded with zero bytes up to \<open>n\<close>.\<close>

theorem strncpy_correct:
  assumes "d + n \<le> s \<or> s + n \<le> d"
  shows "region (strncpy m d s n) d n =
    cstr m s n @ replicate (n - length (cstr m s n)) 0"
proof (rule nth_equalityI)
  show "length (region (strncpy m d s n) d n) =
      length (cstr m s n @ replicate (n - length (cstr m s n)) 0)"
    using length_cstr_le [of m s n] by simp
  fix i assume "i < length (region (strncpy m d s n) d n)"
  then have "i < n" by simp
  then show "region (strncpy m d s n) d n ! i =
      (cstr m s n @ replicate (n - length (cstr m s n)) 0) ! i"
    using assms length_cstr_le [of m s n]
    by (simp add: strncpy_def strncpy_copy_eq memset_loop_eq Let_def nth_append nth_cstr)
qed

lemma strncpy_correct_witness:
  "region (strncpy (\<lambda>a. if a = 0 then 104 else if a = 1 then 105 else 0) 8 0 4) 8 4
     = [104, 105, 0, 0]"
proof -
  let ?m = "\<lambda>a::nat. if a = 0 then 104 else if a = 1 then 105 else (0 :: u8)"
  have src: "cstr ?m 0 4 = [104, 105]"
    by (simp add: cstr_def region_def upt_rec)
  have "region (strncpy ?m 8 0 4) 8 4 = cstr ?m 0 4 @ replicate (4 - length (cstr ?m 0 4)) 0"
    by (rule strncpy_correct) simp
  then show ?thesis unfolding src by (simp add: numeral_2_eq_2)
qed

end
