(* ===== verification/Bitmap.thy ===== *)
theory Bitmap
  imports Prelude
begin

text \<open>
  The bitmap of \<^verbatim>\<open>lib/bitmap.h\<close>: an array of 64-bit cells read and written one bit at a
  time. The interface \<open>bit_array\<close> says what an array of bits promises and is
  interpreted on these operations; the lemmas on the bits of an array of cells hold for
  any cell width and also serve the process-identifier pool, whose cells are bytes.
\<close>

section \<open>Operations\<close>

type_synonym BitmapCell = u64

definition BITMAP_BITS_PER_CELL :: nat where
  "BITMAP_BITS_PER_CELL = 64"

definition BITMAP_TO_NUM_CELLS :: "nat \<Rightarrow> nat" where
  "BITMAP_TO_NUM_CELLS sz = (sz + BITMAP_BITS_PER_CELL - 1) div BITMAP_BITS_PER_CELL"

definition BIT :: "nat \<Rightarrow> u64" where
  "BIT i = push_bit i 1"

definition bitmap_get :: "BitmapCell list \<Rightarrow> nat \<Rightarrow> bool outcome" where
  "bitmap_get bitmap index =
     (let idx = index div BITMAP_BITS_PER_CELL; offset = index mod BITMAP_BITS_PER_CELL
      in if idx < length bitmap then Ret (drop_bit offset (bitmap ! idx) AND 1 \<noteq> 0) else Undef)"

definition bitmap_set :: "BitmapCell list \<Rightarrow> nat \<Rightarrow> BitmapCell list outcome" where
  "bitmap_set bitmap index =
     (let idx = index div BITMAP_BITS_PER_CELL; offset = index mod BITMAP_BITS_PER_CELL
      in if idx < length bitmap then Ret (bitmap[idx := bitmap ! idx OR BIT offset]) else Undef)"

definition bitmap_clear :: "BitmapCell list \<Rightarrow> nat \<Rightarrow> BitmapCell list outcome" where
  "bitmap_clear bitmap index =
     (let idx = index div BITMAP_BITS_PER_CELL; offset = index mod BITMAP_BITS_PER_CELL
      in if idx < length bitmap then Ret (bitmap[idx := bitmap ! idx AND NOT (BIT offset)]) else Undef)"

section \<open>The interface of an array of bits\<close>

locale bit_array =
  fixes bits :: "'b \<Rightarrow> bool list"
    and get_bit :: "'b \<Rightarrow> nat \<Rightarrow> bool outcome"
    and set_bit_at :: "'b \<Rightarrow> nat \<Rightarrow> 'b outcome"
    and clear_bit_at :: "'b \<Rightarrow> nat \<Rightarrow> 'b outcome"
  assumes get_law: "i < length (bits b) \<Longrightarrow> get_bit b i = Ret (bits b ! i)"
    and set_law: "i < length (bits b) \<Longrightarrow>
      \<exists>b'. set_bit_at b i = Ret b' \<and> bits b' = (bits b)[i := True]"
    and clear_law: "i < length (bits b) \<Longrightarrow>
      \<exists>b'. clear_bit_at b i = Ret b' \<and> bits b' = (bits b)[i := False]"
begin

text \<open>The indices whose bit is set: what a bitmap stands for.\<close>

definition members :: "'b \<Rightarrow> nat set" where
  "members b = {i. i < length (bits b) \<and> bits b ! i}"

lemma finite_members [simp]: "finite (members b)"
  by (simp add: members_def)

lemma members_set:
  assumes "i < length (bits b)" and "set_bit_at b i = Ret b'"
  shows "members b' = insert i (members b)"
  using set_law [OF assms(1)] assms by (auto simp: members_def nth_list_update)

lemma members_clear:
  assumes "i < length (bits b)" and "clear_bit_at b i = Ret b'"
  shows "members b' = members b - {i}"
  using clear_law [OF assms(1)] assms by (auto simp: members_def nth_list_update split: if_splits)

lemma get_members:
  assumes "i < length (bits b)"
  shows "get_bit b i = Ret (i \<in> members b)"
  using get_law [OF assms] assms by (simp add: members_def)

lemma set_then_clear:
  assumes "i < length (bits b)" and "\<not> bits b ! i"
    and "set_bit_at b i = Ret b1" and "clear_bit_at b1 i = Ret b2"
  shows "bits b2 = bits b"
proof -
  from set_law [OF assms(1)] assms(3) have b1: "bits b1 = (bits b)[i := True]" by auto
  with assms(1) have "i < length (bits b1)" by simp
  from clear_law [OF this] assms(4) b1 have "bits b2 = (bits b)[i := False]" by auto
  with assms(2) show ?thesis by (metis (full_types) list_update_id)
qed

end

section \<open>Bits of an array of cells\<close>

definition cell_bits :: "'a::len word list \<Rightarrow> bool list" where
  "cell_bits cs =
     map (\<lambda>i. bit (cs ! (i div LENGTH('a))) (i mod LENGTH('a))) [0..<LENGTH('a) * length cs]"

lemma length_cell_bits [simp]: "length (cell_bits (cs :: 'a::len word list)) = LENGTH('a) * length cs"
  by (simp add: cell_bits_def)

lemma nth_cell_bits [simp]:
  "i < LENGTH('a) * length cs \<Longrightarrow>
   cell_bits (cs :: 'a::len word list) ! i = bit (cs ! (i div LENGTH('a))) (i mod LENGTH('a))"
  by (simp add: cell_bits_def)

lemma div_less_cells:
  "i < LENGTH('a) * length cs \<Longrightarrow> i div LENGTH('a) < length (cs :: 'a::len word list)"
  by (simp add: less_mult_imp_div_less mult.commute)

text \<open>
  Replacing one cell by a word that differs from it in one bit changes that one bit of
  the whole array.
\<close>

lemma cell_bits_update:
  fixes cs :: "'a::len word list"
  assumes i: "i < LENGTH('a) * length cs"
    and w: "\<And>k. k < LENGTH('a) \<Longrightarrow> bit w k =
      (if k = i mod LENGTH('a) then v else bit (cs ! (i div LENGTH('a))) k)"
  shows "cell_bits (cs[i div LENGTH('a) := w]) = (cell_bits cs)[i := v]"
proof (rule nth_equalityI)
  show "length (cell_bits (cs[i div LENGTH('a) := w])) = length ((cell_bits cs)[i := v])"
    by simp
  fix j assume "j < length (cell_bits (cs[i div LENGTH('a) := w]))"
  then have j: "j < LENGTH('a) * length cs" by simp
  have idx: "i div LENGTH('a) < length cs" using i by (rule div_less_cells)
  have same: "j = i" if "j div LENGTH('a) = i div LENGTH('a)" "j mod LENGTH('a) = i mod LENGTH('a)"
    using that by (metis div_mult_mod_eq)
  show "cell_bits (cs[i div LENGTH('a) := w]) ! j = (cell_bits cs)[i := v] ! j"
    using i j idx w [of "j mod LENGTH('a)"] same by (auto simp: nth_list_update)
qed

lemma bit_or_BIT: "bit (w OR BIT k) j \<longleftrightarrow> (j = k \<and> k < 64) \<or> bit w j"
  by (auto simp: BIT_def bit_simps)

lemma bit_and_not_BIT: "k < 64 \<Longrightarrow> bit (w AND NOT (BIT k)) j \<longleftrightarrow> j \<noteq> k \<and> bit w j"
  by (auto simp: BIT_def bit_simps dest: bit_imp_le_length)

lemma drop_bit_and_1: "drop_bit k w AND 1 \<noteq> 0 \<longleftrightarrow> bit (w :: 'a::len word) k"
  by (simp add: and_one_eq bit_iff_odd_drop_bit odd_iff_mod_2_eq_one)

interpretation bitmap64: bit_array cell_bits bitmap_get bitmap_set bitmap_clear
proof
  fix i :: nat and b :: "BitmapCell list"
  assume i: "i < length (cell_bits b)"
  then have i': "i < 64 * length b" and idx: "i div 64 < length b" by auto
  show "bitmap_get b i = Ret (cell_bits b ! i)"
    using i idx by (simp add: bitmap_get_def BITMAP_BITS_PER_CELL_def drop_bit_and_1)
  have "cell_bits (b[i div 64 := b ! (i div 64) OR BIT (i mod 64)]) = (cell_bits b)[i := True]"
    using i' cell_bits_update [of i b "b ! (i div 64) OR BIT (i mod 64)" True]
    by (simp add: bit_or_BIT if_distrib cong: if_cong)
  with idx show "\<exists>b'. bitmap_set b i = Ret b' \<and> cell_bits b' = (cell_bits b)[i := True]"
    by (simp add: bitmap_set_def BITMAP_BITS_PER_CELL_def Let_def)
  have "cell_bits (b[i div 64 := b ! (i div 64) AND NOT (BIT (i mod 64))]) = (cell_bits b)[i := False]"
    using i' cell_bits_update [of i b "b ! (i div 64) AND NOT (BIT (i mod 64))" False]
    by (simp add: bit_and_not_BIT if_distrib cong: if_cong)
  with idx show "\<exists>b'. bitmap_clear b i = Ret b' \<and> cell_bits b' = (cell_bits b)[i := False]"
    by (simp add: bitmap_clear_def BITMAP_BITS_PER_CELL_def Let_def)
qed

lemma bitmap_set_length: "bitmap_set b i = Ret b' \<Longrightarrow> length b' = length b"
  by (auto simp: bitmap_set_def Let_def split: if_splits)

lemma bitmap_clear_length: "bitmap_clear b i = Ret b' \<Longrightarrow> length b' = length b"
  by (auto simp: bitmap_clear_def Let_def split: if_splits)

end
