(* ===== verification/Pid.thy ===== *)
theory Pid
  imports Bitmap
begin

text \<open>
  The process-identifier pool of \<^verbatim>\<open>proc/pid.c\<close>: a bitmap of 8-bit cells and the cell at
  which the search for a free identifier starts. The pool is shown to hand out only
  free identifiers and to fail only when all are in use.
\<close>

section \<open>State and operations\<close>

definition PID_POOL_SIZE :: nat where
  "PID_POOL_SIZE = 2 ^ 20"

record pid_pool =
  bm :: "u8 list"
  window :: nat

text \<open>
  The \<^verbatim>\<open>while\<close> loop of \<^verbatim>\<open>alloc_pid\<close>: advance the window past full cells; \<open>None\<close> when it
  has come back to where it started. A window outside the pool reads out of bounds.
\<close>

function scan_window :: "u8 list \<Rightarrow> nat \<Rightarrow> nat \<Rightarrow> nat option outcome" where
  "scan_window cells old w =
     (if \<not> (w < PID_POOL_SIZE \<and> old < PID_POOL_SIZE \<and> length cells = PID_POOL_SIZE) then Undef
      else if cells ! w = 0xFF then
        (let w' = (if Suc w = PID_POOL_SIZE then 0 else Suc w)
         in if w' = old then Ret None else scan_window cells old w')
      else Ret (Some w))"
  by pat_completeness auto
termination
  by (relation "measure (\<lambda>(cells, old, w).
        if w < old then old - w else PID_POOL_SIZE - w + old)") auto

text \<open>The \<^verbatim>\<open>for\<close> loop over the eight bits of a cell.\<close>

function free_bit :: "u8 \<Rightarrow> nat \<Rightarrow> nat option" where
  "free_bit c i =
     (if i < 8 then
        (if (c XOR push_bit i 1) AND push_bit i 1 \<noteq> 0 then Some i else free_bit c (Suc i))
      else None)"
  by pat_completeness auto
termination
  by (relation "measure (\<lambda>(c, i). 8 - i)") auto

definition alloc_pid :: "pid_pool \<Rightarrow> (int \<times> pid_pool) outcome" where
  "alloc_pid p =
     andthen (scan_window (bm p) (window p) (window p)) (\<lambda>r. case r of
       None \<Rightarrow> Ret (-1, p)
     | Some w \<Rightarrow>
         (case free_bit (bm p ! w) 0 of
            Some i \<Rightarrow>
              Ret (int (w * 8 + i),
                   p\<lparr>bm := (bm p)[w := bm p ! w OR push_bit i 1], window := w\<rparr>)
          | None \<Rightarrow> Ret (-1, p\<lparr>window := w\<rparr>)))"

text \<open>
  A negative \<^verbatim>\<open>pid\<close> gives, after the conversion to \<^verbatim>\<open>u32\<close>, an index far outside the pool.
\<close>

definition free_pid :: "pid_pool \<Rightarrow> int \<Rightarrow> pid_pool outcome" where
  "free_pid p pid =
     (if 0 \<le> pid \<and> nat pid div 8 < length (bm p) then
        (let index = nat pid div 8; offset = nat pid mod 8
         in Ret (p\<lparr>bm := (bm p)[index := bm p ! index AND NOT (push_bit offset 1)]\<rparr>))
      else Undef)"

text \<open>The pool starts zeroed in the BSS segment; initialisation takes identifier 0.\<close>

definition bss_pool :: pid_pool where
  "bss_pool = \<lparr>bm = replicate PID_POOL_SIZE 0, window = 0\<rparr>"

definition init_pid :: "pid_pool \<Rightarrow> pid_pool outcome" where
  "init_pid p =
     andthen (alloc_pid (p\<lparr>window := 0\<rparr>)) (\<lambda>(r, p1).
     andthen (ASSERT (r = 0)) (\<lambda>_. Ret p1))"

declare scan_window.simps [simp del] free_bit.simps [simp del]

section \<open>Invariant and abstraction\<close>

definition pool_ok :: "pid_pool \<Rightarrow> bool" where
  "pool_ok p \<longleftrightarrow> length (bm p) = PID_POOL_SIZE \<and> window p < PID_POOL_SIZE"

text \<open>The identifiers in use.\<close>

definition allocated :: "pid_pool \<Rightarrow> nat set" where
  "allocated p = {i. i < 8 * length (bm p) \<and> cell_bits (bm p) ! i}"

lemma allocated_iff:
  "i \<in> allocated p \<longleftrightarrow> i < 8 * length (bm p) \<and> bit (bm p ! (i div 8)) (i mod 8)"
  by (auto simp: allocated_def)

lemma pool_size_pos [simp]: "0 < PID_POOL_SIZE"
  by (simp add: PID_POOL_SIZE_def)

lemma push_bit_test: "i < 8 \<Longrightarrow> ((c :: u8) XOR push_bit i 1) AND push_bit i 1 \<noteq> 0 \<longleftrightarrow> \<not> bit c i"
proof -
  assume i: "i < 8"
  have "((c XOR push_bit i 1) AND push_bit i 1) = (if bit c i then 0 else push_bit i 1)"
    using i by (auto intro!: bit_word_eqI simp: bit_simps)
  then show ?thesis using i by (simp add: push_bit_eq_mult)
qed

lemma free_bit_step:
  "free_bit c i = (if i < 8 then if bit c i then free_bit c (Suc i) else Some i else None)"
proof (cases "i < 8")
  case True
  then show ?thesis
    by (cases "bit c i") (simp_all only: free_bit.simps [of c i] push_bit_test if_True if_False simp_thms)
next
  case False
  then show ?thesis by (simp only: free_bit.simps [of c i] if_False)
qed

lemma free_bit_Some:
  "free_bit c i = Some k \<Longrightarrow> i \<le> k \<and> k < 8 \<and> \<not> bit c k"
proof (induction "8 - i" arbitrary: i)
  case 0
  then show ?case by (simp add: free_bit_step [of c i])
next
  case (Suc d)
  from Suc.hyps(2) have d: "d = 8 - Suc i" by simp
  from Suc.hyps(1) [OF d] Suc.prems free_bit_step [of c i] show ?case
    by (auto split: if_splits)
qed

lemma free_bit_None:
  "free_bit c i = None \<Longrightarrow> i \<le> k \<Longrightarrow> k < 8 \<Longrightarrow> bit c k"
proof (induction "8 - i" arbitrary: i)
  case 0
  then show ?case by simp
next
  case (Suc d)
  from Suc.hyps(2) have d: "d = 8 - Suc i" by simp
  from Suc.hyps(1) [OF d] Suc.prems free_bit_step [of c i] show ?case
    by (cases "i = k") (auto split: if_splits)
qed

lemma free_bit_not_full: "c \<noteq> 0xFF \<Longrightarrow> \<exists>i. free_bit c 0 = Some i"
proof (cases "free_bit c 0")
  case None
  then have "\<And>k. k < 8 \<Longrightarrow> bit c k" using free_bit_None by blast
  then have "c = -1" by (auto intro!: bit_word_eqI simp: bit_simps)
  moreover assume "c \<noteq> 0xFF"
  ultimately show ?thesis by simp
qed simp

text \<open>
  The scan always returns: a cell that is not full, or \<open>None\<close> when every cell on the way
  round from \<open>w\<close> to \<open>old\<close> is full.
\<close>

definition between :: "nat \<Rightarrow> nat \<Rightarrow> nat set" where
  "between w old = (if w < old then {w..<old} else {w..<PID_POOL_SIZE} \<union> {0..<old})"

lemma scan_window_result:
  assumes "w < PID_POOL_SIZE" and "old < PID_POOL_SIZE" and "length cells = PID_POOL_SIZE"
  shows "\<exists>r. scan_window cells old w = Ret r \<and>
    (case r of None \<Rightarrow> (\<forall>k \<in> between w old. cells ! k = 0xFF)
     | Some v \<Rightarrow> v < PID_POOL_SIZE \<and> cells ! v \<noteq> 0xFF)"
  using assms
proof (induction cells old w rule: scan_window.induct)
  case (1 cells old w)
  define w' where "w' = (if Suc w = PID_POOL_SIZE then 0 else Suc w)"
  have w': "w' < PID_POOL_SIZE" using "1.prems"(1) by (auto simp: w'_def)
  have step: "scan_window cells old w =
      (if cells ! w = 0xFF then if w' = old then Ret None else scan_window cells old w'
       else Ret (Some w))"
    using "1.prems" by (simp add: scan_window.simps [of cells old w] w'_def Let_def)
  show ?case
  proof (cases "cells ! w = 0xFF")
    case False
    with step "1.prems" show ?thesis by simp
  next
    case full: True
    show ?thesis
    proof (cases "w' = old")
      case True
      then have "between w old \<subseteq> {w}"
        using "1.prems" by (auto simp: between_def w'_def split: if_splits)
      then show ?thesis using step full True by auto
    next
      case False
      with "1.IH" "1.prems" w' full
      obtain r where r: "scan_window cells old w' = Ret r"
        "case r of None \<Rightarrow> (\<forall>k \<in> between w' old. cells ! k = 0xFF)
         | Some v \<Rightarrow> v < PID_POOL_SIZE \<and> cells ! v \<noteq> 0xFF"
        unfolding w'_def by auto
      have "between w old \<subseteq> insert w (between w' old)"
        using "1.prems" False by (auto simp: between_def w'_def split: if_splits)
      with step full False r show ?thesis by (auto split: option.splits)
    qed
  qed
qed

lemma allocated_full_cell:
  assumes "length (bm p) = PID_POOL_SIZE" and "\<forall>k<PID_POOL_SIZE. bm p ! k = 0xFF"
  shows "allocated p = {..<8 * PID_POOL_SIZE}"
proof -
  have "bit (0xFF :: u8) k" if "k < 8" for k
  proof -
    have "(0xFF :: u8) = -1" by simp
    with that show ?thesis by (metis bit_minus_1_iff len_num0 len_bit0 len_num1 mult_2
        numeral_Bit0 possible_bit_word one_add_one)
  qed
  then show ?thesis using assms by (auto simp: allocated_iff)
qed

lemma allocated_set:
  assumes "w < length (bm p)" and "i < 8"
  shows "allocated (p\<lparr>bm := (bm p)[w := bm p ! w OR push_bit i 1], window := v\<rparr>) =
    insert (w * 8 + i) (allocated p)"
proof -
  have "cell_bits ((bm p)[(w * 8 + i) div 8 := bm p ! w OR push_bit i 1]) =
      (cell_bits (bm p))[w * 8 + i := True]"
    using assms cell_bits_update [of "w * 8 + i" "bm p" "bm p ! w OR push_bit i 1" True]
    by (simp add: bit_simps if_distrib cong: if_cong)
  with assms show ?thesis by (auto simp: allocated_def nth_list_update)
qed

lemma allocated_clear:
  assumes "i div 8 < length (bm p)"
  shows "allocated (p\<lparr>bm := (bm p)[i div 8 := bm p ! (i div 8) AND NOT (push_bit (i mod 8) 1)]\<rparr>) =
    allocated p - {i}"
proof -
  have i: "i < 8 * length (bm p)" using assms by (simp add: div_less_iff_less_mult mult.commute)
  have "cell_bits ((bm p)[i div 8 := bm p ! (i div 8) AND NOT (push_bit (i mod 8) 1)]) =
      (cell_bits (bm p))[i := False]"
    using i cell_bits_update [of i "bm p" "bm p ! (i div 8) AND NOT (push_bit (i mod 8) 1)" False]
    by (simp add: bit_simps if_distrib cong: if_cong)
  with i show ?thesis by (auto simp: allocated_def nth_list_update split: if_splits)
qed

lemma alloc_pid_result:
  assumes "pool_ok p"
  shows "\<exists>r p'. alloc_pid p = Ret (r, p') \<and> pool_ok p' \<and>
    (if allocated p = {..<8 * PID_POOL_SIZE} then r = -1 \<and> bm p' = bm p
     else \<exists>i. r = int i \<and> i < 8 * PID_POOL_SIZE \<and> i \<notin> allocated p \<and>
       allocated p' = insert i (allocated p))"
proof -
  from assms have len: "length (bm p) = PID_POOL_SIZE" and w: "window p < PID_POOL_SIZE"
    by (auto simp: pool_ok_def)
  obtain r where r: "scan_window (bm p) (window p) (window p) = Ret r"
    "case r of None \<Rightarrow> (\<forall>k \<in> between (window p) (window p). bm p ! k = 0xFF)
     | Some v \<Rightarrow> v < PID_POOL_SIZE \<and> bm p ! v \<noteq> 0xFF"
    using scan_window_result [OF w w len] by blast
  show ?thesis
  proof (cases r)
    case None
    have "k \<in> between (window p) (window p)" if "k < PID_POOL_SIZE" for k
      using that by (auto simp: between_def)
    with None r(2) have "\<forall>k<PID_POOL_SIZE. bm p ! k = 0xFF" by simp
    with len have "allocated p = {..<8 * PID_POOL_SIZE}" by (rule allocated_full_cell)
    with None r(1) assms show ?thesis by (simp add: alloc_pid_def)
  next
    case (Some v)
    with r(2) have v: "v < PID_POOL_SIZE" and nf: "bm p ! v \<noteq> 0xFF" by auto
    obtain i where fb: "free_bit (bm p ! v) 0 = Some i" using free_bit_not_full [OF nf] by blast
    then have i: "i < 8" "\<not> bit (bm p ! v) i" using free_bit_Some by blast+
    have free: "v * 8 + i \<notin> allocated p" and lt: "v * 8 + i < 8 * PID_POOL_SIZE"
      using i v len by (auto simp: allocated_iff)
    then have "allocated p \<noteq> {..<8 * PID_POOL_SIZE}" by auto
    moreover have "alloc_pid p = Ret (int (v * 8 + i),
        p\<lparr>bm := (bm p)[v := bm p ! v OR push_bit i 1], window := v\<rparr>)"
      using r(1) Some fb by (simp add: alloc_pid_def)
    moreover have "pool_ok (p\<lparr>bm := (bm p)[v := bm p ! v OR push_bit i 1], window := v\<rparr>)"
      using len v by (simp add: pool_ok_def)
    moreover have "allocated (p\<lparr>bm := (bm p)[v := bm p ! v OR push_bit i 1], window := v\<rparr>) =
        insert (v * 8 + i) (allocated p)"
      using len v i by (intro allocated_set) simp_all
    ultimately show ?thesis using free lt by (metis (no_types, lifting))
  qed
qed

section \<open>Properties\<close>

text \<open>C32: \<^verbatim>\<open>alloc_pid\<close> always returns and keeps the pool well formed. It returns -1 only when
  every identifier is in use, and otherwise an identifier that was free, which becomes
  the only change to the set of identifiers in use.\<close>

theorem alloc_pid_correct:
  assumes "pool_ok p"
  shows "\<exists>r p'. alloc_pid p = Ret (r, p') \<and> pool_ok p' \<and>
    (if allocated p = {..<8 * PID_POOL_SIZE} then r = -1 \<and> bm p' = bm p
     else \<exists>i. r = int i \<and> i < 8 * PID_POOL_SIZE \<and> i \<notin> allocated p \<and>
       allocated p' = insert i (allocated p))"
  using assms by (rule alloc_pid_result)

lemma alloc_pid_correct_witness:
  "\<exists>i p'. alloc_pid bss_pool = Ret (int i, p') \<and> allocated p' = {i}"
proof -
  have ok: "pool_ok bss_pool" by (simp add: pool_ok_def bss_pool_def)
  have "allocated bss_pool = {}"
    by (auto simp: allocated_iff bss_pool_def less_mult_imp_div_less mult.commute)
  moreover have "{..<8 * PID_POOL_SIZE} \<noteq> {}" by (simp add: lessThan_empty_iff)
  ultimately show ?thesis using alloc_pid_correct [OF ok] by force
qed

text \<open>Freeing an identifier removes exactly that identifier from the set in use, so
  freeing a freshly allocated identifier restores the set.\<close>

theorem alloc_free_pid:
  assumes "pool_ok p" and "alloc_pid p = Ret (r, p1)" and "r \<noteq> -1"
  shows "\<exists>p2. free_pid p1 r = Ret p2 \<and> pool_ok p2 \<and> allocated p2 = allocated p"
proof -
  obtain i where i: "r = int i" "i < 8 * PID_POOL_SIZE" "i \<notin> allocated p"
      "allocated p1 = insert i (allocated p)" and ok: "pool_ok p1"
    using alloc_pid_result [OF assms(1)] assms(2,3) by (auto split: if_splits)
  then have "i div 8 < length (bm p1)" by (simp add: pool_ok_def less_mult_imp_div_less mult.commute)
  then show ?thesis
    using i ok allocated_clear [of i p1] by (auto simp: free_pid_def Let_def pool_ok_def)
qed

lemma alloc_free_pid_witness:
  "\<exists>r p1 p2. alloc_pid bss_pool = Ret (r, p1) \<and> free_pid p1 r = Ret p2 \<and>
    allocated p2 = allocated bss_pool"
proof -
  have "bss_pool\<lparr>window := 0\<rparr> = bss_pool" by (simp add: bss_pool_def)
  have fb: "free_bit 0 0 = Some 0" by (simp add: free_bit_step)
  have sw: "scan_window (bm bss_pool) 0 0 = Ret (Some 0)"
    by (simp add: scan_window.simps bss_pool_def)
  obtain p1 where p1: "alloc_pid bss_pool = Ret (0, p1)"
    using sw fb by (simp add: alloc_pid_def bss_pool_def)
  moreover have "pool_ok bss_pool" by (simp add: pool_ok_def bss_pool_def)
  ultimately show ?thesis using alloc_free_pid [of bss_pool 0 p1] by auto
qed

text \<open>The assertion of the pool's initialisation holds: on the zeroed pool the first
  identifier handed out is 0, and it is the only one in use afterwards.\<close>

theorem init_pid_takes_zero:
  "\<exists>p. init_pid bss_pool = Ret p \<and> pool_ok p \<and> allocated p = {0}"
proof -
  have fb: "free_bit 0 0 = Some 0" by (simp add: free_bit_step)
  have sw: "scan_window (bm bss_pool) 0 0 = Ret (Some 0)"
    by (simp add: scan_window.simps bss_pool_def)
  have none: "allocated bss_pool = {}"
    by (auto simp: allocated_iff bss_pool_def less_mult_imp_div_less mult.commute)
  have "init_pid bss_pool =
      Ret (bss_pool\<lparr>bm := (bm bss_pool)[0 := bm bss_pool ! 0 OR push_bit 0 1], window := 0\<rparr>)"
    using sw fb by (simp add: init_pid_def alloc_pid_def bss_pool_def)
  moreover have "allocated (bss_pool\<lparr>bm := (bm bss_pool)[0 := bm bss_pool ! 0 OR push_bit 0 1],
      window := 0\<rparr>) = insert (0 * 8 + 0) (allocated bss_pool)"
    by (rule allocated_set) (simp_all add: bss_pool_def)
  ultimately show ?thesis using none by (simp add: pool_ok_def bss_pool_def)
qed

end
