(* ===== verification/Clist.thy ===== *)
theory Clist
  imports Prelude
begin

text \<open>
  The intrusive circular lists and queues of \<^verbatim>\<open>lib/list.c\<close> and \<^verbatim>\<open>lib/list.h\<close>. Nodes are
  addresses, address 0 is \<^verbatim>\<open>NULL\<close>, and the two pointer fields of all nodes form the heap.
  A \<^verbatim>\<open>struct list\<close> stands for the sequence of its nodes from the head on; every operation
  is shown to act on that sequence as the corresponding list function, and to leave
  every other node of the heap alone. Sizes are natural numbers: only the decrement of a
  size that is 0 shows the wrap-around of \<^verbatim>\<open>usize\<close>.
\<close>

section \<open>Nodes\<close>

type_synonym ptr = nat

abbreviation NULL :: ptr where "NULL \<equiv> 0"

record lheap =
  nxt :: "ptr \<Rightarrow> ptr"
  prv :: "ptr \<Rightarrow> ptr"

definition set_nxt :: "ptr \<Rightarrow> ptr \<Rightarrow> lheap \<Rightarrow> lheap outcome" where
  "set_nxt p v h = (if p = NULL then Undef else Ret (h\<lparr>nxt := (nxt h)(p := v)\<rparr>))"

definition set_prv :: "ptr \<Rightarrow> ptr \<Rightarrow> lheap \<Rightarrow> lheap outcome" where
  "set_prv p v h = (if p = NULL then Undef else Ret (h\<lparr>prv := (prv h)(p := v)\<rparr>))"

definition get_nxt :: "ptr \<Rightarrow> lheap \<Rightarrow> ptr outcome" where
  "get_nxt p h = (if p = NULL then Undef else Ret (nxt h p))"

definition get_prv :: "ptr \<Rightarrow> lheap \<Rightarrow> ptr outcome" where
  "get_prv p h = (if p = NULL then Undef else Ret (prv h p))"

definition init_list_node :: "ptr \<Rightarrow> lheap \<Rightarrow> lheap outcome" where
  "init_list_node node h = andthen (set_prv node node h) (set_nxt node node)"

definition merge_list :: "ptr \<Rightarrow> ptr \<Rightarrow> lheap \<Rightarrow> (ptr \<times> lheap) outcome" where
  "merge_list node1 node2 h =
     (if node1 = NULL then Ret (node2, h)
      else if node2 = NULL then Ret (node1, h)
      else
        andthen (get_nxt node1 h) (\<lambda>node3.
        andthen (get_prv node2 h) (\<lambda>node4.
        andthen (set_nxt node1 node2 h) (\<lambda>h1.
        andthen (set_prv node2 node1 h1) (\<lambda>h2.
        andthen (set_nxt node4 node3 h2) (\<lambda>h3.
        andthen (set_prv node3 node4 h3) (\<lambda>h4.
        Ret (node1, h4))))))))"

definition insert_into_list :: "ptr \<Rightarrow> ptr \<Rightarrow> lheap \<Rightarrow> (ptr \<times> lheap) outcome" where
  "insert_into_list lst node h =
     andthen (init_list_node node h) (merge_list lst node)"

definition detach_from_list :: "ptr \<Rightarrow> lheap \<Rightarrow> (ptr \<times> lheap) outcome" where
  "detach_from_list node h =
     andthen (get_prv node h) (\<lambda>prev.
     andthen (get_nxt node h) (\<lambda>next.
     andthen (set_nxt prev next h) (\<lambda>h1.
     andthen (get_nxt node h1) (\<lambda>next1.
     andthen (get_prv node h1) (\<lambda>prev1.
     andthen (set_prv next1 prev1 h1) (\<lambda>h2.
     andthen (init_list_node node h2) (\<lambda>h3.
     Ret (if prev = node then NULL else prev, h3))))))))"

definition empty_list :: "ptr \<Rightarrow> lheap \<Rightarrow> bool outcome" where
  "empty_list lst h = andthen (get_nxt lst h) (\<lambda>n. Ret (n = lst))"

section \<open>Queues\<close>

record queue =
  q_begin :: ptr
  q_end :: ptr
  q_size :: int

definition queue_init :: queue where
  "queue_init = \<lparr>q_begin = NULL, q_end = NULL, q_size = 0\<rparr>"

definition queue_push :: "queue \<Rightarrow> ptr \<Rightarrow> lheap \<Rightarrow> (queue \<times> lheap) outcome" where
  "queue_push x item h =
     andthen (init_list_node item h) (\<lambda>h1.
     andthen
       (if q_size x = 0 then Ret (x\<lparr>q_begin := item, q_end := item\<rparr>, h1)
        else andthen (merge_list (q_end x) item h1) (\<lambda>(_, h2). Ret (x\<lparr>q_end := item\<rparr>, h2)))
       (\<lambda>(x1, h2). Ret (x1\<lparr>q_size := q_size x1 + 1\<rparr>, h2)))"

definition queue_pop :: "queue \<Rightarrow> lheap \<Rightarrow> (queue \<times> lheap) outcome" where
  "queue_pop x h =
     (if q_size x = 0 then Panic
      else
        andthen
          (if q_size x = 1 then Ret (x\<lparr>q_begin := NULL, q_end := NULL\<rparr>, h)
           else
             andthen (get_nxt (q_begin x) h) (\<lambda>b.
             andthen (detach_from_list (q_begin x) h) (\<lambda>(_, h1).
             Ret (x\<lparr>q_begin := b\<rparr>, h1))))
          (\<lambda>(x1, h1). Ret (x1\<lparr>q_size := q_size x1 - 1\<rparr>, h1)))"

text \<open>A null queue pointer cannot occur in the model; a null front panics.\<close>

definition queue_front :: "queue \<Rightarrow> ptr outcome" where
  "queue_front x = (if q_begin x = NULL then Panic else Ret (q_begin x))"

definition queue_empty :: "queue \<Rightarrow> bool" where
  "queue_empty x \<longleftrightarrow> q_size x = 0"

section \<open>Lists\<close>

record klist =
  head :: ptr
  lsize :: nat

definition size_dec :: "nat \<Rightarrow> nat" where
  "size_dec n = (if n = 0 then 2 ^ 64 - 1 else n - 1)"

definition list_init :: klist where
  "list_init = \<lparr>head = NULL, lsize = 0\<rparr>"

definition list_insert :: "klist \<Rightarrow> ptr \<Rightarrow> ptr \<Rightarrow> lheap \<Rightarrow> (klist \<times> lheap) outcome" where
  "list_insert l item target h =
     andthen (ASSERT (target \<noteq> NULL)) (\<lambda>_.
     andthen (get_prv target h) (\<lambda>p.
     andthen (ASSERT (p \<noteq> NULL)) (\<lambda>_.
     andthen (get_nxt p h) (\<lambda>n.
     andthen (ASSERT (n \<noteq> NULL)) (\<lambda>_.
     andthen (init_list_node item h) (\<lambda>h1.
     andthen
       (if lsize l = 0 then Ret (l\<lparr>head := item\<rparr>, h1)
        else
          andthen (get_prv target h1) (\<lambda>p1.
          andthen (set_nxt p1 item h1) (\<lambda>h2.
          andthen (set_prv item p1 h2) (\<lambda>h3.
          andthen (set_nxt item target h3) (\<lambda>h4.
          andthen (set_prv target item h4) (\<lambda>h5.
          Ret (l, h5)))))))
       (\<lambda>(l1, h6). Ret (l1\<lparr>lsize := lsize l1 + 1\<rparr>, h6))))))))"

definition list_remove :: "klist \<Rightarrow> ptr \<Rightarrow> lheap \<Rightarrow> (klist \<times> lheap) outcome" where
  "list_remove l item h =
     andthen (get_prv item h) (\<lambda>p.
     andthen (ASSERT (p \<noteq> NULL)) (\<lambda>_.
     andthen (get_nxt item h) (\<lambda>n.
     andthen (ASSERT (n \<noteq> NULL)) (\<lambda>_.
     if lsize l = 1 then
       (if item \<noteq> head l then Ret (l, h) else Ret (\<lparr>head = NULL, lsize = 0\<rparr>, h))
     else
       andthen
         (if item = head l then
            andthen (get_nxt (head l) h) (\<lambda>hn.
            andthen (ASSERT (hn \<noteq> head l)) (\<lambda>_.
            Ret (l\<lparr>head := hn\<rparr>)))
          else Ret l)
         (\<lambda>l1.
       andthen (detach_from_list item h) (\<lambda>(_, h1).
       Ret (l1\<lparr>lsize := size_dec (lsize l1)\<rparr>, h1)))))))"

definition list_push_head :: "klist \<Rightarrow> ptr \<Rightarrow> lheap \<Rightarrow> (klist \<times> lheap) outcome" where
  "list_push_head l item h =
     andthen (ASSERT (head l \<noteq> NULL)) (\<lambda>_.
     andthen (ASSERT (item \<noteq> NULL)) (\<lambda>_.
     andthen (init_list_node item h) (\<lambda>h1.
     andthen (list_insert l item (head l) h1) (\<lambda>(l1, h2).
     Ret (l1\<lparr>head := item\<rparr>, h2)))))"

definition list_push_back :: "klist \<Rightarrow> ptr \<Rightarrow> lheap \<Rightarrow> (klist \<times> lheap) outcome" where
  "list_push_back l item h =
     andthen (init_list_node item h) (\<lambda>h1.
     if head l = NULL then Ret (\<lparr>head = item, lsize = lsize l + 1\<rparr>, h1)
     else list_insert l item (head l) h1)"

definition list_pop_head :: "klist \<Rightarrow> lheap \<Rightarrow> (klist \<times> lheap) outcome" where
  "list_pop_head l h = list_remove l (head l) h"

definition list_pop_back :: "klist \<Rightarrow> lheap \<Rightarrow> (klist \<times> lheap) outcome" where
  "list_pop_back l h = andthen (get_prv (head l) h) (\<lambda>p. list_remove l p h)"

text \<open>
  The nodes \<^verbatim>\<open>list_forall\<close> visits when its body leaves the list alone: from the successor
  of the head round to the head itself. A list that never comes back to its head is not
  finished with any fuel.
\<close>

primrec forall_from :: "nat \<Rightarrow> lheap \<Rightarrow> ptr \<Rightarrow> ptr \<Rightarrow> ptr list option" where
  "forall_from 0 h flag p = None"
| "forall_from (Suc fuel) h flag p =
     (if p = NULL then Some []
      else if p = flag then Some [p]
      else map_option (Cons p) (forall_from fuel h flag (nxt h p)))"

definition list_forall :: "nat \<Rightarrow> klist \<Rightarrow> lheap \<Rightarrow> ptr list option" where
  "list_forall fuel l h =
     forall_from fuel h (head l) (if head l = NULL then NULL else nxt h (head l))"

section \<open>Heap segments and circular lists\<close>

named_theorems node_simps

lemmas node_ops [node_simps] = set_nxt_def set_prv_def get_nxt_def get_prv_def init_list_node_def

text \<open>Make \<open>b\<close> the successor of \<open>a\<close>, in both pointer fields.\<close>

definition link :: "ptr \<Rightarrow> ptr \<Rightarrow> lheap \<Rightarrow> lheap" where
  "link a b h = h\<lparr>nxt := (nxt h)(a := b), prv := (prv h)(b := a)\<rparr>"

text \<open>\<open>seg h xs\<close>: consecutive nodes of \<open>xs\<close> point at each other.\<close>

fun seg :: "lheap \<Rightarrow> ptr list \<Rightarrow> bool" where
  "seg h (x # y # zs) \<longleftrightarrow> nxt h x = y \<and> prv h y = x \<and> seg h (y # zs)"
| "seg h _ \<longleftrightarrow> True"

lemma seg_append: "seg h (xs @ y # ys) \<longleftrightarrow> seg h (xs @ [y]) \<and> seg h (y # ys)"
  by (induction h xs rule: seg.induct) auto

lemma seg_frame:
  assumes "\<And>x. x \<in> set (butlast xs) \<Longrightarrow> nxt h' x = nxt h x"
    and "\<And>x. x \<in> set (tl xs) \<Longrightarrow> prv h' x = prv h x"
  shows "seg h' xs \<longleftrightarrow> seg h xs"
  using assms
proof (induction h xs rule: seg.induct)
  case (1 h x y zs)
  have "seg h' (y # zs) \<longleftrightarrow> seg h (y # zs)"
    by (rule "1.IH") (simp_all add: "1.prems")
  moreover have "nxt h' x = nxt h x" "prv h' y = prv h y"
    by (simp_all add: "1.prems")
  ultimately show ?case by simp
qed simp_all

definition circ :: "lheap \<Rightarrow> ptr list \<Rightarrow> bool" where
  "circ h xs \<longleftrightarrow> xs \<noteq> [] \<and> distinct xs \<and> NULL \<notin> set xs \<and> seg h (xs @ [hd xs])"

lemma circ_single: "circ h [x] \<longleftrightarrow> x \<noteq> NULL \<and> nxt h x = x \<and> prv h x = x"
  by (auto simp: circ_def)

lemma circ_rotate: "circ h (x # xs) \<longleftrightarrow> circ h (xs @ [x])"
proof (cases xs)
  case Nil
  then show ?thesis by simp
next
  case (Cons y ys)
  have "seg h (y # ys @ [x, y]) \<longleftrightarrow> seg h (y # ys @ [x]) \<and> nxt h x = y \<and> prv h y = x"
    using seg_append [of h "y # ys" x "[y]"] by simp
  then show ?thesis by (auto simp: circ_def Cons)
qed

lemma circ_rotate_any: "circ h (xs @ ys) \<longleftrightarrow> circ h (ys @ xs)"
proof (induction xs arbitrary: ys)
  case Nil
  then show ?case by simp
next
  case (Cons x xs)
  have "circ h ((x # xs) @ ys) \<longleftrightarrow> circ h (xs @ (ys @ [x]))"
    using circ_rotate [of h x "xs @ ys"] by simp
  also have "\<dots> \<longleftrightarrow> circ h ((ys @ [x]) @ xs)" by (rule Cons.IH)
  finally show ?case by simp
qed

lemma circ_nonnull: "circ h xs \<Longrightarrow> x \<in> set xs \<Longrightarrow> x \<noteq> NULL"
  by (metis circ_def)

text \<open>Where the neighbours of a node are.\<close>

lemma circ_neighbours:
  assumes "circ h (xs @ x # ys)"
  shows "nxt h x = hd (ys @ xs @ [x])" and "prv h x = last (x # ys @ xs)"
proof -
  from assms have c: "circ h (x # ys @ xs)"
    using circ_rotate_any [of h xs "x # ys"] by simp
  show "nxt h x = hd (ys @ xs @ [x])"
  proof (cases "ys @ xs")
    case Nil
    with c show ?thesis by (simp add: circ_def)
  next
    case (Cons z zs)
    then have "hd (ys @ xs @ [x]) = z" by (metis append_assoc append_Cons list.sel(1))
    moreover from c Cons have "nxt h x = z" by (simp add: circ_def)
    ultimately show ?thesis by simp
  qed
  show "prv h x = last (x # ys @ xs)"
  proof (cases "ys @ xs" rule: rev_cases)
    case Nil
    with c show ?thesis by (simp add: circ_def)
  next
    case (snoc zs z)
    with c have "seg h ((x # zs) @ z # [x])" by (simp add: circ_def)
    then have "seg h (z # [x])" by (rule seg_append [THEN iffD1, THEN conjunct2])
    with snoc show ?thesis by simp
  qed
qed

lemma last_notin_butlast: "distinct xs \<Longrightarrow> xs \<noteq> [] \<Longrightarrow> last xs \<notin> set (butlast xs)"
  by (cases xs rule: rev_cases) simp_all

lemma append_butlast_last_snoc: "xs \<noteq> [] \<Longrightarrow> butlast xs @ last xs # ys = xs @ ys"
  by (cases xs rule: rev_cases) simp_all

text \<open>
  Linking a new node between the last node and the first, and unlinking a node, seen on
  the sequence.
\<close>

lemma circ_insert:
  assumes c: "circ h xs" and x: "x \<notin> set xs" "x \<noteq> NULL"
  shows "circ (link x (hd xs) (link (last xs) x h)) (xs @ [x])"
proof -
  obtain y ys where xs: "xs = y # ys" using c by (cases xs) (auto simp: circ_def)
  let ?h = "link x y (link (last xs) x h)"
  have d: "distinct xs" using c by (simp add: circ_def)
  have nl: "last xs \<notin> set (butlast xs)" using d xs by (intro last_notin_butlast) simp_all
  have "seg h (butlast xs @ last xs # [hd xs])" using c
    by (simp add: circ_def append_butlast_last_snoc)
  then have "seg h (butlast xs @ [last xs])" by (rule seg_append [THEN iffD1, THEN conjunct1])
  then have "seg h xs" using append_butlast_last_id [of xs] xs by (metis list.distinct(1))
  moreover have "seg ?h xs \<longleftrightarrow> seg h xs"
    using x nl d by (intro seg_frame) (auto simp: link_def xs dest: in_set_butlastD)
  ultimately have "seg ?h xs" by simp
  moreover have "seg ?h [last xs, x, y]"
    using x by (auto simp: link_def xs)
  ultimately have "seg ?h (butlast xs @ last xs # [x, y])"
    using seg_append [of ?h "butlast xs" "last xs" "[x, y]"] append_butlast_last_id [of xs] xs
    by (metis list.distinct(1))
  then have "seg ?h (xs @ [x, y])" by (simp add: xs append_butlast_last_snoc del: butlast.simps last.simps)
  then show ?thesis using c x xs by (auto simp: circ_def)
qed

lemma circ_delete:
  assumes c: "circ h (x # xs)" and ne: "xs \<noteq> []"
  shows "circ (link (last xs) (hd xs) h) xs"
proof -
  let ?h = "link (last xs) (hd xs) h"
  from c have s: "seg h (x # xs @ [x])" and d: "distinct xs" by (auto simp: circ_def)
  from s ne have "seg h (xs @ [x])" by (cases xs) auto
  with ne have "seg h (butlast xs @ last xs # [x])"
    by (simp add: append_butlast_last_snoc)
  then have "seg h xs"
    using ne seg_append [of h "butlast xs" "last xs" "[x]"] by simp
  moreover have "seg ?h xs \<longleftrightarrow> seg h xs"
  proof (rule seg_frame)
    fix z assume "z \<in> set (butlast xs)"
    then have "z \<noteq> last xs" using last_notin_butlast [OF d ne] by auto
    then show "nxt ?h z = nxt h z" by (simp add: link_def)
  next
    fix z assume "z \<in> set (tl xs)"
    then have "z \<noteq> hd xs" using d ne by (cases xs) auto
    then show "prv ?h z = prv h z" by (simp add: link_def)
  qed
  ultimately have "seg ?h xs" by simp
  moreover have "seg ?h [last xs, hd xs]" by (simp add: link_def)
  ultimately have "seg ?h (butlast xs @ last xs # [hd xs])"
    unfolding seg_append [of ?h "butlast xs" "last xs" "[hd xs]"] using ne by simp
  then show ?thesis using c ne by (simp add: circ_def append_butlast_last_snoc)
qed

lemma circ_frame:
  "(\<And>x. x \<in> set xs \<Longrightarrow> nxt h' x = nxt h x \<and> prv h' x = prv h x) \<Longrightarrow> circ h' xs \<longleftrightarrow> circ h xs"
proof (cases xs)
  case Nil
  then show ?thesis by (simp add: circ_def)
next
  case (Cons y ys)
  assume eq: "\<And>x. x \<in> set xs \<Longrightarrow> nxt h' x = nxt h x \<and> prv h' x = prv h x"
  have "seg h' (xs @ [y]) \<longleftrightarrow> seg h (xs @ [y])"
    by (rule seg_frame) (use eq Cons in auto)
  with Cons show ?thesis by (simp add: circ_def)
qed

section \<open>Refinement: a list is the sequence of its nodes\<close>

definition lrep :: "lheap \<Rightarrow> klist \<Rightarrow> ptr list \<Rightarrow> bool" where
  "lrep h l xs \<longleftrightarrow>
     lsize l = length xs \<and>
     (if xs = [] then head l = NULL else circ h xs \<and> head l = hd xs)"

text \<open>Two heaps agree on every node outside a set.\<close>

definition same_off :: "ptr set \<Rightarrow> lheap \<Rightarrow> lheap \<Rightarrow> bool" where
  "same_off S h h' \<longleftrightarrow> (\<forall>x. x \<notin> S \<longrightarrow> nxt h' x = nxt h x \<and> prv h' x = prv h x)"

lemma same_off_refl [simp]: "same_off S h h"
  by (simp add: same_off_def)

lemma same_off_trans: "same_off S h h' \<Longrightarrow> same_off T h' h'' \<Longrightarrow> same_off (S \<union> T) h h''"
  by (simp add: same_off_def)

lemma same_off_mono: "same_off S h h' \<Longrightarrow> S \<subseteq> T \<Longrightarrow> same_off T h h'"
  by (auto simp: same_off_def)

lemma same_off_link: "a \<in> S \<Longrightarrow> b \<in> S \<Longrightarrow> same_off S h (link a b h)"
  by (auto simp: same_off_def link_def)

lemma same_off_circ: "same_off S h h' \<Longrightarrow> set xs \<inter> S = {} \<Longrightarrow> circ h' xs \<longleftrightarrow> circ h xs"
  by (rule circ_frame) (auto simp: same_off_def)

lemma same_off_lrep: "same_off S h h' \<Longrightarrow> set xs \<inter> S = {} \<Longrightarrow> lrep h' l xs \<longleftrightarrow> lrep h l xs"
  by (auto simp: lrep_def same_off_circ)

lemma init_list_node_link:
  "x \<noteq> NULL \<Longrightarrow> init_list_node x h = Ret (link x x h)"
  by (simp add: node_simps link_def outcome_simps)

lemma circ_init: "x \<noteq> NULL \<Longrightarrow> circ (link x x h) [x]"
  by (simp add: circ_single link_def)

lemma lrep_distinct: "lrep h l xs \<Longrightarrow> distinct xs"
  by (auto simp: lrep_def circ_def split: if_splits)

lemma lrep_nonnull: "lrep h l xs \<Longrightarrow> x \<in> set xs \<Longrightarrow> x \<noteq> NULL"
  using circ_nonnull by (fastforce simp: lrep_def split: if_splits)

lemma lrep_init: "lrep h list_init []"
  by (simp add: lrep_def list_init_def)

lemma lrep_cases:
  assumes "lrep h l xs" and "x \<in> set xs"
  obtains ys zs where "xs = ys @ x # zs" and "circ h (x # zs @ ys)"
    and "head l = hd xs" and "lsize l = length xs"
proof -
  from assms obtain ys zs where xs: "xs = ys @ x # zs" by (auto simp: in_set_conv_decomp)
  with assms have "circ h (ys @ x # zs)" by (auto simp: lrep_def)
  then have "circ h (x # zs @ ys)" using circ_rotate_any [of h ys "x # zs"] by simp
  with that xs assms show thesis by (auto simp: lrep_def)
qed

text \<open>Inserting before a node of a circular list.\<close>

lemma list_insert_heap:
  assumes c: "circ h (t # xs)" and i: "item \<notin> set (t # xs)" "item \<noteq> NULL" and n: "lsize l \<noteq> 0"
  shows "list_insert l item t h =
      Ret (l\<lparr>lsize := lsize l + 1\<rparr>, link item t (link (last (t # xs)) item (link item item h)))"
    and "circ (link item t (link (last (t # xs)) item (link item item h))) (t # xs @ [item])"
proof -
  let ?p = "last (t # xs)" and ?h1 = "link item item h"
  have nn: "\<And>x. x \<in> set (t # xs) \<Longrightarrow> x \<noteq> NULL" using circ_nonnull [OF c] .
  have p: "?p \<in> set (t # xs)" by (rule last_in_set) simp
  have np: "?p \<noteq> NULL" "t \<noteq> NULL" using nn p by (blast, simp)
  have "prv h t = ?p" using circ_neighbours(2) [of h "[]" t xs] c by simp
  moreover have "nxt h ?p \<noteq> NULL"
  proof -
    have "circ h (?p # butlast (t # xs))"
      using c circ_rotate [of h ?p "butlast (t # xs)"] append_butlast_last_id [of "t # xs"]
      by (simp only: list.distinct not_False_eq_True)
    then have "nxt h ?p = hd (butlast (t # xs) @ [?p])"
      using circ_neighbours(1) [of h "[]" ?p "butlast (t # xs)"] by simp
    then have "nxt h ?p = t" by simp
    with np show ?thesis by simp
  qed
  moreover have "item \<noteq> t" "item \<noteq> ?p" using i p by auto
  ultimately show "list_insert l item t h =
      Ret (l\<lparr>lsize := lsize l + 1\<rparr>, link item t (link ?p item ?h1))"
    using i n np
    by (simp add: list_insert_def init_list_node_link get_prv_def get_nxt_def set_nxt_def
        set_prv_def link_def outcome_simps fun_upd_twist del: last.simps)
  have "circ ?h1 (t # xs)"
    using c i same_off_circ [OF same_off_link [of item "{item}" item h]] by auto
  from circ_insert [OF this i]
  show "circ (link item t (link ?p item ?h1)) (t # xs @ [item])" by simp
qed

text \<open>Taking a node out of a circular list leaves it a list of its own.\<close>

lemma detach_heap:
  assumes c: "circ h (x # xs)" and ne: "xs \<noteq> []"
  shows "detach_from_list x h = Ret (last xs, link x x (link (last xs) (hd xs) h))"
    and "circ (link x x (link (last xs) (hd xs) h)) xs"
proof -
  have nx: "nxt h x = hd xs" and px: "prv h x = last xs"
    using circ_neighbours [of h "[]" x xs] c ne by (simp_all add: hd_append)
  have mem: "hd xs \<in> set xs" "last xs \<in> set xs" using ne by simp_all
  have x: "x \<notin> set xs" "x \<noteq> NULL" and nn: "NULL \<notin> set xs" using c by (auto simp: circ_def)
  have ineq: "hd xs \<noteq> NULL" "last xs \<noteq> NULL" "hd xs \<noteq> x" "last xs \<noteq> x"
    using mem x(1) nn by metis+
  show "detach_from_list x h = Ret (last xs, link x x (link (last xs) (hd xs) h))"
    using nx px ineq x
    by (simp add: detach_from_list_def get_prv_def get_nxt_def set_nxt_def set_prv_def
        init_list_node_link link_def outcome_simps)
  show "circ (link x x (link (last xs) (hd xs) h)) xs"
    using circ_delete [OF c ne] x
      same_off_circ [OF same_off_link [of x "{x}" x "link (last xs) (hd xs) h"], of xs] by auto
qed

lemma list_push_back_rep:
  assumes r: "lrep h l xs" and i: "item \<notin> set xs" "item \<noteq> NULL"
  shows "\<exists>l' h'. list_push_back l item h = Ret (l', h') \<and> lrep h' l' (xs @ [item]) \<and>
    same_off (set (item # xs)) h h'"
proof (cases xs)
  case Nil
  with r i show ?thesis
    by (simp add: list_push_back_def init_list_node_link lrep_def circ_init same_off_link outcome_simps)
next
  case (Cons t ys)
  let ?h1 = "link item item h"
  have c: "circ h (t # ys)" and l: "head l = t" "lsize l = Suc (length ys)"
    using r Cons by (simp_all add: lrep_def)
  have c1: "circ ?h1 (t # ys)"
    using c i Cons same_off_circ [OF same_off_link [of item "{item}" item h]] by auto
  have t: "t \<noteq> NULL" using c by (simp add: circ_def)
  have ins: "list_insert l item t ?h1 = Ret (l\<lparr>lsize := lsize l + 1\<rparr>,
      link item t (link (last (t # ys)) item (link item item ?h1)))"
    and c2: "circ (link item t (link (last (t # ys)) item (link item item ?h1))) (t # ys @ [item])"
    using list_insert_heap [OF c1, of item l] i l Cons by simp_all
  have "last (t # ys) \<in> set (t # ys)" by (rule last_in_set) simp
  then have "same_off (set (item # xs)) h
      (link item t (link (last (t # ys)) item (link item item ?h1)))"
    using Cons by (auto simp: same_off_def link_def simp del: last.simps)
  with ins c2 i l t Cons show ?thesis
    by (simp add: list_push_back_def init_list_node_link lrep_def outcome_simps)
qed

lemma list_push_head_rep:
  assumes r: "lrep h l xs" and ne: "xs \<noteq> []" and i: "item \<notin> set xs" "item \<noteq> NULL"
  shows "\<exists>l' h'. list_push_head l item h = Ret (l', h') \<and> lrep h' l' (item # xs) \<and>
    same_off (set (item # xs)) h h'"
proof -
  obtain t ys where xs: "xs = t # ys" using ne by (cases xs) auto
  let ?h1 = "link item item h"
  have c: "circ h (t # ys)" and l: "head l = t" "lsize l = Suc (length ys)"
    using r xs by (simp_all add: lrep_def)
  have c1: "circ ?h1 (t # ys)"
    using c i xs same_off_circ [OF same_off_link [of item "{item}" item h]] by auto
  have t: "t \<noteq> NULL" using c by (simp add: circ_def)
  let ?h2 = "link item t (link (last (t # ys)) item (link item item ?h1))"
  have ins: "list_insert l item t ?h1 = Ret (l\<lparr>lsize := lsize l + 1\<rparr>, ?h2)"
    and "circ ?h2 ((t # ys) @ [item])"
    using list_insert_heap [OF c1, of item l] i l xs by simp_all
  then have c2: "circ ?h2 (item # t # ys)" by (simp only: circ_rotate)
  have "last (t # ys) \<in> set (t # ys)" by (rule last_in_set) simp
  then have "same_off (set (item # xs)) h ?h2"
    using xs by (auto simp: same_off_def link_def simp del: last.simps)
  with ins c2 i l t xs show ?thesis
    by (simp add: list_push_head_def init_list_node_link lrep_def outcome_simps)
qed

lemma list_remove_rep:
  assumes r: "lrep h l xs" and i: "item \<in> set xs"
  shows "\<exists>l' h'. list_remove l item h = Ret (l', h') \<and> lrep h' l' (remove1 item xs) \<and>
    circ h' [item] \<and> same_off (set xs) h h'"
proof -
  from lrep_cases [OF r i] obtain ys zs where xs: "xs = ys @ item # zs"
    and c: "circ h (item # zs @ ys)" and hl: "head l = hd xs" and sz: "lsize l = length xs" .
  have d: "distinct xs" using lrep_distinct [OF r] .
  have rm: "remove1 item xs = ys @ zs" using d xs by (simp add: remove1_append)
  have nb: "nxt h item = hd (zs @ ys @ [item])" "prv h item = last (item # zs @ ys)"
    using circ_neighbours [of h "[]" item "zs @ ys"] c by simp_all
  have nn: "NULL \<notin> set (item # zs @ ys)" using c by (simp only: circ_def simp_thms)
  show ?thesis
  proof (cases "zs @ ys = []")
    case True
    then have "list_remove l item h = Ret (\<lparr>head = NULL, lsize = 0\<rparr>, h)"
      using c xs hl sz nb nn by (simp add: list_remove_def get_prv_def get_nxt_def outcome_simps)
    with True c rm show ?thesis by (simp add: lrep_def)
  next
    case False
    let ?rest = "zs @ ys"
    let ?h' = "link item item (link (last ?rest) (hd ?rest) h)"
    have nb': "nxt h item = hd ?rest" "prv h item = last ?rest"
      using nb False by (auto simp: hd_append)
    have mem: "hd ?rest \<in> set ?rest" "last ?rest \<in> set ?rest"
      using False hd_in_set last_in_set by blast+
    have ineq: "hd ?rest \<noteq> NULL" "last ?rest \<noteq> NULL" "item \<noteq> NULL" "hd ?rest \<noteq> item"
      using mem nn c unfolding circ_def by (metis list.set_intros distinct.simps(2))+
    have two: "lsize l \<noteq> 1" "lsize l \<noteq> 0" using sz xs False by (cases ys; cases zs; simp)+
    have rem: "list_remove l item h =
        Ret (\<lparr>head = (if ys = [] then hd zs else hd ys), lsize = length ys + length zs\<rparr>, ?h')"
    proof -
      have det: "detach_from_list item h = Ret (last ?rest, ?h')"
        by (rule detach_heap(1) [OF c False])
      have hd_iff: "item = head l \<longleftrightarrow> ys = []" using hl xs d by (cases ys) auto
      have sd: "size_dec (lsize l) = length ys + length zs"
        using sz xs by (simp add: size_dec_def)
      show ?thesis
      proof (cases "ys = []")
        case True
        then show ?thesis using det hd_iff nb' ineq two sd
          by (simp add: list_remove_def get_prv_def get_nxt_def outcome_simps)
      next
        case nys: False
        then have "hd xs = hd ys" using xs by simp
        with nys show ?thesis using det hd_iff hl nb' ineq two sd
          by (simp add: list_remove_def get_prv_def get_nxt_def outcome_simps)
      qed
    qed
    have c': "circ ?h' ?rest" by (rule detach_heap(2) [OF c False])
    then have "circ ?h' (ys @ zs)" using circ_rotate_any [of ?h' zs ys] by simp
    then have "lrep ?h' \<lparr>head = (if ys = [] then hd zs else hd ys),
        lsize = length ys + length zs\<rparr> (remove1 item xs)"
      using False by (auto simp: lrep_def rm hd_append)
    moreover have "circ ?h' [item]" using ineq by (simp add: circ_init)
    moreover have "same_off (set xs) h ?h'"
      using mem xs by (auto simp: same_off_def link_def simp del: last_append hd_append2)
    ultimately show ?thesis using rem by blast
  qed
qed

section \<open>The contract a user of the lists relies on\<close>

text \<open>
  Users push and remove nodes and rely on the sequence a list stands for, and on the
  other lists of the heap staying as they are.
\<close>

locale kernel_list =
  fixes rep :: "'h \<Rightarrow> 'l \<Rightarrow> ptr list \<Rightarrow> bool"
    and frame :: "ptr set \<Rightarrow> 'h \<Rightarrow> 'h \<Rightarrow> bool"
    and push :: "'l \<Rightarrow> ptr \<Rightarrow> 'h \<Rightarrow> ('l \<times> 'h) outcome"
    and remove :: "'l \<Rightarrow> ptr \<Rightarrow> 'h \<Rightarrow> ('l \<times> 'h) outcome"
  assumes push_rep: "\<lbrakk>rep h l xs; item \<notin> set xs; item \<noteq> NULL\<rbrakk> \<Longrightarrow>
      \<exists>l' h'. push l item h = Ret (l', h') \<and> rep h' l' (xs @ [item]) \<and> frame (set (item # xs)) h h'"
    and remove_rep: "\<lbrakk>rep h l xs; item \<in> set xs\<rbrakk> \<Longrightarrow>
      \<exists>l' h'. remove l item h = Ret (l', h') \<and> rep h' l' (remove1 item xs) \<and> frame (set xs) h h'"
    and rep_distinct: "rep h l xs \<Longrightarrow> distinct xs"
    and rep_nonnull: "rep h l xs \<Longrightarrow> x \<in> set xs \<Longrightarrow> x \<noteq> NULL"
    and frame_rep: "\<lbrakk>frame S h h'; rep h l xs; set xs \<inter> S = {}\<rbrakk> \<Longrightarrow> rep h' l xs"
begin

lemma push_then_remove:
  assumes "rep h l xs" and "item \<notin> set xs" and "item \<noteq> NULL"
  shows "\<exists>l' h'. andthen (push l item h) (\<lambda>(l1, h1). remove l1 item h1) = Ret (l', h') \<and> rep h' l' xs"
proof -
  from push_rep [OF assms] obtain l1 h1 where 1: "push l item h = Ret (l1, h1)"
    and r1: "rep h1 l1 (xs @ [item])" by blast
  from remove_rep [OF r1, of item] obtain l2 h2 where "remove l1 item h1 = Ret (l2, h2)"
    and "rep h2 l2 (remove1 item (xs @ [item]))" by auto
  with 1 assms(2) show ?thesis by (simp add: remove1_append remove1_idem)
qed

text \<open>Moving a node from one list to another.\<close>

lemma move_node:
  assumes r1: "rep h l1 xs" and r2: "rep h l2 ys" and dis: "set xs \<inter> set ys = {}"
    and i: "item \<in> set xs"
  shows "\<exists>l1' l2' h'.
    andthen (remove l1 item h) (\<lambda>(l1', h1). andthen (push l2 item h1) (\<lambda>(l2', h2).
      Ret (l1', l2', h2))) = Ret (l1', l2', h') \<and>
    rep h' l1' (remove1 item xs) \<and> rep h' l2' (ys @ [item])"
proof -
  from remove_rep [OF r1 i] obtain l1' h1 where e1: "remove l1 item h = Ret (l1', h1)"
    and s1: "rep h1 l1' (remove1 item xs)" and f1: "frame (set xs) h h1" by blast
  have s2: "rep h1 l2 ys" using frame_rep [OF f1 r2] dis by blast
  have "item \<notin> set ys" "item \<noteq> NULL" using i dis rep_nonnull [OF r1 i] by auto
  from push_rep [OF s2 this] obtain l2' h2 where e2: "push l2 item h1 = Ret (l2', h2)"
    and t2: "rep h2 l2' (ys @ [item])" and f2: "frame (set (item # ys)) h1 h2" by blast
  have "set (remove1 item xs) \<inter> set (item # ys) = {}"
    using rep_distinct [OF r1] dis by (auto dest: notin_set_remove1 simp: set_remove1_eq)
  from frame_rep [OF f2 s1 this] have "rep h2 l1' (remove1 item xs)" .
  with e1 e2 t2 show ?thesis by simp
qed

end

interpretation klists: kernel_list lrep same_off list_push_back list_remove
proof
  show "\<exists>l' h'. list_push_back l item h = Ret (l', h') \<and> lrep h' l' (xs @ [item]) \<and>
      same_off (set (item # xs)) h h'"
    if "lrep h l xs" "item \<notin> set xs" "item \<noteq> NULL" for h l xs item
    using list_push_back_rep [OF that] .
  show "\<exists>l' h'. list_remove l item h = Ret (l', h') \<and> lrep h' l' (remove1 item xs) \<and>
      same_off (set xs) h h'"
    if "lrep h l xs" "item \<in> set xs" for h l xs item
    using list_remove_rep [OF that] by blast
  show "distinct xs" if "lrep h l xs" for h l xs using lrep_distinct [OF that] .
  show "x \<noteq> NULL" if "lrep h l xs" "x \<in> set xs" for h l xs x using lrep_nonnull [OF that] .
  show "lrep h' l xs" if "same_off S h h'" "lrep h l xs" "set xs \<inter> S = {}" for S h h' l xs
    using same_off_lrep [OF that(1,3)] that(2) by simp
qed

section \<open>Popping and iterating\<close>

lemma list_pop_head_rep:
  assumes "lrep h l xs" and "xs \<noteq> []"
  shows "\<exists>l' h'. list_pop_head l h = Ret (l', h') \<and> lrep h' l' (tl xs) \<and> same_off (set xs) h h'"
proof -
  obtain x ys where xs: "xs = x # ys" using assms by (cases xs) auto
  then have "head l = x" using assms by (simp add: lrep_def)
  with list_remove_rep [OF assms(1), of x] xs show ?thesis by (auto simp: list_pop_head_def)
qed

lemma list_pop_back_rep:
  assumes r: "lrep h l xs" and ne: "xs \<noteq> []"
  shows "\<exists>l' h'. list_pop_back l h = Ret (l', h') \<and> lrep h' l' (butlast xs) \<and> same_off (set xs) h h'"
proof -
  obtain x ys where xs: "xs = x # ys" using ne by (cases xs) auto
  have c: "circ h (x # ys)" and hl: "head l = x" using r xs by (simp_all add: lrep_def)
  have p: "prv h x = last xs" using circ_neighbours(2) [of h "[]" x ys] c xs by simp
  have "x \<noteq> NULL" using c by (simp add: circ_def)
  then have "list_pop_back l h = list_remove l (last xs) h"
    using p hl by (simp add: list_pop_back_def get_prv_def outcome_simps)
  moreover have "remove1 (last xs) xs = butlast xs"
    using lrep_distinct [OF r] ne by (cases xs rule: rev_cases) (auto simp: remove1_append)
  ultimately show ?thesis using list_remove_rep [OF r, of "last xs"] ne by auto
qed

lemma forall_from_seg:
  "\<lbrakk>seg h (ys @ [flag]); flag \<notin> set ys; NULL \<notin> set (ys @ [flag]); length ys < fuel\<rbrakk>
   \<Longrightarrow> forall_from fuel h flag (hd (ys @ [flag])) = Some (ys @ [flag])"
proof (induction ys arbitrary: fuel)
  case Nil
  then show ?case by (cases fuel) simp_all
next
  case (Cons y ys)
  obtain n where n: "fuel = Suc n" using Cons.prems by (cases fuel) simp_all
  have "nxt h y = hd (ys @ [flag])" and "seg h (ys @ [flag])"
    using Cons.prems(1) by (cases ys; simp)+
  with Cons n show ?case by simp
qed

lemma list_forall_rep:
  assumes r: "lrep h l xs" and f: "length xs \<le> fuel" "0 < fuel"
  shows "list_forall fuel l h = Some (rotate1 xs)"
proof (cases xs)
  case Nil
  with r f show ?thesis by (cases fuel) (simp_all add: list_forall_def lrep_def)
next
  case (Cons x ys)
  have c: "circ h (x # ys)" and hl: "head l = x" using r Cons by (simp_all add: lrep_def)
  have "nxt h x = hd (ys @ [x])" using circ_neighbours(1) [of h "[]" x ys] c by simp
  moreover have "seg h (ys @ [x])" using c by (cases ys) (simp_all add: circ_def)
  moreover have "x \<notin> set ys" "NULL \<notin> set (ys @ [x])" using c by (simp_all add: circ_def)
  moreover have "length ys < fuel" using f Cons by simp
  ultimately show ?thesis
    using forall_from_seg [of h ys x fuel] c hl Cons by (simp add: list_forall_def circ_def)
qed

section \<open>Queues are first-in first-out\<close>

definition qrep :: "lheap \<Rightarrow> queue \<Rightarrow> ptr list \<Rightarrow> bool" where
  "qrep h q xs \<longleftrightarrow>
     q_size q = int (length xs) \<and>
     (if xs = [] then q_begin q = NULL
      else circ h xs \<and> q_begin q = hd xs \<and> q_end q = last xs)"

lemma qrep_init: "qrep h queue_init []"
  by (simp add: qrep_def queue_init_def)

lemma queue_empty_rep: "qrep h q xs \<Longrightarrow> queue_empty q \<longleftrightarrow> xs = []"
  by (simp add: qrep_def queue_empty_def)

lemma queue_front_rep: "qrep h q xs \<Longrightarrow> queue_front q = (if xs = [] then Panic else Ret (hd xs))"
  using circ_nonnull [of h xs "hd xs"] by (auto simp: qrep_def queue_front_def split: if_splits)

lemma merge_list_heap:
  assumes c: "circ h xs" and x: "x \<noteq> NULL" "x \<notin> set xs" "nxt h x = x" "prv h x = x"
  shows "merge_list (last xs) x h = Ret (last xs, link x (hd xs) (link (last xs) x h))"
proof -
  have ne: "xs \<noteq> []" using c by (simp add: circ_def)
  have mem: "last xs \<in> set xs" "hd xs \<in> set xs" using ne by simp_all
  have nn: "last xs \<noteq> NULL" "hd xs \<noteq> NULL" using circ_nonnull [OF c] mem by metis+
  have ineq: "last xs \<noteq> x" "hd xs \<noteq> x" using mem x(2) by metis+
  have "circ h (last xs # butlast xs)"
    using c ne circ_rotate [of h "last xs" "butlast xs"] by simp
  then have "nxt h (last xs) = hd (butlast xs @ [last xs])"
    using circ_neighbours(1) [of h "[]" "last xs" "butlast xs"] by simp
  with ne have "nxt h (last xs) = hd xs" by simp
  with nn ineq x show ?thesis
    by (simp add: merge_list_def get_prv_def get_nxt_def set_nxt_def set_prv_def
        outcome_simps link_def fun_upd_twist)
qed

lemma queue_push_rep:
  assumes r: "qrep h q xs" and i: "item \<notin> set xs" "item \<noteq> NULL"
  shows "\<exists>q' h'. queue_push q item h = Ret (q', h') \<and> qrep h' q' (xs @ [item]) \<and>
    same_off (set (item # xs)) h h'"
proof (cases "xs = []")
  case True
  with r i show ?thesis
    by (simp add: qrep_def queue_push_def init_list_node_link circ_init same_off_link outcome_simps)
next
  case False
  let ?h1 = "link item item h"
  let ?h2 = "link item (hd xs) (link (last xs) item ?h1)"
  have c: "circ h xs" and q: "q_begin q = hd xs" "q_end q = last xs" "q_size q = int (length xs)"
    using r False by (simp_all add: qrep_def)
  have c1: "circ ?h1 xs"
    using c i same_off_circ [OF same_off_link [of item "{item}" item h]] by auto
  have m: "merge_list (last xs) item ?h1 = Ret (last xs, ?h2)"
    by (rule merge_list_heap [OF c1]) (use i in \<open>simp_all add: link_def\<close>)
  have c2: "circ ?h2 (xs @ [item])" by (rule circ_insert [OF c1 i])
  have "last xs \<in> set xs" "hd xs \<in> set xs" using False by simp_all
  then have "same_off (set (item # xs)) h ?h2" by (auto simp: same_off_def link_def)
  with m c2 q i False show ?thesis
    by (simp add: queue_push_def init_list_node_link qrep_def outcome_simps)
qed

lemma queue_pop_rep:
  assumes r: "qrep h q xs"
  shows "if xs = [] then queue_pop q h = Panic
    else \<exists>q' h'. queue_pop q h = Ret (q', h') \<and> qrep h' q' (tl xs) \<and> same_off (set xs) h h'"
proof (cases xs)
  case Nil
  with r show ?thesis by (simp add: qrep_def queue_pop_def)
next
  case (Cons x ys)
  have c: "circ h (x # ys)" and q: "q_begin q = x" "q_end q = last xs" "q_size q = 1 + int (length ys)"
    using r Cons by (simp_all add: qrep_def)
  have x: "x \<noteq> NULL" using c by (simp add: circ_def)
  show ?thesis
  proof (cases "ys = []")
    case True
    with Cons q show ?thesis by (simp add: queue_pop_def qrep_def outcome_simps)
  next
    case False
    let ?h' = "link x x (link (last ys) (hd ys) h)"
    have "nxt h x = hd ys" using circ_neighbours(1) [of h "[]" x ys] c False by simp
    then have "queue_pop q h = Ret (q\<lparr>q_begin := hd ys, q_size := int (length ys)\<rparr>, ?h')"
      using detach_heap(1) [OF c False] q False x
      by (simp add: queue_pop_def get_nxt_def outcome_simps)
    moreover have "circ ?h' ys" by (rule detach_heap(2) [OF c False])
    moreover have "same_off (set xs) h ?h'"
      using Cons False hd_in_set [of ys] last_in_set [of ys] by (auto simp: same_off_def link_def)
    ultimately show ?thesis using Cons q False by (simp add: qrep_def)
  qed
qed

section \<open>Properties\<close>

text \<open>
  C22: a \<^verbatim>\<open>struct list\<close> is the sequence of its nodes. On a list that stands for \<open>xs\<close>,
  \<^verbatim>\<open>list_push_back\<close> appends a new node, \<^verbatim>\<open>list_push_head\<close> puts it in front (of a non-empty
  list), \<^verbatim>\<open>list_remove\<close> takes a node out wherever it is and leaves it linked to itself,
  \<^verbatim>\<open>list_pop_head\<close> and \<^verbatim>\<open>list_pop_back\<close> drop the first and the last node, and no operation
  fails or touches a node outside the list.
\<close>

theorem list_ops_refine:
  assumes "lrep h l xs" and "item \<noteq> NULL"
  shows "(item \<notin> set xs \<longrightarrow> (\<exists>l' h'. list_push_back l item h = Ret (l', h') \<and>
      lrep h' l' (xs @ [item]) \<and> same_off (set (item # xs)) h h')) \<and>
    (item \<notin> set xs \<and> xs \<noteq> [] \<longrightarrow> (\<exists>l' h'. list_push_head l item h = Ret (l', h') \<and>
      lrep h' l' (item # xs) \<and> same_off (set (item # xs)) h h')) \<and>
    (item \<in> set xs \<longrightarrow> (\<exists>l' h'. list_remove l item h = Ret (l', h') \<and>
      lrep h' l' (remove1 item xs) \<and> circ h' [item] \<and> same_off (set xs) h h')) \<and>
    (xs \<noteq> [] \<longrightarrow> (\<exists>l' h'. list_pop_head l h = Ret (l', h') \<and>
      lrep h' l' (tl xs) \<and> same_off (set xs) h h')) \<and>
    (xs \<noteq> [] \<longrightarrow> (\<exists>l' h'. list_pop_back l h = Ret (l', h') \<and>
      lrep h' l' (butlast xs) \<and> same_off (set xs) h h'))"
  using list_push_back_rep [OF assms(1)] list_push_head_rep [OF assms(1)]
    list_remove_rep [OF assms(1)] list_pop_head_rep [OF assms(1)] list_pop_back_rep [OF assms(1)]
    assms(2)
  by simp

definition two_nodes :: lheap where
  "two_nodes = \<lparr>nxt = (\<lambda>_. 0)(5 := 7, 7 := 5), prv = (\<lambda>_. 0)(5 := 7, 7 := 5)\<rparr>"

theorem list_ops_refine_witness:
  "lrep two_nodes \<lparr>head = 5, lsize = 2\<rparr> [5, 7] \<and>
   (\<exists>l' h'. list_remove \<lparr>head = 5, lsize = 2\<rparr> 7 two_nodes = Ret (l', h') \<and> lrep h' l' [5]) \<and>
   (\<exists>l' h'. list_push_head \<lparr>head = 5, lsize = 2\<rparr> 9 two_nodes = Ret (l', h') \<and> lrep h' l' [9, 5, 7])"
proof -
  have r: "lrep two_nodes \<lparr>head = 5, lsize = 2\<rparr> [5, 7]"
    by (simp add: lrep_def circ_def two_nodes_def)
  with list_ops_refine [OF r, of 7] list_ops_refine [OF r, of 9] show ?thesis by auto
qed

text \<open>
  Two lists of the same heap do not disturb each other: taking a node out of one and
  appending it to the other (the pattern of the scheduler, the process tree and the
  message queues) leaves the first without the node and the second with it at the end.
\<close>

theorem list_move_refine:
  assumes "lrep h l1 xs" and "lrep h l2 ys" and "set xs \<inter> set ys = {}" and "item \<in> set xs"
  shows "\<exists>l1' l2' h'.
    andthen (list_remove l1 item h) (\<lambda>(l1', h1). andthen (list_push_back l2 item h1) (\<lambda>(l2', h2).
      Ret (l1', l2', h2))) = Ret (l1', l2', h') \<and>
    lrep h' l1' (remove1 item xs) \<and> lrep h' l2' (ys @ [item])"
  using assms by (rule klists.move_node)

theorem list_move_refine_witness:
  "\<exists>l1' l2' h'.
    andthen (list_remove \<lparr>head = 5, lsize = 2\<rparr> 5 two_nodes) (\<lambda>(l1', h1).
      andthen (list_push_back list_init 5 h1) (\<lambda>(l2', h2). Ret (l1', l2', h2))) = Ret (l1', l2', h') \<and>
    lrep h' l1' [7] \<and> lrep h' l2' [5]"
proof -
  have r: "lrep two_nodes \<lparr>head = 5, lsize = 2\<rparr> [5, 7]"
    by (simp add: lrep_def circ_def two_nodes_def)
  from list_move_refine [OF r lrep_init, of 5] show ?thesis by simp
qed

text \<open>
  Iterating with \<^verbatim>\<open>list_forall\<close> visits every node of the list exactly once, from the
  second node to the last and then the head, and ends.
\<close>

theorem list_forall_visits:
  assumes "lrep h l xs" and "length xs \<le> fuel" and "0 < fuel"
  shows "list_forall fuel l h = Some (rotate1 xs)"
  using assms by (rule list_forall_rep)

theorem list_forall_visits_witness: "list_forall 2 \<lparr>head = 5, lsize = 2\<rparr> two_nodes = Some [7, 5]"
proof -
  have r: "lrep two_nodes \<lparr>head = 5, lsize = 2\<rparr> [5, 7]"
    by (simp add: lrep_def circ_def two_nodes_def)
  from list_forall_visits [OF r, of 2] show ?thesis by simp
qed

text \<open>
  A \<^verbatim>\<open>struct queue\<close> is first-in first-out: on a queue that stands for \<open>xs\<close> a push
  appends, the front is the oldest node, a pop drops it, and popping or looking at an
  empty queue panics.
\<close>

theorem queue_ops_refine:
  assumes "qrep h q xs"
  shows "(item \<notin> set xs \<and> item \<noteq> NULL \<longrightarrow> (\<exists>q' h'. queue_push q item h = Ret (q', h') \<and>
      qrep h' q' (xs @ [item]) \<and> same_off (set (item # xs)) h h')) \<and>
    queue_front q = (if xs = [] then Panic else Ret (hd xs)) \<and>
    (if xs = [] then queue_pop q h = Panic
     else \<exists>q' h'. queue_pop q h = Ret (q', h') \<and> qrep h' q' (tl xs) \<and> same_off (set xs) h h') \<and>
    (queue_empty q \<longleftrightarrow> xs = [])"
  using queue_push_rep [OF assms] queue_front_rep [OF assms] queue_pop_rep [OF assms]
    queue_empty_rep [OF assms]
  by simp

theorem queue_ops_refine_witness:
  "qrep two_nodes \<lparr>q_begin = 5, q_end = 7, q_size = 2\<rparr> [5, 7] \<and>
   queue_front \<lparr>q_begin = 5, q_end = 7, q_size = 2\<rparr> = Ret 5 \<and>
   (\<exists>q' h'. queue_pop \<lparr>q_begin = 5, q_end = 7, q_size = 2\<rparr> two_nodes = Ret (q', h') \<and> qrep h' q' [7]) \<and>
   (\<exists>q' h'. queue_push \<lparr>q_begin = 5, q_end = 7, q_size = 2\<rparr> 9 two_nodes = Ret (q', h') \<and>
     qrep h' q' [5, 7, 9])"
proof -
  have r: "qrep two_nodes \<lparr>q_begin = 5, q_end = 7, q_size = 2\<rparr> [5, 7]"
    by (simp add: qrep_def circ_def two_nodes_def)
  from queue_ops_refine [OF r, of 9] r show ?thesis by auto
qed

end
