(* ===== verification/Sem.thy ===== *)
theory Sem
  imports Prelude
begin

text \<open>
  Counting semaphores (\<^verbatim>\<open>lib/sem.c\<close>) and the condition variables built from them
  (\<^verbatim>\<open>lib/cond.c\<close>). A thread that has to wait leaves a \<^verbatim>\<open>struct wait_data\<close> in the sleep list
  and sleeps; a post hands the permit to the oldest one by setting its \<^verbatim>\<open>up\<close> flag. The
  body of \<^verbatim>\<open>_wait_sem\<close> is cut at the call of \<^verbatim>\<open>schedule\<close>: \<open>wait_sem_enter\<close> is what happens
  before it, \<open>wait_sem_leave\<close> what happens once the thread runs again. The value is an
  unbounded integer: it stays between minus the number of threads and the number of
  posts.
\<close>

section \<open>Semaphores\<close>

text \<open>
  The sleep list from the oldest waiter to the newest (from \<^verbatim>\<open>sleeplist.prev\<close> on), and the
  waiters whose \<^verbatim>\<open>up\<close> flag is set but which have not run since.
\<close>

record semaphore =
  val :: int
  sleeplist :: "nat list"
  up :: "nat set"

definition init_sem :: "int \<Rightarrow> semaphore" where
  "init_sem v = \<lparr>val = v, sleeplist = [], up = {}\<rparr>"

definition get_sem :: "semaphore \<Rightarrow> bool \<times> semaphore" where
  "get_sem s = (if 0 < val s then (True, s\<lparr>val := val s - 1\<rparr>) else (False, s))"

definition query_sem :: "semaphore \<Rightarrow> int" where
  "query_sem s = val s"

definition get_all_sem :: "semaphore \<Rightarrow> int \<times> semaphore" where
  "get_all_sem s = (if 0 < val s then (val s, s\<lparr>val := 0\<rparr>) else (0, s))"

text \<open>The first component says whether the permit was free; if not, thread \<open>p\<close> sleeps.\<close>

definition wait_sem_enter :: "nat \<Rightarrow> semaphore \<Rightarrow> bool \<times> semaphore" where
  "wait_sem_enter p s =
     (let s1 = s\<lparr>val := val s - 1\<rparr>
      in if 0 \<le> val s1 then (True, s1) else (False, s1\<lparr>sleeplist := sleeplist s1 @ [p]\<rparr>))"

definition wait_sem_leave :: "nat \<Rightarrow> semaphore \<Rightarrow> (bool \<times> semaphore) outcome" where
  "wait_sem_leave p s =
     (if p \<notin> up s then
        let s1 = s\<lparr>val := val s + 1\<rparr>
        in andthen (ASSERT (val s1 \<le> 0)) (\<lambda>_.
           Ret (False, s1\<lparr>sleeplist := remove1 p (sleeplist s1)\<rparr>))
      else Ret (True, s\<lparr>up := up s - {p}\<rparr>))"

text \<open>The first component is the thread to activate, if any.\<close>

definition post_sem :: "semaphore \<Rightarrow> (nat option \<times> semaphore) outcome" where
  "post_sem s =
     (let s1 = s\<lparr>val := val s + 1\<rparr>
      in if val s1 \<le> 0 then
           andthen (ASSERT (sleeplist s1 \<noteq> [])) (\<lambda>_.
           let w = hd (sleeplist s1)
           in Ret (Some w, s1\<lparr>up := insert w (up s1), sleeplist := tl (sleeplist s1)\<rparr>))
         else Ret (None, s1))"

lemma post_sem_val: "post_sem s = Ret (w, s') \<Longrightarrow> val s' = val s + 1"
  by (auto simp: post_sem_def Let_def outcome_simps split: if_splits)

text \<open>The do-while loop of \<^verbatim>\<open>post_all_sem\<close>; the list collects the threads it activates.\<close>

function post_all_loop :: "int \<Rightarrow> nat list \<Rightarrow> semaphore \<Rightarrow> (int \<times> nat list \<times> semaphore) outcome" where
  "post_all_loop ret woken s =
     andthen (post_sem s) (\<lambda>(w, s1).
       let woken1 = woken @ (case w of None \<Rightarrow> [] | Some p \<Rightarrow> [p]); (got, s2) = get_sem s1
       in if got then Ret (ret + 1, woken1, s2) else post_all_loop (ret + 1) woken1 s2)"
  by pat_completeness auto
termination
  by (relation "measure (\<lambda>(_, _, s). nat (1 - val s))")
    (auto simp: get_sem_def dest!: post_sem_val split: if_splits)

declare post_all_loop.simps [simp del]

definition post_all_sem :: "semaphore \<Rightarrow> (int \<times> nat list \<times> semaphore) outcome" where
  "post_all_sem s = post_all_loop (- 1) [] s"

section \<open>Condition variables\<close>

definition cond_init :: semaphore where
  "cond_init = init_sem 1"

text \<open>
  The part of \<^verbatim>\<open>cond_wait\<close> before it may sleep; the first component is false when the lock
  has been given up and the thread sleeps.
\<close>

definition cond_wait_enter :: "nat \<Rightarrow> semaphore \<Rightarrow> (bool \<times> semaphore) outcome" where
  "cond_wait_enter p s =
     (if 0 < query_sem s then
        let (got, s1) = get_sem s in andthen (ASSERT got) (\<lambda>_. Ret (True, s1))
      else Ret (wait_sem_enter p s))"

text \<open>After the sleep: \<^verbatim>\<open>ASSERT(_wait_sem(cond, true))\<close>, then the lock is taken again.\<close>

definition cond_wait_leave :: "nat \<Rightarrow> semaphore \<Rightarrow> semaphore outcome" where
  "cond_wait_leave p s =
     andthen (wait_sem_leave p s) (\<lambda>(ok, s1). andthen (ASSERT ok) (\<lambda>_. Ret s1))"

definition cond_signal :: "semaphore \<Rightarrow> (nat option \<times> semaphore) outcome" where
  "cond_signal s = post_sem s"

definition cond_broadcast :: "semaphore \<Rightarrow> (nat list \<times> semaphore) outcome" where
  "cond_broadcast s = andthen (post_all_sem s) (\<lambda>(_, woken, s1). Ret (woken, s1))"

section \<open>The invariant\<close>

definition sem_ok :: "semaphore \<Rightarrow> bool" where
  "sem_ok s \<longleftrightarrow> length (sleeplist s) = nat (- val s) \<and> distinct (sleeplist s) \<and>
     set (sleeplist s) \<inter> up s = {}"

lemma sem_ok_init: "0 \<le> v \<Longrightarrow> sem_ok (init_sem v)"
  by (simp add: sem_ok_def init_sem_def)

lemma sem_ok_neg: "sem_ok s \<Longrightarrow> val s < 0 \<longleftrightarrow> sleeplist s \<noteq> []"
  by (cases "sleeplist s") (auto simp: sem_ok_def)

lemma sem_ok_get: "sem_ok s \<Longrightarrow> sem_ok (snd (get_sem s))"
  by (auto simp: sem_ok_def get_sem_def)

lemma sem_ok_get_all: "sem_ok s \<Longrightarrow> sem_ok (snd (get_all_sem s))"
  by (auto simp: sem_ok_def get_all_sem_def)

lemma sem_ok_wait_enter:
  "sem_ok s \<Longrightarrow> p \<notin> set (sleeplist s) \<union> up s \<Longrightarrow> sem_ok (snd (wait_sem_enter p s))"
  by (auto simp: sem_ok_def wait_sem_enter_def Let_def)

lemma post_sem_result:
  assumes "sem_ok s"
  shows "post_sem s =
    (case sleeplist s of
       [] \<Rightarrow> Ret (None, s\<lparr>val := val s + 1\<rparr>)
     | p # ps \<Rightarrow> Ret (Some p, s\<lparr>val := val s + 1, up := insert p (up s), sleeplist := ps\<rparr>))"
  using sem_ok_neg [OF assms] by (cases "sleeplist s") (auto simp: post_sem_def Let_def)

lemma sem_ok_post:
  assumes "sem_ok s" and "post_sem s = Ret (w, s')"
  shows "sem_ok s'"
  using assms by (auto simp: post_sem_result sem_ok_def split: list.splits)

lemma wait_sem_leave_result:
  assumes "sem_ok s" and "p \<in> set (sleeplist s) \<union> up s"
  shows "wait_sem_leave p s =
    (if p \<in> up s then Ret (True, s\<lparr>up := up s - {p}\<rparr>)
     else Ret (False, s\<lparr>val := val s + 1, sleeplist := remove1 p (sleeplist s)\<rparr>))"
proof -
  have "val s + 1 \<le> 0" if "p \<notin> up s"
    using sem_ok_neg [OF assms(1)] assms(2) that by (cases "sleeplist s") auto
  then show ?thesis by (simp add: wait_sem_leave_def Let_def)
qed

lemma sem_ok_wait_leave:
  assumes "sem_ok s" and "p \<in> set (sleeplist s) \<union> up s" and "wait_sem_leave p s = Ret (b, s')"
  shows "sem_ok s'"
  using assms
  by (auto simp: wait_sem_leave_result sem_ok_def length_remove1 dest: notin_set_remove1 split: if_splits)

text \<open>What \<^verbatim>\<open>post_all_sem\<close> amounts to: everybody is woken, oldest first.\<close>

lemma post_all_loop_result:
  "sem_ok s \<Longrightarrow> post_all_loop ret woken s =
     Ret (ret + int (length (sleeplist s)) + 1, woken @ sleeplist s,
          s\<lparr>val := max 0 (val s), sleeplist := [], up := up s \<union> set (sleeplist s)\<rparr>)"
proof (induction "sleeplist s" arbitrary: ret woken s)
  case Nil
  then show ?case
    by (subst post_all_loop.simps) (simp add: post_sem_result get_sem_def sem_ok_def)
next
  case (Cons p ps)
  let ?s1 = "s\<lparr>val := val s + 1, up := insert p (up s), sleeplist := ps\<rparr>"
  have post: "post_sem s = Ret (Some p, ?s1)"
    using post_sem_result [OF Cons.prems] by (simp flip: Cons.hyps(2))
  have neg: "val s < 0" using sem_ok_neg [OF Cons.prems] by (simp flip: Cons.hyps(2))
  have ok: "sem_ok ?s1" by (rule sem_ok_post [OF Cons.prems post])
  have "post_all_loop ret woken s = post_all_loop (ret + 1) (woken @ [p]) ?s1"
    using neg by (subst post_all_loop.simps) (simp add: post get_sem_def)
  also have "\<dots> = Ret (ret + 1 + int (length ps) + 1, (woken @ [p]) @ ps,
      ?s1\<lparr>val := max 0 (val ?s1), sleeplist := [], up := up ?s1 \<union> set ps\<rparr>)"
    using Cons.hyps(1) [of ?s1] ok by simp
  finally show ?case using neg by (simp flip: Cons.hyps(2))
qed

lemma post_all_sem_result:
  "sem_ok s \<Longrightarrow> post_all_sem s =
     Ret (int (length (sleeplist s)), sleeplist s,
          s\<lparr>val := max 0 (val s), sleeplist := [], up := up s \<union> set (sleeplist s)\<rparr>)"
  by (simp add: post_all_sem_def post_all_loop_result)

text \<open>What clients of condition variables need.\<close>

lemma cond_wait_val: "cond_wait_enter p s = Ret (True, s') \<Longrightarrow> 0 < val s \<and> val s' = val s - 1"
  by (auto simp: cond_wait_enter_def query_sem_def get_sem_def wait_sem_enter_def Let_def outcome_simps
      split: if_splits)

abbreviation waits :: "nat \<Rightarrow> semaphore \<Rightarrow> bool" where
  "waits p s \<equiv> p \<in> set (sleeplist s) \<union> up s"

lemma broadcast_result:
  assumes "sem_ok s"
  shows "\<exists>s'. cond_broadcast s = Ret (sleeplist s, s') \<and> sem_ok s' \<and> sleeplist s' = [] \<and>
    up s' = up s \<union> set (sleeplist s)"
  using assms by (auto simp: cond_broadcast_def post_all_sem_result sem_ok_def)

lemma cond_wait_result:
  assumes "sem_ok s" and "\<not> waits p s"
  shows "\<exists>got s'. cond_wait_enter p s = Ret (got, s') \<and> sem_ok s' \<and> up s' = up s \<and>
    (if got then sleeplist s' = sleeplist s else sleeplist s' = sleeplist s @ [p])"
proof (cases "0 < val s")
  case True
  then show ?thesis using assms
    by (auto simp: cond_wait_enter_def query_sem_def get_sem_def sem_ok_def)
next
  case False
  then show ?thesis using assms sem_ok_wait_enter [OF assms]
    by (auto simp: cond_wait_enter_def query_sem_def wait_sem_enter_def Let_def)
qed

lemma cond_wait_leave_up: "p \<in> up s \<Longrightarrow> cond_wait_leave p s = Ret (s\<lparr>up := up s - {p}\<rparr>)"
  by (simp add: cond_wait_leave_def wait_sem_leave_def)

lemma sem_ok_leave_up: "sem_ok s \<Longrightarrow> p \<in> up s \<Longrightarrow> sem_ok (s\<lparr>up := up s - {p}\<rparr>) \<and> \<not> waits p (s\<lparr>up := up s - {p}\<rparr>)"
  by (auto simp: sem_ok_def)

section \<open>Threads on a semaphore\<close>

text \<open>
  The calls of any number of threads on one semaphore, in the order in which they hold
  its lock. \<open>sem_run v s n g\<close>: from value \<open>v\<close>, after \<open>n\<close> posts and \<open>g\<close> permits handed out, the
  semaphore is \<open>s\<close>. A permit is handed out when a thread gets past \<^verbatim>\<open>_wait_sem\<close> or
  \<^verbatim>\<open>_get_sem\<close> at once or when a post wakes it. A thread may leave its wait without a post
  when an alert wakes it.
\<close>

inductive sem_run :: "int \<Rightarrow> semaphore \<Rightarrow> nat \<Rightarrow> nat \<Rightarrow> bool" for v where
  start: "sem_run v (init_sem v) 0 0"
| pass: "sem_run v s n g \<Longrightarrow> wait_sem_enter p s = (True, s') \<Longrightarrow> sem_run v s' n (Suc g)"
| block: "sem_run v s n g \<Longrightarrow> p \<notin> set (sleeplist s) \<union> up s \<Longrightarrow> wait_sem_enter p s = (False, s') \<Longrightarrow>
    sem_run v s' n g"
| grab: "sem_run v s n g \<Longrightarrow> get_sem s = (True, s') \<Longrightarrow> sem_run v s' n (Suc g)"
| post: "sem_run v s n g \<Longrightarrow> post_sem s = Ret (None, s') \<Longrightarrow> sem_run v s' (Suc n) g"
| wake: "sem_run v s n g \<Longrightarrow> post_sem s = Ret (Some p, s') \<Longrightarrow> sem_run v s' (Suc n) (Suc g)"
| leave: "sem_run v s n g \<Longrightarrow> p \<in> set (sleeplist s) \<union> up s \<Longrightarrow> wait_sem_leave p s = Ret (b, s') \<Longrightarrow>
    sem_run v s' n g"

lemma sem_run_inv:
  assumes "sem_run v s n g" and "0 \<le> v"
  shows "sem_ok s \<and> v + int n = int g + max 0 (val s)"
  using assms
proof (induction rule: sem_run.induct)
  case start
  then show ?case by (simp add: sem_ok_init) (simp add: init_sem_def)
next
  case (pass s n g p s')
  then show ?case by (auto simp: wait_sem_enter_def Let_def sem_ok_def split: if_splits)
next
  case (block s n g p s')
  then have "sem_ok s'" using sem_ok_wait_enter [of s p] by simp
  moreover have "max 0 (val s') = max 0 (val s)"
    using block by (auto simp: wait_sem_enter_def Let_def split: if_splits)
  ultimately show ?case using block by simp
next
  case (grab s n g s')
  then show ?case by (auto simp: get_sem_def sem_ok_def split: if_splits)
next
  case (post s n g s')
  then have ok: "sem_ok s" by simp
  have "sleeplist s = []" using post.hyps(2) post_sem_result [OF ok] by (auto split: list.splits)
  moreover from this have "0 \<le> val s" using sem_ok_neg [OF ok] by auto
  ultimately show ?case using post sem_ok_post [OF ok post.hyps(2)] post_sem_val [OF post.hyps(2)]
    by simp
next
  case (wake s n g p s')
  then have ok: "sem_ok s" by simp
  have "sleeplist s \<noteq> []" using wake.hyps(2) post_sem_result [OF ok] by (auto split: list.splits)
  then have "val s < 0" using sem_ok_neg [OF ok] by simp
  then show ?case using wake sem_ok_post [OF ok wake.hyps(2)] post_sem_val [OF wake.hyps(2)] by simp
next
  case (leave s n g p b s')
  then have ok: "sem_ok s" by simp
  have "max 0 (val s') = max 0 (val s)"
    using leave.hyps(3) sem_ok_neg [OF ok] leave.hyps(2)
    unfolding wait_sem_leave_result [OF ok leave.hyps(2)] by (auto split: if_splits)
  then show ?case using leave sem_ok_wait_leave [OF ok leave.hyps(2,3)] by simp
qed

section \<open>Properties\<close>



text \<open>
  \<^verbatim>\<open>post_all_sem\<close>, and so \<^verbatim>\<open>cond_broadcast\<close>, ends, wakes every sleeping thread in the
  order in which they went to sleep, returns their number, and leaves no permit behind
  that was not there before.
\<close>

theorem post_all_wakes_everyone:
  assumes "sem_ok s"
  shows "\<exists>s'. post_all_sem s = Ret (int (length (sleeplist s)), sleeplist s, s') \<and>
    cond_broadcast s = Ret (sleeplist s, s') \<and>
    sem_ok s' \<and> sleeplist s' = [] \<and> up s' = up s \<union> set (sleeplist s) \<and> val s' = max 0 (val s)"
  using assms by (simp add: post_all_sem_result cond_broadcast_def sem_ok_def)

theorem post_all_wakes_everyone_witness:
  "\<exists>s'. post_all_sem \<lparr>val = - 2, sleeplist = [4, 9], up = {}\<rparr> = Ret (2, [4, 9], s') \<and> val s' = 0"
  using post_all_wakes_everyone [of "\<lparr>val = - 2, sleeplist = [4, 9], up = {}\<rparr>"]
  by (auto simp: sem_ok_def)

text \<open>
  Contrary to its description (wait for the condition to be signalled), the first
  \<^verbatim>\<open>cond_wait\<close> on a condition variable set up by \<^verbatim>\<open>cond_init\<close> returns at once, and so does
  the first one after a signal that found nobody waiting: signals are remembered.
\<close>

theorem cond_wait_remembers:
  "cond_wait_enter p cond_init = Ret (True, init_sem 0) \<and>
   (\<exists>s. cond_signal (init_sem 0) = Ret (None, s) \<and> cond_wait_enter p s = Ret (True, init_sem 0))"
  by (simp add: cond_wait_enter_def cond_init_def init_sem_def query_sem_def get_sem_def
      cond_signal_def post_sem_def)

end
