(* ===== verification/Bytes.thy ===== *)
theory Bytes
  imports Prelude
begin

text \<open>
  The byte representation of the integers the kernel keeps on disk. Structures are
  written to blocks by casting their address to \<^verbatim>\<open>u8 *\<close>, on a little-endian machine: an
  integer of \<open>w\<close> bytes is the list of its bytes, the least significant first. A field at
  a byte offset is read with \<open>get_le\<close> and written with \<open>put_le\<close>; the lemmas are the
  read-over-write laws.
\<close>

section \<open>Little-endian integers\<close>

primrec le_bytes :: "nat \<Rightarrow> nat \<Rightarrow> u8 list" where
  "le_bytes 0 n = []"
| "le_bytes (Suc w) n = of_nat (n mod 256) # le_bytes w (n div 256)"

primrec le_nat :: "u8 list \<Rightarrow> nat" where
  "le_nat [] = 0"
| "le_nat (b # bs) = unat b + 256 * le_nat bs"

lemma length_le_bytes [simp]: "length (le_bytes w n) = w"
  by (induction w arbitrary: n) simp_all

lemma le_nat_le_bytes: "le_nat (le_bytes w n) = n mod 256 ^ w"
proof (induction w arbitrary: n)
  case 0
  then show ?case by simp
next
  case (Suc w)
  have "unat (of_nat (n mod 256) :: u8) = n mod 256"
    by (simp add: unat_of_nat)
  with Suc show ?case by (simp add: mod_mult2_eq)
qed

lemma le_nat_le_bytes_id: "n < 256 ^ w \<Longrightarrow> le_nat (le_bytes w n) = n"
  by (simp add: le_nat_le_bytes)

lemma le_nat_bound: "le_nat bs < 256 ^ length bs"
proof (induction bs)
  case Nil
  then show ?case by simp
next
  case (Cons b bs)
  have "unat b < 256" using unsigned_less [of b] by simp
  moreover have "le_nat bs + 1 \<le> 256 ^ length bs" using Cons.IH by simp
  then have "256 * (le_nat bs + 1) \<le> 256 * 256 ^ length bs" by (rule mult_le_mono2)
  ultimately show ?case by simp
qed

lemma le_bytes_le_nat: "length bs = w \<Longrightarrow> le_bytes w (le_nat bs) = bs"
proof (induction bs arbitrary: w)
  case Nil
  then show ?case by simp
next
  case (Cons b bs)
  have b: "unat b < 256" using unsigned_less [of b] by simp
  have "(unat b + 256 * le_nat bs) mod 256 = unat b" using b by simp
  moreover have "(unat b + 256 * le_nat bs) div 256 = le_nat bs" using b by simp
  ultimately show ?case using Cons by auto
qed

section \<open>Fields of a block\<close>

definition slice :: "nat \<Rightarrow> nat \<Rightarrow> 'a list \<Rightarrow> 'a list" where
  "slice off n xs = take n (drop off xs)"

definition patch :: "nat \<Rightarrow> 'a list \<Rightarrow> 'a list \<Rightarrow> 'a list" where
  "patch off ys xs = take off xs @ ys @ drop (off + length ys) xs"

lemma length_slice [simp]: "off + n \<le> length xs \<Longrightarrow> length (slice off n xs) = n"
  by (simp add: slice_def)

lemma length_patch [simp]: "off + length ys \<le> length xs \<Longrightarrow> length (patch off ys xs) = length xs"
  by (simp add: patch_def)

lemma nth_slice: "i < n \<Longrightarrow> off + n \<le> length xs \<Longrightarrow> slice off n xs ! i = xs ! (off + i)"
  by (simp add: slice_def)

lemma nth_patch:
  "off + length ys \<le> length xs \<Longrightarrow> i < length xs \<Longrightarrow>
   patch off ys xs ! i = (if off \<le> i \<and> i < off + length ys then ys ! (i - off) else xs ! i)"
  by (auto simp: patch_def nth_append)

lemma slice_patch_same [simp]:
  "off + length ys \<le> length xs \<Longrightarrow> n = length ys \<Longrightarrow> slice off n (patch off ys xs) = ys"
  by (simp add: slice_def patch_def)

lemma slice_patch_other:
  assumes "off + length ys \<le> length xs" and "p + n \<le> length xs"
    and "p + n \<le> off \<or> off + length ys \<le> p"
  shows "slice p n (patch off ys xs) = slice p n xs"
  using assms by (intro nth_equalityI) (auto simp: nth_slice nth_patch)

lemma patch_slice_id [simp]: "off + n \<le> length xs \<Longrightarrow> patch off (slice off n xs) xs = xs"
  by (intro nth_equalityI) (auto simp: nth_patch nth_slice)

lemma patch_all [simp]: "length ys = length xs \<Longrightarrow> patch 0 ys xs = ys"
  by (simp add: patch_def)

definition get_le :: "nat \<Rightarrow> nat \<Rightarrow> u8 list \<Rightarrow> nat" where
  "get_le w off bs = le_nat (slice off w bs)"

definition put_le :: "nat \<Rightarrow> nat \<Rightarrow> nat \<Rightarrow> u8 list \<Rightarrow> u8 list" where
  "put_le w off n bs = patch off (le_bytes w n) bs"

lemma length_put_le [simp]: "off + w \<le> length bs \<Longrightarrow> length (put_le w off n bs) = length bs"
  by (simp add: put_le_def)

lemma get_put_le: "off + w \<le> length bs \<Longrightarrow> n < 256 ^ w \<Longrightarrow> get_le w off (put_le w off n bs) = n"
  by (simp add: get_le_def put_le_def le_nat_le_bytes_id)

lemma get_put_le_other:
  "\<lbrakk>off + w \<le> length bs; p + v \<le> length bs; p + v \<le> off \<or> off + w \<le> p\<rbrakk>
   \<Longrightarrow> get_le v p (put_le w off n bs) = get_le v p bs"
  by (simp add: get_le_def put_le_def slice_patch_other)

lemma get_le_bound: "off + w \<le> length bs \<Longrightarrow> get_le w off bs < 256 ^ w"
  using le_nat_bound [of "slice off w bs"] by (simp add: get_le_def)

lemma put_get_le [simp]: "off + w \<le> length bs \<Longrightarrow> put_le w off (get_le w off bs) bs = bs"
  by (simp add: put_le_def get_le_def le_bytes_le_nat)

section \<open>Arrays of integers\<close>

text \<open>A block seen as an array of \<open>w\<close>-byte integers, as after a pointer cast.\<close>

definition le_array :: "nat \<Rightarrow> nat \<Rightarrow> u8 list \<Rightarrow> nat list" where
  "le_array w n bs = map (\<lambda>i. get_le w (i * w) bs) [0..<n]"

definition of_le_array :: "nat \<Rightarrow> nat list \<Rightarrow> u8 list" where
  "of_le_array w ns = concat (map (le_bytes w) ns)"

lemma length_le_array [simp]: "length (le_array w n bs) = n"
  by (simp add: le_array_def)

lemma length_of_le_array [simp]: "length (of_le_array w ns) = w * length ns"
  by (induction ns) (simp_all add: of_le_array_def)

lemma slice_of_le_array:
  "i < length ns \<Longrightarrow> slice (i * w) w (of_le_array w ns) = le_bytes w (ns ! i)"
proof (induction ns arbitrary: i)
  case Nil
  then show ?case by simp
next
  case (Cons n ns)
  then show ?case
    by (cases i) (simp_all add: of_le_array_def slice_def)
qed

lemma le_array_of_le_array:
  assumes "\<forall>n \<in> set ns. n < 256 ^ w"
  shows "le_array w (length ns) (of_le_array w ns) = ns"
  using assms
  by (intro nth_equalityI) (simp_all add: le_array_def get_le_def slice_of_le_array le_nat_le_bytes_id)

lemma of_le_array_le_array:
  "length bs = w * n \<Longrightarrow> of_le_array w (le_array w n bs) = bs"
proof (induction n arbitrary: bs)
  case 0
  then show ?case by (simp add: of_le_array_def le_array_def)
next
  case (Suc n)
  let ?fore = "take (w * n) bs" and ?rear = "drop (w * n) bs"
  have len: "length ?fore = w * n" "length ?rear = w" using Suc.prems by simp_all
  have fr: "get_le w (i * w) bs = get_le w (i * w) ?fore" if "i < n" for i
  proof -
    have "i * w + w \<le> n * w" using that by (metis Suc_leI add.commute mult_Suc mult_le_mono1)
    then have "slice (i * w) w bs = slice (i * w) w ?fore"
      using Suc.prems by (simp add: slice_def take_drop min_def mult.commute add.commute)
    then show ?thesis by (simp add: get_le_def)
  qed
  have "le_array w (Suc n) bs = le_array w n ?fore @ [le_nat ?rear]"
    using fr len by (simp add: le_array_def get_le_def slice_def mult.commute)
  then have "of_le_array w (le_array w (Suc n) bs) = of_le_array w (le_array w n ?fore) @ le_bytes w (le_nat ?rear)"
    by (simp add: of_le_array_def)
  also have "\<dots> = ?fore @ ?rear"
    using Suc.IH [OF len(1)] len(2) by (simp add: le_bytes_le_nat)
  finally show ?case by simp
qed

end
