(* ===== verification/Disk.thy ===== *)
theory Disk
  imports Sem Bytes
begin

text \<open>
  The request queue in front of the SD card (\<^verbatim>\<open>driver/disk.c\<close>) and the block device the
  file system uses (\<^verbatim>\<open>fs/block_device.c\<close>). Requests are buffers in a first-in first-out
  queue; the one at the front has been sent to the card, and the interrupt that reports
  its completion fills it in, wakes its owner and starts the next one. The card is a map
  from command addresses to sectors: a write command hands over the sector when it is
  started, a read command delivers it when it completes. The transfer itself (\<^verbatim>\<open>sd.c\<close>,
  memory-mapped registers) is not modelled, nor are its error codes, on which the driver
  panics.
\<close>

section \<open>Buffers and the card\<close>

definition B_VALID :: int where
  "B_VALID = 2"

definition B_DIRTY :: int where
  "B_DIRTY = 4"

record buf =
  flags :: int
  blockno :: u32
  bdata :: "u8 list"
  bsem :: semaphore

type_synonym card = "u32 \<Rightarrow> u8 list"

record disk =
  bufs :: "nat list"
  reqs :: "nat \<Rightarrow> buf"
  sectors :: card

text \<open>
  The argument of the command: the block number on a high-capacity card, a byte address
  on the others. The shift of the 32-bit integer drops the bits it moves out.
\<close>

definition sd_addr :: "bool \<Rightarrow> u32 \<Rightarrow> u32" where
  "sd_addr hc bno = (if hc then bno else push_bit 9 bno)"

definition disk_start :: "bool \<Rightarrow> nat \<Rightarrow> disk \<Rightarrow> disk" where
  "disk_start hc r d =
     (let b = reqs d r; bno = sd_addr hc (blockno b)
      in if flags b AND B_DIRTY \<noteq> 0 then d\<lparr>sectors := (sectors d)(bno := bdata b)\<rparr> else d)"

text \<open>
  The interrupt. The thread it wakes is the one that waits on the buffer's semaphore.
\<close>

definition disk_intr :: "bool \<Rightarrow> disk \<Rightarrow> disk outcome" where
  "disk_intr hc d =
     (case bufs d of
        [] \<Rightarrow> Panic
      | r # rest \<Rightarrow>
          let b = reqs d r in
          andthen
            (if flags b = 0 then Ret (b\<lparr>bdata := sectors d (sd_addr hc (blockno b))\<rparr>)
             else if flags b AND B_DIRTY \<noteq> 0 then Ret b
             else Panic)
            (\<lambda>b1.
          andthen (cond_signal (bsem b1)) (\<lambda>(_, s1).
          let d1 = d\<lparr>reqs := (reqs d)(r := b1\<lparr>flags := B_VALID, bsem := s1\<rparr>), bufs := rest\<rparr>
          in case rest of [] \<Rightarrow> Ret d1 | r' # _ \<Rightarrow> Ret (disk_start hc r' d1))))"

text \<open>
  Submission: the part of \<^verbatim>\<open>disk_rw\<close> before the loop that waits for the flags to become
  \<^verbatim>\<open>B_VALID\<close>.
\<close>

definition disk_rw_submit :: "bool \<Rightarrow> nat \<Rightarrow> buf \<Rightarrow> disk \<Rightarrow> disk" where
  "disk_rw_submit hc r b d =
     (let b1 = b\<lparr>bsem := init_sem 0\<rparr>;
          d1 = d\<lparr>bufs := bufs d @ [r], reqs := (reqs d)(r := b1)\<rparr>
      in if length (bufs d1) = 1 then disk_start hc r d1 else d1)"

text \<open>
  The wait loop for one request: as long as the buffer is not valid the thread sleeps,
  and the card goes on with one request per interrupt. The fuel bounds the number of
  interrupts.
\<close>

primrec disk_rw_wait :: "nat \<Rightarrow> bool \<Rightarrow> nat \<Rightarrow> disk \<Rightarrow> disk outcome" where
  "disk_rw_wait 0 hc r d = (if flags (reqs d r) = B_VALID then Ret d else Sleep)"
| "disk_rw_wait (Suc fuel) hc r d =
     (if flags (reqs d r) = B_VALID then Ret d
      else andthen (disk_intr hc d) (disk_rw_wait fuel hc r))"

definition disk_rw :: "nat \<Rightarrow> bool \<Rightarrow> nat \<Rightarrow> buf \<Rightarrow> disk \<Rightarrow> disk outcome" where
  "disk_rw fuel hc r b d = disk_rw_wait fuel hc r (disk_rw_submit hc r b d)"

section \<open>What a request does\<close>

definition req_ok :: "buf \<Rightarrow> bool" where
  "req_ok b \<longleftrightarrow> flags b = 0 \<or> flags b = B_DIRTY OR B_VALID"

definition is_write :: "buf \<Rightarrow> bool" where
  "is_write b \<longleftrightarrow> flags b AND B_DIRTY \<noteq> 0"

text \<open>Serving one request on the card, and a sequence of requests in order.\<close>

definition store_req :: "bool \<Rightarrow> buf \<Rightarrow> card \<Rightarrow> card" where
  "store_req hc b c = (if is_write b then c(sd_addr hc (blockno b) := bdata b) else c)"

definition answer_req :: "bool \<Rightarrow> buf \<Rightarrow> card \<Rightarrow> u8 list" where
  "answer_req hc b c = (if is_write b then bdata b else c (sd_addr hc (blockno b)))"

lemma req_flags [simp]: "req_ok b \<Longrightarrow> flags b = 0 \<longleftrightarrow> \<not> is_write b"
  by (auto simp: req_ok_def is_write_def B_DIRTY_def B_VALID_def)

text \<open>
  The queue holds the requests still to be answered, oldest first; the front one has
  been started. The invariant relates the disk to the card on which the requests of the
  queue have not been served yet.
\<close>

definition disk_inv :: "bool \<Rightarrow> disk \<Rightarrow> card \<Rightarrow> bool" where
  "disk_inv hc d c \<longleftrightarrow>
     distinct (bufs d) \<and> (\<forall>r \<in> set (bufs d). req_ok (reqs d r) \<and> sem_ok (bsem (reqs d r))) \<and>
     sectors d = (case bufs d of [] \<Rightarrow> c | r # _ \<Rightarrow> store_req hc (reqs d r) c)"

lemma disk_start_store:
  "disk_start hc r d = d\<lparr>sectors := store_req hc (reqs d r) (sectors d)\<rparr>"
  by (simp add: disk_start_def store_req_def is_write_def Let_def)

lemma disk_submit_inv:
  assumes "disk_inv hc d c" and "req_ok b" and "r \<notin> set (bufs d)"
  shows "disk_inv hc (disk_rw_submit hc r b d) c \<and>
    bufs (disk_rw_submit hc r b d) = bufs d @ [r] \<and>
    reqs (disk_rw_submit hc r b d) = (reqs d)(r := b\<lparr>bsem := init_sem 0\<rparr>)"
  using assms
  by (cases "bufs d")
    (auto simp: disk_inv_def disk_rw_submit_def disk_start_store Let_def req_ok_def sem_ok_init)

lemma disk_intr_result:
  assumes inv: "disk_inv hc d c" and bufs: "bufs d = r # rest"
  shows "\<exists>d' s. disk_intr hc d = Ret d' \<and> bufs d' = rest \<and>
    reqs d' = (reqs d)(r := (reqs d r)\<lparr>bdata := answer_req hc (reqs d r) c, flags := B_VALID, bsem := s\<rparr>) \<and>
    disk_inv hc d' (store_req hc (reqs d r) c)"
proof -
  let ?b = "reqs d r"
  have rq: "req_ok ?b" and so: "sem_ok (bsem ?b)" and dist: "distinct (r # rest)"
    and sec: "sectors d = store_req hc ?b c"
    using inv bufs by (auto simp: disk_inv_def)
  let ?b1 = "?b\<lparr>bdata := answer_req hc ?b c\<rparr>"
  have data: "(if flags ?b = 0 then Ret (?b\<lparr>bdata := sectors d (sd_addr hc (blockno ?b))\<rparr>)
      else if flags ?b AND B_DIRTY \<noteq> 0 then Ret ?b else Panic) = Ret ?b1"
    using rq sec by (auto simp: answer_req_def store_req_def is_write_def)
  obtain w s where sig: "cond_signal (bsem ?b) = Ret (w, s)"
    using post_sem_result [OF so] by (auto simp: cond_signal_def split: list.splits)
  let ?d1 = "d\<lparr>reqs := (reqs d)(r := ?b1\<lparr>flags := B_VALID, bsem := s\<rparr>), bufs := rest\<rparr>"
  have run: "disk_intr hc d = (case rest of [] \<Rightarrow> Ret ?d1 | r' # _ \<Rightarrow> Ret (disk_start hc r' ?d1))"
    using data sig bufs by (simp add: disk_intr_def Let_def)
  have "\<forall>r' \<in> set rest. reqs ?d1 r' = reqs d r'" using dist by auto
  then show ?thesis
    using run inv bufs dist sec
    by (cases rest) (auto simp: disk_inv_def disk_start_store)
qed

lemma disk_wait_result:
  assumes "disk_inv hc d c" and "bufs d = qs @ r # rest" and "length qs < fuel"
  shows "\<exists>d'. disk_rw_wait fuel hc r d = Ret d' \<and> bufs d' = rest \<and> flags (reqs d' r) = B_VALID \<and>
    bdata (reqs d' r) = answer_req hc (reqs d r) (fold (\<lambda>q. store_req hc (reqs d q)) qs c) \<and>
    disk_inv hc d' (store_req hc (reqs d r) (fold (\<lambda>q. store_req hc (reqs d q)) qs c))"
  using assms
proof (induction qs arbitrary: d c fuel)
  case Nil
  then obtain n where n: "fuel = Suc n" by (cases fuel) auto
  have nv: "flags (reqs d r) \<noteq> B_VALID" using Nil.prems
    by (auto simp: disk_inv_def req_ok_def B_VALID_def B_DIRTY_def)
  from disk_intr_result [OF Nil.prems(1), of r rest] Nil.prems(2)
  obtain d' s where "disk_intr hc d = Ret d'" "bufs d' = rest"
    "reqs d' = (reqs d)(r := (reqs d r)\<lparr>bdata := answer_req hc (reqs d r) c, flags := B_VALID, bsem := s\<rparr>)"
    "disk_inv hc d' (store_req hc (reqs d r) c)" by auto
  then show ?case using n nv by (cases n) simp_all
next
  case (Cons q qs)
  then obtain n where n: "fuel = Suc n" by (cases fuel) auto
  have nv: "flags (reqs d r) \<noteq> B_VALID" and dist: "distinct (q # qs @ r # rest)" using Cons.prems
    by (auto simp: disk_inv_def req_ok_def B_VALID_def B_DIRTY_def)
  from disk_intr_result [OF Cons.prems(1), of q "qs @ r # rest"] Cons.prems(2)
  obtain d1 s where i: "disk_intr hc d = Ret d1" and b1: "bufs d1 = qs @ r # rest"
    and r1: "reqs d1 = (reqs d)(q := (reqs d q)\<lparr>bdata := answer_req hc (reqs d q) c, flags := B_VALID, bsem := s\<rparr>)"
    and v1: "disk_inv hc d1 (store_req hc (reqs d q) c)" by auto
  have same: "reqs d1 x = reqs d x" if "x \<in> set (qs @ r # rest)" for x
    using r1 dist that by auto
  have "fold (\<lambda>q. store_req hc (reqs d1 q)) qs c' = fold (\<lambda>q. store_req hc (reqs d q)) qs c'" for c'
    using same by (intro fold_cong) auto
  moreover have "length qs < n" using Cons.prems(3) n by simp
  ultimately show ?case using Cons.IH [OF v1 b1] n nv i same [of r] by simp
qed

section \<open>The block device\<close>

definition BLOCK_SIZE :: nat where
  "BLOCK_SIZE = 512"

text \<open>
  The two operations of \<^verbatim>\<open>struct block_device\<close>, over the state of whatever device is behind
  them.
\<close>

record 'd block_device =
  dev_read :: "nat \<Rightarrow> 'd \<Rightarrow> u8 list outcome"
  dev_write :: "nat \<Rightarrow> u8 list \<Rightarrow> 'd \<Rightarrow> 'd outcome"

text \<open>The disk with an empty queue, on which the file system's own call is the only one.\<close>

definition idle :: "card \<Rightarrow> disk" where
  "idle c = \<lparr>bufs = [], reqs = (\<lambda>_. \<lparr>flags = B_VALID, blockno = 0, bdata = [], bsem = init_sem 0\<rparr>),
     sectors = c\<rparr>"

definition sd_blockno :: "nat \<Rightarrow> nat \<Rightarrow> u32" where
  "sd_blockno sb_base block_no = of_nat (block_no mod 2 ^ 32 + sb_base)"

definition sd_read :: "nat \<Rightarrow> bool \<Rightarrow> nat \<Rightarrow> card \<Rightarrow> u8 list outcome" where
  "sd_read sb_base hc block_no c =
     (let b = \<lparr>flags = 0, blockno = sd_blockno sb_base block_no, bdata = replicate BLOCK_SIZE 0,
               bsem = init_sem 0\<rparr>
      in andthen (disk_rw 1 hc 0 b (idle c)) (\<lambda>d. Ret (take BLOCK_SIZE (bdata (reqs d 0)))))"

definition sd_write :: "nat \<Rightarrow> bool \<Rightarrow> nat \<Rightarrow> u8 list \<Rightarrow> card \<Rightarrow> card outcome" where
  "sd_write sb_base hc block_no buffer c =
     (let b = \<lparr>flags = B_DIRTY OR B_VALID, blockno = sd_blockno sb_base block_no,
               bdata = take BLOCK_SIZE buffer, bsem = init_sem 0\<rparr>
      in andthen (disk_rw 1 hc 0 b (idle c)) (\<lambda>d. Ret (sectors d)))"

definition sd_device :: "nat \<Rightarrow> bool \<Rightarrow> card block_device" where
  "sd_device sb_base hc = \<lparr>dev_read = sd_read sb_base hc, dev_write = sd_write sb_base hc\<rparr>"

record super_block =
  num_blocks :: nat
  num_data_blocks :: nat
  num_inodes :: nat
  num_log_blocks :: nat
  log_start :: nat
  inode_start :: nat
  bitmap_start :: nat

text \<open>The super block as the cast of the first block to \<^verbatim>\<open>struct super_block\<close>: seven 32-bit words.\<close>

definition get_super_block :: "u8 list \<Rightarrow> super_block" where
  "get_super_block sblock_data =
     \<lparr>num_blocks = get_le 4 0 sblock_data, num_data_blocks = get_le 4 4 sblock_data,
      num_inodes = get_le 4 8 sblock_data, num_log_blocks = get_le 4 12 sblock_data,
      log_start = get_le 4 16 sblock_data, inode_start = get_le 4 20 sblock_data,
      bitmap_start = get_le 4 24 sblock_data\<rparr>"

definition init_block_device :: "nat \<Rightarrow> bool \<Rightarrow> card \<Rightarrow> (card block_device \<times> u8 list) outcome" where
  "init_block_device sb_base hc c =
     (let dv = sd_device sb_base hc
      in andthen (dev_read dv 0 c) (\<lambda>sblock_data. Ret (dv, sblock_data)))"

text \<open>
  What a client of a block device relies on. \<open>content\<close> is what the device stores, \<open>store\<close> its
  state after a write, \<open>on_device\<close> the block numbers it has, \<open>well\<close> the states it can be in.
  The calls return (\<open>device_calls\<close>); on a device that keeps what it is given, reading a
  block gives the last content written to it and writing one block changes no other
  (\<open>block_dev\<close>).
\<close>

locale device_calls =
  fixes dv :: "'d block_device"
    and content :: "'d \<Rightarrow> nat \<Rightarrow> u8 list"
    and store :: "nat \<Rightarrow> u8 list \<Rightarrow> 'd \<Rightarrow> 'd"
    and on_device :: "nat \<Rightarrow> bool"
    and well :: "'d \<Rightarrow> bool"
  assumes read_law: "well d \<Longrightarrow> on_device n \<Longrightarrow> dev_read dv n d = Ret (content d n)"
    and write_law: "well d \<Longrightarrow> on_device n \<Longrightarrow> length x = BLOCK_SIZE \<Longrightarrow>
      dev_write dv n x d = Ret (store n x d)"
    and content_size: "well d \<Longrightarrow> on_device n \<Longrightarrow> length (content d n) = BLOCK_SIZE"
    and store_well: "well d \<Longrightarrow> on_device n \<Longrightarrow> length x = BLOCK_SIZE \<Longrightarrow> well (store n x d)"
    and on_device_bound: "on_device n \<Longrightarrow> n < 2 ^ 64"

locale block_dev = device_calls +
  assumes content_store: "well d \<Longrightarrow> on_device n \<Longrightarrow> on_device m \<Longrightarrow> length x = BLOCK_SIZE \<Longrightarrow>
      content (store n x d) m = (if m = n then x else content d m)"

text \<open>
  A device that loses power after \<open>k\<close> more writes: the writes after that are lost. What is
  left on it is what a later recovery finds.
\<close>

definition crash_device :: "'d block_device \<Rightarrow> ('d \<times> nat) block_device" where
  "crash_device dv =
     \<lparr>dev_read = (\<lambda>n (d, k). dev_read dv n d),
      dev_write = (\<lambda>n x (d, k).
        if k = 0 then Ret (d, 0) else andthen (dev_write dv n x d) (\<lambda>d'. Ret (d', k - 1)))\<rparr>"

definition crash_store :: "(nat \<Rightarrow> u8 list \<Rightarrow> 'd \<Rightarrow> 'd) \<Rightarrow> nat \<Rightarrow> u8 list \<Rightarrow> 'd \<times> nat \<Rightarrow> 'd \<times> nat" where
  "crash_store store n x dk = (case dk of (d, k) \<Rightarrow> if k = 0 then (d, 0) else (store n x d, k - 1))"

sublocale block_dev \<subseteq> crash: device_calls "crash_device dv" "\<lambda>dk. content (fst dk)" "crash_store store"
  on_device "\<lambda>dk. well (fst dk)"
  by unfold_locales
    (auto simp: crash_device_def crash_store_def read_law write_law content_size store_well
      split: prod.splits dest: on_device_bound)

text \<open>
  The SD card. Block numbers are in range when the sector number, and on a
  standard-capacity card the byte address, fits 32 bits.
\<close>

definition sd_on_device :: "nat \<Rightarrow> bool \<Rightarrow> nat \<Rightarrow> bool" where
  "sd_on_device sb_base hc n \<longleftrightarrow> sb_base + n < (if hc then 2 ^ 32 else 2 ^ 23)"

definition sd_sector :: "nat \<Rightarrow> bool \<Rightarrow> nat \<Rightarrow> u32" where
  "sd_sector sb_base hc n = sd_addr hc (sd_blockno sb_base n)"

definition sd_content :: "nat \<Rightarrow> bool \<Rightarrow> card \<Rightarrow> nat \<Rightarrow> u8 list" where
  "sd_content sb_base hc c n = c (sd_sector sb_base hc n)"

definition sd_store :: "nat \<Rightarrow> bool \<Rightarrow> nat \<Rightarrow> u8 list \<Rightarrow> card \<Rightarrow> card" where
  "sd_store sb_base hc n x c = c(sd_sector sb_base hc n := x)"

definition card_well :: "card \<Rightarrow> bool" where
  "card_well c \<longleftrightarrow> (\<forall>a. length (c a) = BLOCK_SIZE)"

lemma unat_sd_blockno:
  assumes "sd_on_device sb_base hc n"
  shows "unat (sd_blockno sb_base n) = sb_base + n"
proof -
  have "sb_base + n < 2 ^ 32" using assms by (auto simp: sd_on_device_def split: if_splits)
  then have "(n mod 2 ^ 32 + sb_base) mod 2 ^ LENGTH(32) = sb_base + n" by simp
  then show ?thesis by (simp only: sd_blockno_def unat_of_nat)
qed

lemma unat_sd_sector:
  "sd_on_device sb_base hc n \<Longrightarrow>
   unat (sd_sector sb_base hc n) = (if hc then sb_base + n else 512 * (sb_base + n))"
  by (auto simp: sd_sector_def sd_addr_def push_bit_eq_mult unat_word_ariths unat_sd_blockno
      sd_on_device_def split: if_splits)

lemma sd_sector_inj:
  assumes "sd_on_device sb_base hc n" and "sd_on_device sb_base hc m"
  shows "sd_sector sb_base hc n = sd_sector sb_base hc m \<longleftrightarrow> n = m"
  using assms unat_sd_sector by (metis add_left_cancel mult_left_cancel zero_neq_numeral)

lemma disk_rw_idle:
  assumes "req_ok b"
  shows "\<exists>d. disk_rw 1 hc 0 b (idle c) = Ret d \<and> bdata (reqs d 0) = answer_req hc b c \<and>
    sectors d = store_req hc b c"
proof -
  have "disk_inv hc (idle c) c" by (simp add: disk_inv_def idle_def)
  from disk_submit_inv [OF this assms, of 0]
  have inv: "disk_inv hc (disk_rw_submit hc 0 b (idle c)) c"
    and bufs: "bufs (disk_rw_submit hc 0 b (idle c)) = [] @ 0 # []"
    and reqs: "reqs (disk_rw_submit hc 0 b (idle c)) 0 = b\<lparr>bsem := init_sem 0\<rparr>"
    by (simp_all add: idle_def)
  from disk_wait_result [OF inv bufs, of 1] reqs
  show ?thesis by (fastforce simp: disk_rw_def disk_inv_def answer_req_def store_req_def is_write_def)
qed

interpretation sd: block_dev "sd_device sb_base hc" "sd_content sb_base hc" "sd_store sb_base hc"
  "sd_on_device sb_base hc" card_well for sb_base hc
proof
  show "n < 2 ^ 64" if "sd_on_device sb_base hc n" for n
    using that by (auto simp: sd_on_device_def split: if_splits)
next
  fix d n and x :: "u8 list"
  let ?rd = "\<lparr>flags = 0, blockno = sd_blockno sb_base n, bdata = replicate BLOCK_SIZE 0,
      bsem = init_sem 0\<rparr>"
  let ?wr = "\<lparr>flags = B_DIRTY OR B_VALID, blockno = sd_blockno sb_base n, bdata = x,
      bsem = init_sem 0\<rparr>"
  assume well: "card_well d" and n: "sd_on_device sb_base hc n"
  obtain d' where "disk_rw 1 hc 0 ?rd (idle d) = Ret d'" "bdata (reqs d' 0) = sd_content sb_base hc d n"
    using disk_rw_idle [of ?rd hc d]
    by (auto simp: req_ok_def answer_req_def is_write_def sd_content_def sd_sector_def)
  moreover have "length (sd_content sb_base hc d n) = BLOCK_SIZE"
    using well by (simp add: card_well_def sd_content_def)
  ultimately show "dev_read (sd_device sb_base hc) n d = Ret (sd_content sb_base hc d n)"
    by (simp add: sd_device_def sd_read_def)
  show "length (sd_content sb_base hc d n) = BLOCK_SIZE" by fact
  assume x: "length x = BLOCK_SIZE"
  have "B_DIRTY OR B_VALID \<noteq> 0" "(B_DIRTY OR B_VALID) AND B_DIRTY \<noteq> 0"
    by (simp_all add: B_DIRTY_def B_VALID_def)
  then obtain d' where "disk_rw 1 hc 0 ?wr (idle d) = Ret d'" "sectors d' = sd_store sb_base hc n x d"
    using disk_rw_idle [of ?wr hc d]
    by (auto simp: req_ok_def store_req_def is_write_def sd_store_def sd_sector_def)
  then show "dev_write (sd_device sb_base hc) n x d = Ret (sd_store sb_base hc n x d)"
    using x by (simp add: sd_device_def sd_write_def)
  show "card_well (sd_store sb_base hc n x d)"
    using well x by (simp add: card_well_def sd_store_def)
  show "sd_content sb_base hc (sd_store sb_base hc n x d) m =
      (if m = n then x else sd_content sb_base hc d m)" if "sd_on_device sb_base hc m" for m
    using sd_sector_inj [OF n that] by (auto simp: sd_content_def sd_store_def)
qed

section \<open>Properties\<close>



end
