(* ===== verification/Cache.thy ===== *)
theory Cache
  imports Disk Bitmap
begin

text \<open>
  The block cache with its write-ahead log (\<^verbatim>\<open>fs/cache.c\<close>, \<^verbatim>\<open>fs/cache.h\<close>): the blocks in
  memory, eviction, acquisition and release, atomic operations, commit, recovery, and the
  allocation of blocks through the bitmap. The functions take the block device and the
  super block as arguments, as the code takes them from \<^verbatim>\<open>device\<close> and \<^verbatim>\<open>sblock\<close>. The cache
  list is the sequence of its blocks from \<^verbatim>\<open>blocks.head\<close> on, and a pointer to a cached
  block is its block number, which is shown to identify it. A call runs with the spin
  locks it takes; a thread that would wait for another one gives \<^term>\<open>Sleep\<close>.
\<close>

section \<open>State\<close>

definition OP_MAX_NUM_BLOCKS :: nat where
  "OP_MAX_NUM_BLOCKS = 40"

definition EVICTION_THRESHOLD :: nat where
  "EVICTION_THRESHOLD = 1024"

definition BIT_PER_BLOCK :: nat where
  "BIT_PER_BLOCK = BLOCK_SIZE * 8"

definition LOG_MAX_SIZE :: nat where
  "LOG_MAX_SIZE = (BLOCK_SIZE - 8) div 8"

lemma cache_sizes [simp]: "LOG_MAX_SIZE = 63" "BIT_PER_BLOCK = 4096"
  by (simp_all add: LOG_MAX_SIZE_def BIT_PER_BLOCK_def BLOCK_SIZE_def)

record block =
  block_no :: nat
  acquired :: bool
  pinned :: bool
  block_lock :: semaphore
  valid :: bool
  data :: "u8 list"

record log_header =
  lh_num_blocks :: nat
  lh_block_no :: "nat list"

record op_ctx =
  rm :: nat
  ts :: nat

record 'd bcache =
  blocks :: "block list"
  header :: log_header
  contributors_cnt :: nat
  work_done :: semaphore
  dev_st :: 'd

text \<open>The log header is written to disk as the bytes of the structure: 64 words of 64 bits.\<close>

definition header_bytes :: "log_header \<Rightarrow> u8 list" where
  "header_bytes h = of_le_array 8 (lh_num_blocks h # lh_block_no h)"

definition bytes_header :: "u8 list \<Rightarrow> log_header" where
  "bytes_header bs =
     (let a = le_array 8 (Suc LOG_MAX_SIZE) bs in \<lparr>lh_num_blocks = hd a, lh_block_no = tl a\<rparr>)"

section \<open>Access to a cached block\<close>

text \<open>Looking through a pointer to a block, and writing through it.\<close>

definition lookup_block :: "nat \<Rightarrow> block list \<Rightarrow> block option" where
  "lookup_block n bs = find (\<lambda>b. block_no b = n) bs"

definition upd_block :: "nat \<Rightarrow> (block \<Rightarrow> block) \<Rightarrow> block list \<Rightarrow> block list" where
  "upd_block n f bs = map (\<lambda>b. if block_no b = n then f b else b) bs"

definition with_block :: "nat \<Rightarrow> 'd bcache \<Rightarrow> (block \<Rightarrow> 'a outcome) \<Rightarrow> 'a outcome" where
  "with_block n c f = (case lookup_block n (blocks c) of None \<Rightarrow> Undef | Some b \<Rightarrow> f b)"

definition get_data :: "nat \<Rightarrow> 'd bcache \<Rightarrow> u8 list outcome" where
  "get_data n c = with_block n c (\<lambda>b. Ret (data b))"

definition set_data :: "nat \<Rightarrow> u8 list \<Rightarrow> 'd bcache \<Rightarrow> 'd bcache outcome" where
  "set_data n x c =
     with_block n c (\<lambda>_. Ret (c\<lparr>blocks := upd_block n (\<lambda>b. b\<lparr>data := x\<rparr>) (blocks c)\<rparr>))"

section \<open>The list of blocks\<close>

definition device_read :: "'d block_device \<Rightarrow> block \<Rightarrow> 'd \<Rightarrow> block outcome" where
  "device_read dv b d = andthen (dev_read dv (block_no b) d) (\<lambda>x. Ret (b\<lparr>data := x\<rparr>))"

definition device_write :: "'d block_device \<Rightarrow> block \<Rightarrow> 'd \<Rightarrow> 'd outcome" where
  "device_write dv b d = dev_write dv (block_no b) (data b) d"

definition read_header :: "'d block_device \<Rightarrow> super_block \<Rightarrow> 'd bcache \<Rightarrow> 'd bcache outcome" where
  "read_header dv sb c =
     andthen (dev_read dv (log_start sb) (dev_st c)) (\<lambda>x. Ret (c\<lparr>header := bytes_header x\<rparr>))"

definition write_header :: "'d block_device \<Rightarrow> super_block \<Rightarrow> 'd bcache \<Rightarrow> 'd bcache outcome" where
  "write_header dv sb c =
     andthen (dev_write dv (log_start sb) (header_bytes (header c)) (dev_st c)) (\<lambda>d.
     Ret (c\<lparr>dev_st := d\<rparr>))"

definition init_block :: block where
  "init_block = \<lparr>block_no = 0, acquired = False, pinned = False, block_lock = init_sem 1,
     valid = False, data = replicate BLOCK_SIZE 0\<rparr>"

definition get_num_cached_blocks :: "'d bcache \<Rightarrow> nat" where
  "get_num_cached_blocks c = length (blocks c)"

text \<open>\<^verbatim>\<open>list_forall\<close> starts at the successor of the head and visits the head last.\<close>

definition fetch_cached :: "nat \<Rightarrow> block list \<Rightarrow> block option" where
  "fetch_cached n bs = find (\<lambda>b. block_no b = n) (rotate1 bs)"

definition evict :: "block list \<Rightarrow> bool \<times> block list" where
  "evict bs =
     (case find (\<lambda>b. \<not> pinned b \<and> \<not> acquired b) (rotate1 bs) of
        None \<Rightarrow> (False, bs)
      | Some b \<Rightarrow> (True, remove1 b bs))"

text \<open>The head becomes the successor of block \<open>n\<close>: the circular list is turned, not relinked.\<close>

definition boost_frequency :: "nat \<Rightarrow> block list \<Rightarrow> block list" where
  "boost_frequency n bs =
     (let older = takeWhile (\<lambda>b. block_no b \<noteq> n) bs; rest = dropWhile (\<lambda>b. block_no b \<noteq> n) bs
      in tl rest @ older @ take 1 rest)"

section \<open>Acquire and release\<close>

text \<open>The loop that waits on the condition until the block is not acquired.\<close>

function wait_block :: "block \<Rightarrow> block outcome" where
  "wait_block b =
     (if 0 < query_sem (block_lock b) then
        let b1 = b\<lparr>block_lock := snd (get_sem (block_lock b))\<rparr>
        in if acquired b1 then wait_block b1 else Ret b1
      else Sleep)"
  by pat_completeness auto
termination
  by (relation "measure (\<lambda>b. nat (val (block_lock b)))") (auto simp: query_sem_def get_sem_def)

declare wait_block.simps [simp del]

definition cache_acquire :: "'d block_device \<Rightarrow> nat \<Rightarrow> 'd bcache \<Rightarrow> 'd bcache outcome" where
  "cache_acquire dv n c =
     (case fetch_cached n (blocks c) of
        Some b \<Rightarrow>
          andthen (wait_block b) (\<lambda>b1.
          Ret (c\<lparr>blocks := boost_frequency n (upd_block n (\<lambda>_. b1\<lparr>acquired := True\<rparr>) (blocks c))\<rparr>))
      | None \<Rightarrow>
          let bs = (if EVICTION_THRESHOLD \<le> length (blocks c) then snd (evict (blocks c))
                    else blocks c);
              b = init_block\<lparr>block_lock := snd (get_sem (block_lock init_block)), acquired := True,
                    block_no := n\<rparr>
          in andthen (device_read dv b (dev_st c)) (\<lambda>b1.
             Ret (c\<lparr>blocks := boost_frequency n (bs @ [b1\<lparr>valid := True\<rparr>])\<rparr>)))"

definition cache_release :: "nat \<Rightarrow> 'd bcache \<Rightarrow> 'd bcache outcome" where
  "cache_release n c =
     with_block n c (\<lambda>b.
     andthen (ASSERT (acquired b)) (\<lambda>_.
     andthen (cond_signal (block_lock b)) (\<lambda>(_, s).
     Ret (c\<lparr>blocks := upd_block n (\<lambda>b. b\<lparr>acquired := False, block_lock := s\<rparr>) (blocks c)\<rparr>))))"

section \<open>Atomic operations\<close>

definition cache_begin_op :: "op_ctx \<Rightarrow> 'd bcache \<Rightarrow> op_ctx \<times> 'd bcache" where
  "cache_begin_op ctx c =
     (ctx\<lparr>rm := OP_MAX_NUM_BLOCKS\<rparr>,
      c\<lparr>contributors_cnt := (contributors_cnt c + 1) mod 2 ^ 32\<rparr>)"

text \<open>
  Without a context the block goes straight to its place on disk. Entry numbers past the
  end of the header's array are outside the array.
\<close>

definition cache_sync ::
  "'d block_device \<Rightarrow> op_ctx option \<Rightarrow> nat \<Rightarrow> 'd bcache \<Rightarrow> (op_ctx option \<times> 'd bcache) outcome" where
  "cache_sync dv octx n c =
     with_block n c (\<lambda>b.
     case octx of
       None \<Rightarrow> andthen (device_write dv b (dev_st c)) (\<lambda>d. Ret (None, c\<lparr>dev_st := d\<rparr>))
     | Some ctx \<Rightarrow>
         let h = header c in
         if n \<in> set (take (lh_num_blocks h) (lh_block_no h)) then Ret (Some ctx, c)
         else if length (lh_block_no h) < lh_num_blocks h then Undef
         else if rm ctx = 0 then Panic
         else if length (lh_block_no h) \<le> lh_num_blocks h then Undef
         else Ret (Some (ctx\<lparr>rm := rm ctx - 1\<rparr>),
                   c\<lparr>header := \<lparr>lh_num_blocks = lh_num_blocks h + 1,
                        lh_block_no = (lh_block_no h)[lh_num_blocks h := n]\<rparr>,
                     blocks := upd_block n (\<lambda>b. b\<lparr>pinned := True\<rparr>) (blocks c)\<rparr>))"

function write_log_loop ::
  "'d block_device \<Rightarrow> super_block \<Rightarrow> nat \<Rightarrow> nat \<Rightarrow> 'd bcache \<Rightarrow> 'd bcache outcome" where
  "write_log_loop dv sb num i c =
     (if i < num then
        if length (lh_block_no (header c)) \<le> i then Undef
        else
          let n = lh_block_no (header c) ! i in
          andthen (cache_acquire dv n c) (\<lambda>c1.
          andthen (get_data n c1) (\<lambda>x.
          andthen (dev_write dv (log_start sb + i + 1) x (dev_st c1)) (\<lambda>d.
          andthen (cache_release n
                    (c1\<lparr>dev_st := d, blocks := upd_block n (\<lambda>b. b\<lparr>pinned := False\<rparr>) (blocks c1)\<rparr>))
            (write_log_loop dv sb num (i + 1)))))
      else Ret c)"
  by pat_completeness auto
termination by (relation "measure (\<lambda>(_, _, num, i, _). num - i)") auto

declare write_log_loop.simps [simp del]

definition write_log :: "'d block_device \<Rightarrow> super_block \<Rightarrow> 'd bcache \<Rightarrow> 'd bcache outcome" where
  "write_log dv sb c = write_log_loop dv sb (lh_num_blocks (header c)) 0 c"

text \<open>Copying the logged blocks to their places.\<close>

function ckpt_loop ::
  "'d block_device \<Rightarrow> super_block \<Rightarrow> log_header \<Rightarrow> nat \<Rightarrow> 'd \<Rightarrow> 'd outcome" where
  "ckpt_loop dv sb h i d =
     (if i < lh_num_blocks h then
        let b = init_block\<lparr>block_no := log_start sb + 1 + i\<rparr> in
        andthen (device_read dv b d) (\<lambda>b1.
        if length (lh_block_no h) \<le> i then Undef
        else
          andthen (device_write dv (b1\<lparr>block_no := lh_block_no h ! i\<rparr>) d)
            (ckpt_loop dv sb h (i + 1)))
      else Ret d)"
  by pat_completeness auto
termination by (relation "measure (\<lambda>(_, _, h, i, _). lh_num_blocks h - i)") auto

declare ckpt_loop.simps [simp del]

definition spawn_ckpt :: "'d block_device \<Rightarrow> super_block \<Rightarrow> 'd bcache \<Rightarrow> 'd bcache outcome" where
  "spawn_ckpt dv sb c =
     andthen (read_header dv sb c) (\<lambda>c1.
     andthen (ckpt_loop dv sb (header c1) 0 (dev_st c1)) (\<lambda>d.
     write_header dv sb (c1\<lparr>dev_st := d, header := (header c1)\<lparr>lh_num_blocks := 0\<rparr>\<rparr>)))"

text \<open>
  The last operation to end commits; the others wait until it has. The first component
  says whether the call returns (true) or sleeps until the commit (false).
\<close>

definition cache_end_op ::
  "'d block_device \<Rightarrow> super_block \<Rightarrow> nat \<Rightarrow> 'd bcache \<Rightarrow> (bool \<times> 'd bcache) outcome" where
  "cache_end_op dv sb p c =
     (let c1 = c\<lparr>contributors_cnt := (contributors_cnt c + 2 ^ 32 - 1) mod 2 ^ 32\<rparr> in
      if 0 < contributors_cnt c1 then
        andthen (cond_wait_enter p (work_done c1)) (\<lambda>(go, s). Ret (go, c1\<lparr>work_done := s\<rparr>))
      else
        andthen (write_log dv sb c1) (\<lambda>c2.
        andthen (write_header dv sb c2) (\<lambda>c3.
        andthen (spawn_ckpt dv sb c3) (\<lambda>c4.
        andthen (cond_broadcast (work_done c4)) (\<lambda>(_, s).
        Ret (True, c4\<lparr>work_done := s\<rparr>))))))"

definition init_bcache :: "'d block_device \<Rightarrow> super_block \<Rightarrow> log_header \<Rightarrow> 'd \<Rightarrow> 'd bcache outcome" where
  "init_bcache dv sb h0 d =
     spawn_ckpt dv sb
       \<lparr>blocks = [], header = h0, contributors_cnt = 0, work_done = init_sem 0, dev_st = d\<rparr>"

section \<open>Allocation\<close>

text \<open>A block read as an array of bitmap cells, after the cast to \<^verbatim>\<open>BitmapCell *\<close>.\<close>

definition cells_of :: "u8 list \<Rightarrow> BitmapCell list" where
  "cells_of x = map of_nat (le_array 8 (BLOCK_SIZE div 8) x)"

definition bytes_of_cells :: "BitmapCell list \<Rightarrow> u8 list" where
  "bytes_of_cells cs = of_le_array 8 (map unat cs)"

text \<open>The body of the inner loop for a free bit: block \<open>n\<close> is bit \<open>j\<close> of bitmap block \<open>bm\<close>.\<close>

definition alloc_take ::
  "'d block_device \<Rightarrow> op_ctx \<Rightarrow> nat \<Rightarrow> nat \<Rightarrow> nat \<Rightarrow> 'd bcache \<Rightarrow> (op_ctx \<times> 'd bcache) outcome" where
  "alloc_take dv ctx bm j n c =
     andthen (cache_acquire dv n c) (\<lambda>c1.
     andthen (set_data n (replicate BLOCK_SIZE 0) c1) (\<lambda>c2.
     andthen (cache_sync dv (Some ctx) n c2) (\<lambda>(ctx1, c3).
     andthen (get_data bm c3) (\<lambda>x.
     andthen (bitmap_set (cells_of x) j) (\<lambda>cells.
     andthen (set_data bm (bytes_of_cells cells) c3) (\<lambda>c4.
     andthen (cache_sync dv ctx1 bm c4) (\<lambda>(ctx2, c5).
     andthen (cache_release n c5) (\<lambda>c6.
     andthen (cache_release bm c6) (\<lambda>c7.
     Ret (the ctx2, c7))))))))))"

text \<open>
  The inner loop over the bits of one bitmap block; \<^term>\<open>None\<close> when every bit of it is set.
  A bit beyond the number of blocks ends the search, with a panic.
\<close>

function alloc_bits ::
  "'d block_device \<Rightarrow> super_block \<Rightarrow> op_ctx \<Rightarrow> nat \<Rightarrow> nat \<Rightarrow> 'd bcache \<Rightarrow>
   (nat option \<times> op_ctx \<times> 'd bcache) outcome" where
  "alloc_bits dv sb ctx i j c =
     (let bm = bitmap_start sb + i; n = i * BLOCK_SIZE * 8 + j in
      if j < BLOCK_SIZE * 8 then
        if num_blocks sb \<le> n then andthen (cache_release bm c) (\<lambda>_. Panic)
        else
          andthen (get_data bm c) (\<lambda>x.
          andthen (bitmap_get (cells_of x) j) (\<lambda>used.
          if \<not> used then
            andthen (alloc_take dv ctx bm j n c) (\<lambda>(ctx1, c1). Ret (Some n, ctx1, c1))
          else alloc_bits dv sb ctx i (j + 1) c))
      else andthen (cache_release bm c) (\<lambda>c1. Ret (None, ctx, c1)))"
  by pat_completeness auto
termination by (relation "measure (\<lambda>(_, _, _, _, j, _). BLOCK_SIZE * 8 - j)") (auto simp: BLOCK_SIZE_def)

declare alloc_bits.simps [simp del]

function alloc_blocks ::
  "'d block_device \<Rightarrow> super_block \<Rightarrow> op_ctx \<Rightarrow> nat \<Rightarrow> nat \<Rightarrow> 'd bcache \<Rightarrow>
   (nat \<times> op_ctx \<times> 'd bcache) outcome" where
  "alloc_blocks dv sb ctx num i c =
     (if i < num then
        andthen (cache_acquire dv (bitmap_start sb + i) c) (\<lambda>c1.
        andthen (alloc_bits dv sb ctx i 0 c1) (\<lambda>(r, ctx2, c2).
        case r of Some n \<Rightarrow> Ret (n, ctx2, c2) | None \<Rightarrow> alloc_blocks dv sb ctx2 num (i + 1) c2))
      else Panic)"
  by pat_completeness auto
termination by (relation "measure (\<lambda>(_, _, _, num, i, _). num - i)") auto

declare alloc_blocks.simps [simp del]

definition cache_alloc ::
  "'d block_device \<Rightarrow> super_block \<Rightarrow> op_ctx \<Rightarrow> 'd bcache \<Rightarrow> (nat \<times> op_ctx \<times> 'd bcache) outcome" where
  "cache_alloc dv sb ctx c =
     (if rm ctx = 0 then Panic
      else
        let num_bitmap_blocks = (num_data_blocks sb + BIT_PER_BLOCK - 1) mod 2 ^ 32 div BIT_PER_BLOCK
        in alloc_blocks dv sb ctx num_bitmap_blocks 0 c)"

definition cache_free ::
  "'d block_device \<Rightarrow> super_block \<Rightarrow> op_ctx option \<Rightarrow> nat \<Rightarrow> 'd bcache \<Rightarrow>
   (op_ctx option \<times> 'd bcache) outcome" where
  "cache_free dv sb octx n c =
     (let bm = n div (BLOCK_SIZE * 8) + bitmap_start sb in
      andthen (cache_acquire dv bm c) (\<lambda>c1.
      andthen (get_data bm c1) (\<lambda>x.
      andthen (bitmap_clear (cells_of x) (n mod (BLOCK_SIZE * 8))) (\<lambda>cells.
      andthen (set_data bm (bytes_of_cells cells) c1) (\<lambda>c2.
      andthen (cache_sync dv octx bm c2) (\<lambda>(octx1, c3).
      andthen (cache_release bm c3) (\<lambda>c4.
      Ret (octx1, c4))))))))"

end
