(* ===== verification/Cache_Log.thy ===== *)
theory Cache_Log
  imports Cache "HOL-Library.Multiset"
begin

text \<open>
  The write-ahead log of the block cache: what a commit writes and in which order, that a
  commit cut short by a power failure at any write leaves a disk from which recovery
  restores either the blocks before the operation or all the blocks after it, and that a
  completed commit leaves every logged block in its place. The lemmas on the list of
  cached blocks at the beginning are also used by the proofs about the other operations.
\<close>

section \<open>The cached blocks as a map\<close>

text \<open>Updates of different fields, in one order.\<close>

lemma bcache_order [simp]:
  "c\<lparr>dev_st := d, blocks := bs\<rparr> = c\<lparr>blocks := bs, dev_st := d\<rparr>"
  "c\<lparr>header := h, blocks := bs\<rparr> = c\<lparr>blocks := bs, header := h\<rparr>"
  "c\<lparr>dev_st := d, header := h\<rparr> = c\<lparr>header := h, dev_st := d\<rparr>"
  "c\<lparr>contributors_cnt := k, blocks := bs\<rparr> = c\<lparr>blocks := bs, contributors_cnt := k\<rparr>"
  "c\<lparr>contributors_cnt := k, header := h\<rparr> = c\<lparr>header := h, contributors_cnt := k\<rparr>"
  "c\<lparr>dev_st := d, contributors_cnt := k\<rparr> = c\<lparr>contributors_cnt := k, dev_st := d\<rparr>"
  "c\<lparr>work_done := w, blocks := bs\<rparr> = c\<lparr>blocks := bs, work_done := w\<rparr>"
  "c\<lparr>work_done := w, header := h\<rparr> = c\<lparr>header := h, work_done := w\<rparr>"
  "c\<lparr>work_done := w, contributors_cnt := k\<rparr> = c\<lparr>contributors_cnt := k, work_done := w\<rparr>"
  "c\<lparr>dev_st := d, work_done := w\<rparr> = c\<lparr>work_done := w, dev_st := d\<rparr>"
  by simp_all

named_theorems bmap_simps

definition wf_blocks :: "block list \<Rightarrow> bool" where
  "wf_blocks bs \<longleftrightarrow> distinct (map block_no bs)"

definition bmap :: "block list \<Rightarrow> nat \<rightharpoonup> block" where
  "bmap bs n = lookup_block n bs"

lemma bmap_Nil [simp]: "bmap [] = Map.empty"
  by (simp add: bmap_def lookup_block_def fun_eq_iff)

lemma bmap_Cons: "bmap (b # bs) = (bmap bs)(block_no b \<mapsto> b)"
  by (auto simp: bmap_def lookup_block_def fun_eq_iff)

lemma bmap_no: "bmap bs n = Some b \<Longrightarrow> block_no b = n"
  by (auto simp: bmap_def lookup_block_def find_Some_iff)

lemma bmap_mem: "bmap bs n = Some b \<Longrightarrow> b \<in> set bs"
  by (auto simp: bmap_def lookup_block_def find_Some_iff)

lemma bmap_Some_iff: "wf_blocks bs \<Longrightarrow> bmap bs n = Some b \<longleftrightarrow> b \<in> set bs \<and> block_no b = n"
  by (induction bs)
    (auto simp: wf_blocks_def bmap_Cons dest: bmap_mem bmap_no, metis image_eqI)

lemma bmap_None_iff: "bmap bs n = None \<longleftrightarrow> n \<notin> block_no ` set bs"
  by (induction bs) (auto simp: bmap_Cons)

lemma bmap_mset:
  assumes "wf_blocks bs" and "mset bs' = mset bs"
  shows "wf_blocks bs'" and "bmap bs' = bmap bs"
proof -
  have "mset (map block_no bs') = mset (map block_no bs)" using assms(2) by simp
  then show wf: "wf_blocks bs'"
    using assms(1) unfolding wf_blocks_def by (metis mset_eq_imp_distinct_iff)
  have "set bs' = set bs" using assms(2) by (rule mset_eq_setD)
  then show "bmap bs' = bmap bs"
    using bmap_Some_iff [OF wf] bmap_Some_iff [OF assms(1)]
    by (intro ext option.expand) (metis not_None_eq option.sel bmap_None_iff)+
qed

lemma mset_boost: "mset (boost_frequency n bs) = mset bs"
proof -
  have "mset (tl xs @ ys @ take 1 xs) = mset (ys @ xs)" for xs ys :: "block list"
    by (cases xs) simp_all
  from this [of "dropWhile (\<lambda>b. block_no b \<noteq> n) bs" "takeWhile (\<lambda>b. block_no b \<noteq> n) bs"]
  show ?thesis by (simp only: boost_frequency_def Let_def takeWhile_dropWhile_id)
qed

lemmas wf_boost [bmap_simps] = bmap_mset(1) [OF _ mset_boost]
lemmas bmap_boost [bmap_simps] = bmap_mset(2) [OF _ mset_boost]

lemma length_boost [simp]: "length (boost_frequency n bs) = length bs"
  using mset_boost by (metis size_mset)

lemma fetch_cached_bmap:
  assumes "wf_blocks bs"
  shows "fetch_cached n bs = bmap bs n"
proof -
  have "fetch_cached n bs = bmap (rotate1 bs) n"
    by (simp add: fetch_cached_def bmap_def lookup_block_def)
  also have "\<dots> = bmap bs n"
    using bmap_mset(2) [OF assms, of "rotate1 bs"] by (cases bs) simp_all
  finally show ?thesis .
qed

lemma wf_upd:
  "(\<And>b. block_no (f b) = block_no b) \<Longrightarrow> wf_blocks (upd_block n f bs) \<longleftrightarrow> wf_blocks bs"
proof -
  assume "\<And>b. block_no (f b) = block_no b"
  then have "map block_no (upd_block n f bs) = map block_no bs" by (simp add: upd_block_def)
  then show ?thesis by (simp only: wf_blocks_def)
qed

lemma bmap_upd:
  "(\<And>b. block_no (f b) = block_no b) \<Longrightarrow>
   bmap (upd_block n f bs) = (bmap bs)(n := map_option f (bmap bs n))"
  by (induction bs) (auto simp: upd_block_def bmap_Cons fun_eq_iff)

lemma length_upd [simp]: "length (upd_block n f bs) = length bs"
  by (simp add: upd_block_def)

lemma upd_block_const:
  "bmap bs n = Some b \<Longrightarrow> wf_blocks bs \<Longrightarrow> upd_block n (\<lambda>_. g b) bs = upd_block n g bs"
  by (auto simp: upd_block_def bmap_Some_iff wf_blocks_def)
    (metis bmap_Some_iff option.inject wf_blocks_def)

lemma wf_snoc: "wf_blocks (bs @ [b]) \<longleftrightarrow> wf_blocks bs \<and> bmap bs (block_no b) = None"
  by (auto simp: wf_blocks_def bmap_None_iff)

lemma bmap_snoc:
  "bmap bs (block_no b) = None \<Longrightarrow> bmap (bs @ [b]) = (bmap bs)(block_no b \<mapsto> b)"
  by (induction bs) (auto simp: bmap_Cons fun_eq_iff split: if_splits)

lemma bmap_remove1:
  assumes "wf_blocks bs" and "b \<in> set bs"
  shows "wf_blocks (remove1 b bs)" and "bmap (remove1 b bs) = (bmap bs)(block_no b := None)"
proof -
  show wf: "wf_blocks (remove1 b bs)"
    using assms(1) unfolding wf_blocks_def distinct_map
    by (auto intro: inj_on_subset dest: notin_set_remove1)
  have "set (remove1 b bs) = set bs - {b}"
    using assms(1) by (simp add: wf_blocks_def distinct_map set_remove1_eq)
  then have "bmap (remove1 b bs) n = Some x \<longleftrightarrow> ((bmap bs)(block_no b := None)) n = Some x" for n x
    using bmap_Some_iff [OF wf] bmap_Some_iff [OF assms(1)] assms(2)
    by (auto split: if_splits) (metis option.inject)
  then show "bmap (remove1 b bs) = (bmap bs)(block_no b := None)"
    by (intro ext option.expand) (metis not_None_eq option.sel)+
qed

section \<open>The log header on disk\<close>

definition header_ok :: "log_header \<Rightarrow> bool" where
  "header_ok h \<longleftrightarrow> length (lh_block_no h) = LOG_MAX_SIZE \<and> lh_num_blocks h \<le> LOG_MAX_SIZE \<and>
     (\<forall>n \<in> set (lh_block_no h). n < 2 ^ 64)"

definition logged :: "log_header \<Rightarrow> nat list" where
  "logged h = take (lh_num_blocks h) (lh_block_no h)"

lemma length_header_bytes: "length (lh_block_no h) = LOG_MAX_SIZE \<Longrightarrow> length (header_bytes h) = BLOCK_SIZE"
  by (simp add: header_bytes_def BLOCK_SIZE_def)

lemma bytes_header_bytes:
  assumes "header_ok h"
  shows "bytes_header (header_bytes h) = h"
proof -
  let ?ns = "lh_num_blocks h # lh_block_no h"
  have len: "length ?ns = Suc LOG_MAX_SIZE" using assms by (simp add: header_ok_def)
  have "\<forall>n \<in> set ?ns. n < 256 ^ 8" using assms by (auto simp: header_ok_def)
  then have "le_array 8 (length ?ns) (of_le_array 8 ?ns) = ?ns" by (rule le_array_of_le_array)
  then show ?thesis unfolding bytes_header_def header_bytes_def len by (simp add: Let_def)
qed

lemma bytes_header_ok: "length (lh_block_no (bytes_header bs)) = LOG_MAX_SIZE"
  by (simp add: bytes_header_def Let_def)

lemma bytes_header_bound:
  assumes "length bs = BLOCK_SIZE"
  shows "\<forall>n \<in> set (lh_block_no (bytes_header bs)). n < 2 ^ 64"
proof -
  have "\<forall>n \<in> set (le_array 8 (Suc LOG_MAX_SIZE) bs). n < 256 ^ 8"
    using assms get_le_bound [of _ 8 bs] by (auto simp: le_array_def BLOCK_SIZE_def)
  then show ?thesis
    by (cases "le_array 8 (Suc LOG_MAX_SIZE) bs") (auto simp: bytes_header_def Let_def)
qed

section \<open>Acquiring and releasing a block that is cached\<close>

text \<open>The lock of a cached block nobody waits for, free or taken.\<close>

definition lock_ok :: "block \<Rightarrow> bool" where
  "lock_ok b \<longleftrightarrow> block_lock b = init_sem (if acquired b then 0 else 1)"

definition take_block :: "block \<Rightarrow> block" where
  "take_block b = b\<lparr>block_lock := init_sem 0, acquired := True\<rparr>"

definition free_block :: "block \<Rightarrow> block" where
  "free_block b = b\<lparr>acquired := False, block_lock := init_sem 1\<rparr>"

lemma take_free_block [simp]:
  "block_no (take_block b) = block_no b" "block_no (free_block b) = block_no b"
  "data (take_block b) = data b" "data (free_block b) = data b"
  "pinned (take_block b) = pinned b" "pinned (free_block b) = pinned b"
  "valid (take_block b) = valid b" "valid (free_block b) = valid b"
  "acquired (take_block b)" "\<not> acquired (free_block b)"
  "lock_ok (take_block b)" "lock_ok (free_block b)"
  by (simp_all add: take_block_def free_block_def lock_ok_def)

lemma free_take_block: "\<not> acquired b \<Longrightarrow> lock_ok b \<Longrightarrow> free_block (take_block b) = b"
  by (simp add: take_block_def free_block_def lock_ok_def)

lemma get_sem_init: "get_sem (init_sem 1) = (True, init_sem 0)"
  by (simp add: get_sem_def init_sem_def)

lemma cond_signal_init: "cond_signal (init_sem 0) = Ret (None, init_sem 1)"
  by (simp add: cond_signal_def post_sem_def init_sem_def)

lemma wait_block_free: "\<not> acquired b \<Longrightarrow> lock_ok b \<Longrightarrow> wait_block b = Ret (b\<lparr>block_lock := init_sem 0\<rparr>)"
  by (subst wait_block.simps) (simp add: lock_ok_def query_sem_def get_sem_init, simp add: init_sem_def)

lemma wait_block_taken: "acquired b \<Longrightarrow> lock_ok b \<Longrightarrow> wait_block b = Sleep"
  by (subst wait_block.simps) (simp add: lock_ok_def query_sem_def init_sem_def)

lemma acquire_cached:
  assumes "wf_blocks (blocks c)" and "bmap (blocks c) n = Some b" and "\<not> acquired b" and "lock_ok b"
  shows "cache_acquire dv n c =
      Ret (c\<lparr>blocks := boost_frequency n (upd_block n (\<lambda>_. take_block b) (blocks c))\<rparr>)"
    and "wf_blocks (boost_frequency n (upd_block n (\<lambda>_. take_block b) (blocks c)))"
    and "bmap (boost_frequency n (upd_block n (\<lambda>_. take_block b) (blocks c))) =
      (bmap (blocks c))(n \<mapsto> take_block b)"
proof -
  let ?f = "\<lambda>_. take_block b"
  have upd: "upd_block n ?f (blocks c) = upd_block n take_block (blocks c)"
    by (rule upd_block_const [OF assms(2,1)])
  have "wf_blocks (upd_block n ?f (blocks c))" "bmap (upd_block n ?f (blocks c)) =
      (bmap (blocks c))(n \<mapsto> take_block b)"
    using assms(1,2) unfolding upd by (simp_all add: wf_upd bmap_upd)
  then show "wf_blocks (boost_frequency n (upd_block n ?f (blocks c)))"
    "bmap (boost_frequency n (upd_block n ?f (blocks c))) = (bmap (blocks c))(n \<mapsto> take_block b)"
    by (simp_all add: bmap_simps)
  show "cache_acquire dv n c = Ret (c\<lparr>blocks := boost_frequency n (upd_block n ?f (blocks c))\<rparr>)"
    using assms by (simp add: cache_acquire_def fetch_cached_bmap wait_block_free take_block_def)
qed

lemma release_cached:
  assumes "bmap (blocks c) n = Some b" and "acquired b" and "lock_ok b" and "wf_blocks (blocks c)"
  shows "cache_release n c = Ret (c\<lparr>blocks := upd_block n free_block (blocks c)\<rparr>)"
proof -
  have "upd_block n (\<lambda>b. b\<lparr>acquired := False, block_lock := init_sem 1\<rparr>) (blocks c) =
      upd_block n free_block (blocks c)"
    by (simp add: upd_block_def free_block_def cong: if_cong)
  with assms show ?thesis
    by (simp add: cache_release_def with_block_def lock_ok_def cond_signal_init flip: bmap_def)
qed

section \<open>What a commit does to the device\<close>

text \<open>Writing the contents of blocks \<open>ns\<close> into the log from entry \<open>i\<close> on.\<close>

primrec put_log ::
  "(nat \<Rightarrow> u8 list \<Rightarrow> 'd \<Rightarrow> 'd) \<Rightarrow> nat \<Rightarrow> (nat \<Rightarrow> u8 list) \<Rightarrow> nat \<Rightarrow> nat list \<Rightarrow> 'd \<Rightarrow> 'd" where
  "put_log store base f i [] d = d"
| "put_log store base f i (n # ns) d = put_log store base f (i + 1) ns (store (base + i + 1) (f n) d)"

text \<open>Copying the log entries from \<open>i\<close> on to blocks \<open>ns\<close>.\<close>

primrec install ::
  "(nat \<Rightarrow> u8 list \<Rightarrow> 'd \<Rightarrow> 'd) \<Rightarrow> ('d \<Rightarrow> nat \<Rightarrow> u8 list) \<Rightarrow> nat \<Rightarrow> nat \<Rightarrow> nat list \<Rightarrow> 'd \<Rightarrow> 'd" where
  "install store content base i [] d = d"
| "install store content base i (n # ns) d =
     install store content base (i + 1) ns (store n (content d (base + 1 + i)) d)"

definition unpin :: "block \<Rightarrow> block" where
  "unpin b = b\<lparr>pinned := False\<rparr>"

definition block_data :: "block list \<Rightarrow> nat \<Rightarrow> u8 list" where
  "block_data bs n = data (the (bmap bs n))"

definition ready :: "block list \<Rightarrow> nat \<Rightarrow> bool" where
  "ready bs n \<longleftrightarrow> (\<exists>b. bmap bs n = Some b \<and> \<not> acquired b \<and> lock_ok b \<and> length (data b) = BLOCK_SIZE)"

lemma unpin_simps [simp]:
  "block_no (unpin b) = block_no b" "data (unpin b) = data b" "acquired (unpin b) = acquired b"
  "valid (unpin b) = valid b" "\<not> pinned (unpin b)" "lock_ok (unpin b) = lock_ok b"
  by (simp_all add: unpin_def lock_ok_def)

context device_calls
begin

text \<open>One round of the loop of \<^verbatim>\<open>write_log\<close>.\<close>

lemma write_log_step:
  assumes wf: "wf_blocks (blocks c)" and n: "ready (blocks c) n" and well: "well (dev_st c)"
    and e: "on_device e"
  shows "\<exists>bs'. andthen (cache_acquire dv n c) (\<lambda>c1.
      andthen (get_data n c1) (\<lambda>x.
      andthen (dev_write dv e x (dev_st c1)) (\<lambda>d.
      cache_release n (c1\<lparr>dev_st := d, blocks := upd_block n (\<lambda>b. b\<lparr>pinned := False\<rparr>) (blocks c1)\<rparr>)))) =
      Ret (c\<lparr>blocks := bs', dev_st := store e (block_data (blocks c) n) (dev_st c)\<rparr>) \<and>
    wf_blocks bs' \<and> bmap bs' = (bmap (blocks c))(n := map_option unpin (bmap (blocks c) n)) \<and>
    length bs' = length (blocks c)"
proof -
  from n obtain b where b: "bmap (blocks c) n = Some b" "\<not> acquired b" "lock_ok b"
    "length (data b) = BLOCK_SIZE" by (auto simp: ready_def)
  let ?bs = "boost_frequency n (upd_block n (\<lambda>_. take_block b) (blocks c))"
  let ?bs1 = "upd_block n unpin ?bs"
  note acq = acquire_cached [OF wf b(1-3)]
  have up: "upd_block n (\<lambda>b. b\<lparr>pinned := False\<rparr>) ?bs = ?bs1" by (simp add: unpin_def [abs_def])
  have wf1: "wf_blocks ?bs1" and bm1: "bmap ?bs1 = (bmap (blocks c))(n \<mapsto> unpin (take_block b))"
    using acq(2,3) by (simp_all add: wf_upd bmap_upd)
  let ?c2 = "c\<lparr>blocks := ?bs1, dev_st := store e (data b) (dev_st c)\<rparr>"
  have rel: "cache_release n ?c2 = Ret (?c2\<lparr>blocks := upd_block n free_block (blocks ?c2)\<rparr>)"
    by (rule release_cached [of _ _ "unpin (take_block b)"]) (use wf1 bm1 in simp_all)
  have freed: "free_block (unpin (take_block b)) = unpin b"
    using b(2,3) by (simp add: free_block_def unpin_def take_block_def lock_ok_def)
  have "bmap (upd_block n free_block ?bs1) = (bmap (blocks c))(n \<mapsto> unpin b)"
    using freed bm1 by (simp add: bmap_upd)
  moreover have "wf_blocks (upd_block n free_block ?bs1)" using wf1 by (simp add: wf_upd)
  moreover have "get_data n (c\<lparr>blocks := ?bs\<rparr>) = Ret (data b)"
    using acq(3) by (simp add: get_data_def with_block_def flip: bmap_def)
  ultimately show ?thesis
    using acq(1) write_law [OF well e b(4)] rel b(1) up
    by (intro exI [of _ "upd_block n free_block ?bs1"]) (simp add: block_data_def)
qed

lemma write_log_loop_result:
  assumes "wf_blocks (blocks c)" and "distinct ns" and "\<forall>n \<in> set ns. ready (blocks c) n"
    and "well (dev_st c)" and "\<forall>j < num. on_device (log_start sb + j + 1)"
    and "ns = drop i (take num (lh_block_no (header c)))" and "num \<le> length (lh_block_no (header c))"
  shows "\<exists>bs'. write_log_loop dv sb num i c =
      Ret (c\<lparr>blocks := bs', dev_st := put_log store (log_start sb) (block_data (blocks c)) i ns (dev_st c)\<rparr>) \<and>
    wf_blocks bs' \<and> length bs' = length (blocks c) \<and>
    bmap bs' = (\<lambda>n. if n \<in> set ns then map_option unpin (bmap (blocks c) n) else bmap (blocks c) n)"
  using assms
proof (induction ns arbitrary: i c)
  case Nil
  then have "\<not> i < num" by auto
  then show ?case using Nil by (subst write_log_loop.simps) (auto intro!: exI [of _ "blocks c"])
next
  case (Cons n ns)
  let ?nos = "lh_block_no (header c)"
  have i: "i < num" using Cons.prems(6) by (cases "i < num") auto
  have n: "?nos ! i = n" and ns: "ns = drop (i + 1) (take num ?nos)"
    using Cons.prems(6,7) i
    by (metis Cons_nth_drop_Suc Suc_eq_plus1 length_take list.inject min.absorb2 nth_take)+
  have n': "ready (blocks c) n" using Cons.prems(3) by simp
  have e: "on_device (log_start sb + i + 1)" using Cons.prems(5) i by simp
  from write_log_step [OF Cons.prems(1) n' Cons.prems(4) e]
  obtain bs1 where step: "andthen (cache_acquire dv n c) (\<lambda>c1.
      andthen (get_data n c1) (\<lambda>x.
      andthen (dev_write dv (log_start sb + i + 1) x (dev_st c1)) (\<lambda>d.
      cache_release n (c1\<lparr>dev_st := d, blocks := upd_block n (\<lambda>b. b\<lparr>pinned := False\<rparr>) (blocks c1)\<rparr>)))) =
      Ret (c\<lparr>blocks := bs1, dev_st := store (log_start sb + i + 1) (block_data (blocks c) n) (dev_st c)\<rparr>)"
    and wf1: "wf_blocks bs1" and len1: "length bs1 = length (blocks c)"
    and bm1: "bmap bs1 = (bmap (blocks c))(n := map_option unpin (bmap (blocks c) n))" by blast
  let ?c1 = "c\<lparr>blocks := bs1, dev_st := store (log_start sb + i + 1) (block_data (blocks c) n) (dev_st c)\<rparr>"
  have step_eq: "write_log_loop dv sb num i c = write_log_loop dv sb num (i + 1) ?c1"
    using i n Cons.prems(7) step [THEN arg_cong, of "\<lambda>m. andthen m (write_log_loop dv sb num (i + 1))"]
    by (subst write_log_loop.simps) (simp add: andthen_assoc Let_def)
  have ready1: "\<forall>m \<in> set ns. ready bs1 m"
    using Cons.prems(2,3) bm1 by (auto simp: ready_def)
  have "length (block_data (blocks c) n) = BLOCK_SIZE"
    using n' by (auto simp: ready_def block_data_def)
  then have well1: "well (dev_st ?c1)" using store_well [OF Cons.prems(4) e] by simp
  have data1: "block_data bs1 m = block_data (blocks c) m" if "m \<in> set ns" for m
    using that bm1 Cons.prems(2) by (auto simp: block_data_def)
  have put: "put_log store (log_start sb) (block_data bs1) (i + 1) ns d =
      put_log store (log_start sb) (block_data (blocks c)) (i + 1) ns d" for d
    using data1 by (induction ns arbitrary: d i) auto
  have "\<exists>bs'. write_log_loop dv sb num (i + 1) ?c1 = Ret (?c1\<lparr>blocks := bs',
       dev_st := put_log store (log_start sb) (block_data (blocks ?c1)) (i + 1) ns (dev_st ?c1)\<rparr>) \<and>
      wf_blocks bs' \<and> length bs' = length (blocks ?c1) \<and>
      bmap bs' = (\<lambda>m. if m \<in> set ns then map_option unpin (bmap (blocks ?c1) m) else bmap (blocks ?c1) m)"
    by (rule Cons.IH) (use wf1 Cons.prems(2,5,7) ready1 well1 ns in \<open>simp_all\<close>)
  then obtain bs2 where
    "write_log_loop dv sb num (i + 1) ?c1 = Ret (?c1\<lparr>blocks := bs2,
       dev_st := put_log store (log_start sb) (block_data bs1) (i + 1) ns (dev_st ?c1)\<rparr>)"
    "wf_blocks bs2" "length bs2 = length bs1"
    "bmap bs2 = (\<lambda>m. if m \<in> set ns then map_option unpin (bmap bs1 m) else bmap bs1 m)"
    by (auto cong: if_cong)
  then show ?case using step_eq put bm1 len1 Cons.prems(2)
    by (intro exI [of _ bs2]) (auto simp: fun_eq_iff)
qed

text \<open>The checkpoint and recovery.\<close>

lemma ckpt_loop_result:
  assumes "well d" and "ns = drop i (logged h)" and "header_ok h"
    and "\<forall>j < LOG_MAX_SIZE. on_device (log_start sb + 1 + j)" and "\<forall>n \<in> set (logged h). on_device n"
  shows "ckpt_loop dv sb h i d = Ret (install store content (log_start sb) i ns d) \<and>
    well (install store content (log_start sb) i ns d)"
  using assms(1,2)
proof (induction ns arbitrary: i d)
  case Nil
  then have "\<not> i < lh_num_blocks h" using assms(3) by (auto simp: logged_def header_ok_def)
  then show ?case using Nil by (subst ckpt_loop.simps) simp
next
  case (Cons n ns)
  have i: "i < length (logged h)" using Cons.prems(2) by (cases "i < length (logged h)") auto
  have num: "length (logged h) = lh_num_blocks h" using assms(3) by (simp add: logged_def header_ok_def)
  have n: "logged h ! i = n" and ns: "ns = drop (i + 1) (logged h)"
    using Cons.prems(2) i by (metis Cons_nth_drop_Suc Suc_eq_plus1 list.inject)+
  have nth: "lh_block_no h ! i = n" using n i num by (simp add: logged_def)
  have "n \<in> set (logged h)" using n i by (metis nth_mem)
  then have on: "on_device (log_start sb + 1 + i)" "on_device n"
    using assms(3-5) i num by (auto simp: header_ok_def)
  let ?x = "content d (log_start sb + 1 + i)"
  have x: "length ?x = BLOCK_SIZE" by (rule content_size [OF Cons.prems(1) on(1)])
  have "ckpt_loop dv sb h i d = ckpt_loop dv sb h (i + 1) (store n ?x d)"
    using i num assms(3) on nth read_law [OF Cons.prems(1) on(1)] write_law [OF Cons.prems(1) on(2) x]
    by (subst ckpt_loop.simps) (simp add: device_read_def device_write_def header_ok_def)
  then show ?case
    using Cons.IH [OF store_well [OF Cons.prems(1) on(2) x] ns] by simp
qed

end

text \<open>What recovery makes of a disk.\<close>

definition recover ::
  "(nat \<Rightarrow> u8 list \<Rightarrow> 'd \<Rightarrow> 'd) \<Rightarrow> ('d \<Rightarrow> nat \<Rightarrow> u8 list) \<Rightarrow> nat \<Rightarrow> 'd \<Rightarrow> 'd" where
  "recover store content base d =
     (let h = bytes_header (content d base)
      in store base (header_bytes (h\<lparr>lh_num_blocks := 0\<rparr>)) (install store content base 0 (logged h) d))"

text \<open>What a commit of header \<open>h\<close> with block contents \<open>f\<close> makes of it.\<close>

definition commit ::
  "(nat \<Rightarrow> u8 list \<Rightarrow> 'd \<Rightarrow> 'd) \<Rightarrow> ('d \<Rightarrow> nat \<Rightarrow> u8 list) \<Rightarrow> nat \<Rightarrow> log_header \<Rightarrow> (nat \<Rightarrow> u8 list) \<Rightarrow> 'd \<Rightarrow> 'd" where
  "commit store content base h f d =
     recover store content base (store base (header_bytes h) (put_log store base f 0 (logged h) d))"

text \<open>
  A header read from a disk that recovery can work with: at most as many entries as the
  array has, each for a block of the device.
\<close>

definition recoverable :: "('d \<Rightarrow> nat \<Rightarrow> u8 list) \<Rightarrow> (nat \<Rightarrow> bool) \<Rightarrow> nat \<Rightarrow> 'd \<Rightarrow> bool" where
  "recoverable content on_device base d \<longleftrightarrow>
     lh_num_blocks (bytes_header (content d base)) \<le> LOG_MAX_SIZE \<and>
     (\<forall>n \<in> set (logged (bytes_header (content d base))). on_device n)"

definition log_fits :: "(nat \<Rightarrow> bool) \<Rightarrow> nat \<Rightarrow> bool" where
  "log_fits on_device base \<longleftrightarrow> (\<forall>j \<le> LOG_MAX_SIZE. on_device (base + j))"

lemma log_fits_entry:
  assumes "log_fits on_device base" and "j < LOG_MAX_SIZE"
  shows "on_device (base + j + 1)"
proof -
  have "Suc j \<le> LOG_MAX_SIZE" using assms(2) by simp
  with assms(1) have "on_device (base + Suc j)" unfolding log_fits_def by blast
  then show ?thesis by simp
qed

context device_calls
begin

lemma header_ok_disk:
  assumes "well d" and "on_device base" and "lh_num_blocks (bytes_header (content d base)) \<le> LOG_MAX_SIZE"
  shows "header_ok (bytes_header (content d base))"
  using assms bytes_header_bound [OF content_size] by (simp add: header_ok_def bytes_header_ok)

lemma spawn_ckpt_result:
  assumes well: "well (dev_st c)" and fits: "log_fits on_device (log_start sb)"
    and rec: "recoverable content on_device (log_start sb) (dev_st c)"
  shows "spawn_ckpt dv sb c = Ret (c\<lparr>header := (bytes_header (content (dev_st c) (log_start sb)))\<lparr>lh_num_blocks := 0\<rparr>,
      dev_st := recover store content (log_start sb) (dev_st c)\<rparr>) \<and>
    well (recover store content (log_start sb) (dev_st c))"
proof -
  let ?base = "log_start sb"
  let ?h = "bytes_header (content (dev_st c) ?base)"
  have on: "on_device ?base" using fits by (auto simp: log_fits_def dest: spec [of _ 0])
  have ok: "header_ok ?h" using header_ok_disk [OF well on] rec by (simp add: recoverable_def)
  have fits1: "\<forall>j < LOG_MAX_SIZE. on_device (?base + 1 + j)"
    using log_fits_entry [OF fits] by (simp add: add.commute add.left_commute)
  have "ckpt_loop dv sb ?h 0 (dev_st c) = Ret (install store content ?base 0 (logged ?h) (dev_st c)) \<and>
      well (install store content ?base 0 (logged ?h) (dev_st c))"
    by (rule ckpt_loop_result [OF well _ ok fits1]) (use rec in \<open>simp_all add: recoverable_def\<close>)
  moreover have "length (header_bytes (?h\<lparr>lh_num_blocks := 0\<rparr>)) = BLOCK_SIZE"
    by (rule length_header_bytes) (simp add: bytes_header_ok del: cache_sizes)
  ultimately show ?thesis
    using read_law [OF well on] write_law [OF _ on] store_well [OF _ on]
    by (simp add: spawn_ckpt_def read_header_def write_header_def recover_def Let_def)
qed

lemma put_log_well:
  assumes "well d" and "\<forall>n \<in> set ns. length (f n) = BLOCK_SIZE"
    and "\<forall>j < i + length ns. on_device (base + j + 1)"
  shows "well (put_log store base f i ns d)"
  using assms
proof (induction ns arbitrary: i d)
  case Nil
  then show ?case by simp
next
  case (Cons n ns)
  have "well (store (base + i + 1) (f n) d)" by (rule store_well) (use Cons.prems in auto)
  then have "well (put_log store base f (i + 1) ns (store (base + i + 1) (f n) d))"
    by (rule Cons.IH) (use Cons.prems in auto)
  then show ?case by simp
qed

text \<open>
  The commit of the last operation to end, as a function of the device state: what
  follows the log depends on the header the device gives back.
\<close>

lemma end_op_result:
  assumes last: "contributors_cnt c = 1" and wf: "wf_blocks (blocks c)" and ok: "header_ok (header c)"
    and dist: "distinct (logged (header c))" and rdy: "\<forall>n \<in> set (logged (header c)). ready (blocks c) n"
    and well: "well (dev_st c)" and fits: "log_fits on_device (log_start sb)"
    and rec: "recoverable content on_device (log_start sb) (store (log_start sb) (header_bytes (header c))
        (put_log store (log_start sb) (block_data (blocks c)) 0 (logged (header c)) (dev_st c)))"
    and sem: "sem_ok (work_done c)"
  shows "\<exists>c'. cache_end_op dv sb p c = Ret (True, c') \<and>
    dev_st c' = commit store content (log_start sb) (header c) (block_data (blocks c)) (dev_st c) \<and>
    well (dev_st c') \<and> wf_blocks (blocks c') \<and> length (blocks c') = length (blocks c) \<and>
    bmap (blocks c') = (\<lambda>n. if n \<in> set (logged (header c)) then map_option unpin (bmap (blocks c) n)
      else bmap (blocks c) n) \<and>
    contributors_cnt c' = 0 \<and> sem_ok (work_done c') \<and> sleeplist (work_done c') = [] \<and>
    lh_num_blocks (header c') = 0 \<and> header_ok (header c')"
proof -
  let ?base = "log_start sb" and ?h = "header c"
  let ?c1 = "c\<lparr>contributors_cnt := 0\<rparr>"
  have on: "on_device ?base" using fits by (auto simp: log_fits_def dest: spec [of _ 0])
  have num: "lh_num_blocks ?h \<le> length (lh_block_no ?h)" using ok by (simp add: header_ok_def)
  have fits1: "\<forall>j < lh_num_blocks ?h. on_device (?base + j + 1)"
    using log_fits_entry [OF fits] ok by (simp add: header_ok_def)
  have "\<exists>bs'. write_log_loop dv sb (lh_num_blocks ?h) 0 ?c1 = Ret (?c1\<lparr>blocks := bs',
       dev_st := put_log store ?base (block_data (blocks ?c1)) 0 (logged ?h) (dev_st ?c1)\<rparr>) \<and>
      wf_blocks bs' \<and> length bs' = length (blocks ?c1) \<and>
      bmap bs' = (\<lambda>n. if n \<in> set (logged ?h) then map_option unpin (bmap (blocks ?c1) n) else bmap (blocks ?c1) n)"
    by (rule write_log_loop_result)
      (use wf dist rdy well fits1 num in \<open>simp_all add: logged_def\<close>)
  then obtain bs' where wl: "write_log dv sb ?c1 = Ret (?c1\<lparr>blocks := bs',
       dev_st := put_log store ?base (block_data (blocks c)) 0 (logged ?h) (dev_st c)\<rparr>)"
    and wf': "wf_blocks bs'" and len': "length bs' = length (blocks c)"
    and bm': "bmap bs' = (\<lambda>n. if n \<in> set (logged ?h) then map_option unpin (bmap (blocks c) n) else bmap (blocks c) n)"
    by (auto simp: write_log_def cong: if_cong)
  let ?d1 = "put_log store ?base (block_data (blocks c)) 0 (logged ?h) (dev_st c)"
  have "\<forall>n \<in> set (logged ?h). length (block_data (blocks c) n) = BLOCK_SIZE"
    using rdy by (auto simp: ready_def block_data_def)
  then have well1: "well ?d1"
    by (rule put_log_well [OF well]) (use fits1 num in \<open>simp add: logged_def\<close>)
  let ?d2 = "store ?base (header_bytes ?h) ?d1"
  have hb: "length (header_bytes ?h) = BLOCK_SIZE"
    by (rule length_header_bytes) (use ok in \<open>simp add: header_ok_def\<close>)
  let ?c2 = "?c1\<lparr>blocks := bs', dev_st := ?d1\<rparr>" and ?c3 = "?c1\<lparr>blocks := bs', dev_st := ?d2\<rparr>"
  have wh: "write_header dv sb ?c2 = Ret ?c3"
    using write_law [OF well1 on hb] by (simp add: write_header_def)
  have well2: "well (dev_st ?c3)" using store_well [OF well1 on hb] by simp
  have rec3: "recoverable content on_device ?base (dev_st ?c3)" using rec by simp
  note sp = spawn_ckpt_result [OF well2 fits rec3]
  have ok': "header_ok ((bytes_header (content ?d2 ?base))\<lparr>lh_num_blocks := 0\<rparr>)"
    using header_ok_disk [OF _ on, of ?d2] well2 rec3 by (simp add: recoverable_def header_ok_def)
  have "(contributors_cnt c + 2 ^ 32 - 1) mod 2 ^ 32 = 0" using last by simp
  then show ?thesis
    using wl wh sp wf' len' bm' post_all_sem_result [OF sem] sem ok'
    by (simp add: cache_end_op_def Let_def commit_def cond_broadcast_def sem_ok_def
        del: bcache_order cache_sizes)
qed

end

section \<open>Contents after a commit and after a crash\<close>

text \<open>The blocks of the log: the header and its entries.\<close>

definition in_log :: "nat \<Rightarrow> nat \<Rightarrow> bool" where
  "in_log base m \<longleftrightarrow> base \<le> m \<and> m \<le> base + LOG_MAX_SIZE"

text \<open>Blocks a log may have entries for.\<close>

definition loggable :: "(nat \<Rightarrow> bool) \<Rightarrow> nat \<Rightarrow> nat list \<Rightarrow> bool" where
  "loggable on_device base ns \<longleftrightarrow>
     distinct ns \<and> (\<forall>n \<in> set ns. on_device n \<and> \<not> in_log base n) \<and> length ns \<le> LOG_MAX_SIZE"

text \<open>A disk with a log that recovery can use: empty, or entries for distinct blocks outside it.\<close>

definition log_ok :: "('d \<Rightarrow> nat \<Rightarrow> u8 list) \<Rightarrow> (nat \<Rightarrow> bool) \<Rightarrow> nat \<Rightarrow> 'd \<Rightarrow> bool" where
  "log_ok content on_device base d \<longleftrightarrow>
     header_ok (bytes_header (content d base)) \<and>
     loggable on_device base (logged (bytes_header (content d base)))"

lemma log_ok_recoverable: "log_ok content on_device base d \<Longrightarrow> recoverable content on_device base d"
  by (simp add: log_ok_def recoverable_def header_ok_def loggable_def)

lemma loggable_take: "loggable on_device base ns \<Longrightarrow> loggable on_device base (take k ns)"
  by (auto simp: loggable_def dest: in_set_takeD)

context block_dev
begin

lemma content_put_log_other:
  assumes "well d" and "\<forall>n \<in> set ns. length (f n) = BLOCK_SIZE" and "log_fits on_device base"
    and "i + length ns \<le> LOG_MAX_SIZE" and "on_device m" and "m \<le> base + i \<or> base + i + length ns < m"
  shows "content (put_log store base f i ns d) m = content d m"
  using assms
proof (induction ns arbitrary: i d)
  case Nil
  then show ?case by simp
next
  case (Cons n ns)
  have e: "on_device (base + i + 1)" using log_fits_entry [OF Cons.prems(3), of i] Cons.prems(4) by simp
  have f: "length (f n) = BLOCK_SIZE" using Cons.prems(2) by simp
  have "content (put_log store base f (i + 1) ns (store (base + i + 1) (f n) d)) m =
      content (store (base + i + 1) (f n) d) m"
    by (rule Cons.IH) (use Cons.prems store_well [OF Cons.prems(1) e f] in auto)
  also have "\<dots> = content d m"
    using content_store [OF Cons.prems(1) e Cons.prems(5) f] Cons.prems(6) by auto
  finally show ?case by simp
qed

lemma content_put_log_entry:
  assumes "well d" and "\<forall>n \<in> set ns. length (f n) = BLOCK_SIZE" and "log_fits on_device base"
    and "i + length ns \<le> LOG_MAX_SIZE" and "j < length ns"
  shows "content (put_log store base f i ns d) (base + i + 1 + j) = f (ns ! j)"
  using assms
proof (induction ns arbitrary: i j d)
  case Nil
  then show ?case by simp
next
  case (Cons n ns)
  have e: "on_device (base + i + 1)" using log_fits_entry [OF Cons.prems(3), of i] Cons.prems(4) by simp
  have f: "length (f n) = BLOCK_SIZE" using Cons.prems(2) by simp
  let ?d = "store (base + i + 1) (f n) d"
  have w: "well ?d" by (rule store_well [OF Cons.prems(1) e f])
  show ?case
  proof (cases j)
    case 0
    have "content (put_log store base f (i + 1) ns ?d) (base + i + 1) = content ?d (base + i + 1)"
      by (rule content_put_log_other [OF w _ Cons.prems(3) _ e]) (use Cons.prems in auto)
    also have "\<dots> = f n" using content_store [OF Cons.prems(1) e e f] by simp
    finally show ?thesis using 0 by simp
  next
    case (Suc k)
    have "content (put_log store base f (i + 1) ns ?d) (base + (i + 1) + 1 + k) = f (ns ! k)"
      by (rule Cons.IH [OF w _ Cons.prems(3)]) (use Cons.prems Suc in auto)
    then show ?thesis using Suc by simp
  qed
qed

lemma install_step:
  assumes "well d" and "loggable on_device base (n # ns)" and "log_fits on_device base"
    and "i + length (n # ns) \<le> LOG_MAX_SIZE"
  shows "well (store n (content d (base + 1 + i)) d)" and "loggable on_device base ns"
    and "\<And>m. on_device m \<Longrightarrow> content (store n (content d (base + 1 + i)) d) m =
      (if m = n then content d (base + 1 + i) else content d m)"
proof -
  have e: "on_device (base + 1 + i)" using log_fits_entry [OF assms(3), of i] assms(4) by simp
  have n: "on_device n" using assms(2) by (simp add: loggable_def)
  note x = content_size [OF assms(1) e]
  show "well (store n (content d (base + 1 + i)) d)" by (rule store_well [OF assms(1) n x])
  show "loggable on_device base ns" using assms(2) by (simp add: loggable_def)
  show "content (store n (content d (base + 1 + i)) d) m =
      (if m = n then content d (base + 1 + i) else content d m)" if "on_device m" for m
    by (rule content_store [OF assms(1) n that x])
qed

lemma install_other:
  assumes "well d" and "loggable on_device base ns" and "log_fits on_device base"
    and "i + length ns \<le> LOG_MAX_SIZE"
  shows "well (install store content base i ns d)"
    and "\<And>m. on_device m \<Longrightarrow> m \<notin> set ns \<Longrightarrow> content (install store content base i ns d) m = content d m"
  using assms
proof (induction ns arbitrary: i d)
  case Nil
  case 1
  then show ?case by simp
  case 2
  then show ?case by simp
next
  case (Cons n ns)
  {
    case 1
    note st = install_step [OF 1]
    show ?case using Cons.IH(1) [OF st(1,2) 1(3), of "i + 1"] 1(4) by simp
  next
    case (2 m)
    note st = install_step [OF 2(3-6)]
    show ?case using Cons.IH(2) [OF 2(1) _ st(1,2) 2(5), of "i + 1"] st(3) [OF 2(1)] 2(2,6) by simp
  }
qed

lemma install_entry:
  assumes "well d" and "loggable on_device base ns" and "log_fits on_device base"
    and "i + length ns \<le> LOG_MAX_SIZE" and "j < length ns"
  shows "content (install store content base i ns d) (ns ! j) = content d (base + 1 + i + j)"
  using assms
proof (induction ns arbitrary: i j d)
  case Nil
  then show ?case by simp
next
  case (Cons n ns)
  note st = install_step [OF Cons.prems(1-4)]
  let ?d = "store n (content d (base + 1 + i)) d"
  have n: "on_device n" "n \<notin> set ns" using Cons.prems(2) by (simp_all add: loggable_def)
  show ?case
  proof (cases j)
    case 0
    have "content (install store content base (i + 1) ns ?d) n = content ?d n"
      by (rule install_other(2) [OF st(1,2) Cons.prems(3) _ n]) (use Cons.prems(4) in simp)
    then show ?thesis using 0 st(3) [OF n(1)] by simp
  next
    case (Suc k)
    have "on_device (base + 1 + (i + 1) + k)"
      using log_fits_entry [OF Cons.prems(3), of "i + 1 + k"] Cons.prems(4,5) Suc
      by (simp add: add.commute add.left_commute)
    moreover have "base + 1 + (i + 1) + k \<noteq> n"
      using Cons.prems(2,4,5) Suc by (auto simp: loggable_def in_log_def)
    moreover have "content (install store content base (i + 1) ns ?d) (ns ! k) =
        content ?d (base + 1 + (i + 1) + k)"
      by (rule Cons.IH [OF st(1,2) Cons.prems(3)]) (use Cons.prems(4,5) Suc in simp_all)
    ultimately show ?thesis using Suc st(3) by simp
  qed
qed

text \<open>Recovery of a disk with header \<open>h\<close>.\<close>

lemma recover_content:
  assumes "well d" and fits: "log_fits on_device base" and h: "bytes_header (content d base) = h"
    and "loggable on_device base (logged h)" and "on_device m" and "\<not> in_log base m"
  shows "m \<notin> set (logged h) \<Longrightarrow> content (recover store content base d) m = content d m"
    and "j < length (logged h) \<Longrightarrow> logged h ! j = m \<Longrightarrow>
      content (recover store content base d) m = content d (base + 1 + j)"
proof -
  let ?d1 = "install store content base 0 (logged h) d"
  have len: "0 + length (logged h) \<le> LOG_MAX_SIZE" using assms(4) by (simp add: loggable_def)
  note other = install_other [OF assms(1,4) fits len]
  have on: "on_device base" using fits by (auto simp: log_fits_def dest: spec [of _ 0])
  have "length (header_bytes (h\<lparr>lh_num_blocks := 0\<rparr>)) = BLOCK_SIZE"
    using h by (intro length_header_bytes) (auto simp: bytes_header_ok simp del: cache_sizes)
  then have "content (recover store content base d) m = content ?d1 m"
    using content_store [OF other(1) on assms(5)] assms(6) h
    by (auto simp: recover_def Let_def in_log_def)
  then show "m \<notin> set (logged h) \<Longrightarrow> content (recover store content base d) m = content d m"
    and "j < length (logged h) \<Longrightarrow> logged h ! j = m \<Longrightarrow>
      content (recover store content base d) m = content d (base + 1 + j)"
    using other(2) [OF assms(5)] install_entry [OF assms(1,4) fits len, of j] by auto
qed

text \<open>A disk whose log is empty is left as it is.\<close>

lemma recover_empty:
  assumes "well d" and "log_fits on_device base" and "lh_num_blocks (bytes_header (content d base)) = 0"
    and "on_device m" and "\<not> in_log base m"
  shows "content (recover store content base d) m = content d m"
  by (rule recover_content(1) [OF assms(1,2) refl _ assms(4,5)])
    (use assms(3) in \<open>simp_all add: logged_def loggable_def\<close>)

text \<open>The log on disk is complete: header \<open>h\<close> with the contents \<open>f\<close> of its blocks.\<close>

definition holds_log :: "nat \<Rightarrow> log_header \<Rightarrow> (nat \<Rightarrow> u8 list) \<Rightarrow> 'a \<Rightarrow> bool" where
  "holds_log base h f d \<longleftrightarrow> bytes_header (content d base) = h \<and>
     (\<forall>j < length (logged h). content d (base + 1 + j) = f (logged h ! j))"

lemma recover_holds:
  assumes "well d" and "log_fits on_device base" and "holds_log base h f d"
    and "loggable on_device base (logged h)" and "on_device m" and "\<not> in_log base m"
  shows "content (recover store content base d) m = (if m \<in> set (logged h) then f m else content d m)"
proof (cases "m \<in> set (logged h)")
  case True
  then obtain j where j: "j < length (logged h)" "logged h ! j = m" by (auto simp: in_set_conv_nth)
  then show ?thesis
    using recover_content(2) [OF assms(1,2) _ assms(4-6) j] assms(3) True by (simp add: holds_log_def)
next
  case False
  then show ?thesis
    using recover_content(1) [OF assms(1,2) _ assms(4-6) False] assms(3) by (simp add: holds_log_def)
qed

text \<open>The stages of a commit.\<close>

lemma after_header:
  assumes "well d" and "log_fits on_device base" and "header_ok h" and "loggable on_device base (logged h)"
    and "\<forall>n \<in> set (logged h). length (f n) = BLOCK_SIZE"
  defines "d2 \<equiv> store base (header_bytes h) (put_log store base f 0 (logged h) d)"
  shows "well d2" and "holds_log base h f d2"
    and "\<And>m. on_device m \<Longrightarrow> \<not> in_log base m \<Longrightarrow> content d2 m = content d m"
proof -
  let ?ns = "logged h" and ?d1 = "put_log store base f 0 (logged h) d"
  have len: "0 + length ?ns \<le> LOG_MAX_SIZE" using assms(4) by (simp add: loggable_def)
  have on: "on_device base" using assms(2) by (auto simp: log_fits_def dest: spec [of _ 0])
  have well1: "well ?d1"
    by (rule put_log_well [OF assms(1,5)]) (use log_fits_entry [OF assms(2)] len in simp)
  have hb: "length (header_bytes h) = BLOCK_SIZE"
    by (rule length_header_bytes) (use assms(3) in \<open>simp add: header_ok_def\<close>)
  note cs = content_store [OF well1 on _ hb]
  show "well d2" unfolding d2_def by (rule store_well [OF well1 on hb])
  show "content d2 m = content d m" if "on_device m" "\<not> in_log base m" for m
    using content_put_log_other [OF assms(1,5,2) len that(1)] that cs [OF that(1)] len
    by (auto simp: d2_def in_log_def)
  have "content d2 base = header_bytes h" using cs [OF on] by (simp add: d2_def)
  moreover have "content d2 (base + 1 + j) = f (?ns ! j)" if "j < length ?ns" for j
  proof -
    have "on_device (base + 1 + j)"
      using log_fits_entry [OF assms(2), of j] that len by (simp add: add.commute add.left_commute)
    from cs [OF this] have "content d2 (base + 1 + j) = content ?d1 (base + 0 + 1 + j)"
      by (simp add: d2_def)
    also have "\<dots> = f (?ns ! j)" by (rule content_put_log_entry [OF assms(1,5,2) len that])
    finally show ?thesis .
  qed
  ultimately show "holds_log base h f d2"
    by (simp add: holds_log_def bytes_header_bytes [OF assms(3)])
qed

lemma after_install:
  fixes k :: nat
  assumes "well d" and "log_fits on_device base" and "holds_log base h f d"
    and "loggable on_device base (logged h)"
  defines "d3 \<equiv> install store content base 0 (take k (logged h)) d"
  shows "well d3" and "holds_log base h f d3"
    and "\<And>m. on_device m \<Longrightarrow> m \<notin> set (logged h) \<Longrightarrow> content d3 m = content d m"
proof -
  have lk: "loggable on_device base (take k (logged h))" by (rule loggable_take [OF assms(4)])
  have len: "0 + length (take k (logged h)) \<le> LOG_MAX_SIZE" using lk by (simp add: loggable_def)
  note other = install_other [OF assms(1) lk assms(2) len, folded d3_def]
  show "well d3" by (rule other(1))
  show "content d3 m = content d m" if "on_device m" "m \<notin> set (logged h)" for m
    using other(2) that by (meson in_set_takeD)
  have nin: "n \<notin> set (take k (logged h))" if "in_log base n" for n
    using assms(4) that by (auto simp: loggable_def dest: in_set_takeD)
  have on: "on_device base" using assms(2) by (auto simp: log_fits_def dest: spec [of _ 0])
  have "content d3 base = content d base" by (rule other(2) [OF on nin]) (simp add: in_log_def)
  moreover have "content d3 (base + 1 + j) = content d (base + 1 + j)" if "j < length (logged h)" for j
  proof (rule other(2) [OF _ nin])
    show "on_device (base + 1 + j)"
      using log_fits_entry [OF assms(2), of j] that assms(4)
      by (simp add: loggable_def add.commute add.left_commute)
    show "in_log base (base + 1 + j)" using that assms(4) by (simp add: loggable_def in_log_def)
  qed
  ultimately show "holds_log base h f d3" using assms(3) by (simp add: holds_log_def)
qed

lemma commit_content:
  assumes "well d" and "log_fits on_device base" and "header_ok h" and "loggable on_device base (logged h)"
    and "\<forall>n \<in> set (logged h). length (f n) = BLOCK_SIZE" and "on_device m" and "\<not> in_log base m"
  shows "content (commit store content base h f d) m = (if m \<in> set (logged h) then f m else content d m)"
  unfolding commit_def
  using recover_holds [OF _ assms(2) _ assms(4,6,7)] after_header [OF assms(1-5)] assms(6,7) by simp

end

text \<open>Losing power in the middle: the writes done so far are a prefix.\<close>

lemma put_log_crash:
  "put_log (crash_store store) base f i ns (d, k) =
     (put_log store base f i (take k ns) d, k - length ns)"
  by (induction ns arbitrary: i d k) (auto simp: crash_store_def take_Cons' split: nat.splits)

lemma install_crash:
  "install (crash_store store) (\<lambda>dk. content (fst dk)) base i ns (d, k) =
     (install store content base i (take k ns) d, k - length ns)"
  by (induction ns arbitrary: i d k) (auto simp: crash_store_def take_Cons' split: nat.splits)

lemma recover_crash:
  "fst (recover (crash_store store) (\<lambda>dk. content (fst dk)) base (d, k)) =
     (let h = bytes_header (content d base); ns = logged h
      in if k \<le> length ns then install store content base 0 (take k ns) d
         else recover store content base d)"
  by (simp add: recover_def Let_def install_crash crash_store_def)

lemma commit_crash:
  "commit (crash_store store) (\<lambda>dk. content (fst dk)) base h f (d, k) =
     (let ns = logged h; d1 = put_log store base f 0 (take k ns) d
      in recover (crash_store store) (\<lambda>dk. content (fst dk)) base
           (if k \<le> length ns then (d1, 0) else (store base (header_bytes h) d1, k - length ns - 1)))"
  by (simp add: commit_def put_log_crash crash_store_def Let_def)

context block_dev
begin

text \<open>Recovery leaves an empty log.\<close>

lemma recover_header:
  assumes "well d" and fits: "log_fits on_device base" and "header_ok (bytes_header (content d base))"
    and "loggable on_device base (logged (bytes_header (content d base)))"
  shows "well (recover store content base d)"
    and "lh_num_blocks (bytes_header (content (recover store content base d) base)) = 0"
proof -
  let ?h = "bytes_header (content d base)"
  let ?h0 = "?h\<lparr>lh_num_blocks := 0\<rparr>" and ?d1 = "install store content base 0 (logged ?h) d"
  have on: "on_device base" using fits by (auto simp: log_fits_def dest: spec [of _ 0])
  have w1: "well ?d1"
    by (rule install_other(1) [OF assms(1,4) fits]) (use assms(4) in \<open>simp add: loggable_def\<close>)
  have ok0: "header_ok ?h0" using assms(3) by (simp add: header_ok_def)
  have hb: "length (header_bytes ?h0) = BLOCK_SIZE"
    by (rule length_header_bytes) (use ok0 in \<open>simp add: header_ok_def\<close>)
  show "well (recover store content base d)"
    using store_well [OF w1 on hb] by (simp add: recover_def Let_def)
  have "content (recover store content base d) base = header_bytes ?h0"
    using content_store [OF w1 on on hb] by (simp add: recover_def Let_def)
  then show "lh_num_blocks (bytes_header (content (recover store content base d) base)) = 0"
    by (simp add: bytes_header_bytes [OF ok0])
qed

text \<open>
  Cutting a commit after any number of writes and recovering: all the blocks as before,
  or all as the operations left them.
\<close>

lemma crash_then_recover:
  fixes k :: nat
  assumes "well d" and "log_fits on_device base" and "header_ok h" and "loggable on_device base (logged h)"
    and "\<forall>n \<in> set (logged h). length (f n) = BLOCK_SIZE"
    and empty: "lh_num_blocks (bytes_header (content d base)) = 0"
  defines "d' \<equiv> fst (commit (crash_store store) (\<lambda>dk. content (fst dk)) base h f (d, k))"
  shows "well d' \<and> log_ok content on_device base d' \<and>
    ((\<forall>m. on_device m \<longrightarrow> \<not> in_log base m \<longrightarrow>
       content (recover store content base d') m = content d m) \<or>
     (\<forall>m. on_device m \<longrightarrow> \<not> in_log base m \<longrightarrow>
       content (recover store content base d') m = (if m \<in> set (logged h) then f m else content d m)))"
proof (cases "k \<le> length (logged h)")
  case True
  let ?ns = "take k (logged h)"
  let ?d1 = "put_log store base f 0 ?ns d"
  have on: "on_device base" using assms(2) by (auto simp: log_fits_def dest: spec [of _ 0])
  have len: "0 + length ?ns \<le> LOG_MAX_SIZE"
    using loggable_take [OF assms(4)] by (simp add: loggable_def)
  have fl: "\<forall>n \<in> set ?ns. length (f n) = BLOCK_SIZE" using assms(5) by (auto dest: in_set_takeD)
  have d': "d' = ?d1" using True by (simp add: d'_def commit_crash recover_crash Let_def)
  have well1: "well ?d1"
    by (rule put_log_well [OF assms(1) fl])
      (use log_fits_entry [OF assms(2)] assms(4) in \<open>simp add: loggable_def\<close>)
  have same: "content ?d1 m = content d m" if "on_device m" "m \<le> base \<or> base + LOG_MAX_SIZE < m" for m
    by (rule content_put_log_other [OF assms(1) fl assms(2) len that(1)]) (use that len in auto)
  have hdr: "lh_num_blocks (bytes_header (content ?d1 base)) = 0" using same [OF on] empty by simp
  have "content (recover store content base ?d1) m = content d m" if "on_device m" "\<not> in_log base m" for m
    using recover_empty [OF well1 assms(2) hdr that] same [OF that(1)] that(2) by (auto simp: in_log_def)
  moreover have "log_ok content on_device base ?d1"
    using hdr header_ok_disk [OF well1 on] by (simp add: log_ok_def logged_def loggable_def)
  ultimately show ?thesis using d' well1 by simp
next
  case False
  let ?ns = "logged h" and ?r = "k - length (logged h) - 1"
  let ?d2 = "store base (header_bytes h) (put_log store base f 0 ?ns d)"
  note h2 = after_header [OF assms(1-5)]
  have hd2: "bytes_header (content ?d2 base) = h" using h2(2) by (simp add: holds_log_def)
  have d': "d' = (if ?r \<le> length ?ns then install store content base 0 (take ?r ?ns) ?d2
      else recover store content base ?d2)"
    using False hd2 by (simp add: d'_def commit_crash recover_crash Let_def)
  show ?thesis
  proof (cases "?r \<le> length ?ns")
    case True
    note i = after_install [OF h2(1) assms(2) h2(2) assms(4), where k = ?r]
    have "log_ok content on_device base d'"
      using i(2) assms(3,4) d' True by (simp add: holds_log_def log_ok_def)
    moreover have "content (recover store content base d') m = (if m \<in> set ?ns then f m else content d m)"
      if "on_device m" "\<not> in_log base m" for m
      using recover_holds [OF i(1) assms(2) i(2) assms(4) that] i(3) [OF that(1)] h2(3) [OF that] d' True
      by simp
    ultimately show ?thesis using i(1) d' True by simp
  next
    case fin: False
    have d'': "d' = commit store content base h f d" using d' fin by (simp add: commit_def)
    have hl: "loggable on_device base (logged (bytes_header (content ?d2 base)))"
      and ho: "header_ok (bytes_header (content ?d2 base))" using hd2 assms(3,4) by simp_all
    note rh = recover_header [OF h2(1) assms(2) ho hl]
    have wd: "well d'" and hdr: "lh_num_blocks (bytes_header (content d' base)) = 0"
      using rh d' fin by simp_all
    have "content (recover store content base d') m = (if m \<in> set ?ns then f m else content d m)"
      if "on_device m" "\<not> in_log base m" for m
      using recover_empty [OF wd assms(2) hdr that] commit_content [OF assms(1-5) that] d'' by simp
    moreover have "log_ok content on_device base d'"
      using hdr header_ok_disk [OF wd, of base] assms(2)
      by (auto simp: log_ok_def logged_def loggable_def log_fits_def dest: spec [of _ 0])
    ultimately show ?thesis using wd by blast
  qed
qed

end

end
