(* ===== verification/Cache_Ops.thy ===== *)
theory Cache_Ops
  imports Cache_Log
begin

text \<open>
  The invariant of the block cache and what each operation does to it and to the contents
  a client sees: acquisition with eviction, release, writing through an acquired block,
  logging, commit, allocation and release of blocks. The lemmas are proved for every
  device that keeps what it is given and used for the SD card.
\<close>

section \<open>The invariant\<close>

text \<open>
  The contents a client sees: a cached block as it is in memory, any other as it is on
  the device.
\<close>

definition view :: "('d \<Rightarrow> nat \<Rightarrow> u8 list) \<Rightarrow> 'd bcache \<Rightarrow> nat \<Rightarrow> u8 list" where
  "view content c n = (case bmap (blocks c) n of Some b \<Rightarrow> data b | None \<Rightarrow> content (dev_st c) n)"

definition held :: "'d bcache \<Rightarrow> nat set" where
  "held c = {n. \<exists>b. bmap (blocks c) n = Some b \<and> acquired b}"

definition block_ok :: "('d \<Rightarrow> nat \<Rightarrow> u8 list) \<Rightarrow> (nat \<Rightarrow> bool) \<Rightarrow> 'd bcache \<Rightarrow> nat \<Rightarrow> block \<Rightarrow> bool" where
  "block_ok content on_device c n b \<longleftrightarrow>
     valid b \<and> lock_ok b \<and> length (data b) = BLOCK_SIZE \<and> on_device n \<and>
     (pinned b \<longleftrightarrow> n \<in> set (logged (header c))) \<and>
     (\<not> pinned b \<and> \<not> acquired b \<longrightarrow> data b = content (dev_st c) n)"

text \<open>The blocks a client may use: those on the device outside the log.\<close>

definition usable :: "(nat \<Rightarrow> bool) \<Rightarrow> super_block \<Rightarrow> nat \<Rightarrow> bool" where
  "usable on_device sb n \<longleftrightarrow> on_device n \<and> \<not> in_log (log_start sb) n"

text \<open>
  Blocks are cached at most once; a block that is neither logged nor in somebody's hands
  agrees with the device; the logged blocks are cached and pinned; the log on the device
  is empty between commits.
\<close>

definition cache_inv ::
  "('d \<Rightarrow> nat \<Rightarrow> u8 list) \<Rightarrow> (nat \<Rightarrow> bool) \<Rightarrow> ('d \<Rightarrow> bool) \<Rightarrow> super_block \<Rightarrow> 'd bcache \<Rightarrow> bool" where
  "cache_inv content on_device well sb c \<longleftrightarrow>
     wf_blocks (blocks c) \<and>
     (\<forall>n b. bmap (blocks c) n = Some b \<longrightarrow> block_ok content (usable on_device sb) c n b) \<and>
     (\<forall>n \<in> set (logged (header c)). bmap (blocks c) n \<noteq> None) \<and>
     header_ok (header c) \<and> loggable on_device (log_start sb) (logged (header c)) \<and>
     lh_num_blocks (bytes_header (content (dev_st c) (log_start sb))) = 0 \<and>
     log_fits on_device (log_start sb) \<and> sem_ok (work_done c) \<and> well (dev_st c)"

lemma cache_invD:
  assumes "cache_inv content on_device well sb c"
  shows "wf_blocks (blocks c)" and "header_ok (header c)"
    and "loggable on_device (log_start sb) (logged (header c))"
    and "log_fits on_device (log_start sb)" and "sem_ok (work_done c)" and "well (dev_st c)"
    and "lh_num_blocks (bytes_header (content (dev_st c) (log_start sb))) = 0"
    and "\<And>n b. bmap (blocks c) n = Some b \<Longrightarrow> block_ok content (usable on_device sb) c n b"
    and "\<And>n. n \<in> set (logged (header c)) \<Longrightarrow> \<exists>b. bmap (blocks c) n = Some b"
  using assms by (auto simp: cache_inv_def)

text \<open>Changes of the block list alone.\<close>

lemma cache_inv_blocks:
  assumes "cache_inv content on_device well sb c" and "wf_blocks bs"
    and "\<And>n b. bmap bs n = Some b \<Longrightarrow> block_ok content (usable on_device sb) c n b"
    and "\<And>n. n \<in> set (logged (header c)) \<Longrightarrow> bmap bs n \<noteq> None"
  shows "cache_inv content on_device well sb (c\<lparr>blocks := bs\<rparr>)"
  using assms by (auto simp: cache_inv_def block_ok_def)

section \<open>Acquire and release\<close>

lemma evict_result:
  assumes "wf_blocks bs"
  shows "evict bs = (False, bs) \<or>
    (\<exists>b \<in> set bs. \<not> pinned b \<and> \<not> acquired b \<and> evict bs = (True, remove1 b bs))"
proof (cases "find (\<lambda>b. \<not> pinned b \<and> \<not> acquired b) (rotate1 bs)")
  case None
  then show ?thesis by (simp add: evict_def)
next
  case (Some b)
  then have "\<not> pinned b" "\<not> acquired b" by (auto simp: find_Some_iff)
  moreover have "b \<in> set (rotate1 bs)" using Some nth_mem by (force simp: find_Some_iff simp del: set_rotate1)
  ultimately show ?thesis using Some by (auto simp: evict_def)
qed

text \<open>Eviction never changes what a client sees, and keeps every block somebody needs.\<close>

lemma evict_keeps:
  assumes inv: "cache_inv content on_device well sb c"
  defines "bs \<equiv> snd (evict (blocks c))"
  shows "cache_inv content on_device well sb (c\<lparr>blocks := bs\<rparr>)"
    and "view content (c\<lparr>blocks := bs\<rparr>) = view content c"
    and "held (c\<lparr>blocks := bs\<rparr>) = held c"
    and "\<And>n. bmap (blocks c) n = None \<Longrightarrow> bmap bs n = None"
proof -
  note wf = cache_invD(1) [OF inv]
  have "cache_inv content on_device well sb (c\<lparr>blocks := bs\<rparr>) \<and>
      view content (c\<lparr>blocks := bs\<rparr>) = view content c \<and> held (c\<lparr>blocks := bs\<rparr>) = held c \<and>
      (\<forall>n. bmap (blocks c) n = None \<longrightarrow> bmap bs n = None)"
  proof (cases "evict (blocks c) = (False, blocks c)")
    case True
    then show ?thesis using inv by (simp add: bs_def)
  next
    case False
    then obtain b where b: "b \<in> set (blocks c)" "\<not> pinned b" "\<not> acquired b"
      and bs: "bs = remove1 b (blocks c)"
      using evict_result [OF wf] by (auto simp: bs_def)
    note rm = bmap_remove1 [OF wf b(1), folded bs]
    have bm: "bmap (blocks c) (block_no b) = Some b" using b(1) wf by (simp add: bmap_Some_iff)
    have ok: "block_ok content (usable on_device sb) c (block_no b) b" by (rule cache_invD(8) [OF inv bm])
    have "cache_inv content on_device well sb (c\<lparr>blocks := bs\<rparr>)"
    proof (rule cache_inv_blocks [OF inv rm(1)])
      show "block_ok content (usable on_device sb) c n b'" if "bmap bs n = Some b'" for n b'
        using that rm(2) cache_invD(8) [OF inv, of n b'] by (auto split: if_splits)
      show "bmap bs n \<noteq> None" if "n \<in> set (logged (header c))" for n
        using that rm(2) cache_invD(9) [OF inv that] ok b(2) by (auto simp: block_ok_def)
    qed
    moreover have "view content (c\<lparr>blocks := bs\<rparr>) = view content c"
      using rm(2) bm ok b(2,3) by (auto simp: view_def fun_eq_iff block_ok_def split: option.splits)
    moreover have "held (c\<lparr>blocks := bs\<rparr>) = held c"
      using rm(2) bm b(3) by (auto simp: held_def)
    ultimately show ?thesis using rm(2) by simp
  qed
  then show "cache_inv content on_device well sb (c\<lparr>blocks := bs\<rparr>)"
    and "view content (c\<lparr>blocks := bs\<rparr>) = view content c"
    and "held (c\<lparr>blocks := bs\<rparr>) = held c"
    and "\<And>n. bmap (blocks c) n = None \<Longrightarrow> bmap bs n = None" by blast+
qed

text \<open>The blocks in somebody's hands that differ from the device and are not in the log yet.\<close>

definition dirty :: "('d \<Rightarrow> nat \<Rightarrow> u8 list) \<Rightarrow> 'd bcache \<Rightarrow> nat set" where
  "dirty content c =
     {n. \<exists>b. bmap (blocks c) n = Some b \<and> \<not> pinned b \<and> data b \<noteq> content (dev_st c) n}"

lemma dirty_held: "cache_inv content on_device well sb c \<Longrightarrow> dirty content c \<subseteq> held c"
  using cache_invD(8) by (fastforce simp: dirty_def held_def block_ok_def)

lemma evict_dirty:
  assumes inv: "cache_inv content on_device well sb c"
  shows "dirty content (c\<lparr>blocks := snd (evict (blocks c))\<rparr>) = dirty content c"
proof -
  note wf = cache_invD(1) [OF inv]
  from evict_result [OF wf] show ?thesis
  proof
    assume "\<exists>b \<in> set (blocks c). \<not> pinned b \<and> \<not> acquired b \<and> evict (blocks c) = (True, remove1 b (blocks c))"
    then obtain b where b: "b \<in> set (blocks c)" "\<not> pinned b" "\<not> acquired b"
      and e: "evict (blocks c) = (True, remove1 b (blocks c))" by blast
    have bm: "bmap (blocks c) (block_no b) = Some b" using b(1) wf by (simp add: bmap_Some_iff)
    have "block_ok content (usable on_device sb) c (block_no b) b" by (rule cache_invD(8) [OF inv bm])
    then show ?thesis
      using e bmap_remove1(2) [OF wf b(1)] bm b(2,3) by (auto simp: dirty_def block_ok_def)
  qed (simp add: dirty_def)
qed

context device_calls
begin

lemma acquire_taken:
  assumes inv: "cache_inv content on_device well sb c" and n: "n \<in> held c"
  shows "cache_acquire dv n c = Sleep"
proof -
  from n obtain b where b: "bmap (blocks c) n = Some b" "acquired b" by (auto simp: held_def)
  with cache_invD(8) [OF inv b(1)] cache_invD(1) [OF inv] show ?thesis
    by (simp add: cache_acquire_def fetch_cached_bmap wait_block_taken block_ok_def)
qed

lemma acquire_missing:
  assumes inv: "cache_inv content on_device well sb c" and n: "on_device n"
    and miss: "bmap (blocks c) n = None"
  shows "\<exists>bs'. cache_acquire dv n c = Ret (c\<lparr>blocks := bs'\<rparr>) \<and> wf_blocks bs' \<and>
    bmap bs' = (bmap (if EVICTION_THRESHOLD \<le> length (blocks c) then snd (evict (blocks c)) else blocks c))
      (n \<mapsto> \<lparr>block_no = n, acquired = True, pinned = False, block_lock = init_sem 0, valid = True,
        data = content (dev_st c) n\<rparr>)"
proof -
  let ?bs = "if EVICTION_THRESHOLD \<le> length (blocks c) then snd (evict (blocks c)) else blocks c"
  let ?b = "\<lparr>block_no = n, acquired = True, pinned = False, block_lock = init_sem 0, valid = True,
      data = content (dev_st c) n\<rparr>"
  have no: "bmap ?bs (block_no ?b) = None" using evict_keeps(4) [OF inv] miss by simp
  have "wf_blocks (snd (evict (blocks c)))" using cache_invD(1) [OF evict_keeps(1) [OF inv]] by simp
  then have wf: "wf_blocks ?bs" using cache_invD(1) [OF inv] by simp
  then have wf': "wf_blocks (?bs @ [?b])" using no by (simp add: wf_snoc)
  have "cache_acquire dv n c = Ret (c\<lparr>blocks := boost_frequency n (?bs @ [?b])\<rparr>)"
    using miss cache_invD(1) [OF inv] read_law [OF cache_invD(6) [OF inv] n]
    by (simp add: cache_acquire_def fetch_cached_bmap init_block_def get_sem_init device_read_def Let_def)
  then show ?thesis
    using wf_boost [OF wf'] bmap_boost [OF wf', of n] bmap_snoc [OF no] by auto
qed

lemma acquire_result:
  assumes inv: "cache_inv content on_device well sb c" and n: "usable on_device sb n" "n \<notin> held c"
  shows "\<exists>bs'. cache_acquire dv n c = Ret (c\<lparr>blocks := bs'\<rparr>) \<and>
    cache_inv content on_device well sb (c\<lparr>blocks := bs'\<rparr>) \<and>
    view content (c\<lparr>blocks := bs'\<rparr>) = view content c \<and>
    held (c\<lparr>blocks := bs'\<rparr>) = insert n (held c) \<and> dirty content (c\<lparr>blocks := bs'\<rparr>) = dirty content c"
proof (cases "bmap (blocks c) n")
  case (Some b)
  have ok: "block_ok content (usable on_device sb) c n b" by (rule cache_invD(8) [OF inv Some])
  have free: "\<not> acquired b" using n(2) Some by (auto simp: held_def)
  have lok: "lock_ok b" using ok by (simp add: block_ok_def)
  let ?bs = "boost_frequency n (upd_block n (\<lambda>_. take_block b) (blocks c))"
  note acq = acquire_cached [OF cache_invD(1) [OF inv] Some free lok]
  have "cache_inv content on_device well sb (c\<lparr>blocks := ?bs\<rparr>)"
  proof (rule cache_inv_blocks [OF inv acq(2)])
    show "block_ok content (usable on_device sb) c m b'" if "bmap ?bs m = Some b'" for m b'
      using that acq(3) ok cache_invD(8) [OF inv, of m b'] by (auto simp: block_ok_def split: if_splits)
    show "bmap ?bs m \<noteq> None" if "m \<in> set (logged (header c))" for m
      using acq(3) cache_invD(9) [OF inv that] by simp
  qed
  moreover have "view content (c\<lparr>blocks := ?bs\<rparr>) = view content c"
    using acq(3) Some by (auto simp: view_def fun_eq_iff split: option.splits)
  moreover have "held (c\<lparr>blocks := ?bs\<rparr>) = insert n (held c)"
    using acq(3) Some by (auto simp: held_def)
  moreover have "dirty content (c\<lparr>blocks := ?bs\<rparr>) = dirty content c"
    using acq(3) Some by (auto simp: dirty_def)
  ultimately show ?thesis using acq(1) by blast
next
  case None
  let ?bs = "if EVICTION_THRESHOLD \<le> length (blocks c) then snd (evict (blocks c)) else blocks c"
  let ?c = "c\<lparr>blocks := ?bs\<rparr>"
  let ?b = "\<lparr>block_no = n, acquired = True, pinned = False, block_lock = init_sem 0, valid = True,
      data = content (dev_st c) n\<rparr>"
  have inv1: "cache_inv content on_device well sb ?c" and view1: "view content ?c = view content c"
    and held1: "held ?c = held c" and none1: "bmap ?bs n = None"
    and dirty1: "dirty content ?c = dirty content c"
    using evict_keeps [OF inv] evict_dirty [OF inv] inv None by simp_all
  have on: "on_device n" using n(1) by (simp add: usable_def)
  from acquire_missing [OF inv on None] obtain bs' where acq: "cache_acquire dv n c = Ret (c\<lparr>blocks := bs'\<rparr>)"
    and wf': "wf_blocks bs'" and bm': "bmap bs' = (bmap ?bs)(n \<mapsto> ?b)" by blast
  have nolog: "n \<notin> set (logged (header c))" using cache_invD(9) [OF inv] None by fastforce
  have okb: "block_ok content (usable on_device sb) ?c n ?b"
    using n(1) nolog content_size [OF cache_invD(6) [OF inv] on] by (simp add: block_ok_def lock_ok_def)
  have "cache_inv content on_device well sb (?c\<lparr>blocks := bs'\<rparr>)"
  proof (rule cache_inv_blocks [OF inv1 wf'])
    show "block_ok content (usable on_device sb) ?c m b'" if "bmap bs' m = Some b'" for m b'
      using that bm' okb cache_invD(8) [OF inv1, of m b'] by (cases "m = n") auto
    show "bmap bs' m \<noteq> None" if "m \<in> set (logged (header ?c))" for m
      using bm' cache_invD(9) [OF inv1 that] by auto
  qed
  moreover have "view content (c\<lparr>blocks := bs'\<rparr>) = view content ?c"
    using bm' none1 by (auto simp: view_def fun_eq_iff split: option.splits)
  moreover have "held (c\<lparr>blocks := bs'\<rparr>) = insert n (held ?c)"
    using bm' by (auto simp: held_def)
  moreover have "dirty content (c\<lparr>blocks := bs'\<rparr>) = dirty content ?c"
    using bm' none1 by (auto simp: dirty_def)
  ultimately show ?thesis using acq view1 held1 dirty1 by auto
qed

end

lemma held_bmap: "n \<in> held c \<Longrightarrow> \<exists>b. bmap (blocks c) n = Some b \<and> acquired b"
  by (simp add: held_def)

lemma view_held: "bmap (blocks c) n = Some b \<Longrightarrow> view content c n = data b"
  by (simp add: view_def)

lemma get_data_view: "n \<in> held c \<Longrightarrow> get_data n c = Ret (view content c n)"
  by (auto simp: get_data_def with_block_def view_def held_def simp flip: bmap_def)

text \<open>Changing one block that is cached.\<close>

lemma cache_inv_upd:
  assumes inv: "cache_inv content on_device well sb c" and b: "bmap (blocks c) n = Some b"
    and f: "\<And>b. block_no (f b) = block_no b" and ok: "block_ok content (usable on_device sb) c n (f b)"
  shows "cache_inv content on_device well sb (c\<lparr>blocks := upd_block n f (blocks c)\<rparr>)"
    and "bmap (upd_block n f (blocks c)) = (bmap (blocks c))(n \<mapsto> f b)"
proof -
  show bm: "bmap (upd_block n f (blocks c)) = (bmap (blocks c))(n \<mapsto> f b)"
    using b f by (simp add: bmap_upd)
  show "cache_inv content on_device well sb (c\<lparr>blocks := upd_block n f (blocks c)\<rparr>)"
  proof (rule cache_inv_blocks [OF inv])
    show "wf_blocks (upd_block n f (blocks c))" using f cache_invD(1) [OF inv] by (simp add: wf_upd)
    show "block_ok content (usable on_device sb) c m b'" if "bmap (upd_block n f (blocks c)) m = Some b'" for m b'
      using that bm ok cache_invD(8) [OF inv, of m b'] by (auto split: if_splits)
    show "bmap (upd_block n f (blocks c)) m \<noteq> None" if "m \<in> set (logged (header c))" for m
      using bm cache_invD(9) [OF inv that] by simp
  qed
qed

lemma release_result:
  assumes inv: "cache_inv content on_device well sb c" and n: "n \<in> held c" "n \<notin> dirty content c"
  shows "\<exists>bs'. cache_release n c = Ret (c\<lparr>blocks := bs'\<rparr>) \<and>
    cache_inv content on_device well sb (c\<lparr>blocks := bs'\<rparr>) \<and>
    view content (c\<lparr>blocks := bs'\<rparr>) = view content c \<and>
    held (c\<lparr>blocks := bs'\<rparr>) = held c - {n} \<and> dirty content (c\<lparr>blocks := bs'\<rparr>) = dirty content c"
proof -
  from n(1) obtain b where b: "bmap (blocks c) n = Some b" "acquired b" by (auto simp: held_def)
  have ok: "block_ok content (usable on_device sb) c n b" by (rule cache_invD(8) [OF inv b(1)])
  have clean: "\<not> pinned b \<longrightarrow> data b = content (dev_st c) n" using n(2) b(1) by (auto simp: dirty_def)
  have okf: "block_ok content (usable on_device sb) c n (free_block b)" using ok clean by (auto simp: block_ok_def)
  let ?bs = "upd_block n free_block (blocks c)"
  note u = cache_inv_upd [OF inv b(1), of free_block, OF _ okf]
  have "cache_release n c = Ret (c\<lparr>blocks := ?bs\<rparr>)"
    using release_cached [OF b _ cache_invD(1) [OF inv]] ok by (simp add: block_ok_def)
  moreover have "view content (c\<lparr>blocks := ?bs\<rparr>) = view content c"
    using u(2) b by (auto simp: view_def fun_eq_iff split: option.splits)
  moreover have "held (c\<lparr>blocks := ?bs\<rparr>) = held c - {n}"
    using u(2) b by (auto simp: held_def)
  moreover have "dirty content (c\<lparr>blocks := ?bs\<rparr>) = dirty content c"
    using u(2) b by (auto simp: dirty_def)
  ultimately show ?thesis using u(1) by auto
qed

lemma release_not_held:
  assumes "bmap (blocks c) n = Some b" and "\<not> acquired b"
  shows "cache_release n c = Panic"
  using assms by (simp add: cache_release_def with_block_def flip: bmap_def)

lemma set_data_result:
  assumes inv: "cache_inv content on_device well sb c" and n: "n \<in> held c" and x: "length x = BLOCK_SIZE"
  shows "\<exists>bs'. set_data n x c = Ret (c\<lparr>blocks := bs'\<rparr>) \<and>
    cache_inv content on_device well sb (c\<lparr>blocks := bs'\<rparr>) \<and>
    view content (c\<lparr>blocks := bs'\<rparr>) = (view content c)(n := x) \<and>
    held (c\<lparr>blocks := bs'\<rparr>) = held c \<and>
    dirty content (c\<lparr>blocks := bs'\<rparr>) \<subseteq> insert n (dirty content c) \<and>
    (n \<in> set (logged (header c)) \<longrightarrow> dirty content (c\<lparr>blocks := bs'\<rparr>) = dirty content c)"
proof -
  from n obtain b where b: "bmap (blocks c) n = Some b" "acquired b" by (auto simp: held_def)
  have ok: "block_ok content (usable on_device sb) c n b" by (rule cache_invD(8) [OF inv b(1)])
  let ?f = "\<lambda>b. b\<lparr>data := x\<rparr>"
  let ?bs = "upd_block n ?f (blocks c)"
  have "block_ok content (usable on_device sb) c n (?f b)" using ok b(2) x by (simp add: block_ok_def lock_ok_def)
  note u = cache_inv_upd [OF inv b(1), of ?f, OF _ this]
  have "set_data n x c = Ret (c\<lparr>blocks := ?bs\<rparr>)"
    using b by (simp add: set_data_def with_block_def flip: bmap_def)
  moreover have "view content (c\<lparr>blocks := ?bs\<rparr>) = (view content c)(n := x)"
    using u(2) b by (auto simp: view_def fun_eq_iff split: option.splits)
  moreover have "held (c\<lparr>blocks := ?bs\<rparr>) = held c"
    using u(2) b by (auto simp: held_def)
  moreover have "dirty content (c\<lparr>blocks := ?bs\<rparr>) \<subseteq> insert n (dirty content c)"
    using u(2) b by (auto simp: dirty_def split: if_splits)
  moreover have "dirty content (c\<lparr>blocks := ?bs\<rparr>) = dirty content c" if "n \<in> set (logged (header c))"
    using u(2) b ok that by (auto simp: dirty_def block_ok_def split: if_splits)
  ultimately show ?thesis using u(1) by (intro exI [of _ ?bs]) simp
qed

section \<open>Logging a block\<close>

lemma header_log:
  assumes "header_ok h" and "loggable on_device base (logged h)" and "lh_num_blocks h < LOG_MAX_SIZE"
    and n: "n \<notin> set (logged h)" "n < 2 ^ 64" "on_device n" "\<not> in_log base n"
  defines "h' \<equiv> \<lparr>lh_num_blocks = lh_num_blocks h + 1, lh_block_no = (lh_block_no h)[lh_num_blocks h := n]\<rparr>"
  shows "header_ok h'" and "logged h' = logged h @ [n]" and "loggable on_device base (logged h')"
proof -
  have len: "length (lh_block_no h) = LOG_MAX_SIZE" using assms(1) by (simp add: header_ok_def)
  show "header_ok h'"
    using assms(1,3) n(2) by (auto simp: header_ok_def h'_def dest!: set_update_subset_insert [THEN subsetD])
  show lg: "logged h' = logged h @ [n]"
    using assms(3) len by (simp add: logged_def h'_def take_Suc_conv_app_nth)
  show "loggable on_device base (logged h')"
    using assms(1-3) n len unfolding lg by (auto simp: loggable_def logged_def)
qed

lemma sync_logged:
  assumes "n \<in> held c" and "n \<in> set (logged (header c))"
  shows "cache_sync dv (Some ctx) n c = Ret (Some ctx, c)"
  using assms by (auto simp: cache_sync_def with_block_def held_def logged_def simp flip: bmap_def)

lemma sync_no_quota:
  assumes "n \<in> held c" and "header_ok (header c)" and "n \<notin> set (logged (header c))" and "rm ctx = 0"
  shows "cache_sync dv (Some ctx) n c = Panic"
  using assms by (auto simp: cache_sync_def with_block_def held_def logged_def header_ok_def Let_def simp flip: bmap_def)

lemma sync_overflow:
  assumes "n \<in> held c" and "header_ok (header c)" and "n \<notin> set (logged (header c))" and "rm ctx \<noteq> 0"
    and "lh_num_blocks (header c) = LOG_MAX_SIZE"
  shows "cache_sync dv (Some ctx) n c = Undef"
  using assms by (auto simp: cache_sync_def with_block_def held_def logged_def header_ok_def Let_def simp flip: bmap_def)

lemma sync_new:
  assumes inv: "cache_inv content on_device well sb c" and n: "n \<in> held c" "n \<notin> set (logged (header c))"
    and q: "rm ctx \<noteq> 0" "lh_num_blocks (header c) < LOG_MAX_SIZE"
    and ok: "n < 2 ^ 64"
  shows "\<exists>c'. cache_sync dv (Some ctx) n c = Ret (Some (ctx\<lparr>rm := rm ctx - 1\<rparr>), c') \<and>
    cache_inv content on_device well sb c' \<and> view content c' = view content c \<and> held c' = held c \<and>
    dirty content c' = dirty content c - {n} \<and> logged (header c') = logged (header c) @ [n] \<and>
    lh_num_blocks (header c') = lh_num_blocks (header c) + 1 \<and>
    dev_st c' = dev_st c \<and> contributors_cnt c' = contributors_cnt c \<and> work_done c' = work_done c"
proof -
  from n(1) obtain b where b: "bmap (blocks c) n = Some b" "acquired b" by (auto simp: held_def)
  have okb: "block_ok content (usable on_device sb) c n b" by (rule cache_invD(8) [OF inv b(1)])
  let ?h = "header c"
  let ?h' = "\<lparr>lh_num_blocks = lh_num_blocks ?h + 1, lh_block_no = (lh_block_no ?h)[lh_num_blocks ?h := n]\<rparr>"
  let ?f = "\<lambda>b. b\<lparr>pinned := True\<rparr>"
  let ?bs = "upd_block n ?f (blocks c)"
  let ?c' = "c\<lparr>blocks := ?bs, header := ?h'\<rparr>"
  have onn: "on_device n" "\<not> in_log (log_start sb) n" using okb by (simp_all add: block_ok_def usable_def)
  note h = header_log [OF cache_invD(2,3) [OF inv] q(2) n(2) ok onn]
  have bm: "bmap ?bs = (bmap (blocks c))(n \<mapsto> ?f b)" using b by (simp add: bmap_upd)
  have len: "length (lh_block_no ?h) = LOG_MAX_SIZE" using cache_invD(2) [OF inv] by (simp add: header_ok_def)
  have "cache_sync dv (Some ctx) n c = Ret (Some (ctx\<lparr>rm := rm ctx - 1\<rparr>), ?c')"
    using b n(2) q len
    by (simp add: cache_sync_def with_block_def logged_def Let_def flip: bmap_def)
  moreover have "cache_inv content on_device well sb ?c'"
    unfolding cache_inv_def
  proof (intro conjI allI ballI impI)
    show "wf_blocks (blocks ?c')" using cache_invD(1) [OF inv] by (simp add: wf_upd)
    show "block_ok content (usable on_device sb) ?c' m b'" if "bmap (blocks ?c') m = Some b'" for m b'
      using that bm h(2) okb b(2) cache_invD(8) [OF inv, of m b']
      by (auto simp: block_ok_def lock_ok_def split: if_splits)
    show "bmap (blocks ?c') m \<noteq> None" if "m \<in> set (logged (header ?c'))" for m
      using that bm h(2) cache_invD(9) [OF inv, of m] by auto
  qed (use h cache_invD [OF inv] in simp_all)
  moreover have "view content ?c' = view content c"
    using bm b by (auto simp: view_def fun_eq_iff split: option.splits)
  moreover have "held ?c' = held c" using bm b by (auto simp: held_def)
  moreover have "dirty content ?c' = dirty content c - {n}" using bm b by (auto simp: dirty_def)
  ultimately show ?thesis using h(2) by simp
qed

section \<open>Commit, crash and recovery\<close>

lemma ready_logged:
  assumes inv: "cache_inv content on_device well sb c" and n: "n \<in> set (logged (header c))" "n \<notin> held c"
  shows "ready (blocks c) n" and "block_data (blocks c) n = view content c n"
proof -
  from cache_invD(9) [OF inv n(1)] obtain b where b: "bmap (blocks c) n = Some b" ..
  with cache_invD(8) [OF inv b] n(2) show "ready (blocks c) n"
    by (auto simp: ready_def block_ok_def held_def)
  show "block_data (blocks c) n = view content c n" using b by (simp add: block_data_def view_def)
qed

text \<open>The same cache in front of another device.\<close>

definition on_dev :: "'d bcache \<Rightarrow> 'e \<Rightarrow> 'e bcache" where
  "on_dev c d = \<lparr>blocks = blocks c, header = header c, contributors_cnt = contributors_cnt c,
     work_done = work_done c, dev_st = d\<rparr>"

lemma on_dev_simps [simp]:
  "blocks (on_dev c d) = blocks c" "header (on_dev c d) = header c" "dev_st (on_dev c d) = d"
  "contributors_cnt (on_dev c d) = contributors_cnt c" "work_done (on_dev c d) = work_done c"
  by (simp_all add: on_dev_def)

context block_dev
begin

lemma view_bound:
  assumes inv: "cache_inv content on_device well sb c" and n: "on_device n"
  shows "length (view content c n) = BLOCK_SIZE"
  using cache_invD(8) [OF inv, of n] content_size [OF cache_invD(6) [OF inv] n]
  by (auto simp: view_def block_ok_def split: option.splits)

lemma commit_setup:
  assumes inv: "cache_inv content on_device well sb c" and free: "set (logged (header c)) \<inter> held c = {}"
  shows "\<forall>n \<in> set (logged (header c)). ready (blocks c) n"
    and "\<forall>n \<in> set (logged (header c)). length (block_data (blocks c) n) = BLOCK_SIZE"
    and "\<And>n. n \<in> set (logged (header c)) \<Longrightarrow> block_data (blocks c) n = view content c n"
    and "recoverable content on_device (log_start sb) (store (log_start sb) (header_bytes (header c))
        (put_log store (log_start sb) (block_data (blocks c)) 0 (logged (header c)) (dev_st c)))"
proof -
  let ?ns = "logged (header c)"
  show r: "\<forall>n \<in> set ?ns. ready (blocks c) n" using ready_logged(1) [OF inv] free by blast
  show l: "\<forall>n \<in> set ?ns. length (block_data (blocks c) n) = BLOCK_SIZE"
    using r by (auto simp: ready_def block_data_def)
  show "block_data (blocks c) n = view content c n" if "n \<in> set ?ns" for n
    using ready_logged(2) [OF inv that] that free by blast
  note I = cache_invD [OF inv]
  have "holds_log (log_start sb) (header c) (block_data (blocks c)) (store (log_start sb)
      (header_bytes (header c)) (put_log store (log_start sb) (block_data (blocks c)) 0 ?ns (dev_st c)))"
    by (rule after_header(2) [OF I(6,4,2,3) l])
  then show "recoverable content on_device (log_start sb) (store (log_start sb) (header_bytes (header c))
      (put_log store (log_start sb) (block_data (blocks c)) 0 ?ns (dev_st c)))"
    using I(2,3) by (simp add: recoverable_def holds_log_def header_ok_def loggable_def)
qed

lemma end_op_commits:
  assumes inv: "cache_inv content on_device well sb c" and last: "contributors_cnt c = 1"
    and free: "set (logged (header c)) \<inter> held c = {}"
  shows "\<exists>c'. cache_end_op dv sb p c = Ret (True, c') \<and>
    cache_inv content on_device well sb c' \<and> contributors_cnt c' = 0 \<and>
    logged (header c') = [] \<and> sleeplist (work_done c') = [] \<and> held c' = held c \<and>
    (\<forall>m. usable on_device sb m \<longrightarrow> view content c' m = view content c m) \<and>
    (\<forall>m. usable on_device sb m \<longrightarrow>
      content (dev_st c') m = (if m \<in> set (logged (header c)) then view content c m else content (dev_st c) m))"
proof -
  let ?ns = "logged (header c)" and ?base = "log_start sb"
  note I = cache_invD [OF inv] and S = commit_setup [OF inv free]
  have dist: "distinct ?ns" using I(3) by (simp add: loggable_def)
  from end_op_result [OF last I(1,2) dist S(1) I(6,4) S(4) I(5), of p] obtain c' where
    run: "cache_end_op dv sb p c = Ret (True, c')"
    and dev: "dev_st c' = commit store content ?base (header c) (block_data (blocks c)) (dev_st c)"
    and well': "well (dev_st c')" and wf': "wf_blocks (blocks c')"
    and bm': "bmap (blocks c') = (\<lambda>n. if n \<in> set ?ns then map_option unpin (bmap (blocks c) n) else bmap (blocks c) n)"
    and rest: "contributors_cnt c' = 0" "sem_ok (work_done c')" "sleeplist (work_done c') = []"
      "lh_num_blocks (header c') = 0" "header_ok (header c')" by blast
  have log': "logged (header c') = []" using rest(4) by (simp add: logged_def)
  have cont: "content (dev_st c') m = (if m \<in> set ?ns then view content c m else content (dev_st c) m)"
    if "usable on_device sb m" for m
    using commit_content [OF I(6,4,2,3) S(2)] S(3) that dev by (auto simp: usable_def)
  have data': "data b' = view content c n" if "bmap (blocks c') n = Some b'" for n b'
    using that bm' by (auto simp: view_def split: if_splits)
  have held': "held c' = held c"
    using bm' by (auto simp: held_def split: if_splits)
  have view': "view content c' m = view content c m" if "usable on_device sb m" for m
    using that bm' cont [OF that] I(9) by (fastforce simp: view_def split: option.splits if_splits)
  let ?d2 = "store ?base (header_bytes (header c)) (put_log store ?base (block_data (blocks c)) 0 ?ns (dev_st c))"
  note h2 = after_header [OF I(6,4,2,3) S(2)]
  have h2h: "bytes_header (content ?d2 ?base) = header c" using h2(2) by (simp add: holds_log_def)
  have num': "lh_num_blocks (bytes_header (content (dev_st c') ?base)) = 0"
    using recover_header(2) [OF h2(1) I(4)] I(2,3) h2h dev by (simp add: commit_def)
  have "cache_inv content on_device well sb c'"
    unfolding cache_inv_def
  proof (intro conjI allI ballI impI)
    show "block_ok content (usable on_device sb) c' n b'" if b': "bmap (blocks c') n = Some b'" for n b'
    proof -
      obtain b where b: "bmap (blocks c) n = Some b" and bb: "b' = (if n \<in> set ?ns then unpin b else b)"
        using b' bm' by (auto split: if_splits)
      have ok: "block_ok content (usable on_device sb) c n b" by (rule I(8) [OF b])
      then have us: "usable on_device sb n" by (simp add: block_ok_def)
      show ?thesis
        using ok bb log' cont [OF us] view_held [of c n b content, OF b] by (auto simp: block_ok_def)
    qed
  qed (use wf' log' rest num' I(4) well' in \<open>simp_all add: loggable_def\<close>)
  then show ?thesis using run rest log' held' view' cont by blast
qed

text \<open>Recovery at start-up.\<close>

lemma init_bcache_result:
  assumes well: "well d" and fits: "log_fits on_device (log_start sb)"
    and ok: "log_ok content on_device (log_start sb) d"
  shows "\<exists>c. init_bcache dv sb h0 d = Ret c \<and> cache_inv content on_device well sb c \<and>
    blocks c = [] \<and> dev_st c = recover store content (log_start sb) d \<and> contributors_cnt c = 0"
proof -
  let ?c0 = "\<lparr>blocks = [], header = h0, contributors_cnt = 0, work_done = init_sem 0, dev_st = d\<rparr>"
  let ?h = "bytes_header (content d (log_start sb))"
  have rec: "recoverable content on_device (log_start sb) (dev_st ?c0)"
    using log_ok_recoverable [OF ok] by simp
  have hok: "header_ok ?h" "loggable on_device (log_start sb) (logged ?h)"
    using ok by (simp_all add: log_ok_def)
  note r = recover_header [OF well fits hok]
  have "header_ok (?h\<lparr>lh_num_blocks := 0\<rparr>)" using hok(1) by (simp add: header_ok_def)
  then show ?thesis
    using spawn_ckpt_result [of ?c0 sb] well fits rec r
    by (simp add: init_bcache_def cache_inv_def logged_def loggable_def wf_blocks_def sem_ok_init)
qed

lemma crash_recoverable:
  assumes inv: "cache_inv content on_device well sb c" and free: "set (logged (header c)) \<inter> held c = {}"
  shows "recoverable (\<lambda>dk. content (fst dk)) on_device (log_start sb)
    (crash_store store (log_start sb) (header_bytes (header c))
      (put_log (crash_store store) (log_start sb) (block_data (blocks c)) 0 (logged (header c)) (dev_st c, k)))"
proof (cases "k \<le> length (logged (header c))")
  case True
  let ?base = "log_start sb" and ?ns = "take k (logged (header c))"
  let ?d1 = "put_log store ?base (block_data (blocks c)) 0 ?ns (dev_st c)"
  note I = cache_invD [OF inv] and S = commit_setup [OF inv free]
  have on: "on_device ?base" using I(4) by (auto simp: log_fits_def dest: spec [of _ 0])
  have "content ?d1 ?base = content (dev_st c) ?base"
    by (rule content_put_log_other [OF I(6) _ I(4) _ on])
      (use S(2) I(3) in \<open>auto simp: loggable_def dest: in_set_takeD\<close>)
  then show ?thesis
    using True I(7) by (simp add: put_log_crash crash_store_def recoverable_def logged_def)
next
  case False
  then show ?thesis
    using commit_setup(4) [OF inv free]
    by (simp add: put_log_crash crash_store_def recoverable_def)
qed

lemma crash_safe:
  assumes inv: "cache_inv content on_device well sb c" and last: "contributors_cnt c = 1"
    and free: "set (logged (header c)) \<inter> held c = {}"
  shows "\<exists>c' c''. cache_end_op (crash_device dv) sb p (on_dev c (dev_st c, k)) = Ret (True, c') \<and>
    init_bcache dv sb h0 (fst (dev_st c')) = Ret c'' \<and> cache_inv content on_device well sb c'' \<and>
    ((\<forall>m. usable on_device sb m \<longrightarrow> view content c'' m = content (dev_st c) m) \<or>
     (\<forall>m. usable on_device sb m \<longrightarrow> view content c'' m =
        (if m \<in> set (logged (header c)) then view content c m else content (dev_st c) m)))"
proof -
  let ?ns = "logged (header c)" and ?base = "log_start sb" and ?f = "block_data (blocks c)"
  let ?ck = "on_dev c (dev_st c, k)"
  note I = cache_invD [OF inv] and S = commit_setup [OF inv free]
  have dist: "distinct ?ns" using I(3) by (simp add: loggable_def)
  have "\<exists>c'. cache_end_op (crash_device dv) sb p ?ck = Ret (True, c') \<and>
      dev_st c' = commit (crash_store store) (\<lambda>dk. content (fst dk)) ?base (header c) ?f (dev_st c, k)"
    using crash.end_op_result [of ?ck sb p] last I(1,2,4-6) dist S(1) crash_recoverable [OF inv free, of k]
    by auto
  then obtain c' where run: "cache_end_op (crash_device dv) sb p ?ck = Ret (True, c')"
    and dev: "dev_st c' = commit (crash_store store) (\<lambda>dk. content (fst dk)) ?base (header c) ?f (dev_st c, k)"
    by blast
  note cr = crash_then_recover [OF I(6,4,2,3) S(2) I(7), of k, folded dev]
  from init_bcache_result [of "fst (dev_st c')" sb h0] cr I(4) obtain c'' where
    boot: "init_bcache dv sb h0 (fst (dev_st c')) = Ret c''" "cache_inv content on_device well sb c''"
    "blocks c'' = []" "dev_st c'' = recover store content ?base (fst (dev_st c'))" by blast
  have view: "view content c'' m = content (recover store content ?base (fst (dev_st c'))) m" for m
    using boot(3,4) by (simp add: view_def)
  from cr have "(\<forall>m. usable on_device sb m \<longrightarrow> view content c'' m = content (dev_st c) m) \<or>
     (\<forall>m. usable on_device sb m \<longrightarrow> view content c'' m =
        (if m \<in> set ?ns then view content c m else content (dev_st c) m))"
    using S(3) by (auto simp: view usable_def)
  with run boot show ?thesis by blast
qed

text \<open>Recovery can itself be cut short and started again.\<close>

lemma log_entries_fun:
  assumes "distinct ns"
  shows "\<exists>f. \<forall>j < length ns. f (ns ! j) = g (j :: nat)"
proof (intro exI allI impI)
  fix j assume "j < length ns"
  moreover have "inj_on ((!) ns) {..<length ns}" using assms by (auto simp: inj_on_def nth_eq_iff_index_eq)
  ultimately show "(\<lambda>m. g (inv_into {..<length ns} ((!) ns) m)) (ns ! j) = g j"
    using inv_into_f_f [of "(!) ns" "{..<length ns}" j] by simp
qed

lemma recovery_restartable:
  assumes well: "well d" and fits: "log_fits on_device (log_start sb)"
    and ok: "log_ok content on_device (log_start sb) d"
  shows "\<exists>c1 c2 c. init_bcache (crash_device dv) sb h0 (d, k) = Ret c1 \<and>
    init_bcache dv sb h1 (fst (dev_st c1)) = Ret c2 \<and> init_bcache dv sb h1 d = Ret c \<and>
    cache_inv content on_device well sb c2 \<and>
    (\<forall>m. usable on_device sb m \<longrightarrow> view content c2 m = view content c m)"
proof -
  let ?base = "log_start sb"
  let ?h = "bytes_header (content d ?base)"
  let ?ns = "logged ?h"
  have hok: "header_ok ?h" "loggable on_device ?base ?ns" using ok by (simp_all add: log_ok_def)
  have on: "on_device ?base" using fits by (auto simp: log_fits_def dest: spec [of _ 0])
  let ?c0 = "\<lparr>blocks = [], header = h0, contributors_cnt = 0, work_done = init_sem 0, dev_st = (d, k)\<rparr>"
  have rec: "recoverable (\<lambda>dk. content (fst dk)) on_device ?base (dev_st ?c0)"
    using log_ok_recoverable [OF ok] by (simp add: recoverable_def)
  obtain c1 where c1: "init_bcache (crash_device dv) sb h0 (d, k) = Ret c1"
    and dev1: "dev_st c1 = recover (crash_store store) (\<lambda>dk. content (fst dk)) ?base (d, k)"
    using crash.spawn_ckpt_result [of ?c0 sb] well fits rec by (simp add: init_bcache_def)
  let ?d1 = "fst (dev_st c1)"
  have d1: "?d1 = (if k \<le> length ?ns then install store content ?base 0 (take k ?ns) d
      else recover store content ?base d)"
    unfolding dev1 recover_crash by (simp add: Let_def)
  from log_entries_fun [of ?ns "\<lambda>j. content d (?base + 1 + j)"] hok(2) obtain f where
    f: "\<forall>j < length ?ns. f (?ns ! j) = content d (?base + 1 + j)" by (auto simp: loggable_def)
  have holds: "holds_log ?base ?h f d" using f by (simp add: holds_log_def)
  note rec_d = recover_holds [OF well fits holds hok(2)]
  have "well ?d1 \<and> log_ok content on_device ?base ?d1 \<and>
      (\<forall>m. usable on_device sb m \<longrightarrow>
        content (recover store content ?base ?d1) m = content (recover store content ?base d) m)"
  proof (cases "k \<le> length ?ns")
    case True
    note i = after_install [OF well fits holds hok(2), where k = k]
    have "log_ok content on_device ?base ?d1"
      using i(2) hok d1 True by (simp add: holds_log_def log_ok_def)
    then show ?thesis
      using i rec_d recover_holds [OF i(1) fits i(2) hok(2)] d1 True by (simp add: usable_def)
  next
    case False
    note r = recover_header [OF well fits hok]
    have d1': "?d1 = recover store content ?base d" using d1 False by simp
    have "log_ok content on_device ?base ?d1"
      unfolding d1' using header_ok_disk [OF r(1) on] r(2) by (simp add: log_ok_def logged_def loggable_def)
    then show ?thesis
      unfolding d1' using r recover_empty [OF r(1) fits r(2)] by (simp add: usable_def)
  qed
  then have "well ?d1" and "log_ok content on_device ?base ?d1"
    and same: "\<And>m. usable on_device sb m \<Longrightarrow>
      content (recover store content ?base ?d1) m = content (recover store content ?base d) m" by blast+
  with init_bcache_result [OF _ fits, of ?d1 h1] init_bcache_result [OF well fits ok, of h1] c1
  show ?thesis by (fastforce simp: view_def)
qed

end

end
