(* ===== verification/Cache_Client.thy ===== *)
theory Cache_Client
  imports Cache_Ops
begin

text \<open>
  The block cache as its clients see it. A client's picture of the cache is the content of
  every usable block, the blocks it holds, those of them it has changed without logging
  them, and the blocks in the log; every operation is described by its effect on that
  picture. The interface \<open>block_cache_laws\<close> states these effects for the operations of
  \<^verbatim>\<open>struct block_cache\<close>, proves the read and update patterns clients use, and is interpreted
  on the functions of \<^verbatim>\<open>fs/cache.c\<close>. Allocation and release of blocks are then described
  by the set of used blocks of the bitmap.
\<close>

section \<open>The client's picture\<close>

definition cache_at ::
  "('d \<Rightarrow> nat \<Rightarrow> u8 list) \<Rightarrow> (nat \<Rightarrow> bool) \<Rightarrow> ('d \<Rightarrow> bool) \<Rightarrow> super_block \<Rightarrow>
   (nat \<Rightarrow> u8 list) \<Rightarrow> nat set \<Rightarrow> nat set \<Rightarrow> nat set \<Rightarrow> 'd bcache \<Rightarrow> bool" where
  "cache_at content on_device well sb V H D L c \<longleftrightarrow>
     cache_inv content on_device well sb c \<and>
     (\<forall>m. usable on_device sb m \<longrightarrow> view content c m = V m) \<and>
     held c = H \<and> dirty content c \<subseteq> D \<and> set (logged (header c)) = L"

lemma cache_at_card:
  assumes "cache_at content on_device well sb V H D L c"
  shows "card L = lh_num_blocks (header c)" and "card L \<le> LOG_MAX_SIZE"
proof -
  have inv: "cache_inv content on_device well sb c" and L: "set (logged (header c)) = L"
    using assms by (simp_all add: cache_at_def)
  have "distinct (logged (header c))" using cache_invD(3) [OF inv] by (simp add: loggable_def)
  then have "card L = length (logged (header c))" using L distinct_card by blast
  also have "\<dots> = lh_num_blocks (header c)"
    using cache_invD(2) [OF inv] by (simp add: logged_def header_ok_def)
  finally show c: "card L = lh_num_blocks (header c)" .
  show "card L \<le> LOG_MAX_SIZE" using c cache_invD(2) [OF inv] by (simp add: header_ok_def)
qed

lemma cache_at_usable: "cache_at content on_device well sb V H D L c \<Longrightarrow> n \<in> H \<Longrightarrow> usable on_device sb n"
  using cache_invD(8) by (fastforce simp: cache_at_def held_def block_ok_def)

lemma cache_at_mono: "cache_at content on_device well sb V H D L c \<Longrightarrow> D \<subseteq> D' \<Longrightarrow>
  cache_at content on_device well sb V H D' L c"
  by (auto simp: cache_at_def)

context block_dev
begin

lemma at_acquire:
  assumes "cache_at content on_device well sb V H D L c" and "usable on_device sb n" and "n \<notin> H"
  shows "\<exists>c'. cache_acquire dv n c = Ret c' \<and> cache_at content on_device well sb V (insert n H) D L c'"
  using assms acquire_result [of sb c n] by (fastforce simp: cache_at_def)

lemma at_acquire_held:
  assumes "cache_at content on_device well sb V H D L c" and "n \<in> H"
  shows "cache_acquire dv n c = Sleep"
  using assms acquire_taken [of sb c n] by (simp add: cache_at_def)

lemma at_get:
  assumes "cache_at content on_device well sb V H D L c" and "n \<in> H"
  shows "get_data n c = Ret (V n)"
  using assms get_data_view [of n c content] cache_at_usable [OF assms] by (auto simp: cache_at_def)

lemma at_size:
  assumes "cache_at content on_device well sb V H D L c" and "usable on_device sb n"
  shows "length (V n) = BLOCK_SIZE"
proof -
  have "cache_inv content on_device well sb c" "view content c n = V n"
    using assms by (auto simp: cache_at_def)
  with view_bound [of sb c n] assms(2) show ?thesis by (simp add: usable_def)
qed

lemma at_put:
  assumes "cache_at content on_device well sb V H D L c" and "n \<in> H" and "length x = BLOCK_SIZE"
  shows "\<exists>c'. set_data n x c = Ret c' \<and> cache_at content on_device well sb (V(n := x)) H (insert n D) L c'"
  using assms set_data_result [of content on_device well sb c n x] by (fastforce simp: cache_at_def)

lemma at_release:
  assumes "cache_at content on_device well sb V H D L c" and "n \<in> H" and "n \<notin> D"
  shows "\<exists>c'. cache_release n c = Ret c' \<and> cache_at content on_device well sb V (H - {n}) D L c'"
proof -
  have "n \<notin> dirty content c" using assms by (auto simp: cache_at_def)
  with assms release_result [of content on_device well sb c n] show ?thesis
    by (fastforce simp: cache_at_def)
qed

lemma at_sync:
  assumes at: "cache_at content on_device well sb V H D L c" and n: "n \<in> H"
    and q: "n \<in> L \<or> rm ctx \<noteq> 0 \<and> card L < LOG_MAX_SIZE"
  shows "\<exists>c'. cache_sync dv (Some ctx) n c =
      Ret (Some (if n \<in> L then ctx else ctx\<lparr>rm := rm ctx - 1\<rparr>), c') \<and>
    cache_at content on_device well sb V H (D - {n}) (insert n L) c'"
proof (cases "n \<in> L")
  case True
  have "n \<notin> dirty content c"
    using at True cache_invD(8) by (fastforce simp: cache_at_def dirty_def block_ok_def)
  then show ?thesis
    using sync_logged [of n c dv ctx] at n True by (auto simp: cache_at_def insert_absorb)
next
  case False
  have "on_device n" using cache_at_usable [OF at n] by (simp add: usable_def)
  then have n64: "n < 2 ^ 64" by (rule on_device_bound)
  have inv: "cache_inv content on_device well sb c" and h: "n \<in> held c" and l: "n \<notin> set (logged (header c))"
    using at n False by (auto simp: cache_at_def)
  have q': "rm ctx \<noteq> 0" "lh_num_blocks (header c) < LOG_MAX_SIZE"
    using q False cache_at_card(1) [OF at] by simp_all
  from sync_new [OF inv h l q' n64, of dv] obtain c' where c':
    "cache_sync dv (Some ctx) n c = Ret (Some (ctx\<lparr>rm := rm ctx - 1\<rparr>), c')"
    "cache_inv content on_device well sb c'" "view content c' = view content c" "held c' = held c"
    "dirty content c' = dirty content c - {n}" "logged (header c') = logged (header c) @ [n]" by blast
  then have "cache_at content on_device well sb V H (D - {n}) (insert n L) c'"
    using at by (auto simp: cache_at_def)
  with c'(1) False show ?thesis by simp
qed

lemma at_sync_no_quota:
  assumes at: "cache_at content on_device well sb V H D L c" and "n \<in> H" and "n \<notin> L" and "rm ctx = 0"
  shows "cache_sync dv (Some ctx) n c = Panic"
proof -
  have "cache_inv content on_device well sb c" using at by (simp add: cache_at_def)
  from cache_invD(2) [OF this] sync_no_quota [of n c ctx dv] assms show ?thesis
    by (auto simp: cache_at_def)
qed

text \<open>Without a context the block is written through to the device.\<close>

lemma at_sync_through:
  assumes at: "cache_at content on_device well sb V H D L c" and n: "n \<in> H"
  shows "\<exists>c'. cache_sync dv None n c = Ret (None, c') \<and>
    cache_at content on_device well sb V H (D - {n}) L c'"
proof -
  have inv: "cache_inv content on_device well sb c" using at by (simp add: cache_at_def)
  note I = cache_invD [OF inv]
  from at n obtain b where b: "bmap (blocks c) n = Some b" "acquired b"
    by (auto simp: cache_at_def held_def)
  have ok: "block_ok content (usable on_device sb) c n b" by (rule I(8) [OF b(1)])
  have no: "block_no b = n" by (rule bmap_no [OF b(1)])
  have on: "on_device n" "\<not> in_log (log_start sb) n" "length (data b) = BLOCK_SIZE"
    using ok by (simp_all add: block_ok_def usable_def)
  let ?c = "c\<lparr>dev_st := store n (data b) (dev_st c)\<rparr>"
  have run: "cache_sync dv None n c = Ret (None, ?c)"
    using b(1) no write_law [OF I(6) on(1,3)]
    by (simp add: cache_sync_def with_block_def device_write_def flip: bmap_def)
  have base: "on_device (log_start sb)" using I(4) by (auto simp: log_fits_def dest: spec [of _ 0])
  note cs = content_store [OF I(6) on(1) _ on(3)]
  have us: "m \<noteq> log_start sb" if "usable on_device sb m" for m
    using that by (auto simp: usable_def in_log_def)
  have inv': "cache_inv content on_device well sb ?c"
    unfolding cache_inv_def
  proof (intro conjI allI ballI impI)
    show "block_ok content (usable on_device sb) ?c m b'" if "bmap (blocks ?c) m = Some b'" for m b'
    proof -
      have "block_ok content (usable on_device sb) c m b'" using that I(8) by simp
      moreover from this have "on_device m" by (simp add: block_ok_def usable_def)
      ultimately show ?thesis using cs [of m] b that by (auto simp: block_ok_def)
    qed
    show "lh_num_blocks (bytes_header (content (dev_st ?c) (log_start sb))) = 0"
      using cs [OF base] I(7) on(2) by (auto simp: in_log_def)
    show "well (dev_st ?c)" using store_well [OF I(6) on(1,3)] by simp
  qed (use I in simp_all)
  have "view content ?c m = V m" if "usable on_device sb m" for m
    using at that cs [of m] b by (auto simp: cache_at_def view_def usable_def split: option.splits)
  moreover have "dirty content ?c \<subseteq> D - {n}"
  proof -
    have "m \<noteq> n \<and> m \<in> dirty content c" if "m \<in> dirty content ?c" for m
    proof -
      from that obtain b' where b': "bmap (blocks c) m = Some b'" "\<not> pinned b'"
        "data b' \<noteq> content (dev_st ?c) m" by (auto simp: dirty_def)
      have "on_device m" using I(8) [OF b'(1)] by (simp add: block_ok_def usable_def)
      with cs [of m] b' b show ?thesis by (auto simp: dirty_def split: if_splits)
    qed
    then show ?thesis using at by (auto simp: cache_at_def)
  qed
  ultimately show ?thesis using run inv' at by (auto simp: cache_at_def held_def)
qed

end

section \<open>Bitmap blocks\<close>

definition block_bits :: "u8 list \<Rightarrow> bool list" where
  "block_bits x = cell_bits (cells_of x)"

lemma length_cells_of [simp]: "length (cells_of x) = 64"
  by (simp add: cells_of_def BLOCK_SIZE_def)

lemma length_block_bits [simp]: "length (block_bits x) = 4096"
  by (simp add: block_bits_def)

lemma bytes_of_cells:
  assumes "length cs = 64"
  shows "length (bytes_of_cells cs) = BLOCK_SIZE" and "cells_of (bytes_of_cells cs) = cs"
proof -
  show "length (bytes_of_cells cs) = BLOCK_SIZE"
    using assms by (simp add: bytes_of_cells_def BLOCK_SIZE_def)
  have "\<forall>n \<in> set (map unat cs). n < 256 ^ 8"
  proof -
    have "unat w < 256 ^ 8" for w :: u64 using unsigned_less [of w] by simp
    then show ?thesis by simp
  qed
  then have "le_array 8 (length (map unat cs)) (of_le_array 8 (map unat cs)) = map unat cs"
    by (rule le_array_of_le_array)
  then show "cells_of (bytes_of_cells cs) = cs"
    using assms by (simp add: cells_of_def bytes_of_cells_def BLOCK_SIZE_def map_idI)
qed

lemma block_bit_get: "j < BLOCK_SIZE * 8 \<Longrightarrow> bitmap_get (cells_of x) j = Ret (block_bits x ! j)"
  using bitmap64.get_law [of j "cells_of x"] by (simp add: block_bits_def BLOCK_SIZE_def)

lemma block_bit_set:
  assumes "j < BLOCK_SIZE * 8"
  shows "\<exists>cs. bitmap_set (cells_of x) j = Ret cs \<and> length (bytes_of_cells cs) = BLOCK_SIZE \<and>
    block_bits (bytes_of_cells cs) = (block_bits x)[j := True]"
proof -
  from bitmap64.set_law [of j "cells_of x"] assms obtain cs where
    cs: "bitmap_set (cells_of x) j = Ret cs" "cell_bits cs = (cell_bits (cells_of x))[j := True]"
    by (auto simp: BLOCK_SIZE_def)
  have "length cs = 64" using bitmap_set_length [OF cs(1)] by simp
  with cs bytes_of_cells [of cs] show ?thesis by (simp add: block_bits_def)
qed

lemma block_bit_clear:
  assumes "j < BLOCK_SIZE * 8"
  shows "\<exists>cs. bitmap_clear (cells_of x) j = Ret cs \<and> length (bytes_of_cells cs) = BLOCK_SIZE \<and>
    block_bits (bytes_of_cells cs) = (block_bits x)[j := False]"
proof -
  from bitmap64.clear_law [of j "cells_of x"] assms obtain cs where
    cs: "bitmap_clear (cells_of x) j = Ret cs" "cell_bits cs = (cell_bits (cells_of x))[j := False]"
    by (auto simp: BLOCK_SIZE_def)
  have "length cs = 64" using bitmap_clear_length [OF cs(1)] by simp
  with cs bytes_of_cells [of cs] show ?thesis by (simp add: block_bits_def)
qed

section \<open>Allocation\<close>

text \<open>The blocks in use, as the bitmap says.\<close>

definition in_use :: "super_block \<Rightarrow> (nat \<Rightarrow> u8 list) \<Rightarrow> nat \<Rightarrow> bool" where
  "in_use sb V n \<longleftrightarrow> block_bits (V (bitmap_start sb + n div (BLOCK_SIZE * 8))) ! (n mod (BLOCK_SIZE * 8))"

context block_dev
begin

lemma alloc_take_result:
  assumes at: "cache_at content on_device well sb V H D L c" and bm: "bm \<in> H" "bm \<notin> D"
    and n: "usable on_device sb n" "n \<notin> H" "n \<notin> D" and j: "j < BLOCK_SIZE * 8"
    and q: "2 \<le> rm ctx" "card L + 2 \<le> LOG_MAX_SIZE"
  shows "\<exists>ctx' c' x. alloc_take dv ctx bm j n c = Ret (ctx', c') \<and> rm ctx \<le> rm ctx' + 2 \<and>
    length x = BLOCK_SIZE \<and> block_bits x = (block_bits (V bm))[j := True] \<and>
    cache_at content on_device well sb (V(n := replicate BLOCK_SIZE 0, bm := x)) (H - {bm}) D (insert bm (insert n L)) c'"
proof -
  have ne: "bm \<noteq> n" using bm n by auto
  have fin: "finite L" using at by (auto simp: cache_at_def)
  let ?z = "replicate BLOCK_SIZE (0 :: u8)"
  from at_acquire [OF at n(1,2)] obtain c1 where 1: "cache_acquire dv n c = Ret c1"
    and at1: "cache_at content on_device well sb V (insert n H) D L c1" by blast
  from at_put [OF at1, of n ?z] obtain c2 where 2: "set_data n ?z c1 = Ret c2"
    and at2: "cache_at content on_device well sb (V(n := ?z)) (insert n H) (insert n D) L c2" by auto
  let ?ctx1 = "if n \<in> L then ctx else ctx\<lparr>rm := rm ctx - 1\<rparr>"
  from at_sync [OF at2, of n ctx] q obtain c3 where 3: "cache_sync dv (Some ctx) n c2 = Ret (Some ?ctx1, c3)"
    and at3: "cache_at content on_device well sb (V(n := ?z)) (insert n H) (insert n D - {n}) (insert n L) c3"
    by auto
  have 4: "get_data bm c3 = Ret (V bm)" using at_get [OF at3, of bm] bm(1) ne by simp
  from block_bit_set [OF j, of "V bm"] obtain cs where cs: "bitmap_set (cells_of (V bm)) j = Ret cs"
    "length (bytes_of_cells cs) = BLOCK_SIZE" "block_bits (bytes_of_cells cs) = (block_bits (V bm))[j := True]"
    by blast
  let ?x = "bytes_of_cells cs" and ?V = "V(n := ?z, bm := bytes_of_cells cs)"
  from at_put [OF at3, of bm ?x] bm(1) cs(2) obtain c4 where 5: "set_data bm ?x c3 = Ret c4"
    and at4: "cache_at content on_device well sb ?V (insert n H) (insert bm (insert n D - {n})) (insert n L) c4"
    by auto
  let ?ctx2 = "if bm \<in> insert n L then ?ctx1 else ?ctx1\<lparr>rm := rm ?ctx1 - 1\<rparr>"
  have "card (insert n L) < LOG_MAX_SIZE" using q(2) fin by (simp add: card_insert_if)
  moreover have "rm ?ctx1 \<noteq> 0" using q(1) by simp
  ultimately obtain c5 where 6: "cache_sync dv (Some ?ctx1) bm c4 = Ret (Some ?ctx2, c5)"
    and at5: "cache_at content on_device well sb ?V (insert n H) (insert bm (insert n D - {n}) - {bm})
      (insert bm (insert n L)) c5"
    using at_sync [OF at4, of bm ?ctx1] bm(1) by blast
  have D: "insert bm (insert n D - {n}) - {bm} = D" using n(3) bm(2) by auto
  from at_release [OF at5, of n] n(3) D obtain c6 where 7: "cache_release n c5 = Ret c6"
    and at6: "cache_at content on_device well sb ?V (insert n H - {n}) D (insert bm (insert n L)) c6" by auto
  have H: "insert n H - {n} = H" using n(2) by auto
  from at_release [OF at6, of bm] bm H obtain c7 where 8: "cache_release bm c6 = Ret c7"
    and at7: "cache_at content on_device well sb ?V (H - {bm}) D (insert bm (insert n L)) c7" by auto
  have "alloc_take dv ctx bm j n c = Ret (?ctx2, c7)"
    by (simp only: alloc_take_def 1 2 3 4 cs(1) 5 6 7 8 andthen.simps prod.case option.sel)
  moreover have "rm ctx \<le> rm ?ctx2 + 2" using q(1) by auto
  ultimately show ?thesis using at7 cs(2,3) by blast
qed

text \<open>The scan of one bitmap block.\<close>

lemma alloc_bits_found:
  assumes at: "cache_at content on_device well sb V H D L c" and bm: "bitmap_start sb + i \<in> H"
    and j: "j \<le> j0" "j0 < BLOCK_SIZE * 8" and free: "\<not> block_bits (V (bitmap_start sb + i)) ! j0"
    and used: "\<And>k. j \<le> k \<Longrightarrow> k < j0 \<Longrightarrow> block_bits (V (bitmap_start sb + i)) ! k"
    and lim: "i * BLOCK_SIZE * 8 + j0 < num_blocks sb"
  shows "alloc_bits dv sb ctx i j c =
    andthen (alloc_take dv ctx (bitmap_start sb + i) j0 (i * BLOCK_SIZE * 8 + j0) c)
      (\<lambda>(ctx1, c1). Ret (Some (i * BLOCK_SIZE * 8 + j0), ctx1, c1))"
  using j used
proof (induction "j0 - j" arbitrary: j)
  case 0
  then have "j = j0" by simp
  then show ?case
    using at_get [OF at bm] free lim j(2) by (subst alloc_bits.simps) (simp add: Let_def block_bit_get)
next
  case (Suc m)
  then have lt: "j < j0" by simp
  have "alloc_bits dv sb ctx i j c = alloc_bits dv sb ctx i (j + 1) c"
    using at_get [OF at bm] Suc.prems(3) [of j] lt lim j(2)
    by (subst alloc_bits.simps) (simp add: Let_def block_bit_get)
  also have "\<dots> = andthen (alloc_take dv ctx (bitmap_start sb + i) j0 (i * BLOCK_SIZE * 8 + j0) c)
      (\<lambda>(ctx1, c1). Ret (Some (i * BLOCK_SIZE * 8 + j0), ctx1, c1))"
    by (rule Suc.hyps(1)) (use Suc lt in auto)
  finally show ?case .
qed

lemma alloc_bits_full:
  assumes at: "cache_at content on_device well sb V H D L c" and bm: "bitmap_start sb + i \<in> H"
    and j: "j \<le> BLOCK_SIZE * 8"
    and used: "\<And>k. j \<le> k \<Longrightarrow> k < BLOCK_SIZE * 8 \<Longrightarrow> block_bits (V (bitmap_start sb + i)) ! k"
    and lim: "(i + 1) * BLOCK_SIZE * 8 \<le> num_blocks sb"
  shows "alloc_bits dv sb ctx i j c =
    andthen (cache_release (bitmap_start sb + i) c) (\<lambda>c1. Ret (None, ctx, c1))"
  using j used
proof (induction "BLOCK_SIZE * 8 - j" arbitrary: j)
  case 0
  then show ?case by (subst alloc_bits.simps) (simp add: Let_def)
next
  case (Suc m)
  then have lt: "j < BLOCK_SIZE * 8" by simp
  have "alloc_bits dv sb ctx i j c = alloc_bits dv sb ctx i (j + 1) c"
    using at_get [OF at bm] Suc.prems(2) [of j] lt lim
    by (subst alloc_bits.simps) (simp add: Let_def block_bit_get)
  also have "\<dots> = andthen (cache_release (bitmap_start sb + i) c) (\<lambda>c1. Ret (None, ctx, c1))"
    by (rule Suc.hyps(1)) (use Suc lt in auto)
  finally show ?case .
qed

lemma alloc_bits_limit:
  assumes at: "cache_at content on_device well sb V H D L c" and bm: "bitmap_start sb + i \<in> H" "bitmap_start sb + i \<notin> D"
    and j: "i * BLOCK_SIZE * 8 + j \<le> num_blocks sb"
    and used: "\<And>k. j \<le> k \<Longrightarrow> i * BLOCK_SIZE * 8 + k < num_blocks sb \<Longrightarrow> block_bits (V (bitmap_start sb + i)) ! k"
    and lim: "num_blocks sb < (i + 1) * BLOCK_SIZE * 8"
  shows "alloc_bits dv sb ctx i j c = Panic"
  using j used
proof (induction "num_blocks sb - (i * BLOCK_SIZE * 8 + j)" arbitrary: j)
  case 0
  then have "num_blocks sb \<le> i * BLOCK_SIZE * 8 + j" "j < BLOCK_SIZE * 8" using lim by auto
  then show ?case
    using at_release [OF at bm] by (subst alloc_bits.simps) (auto simp: Let_def)
next
  case (Suc m)
  then have lt: "i * BLOCK_SIZE * 8 + j < num_blocks sb" by simp
  then have j8: "j < BLOCK_SIZE * 8" using lim by simp
  have "alloc_bits dv sb ctx i j c = alloc_bits dv sb ctx i (j + 1) c"
    using at_get [OF at bm(1)] Suc.prems(2) [of j] lt j8
    by (subst alloc_bits.simps) (simp add: Let_def block_bit_get)
  also have "\<dots> = Panic" by (rule Suc.hyps(1)) (use Suc lt in auto)
  finally show ?case .
qed

lemma in_use_bit: "k < BLOCK_SIZE * 8 \<Longrightarrow>
  in_use sb V (i * BLOCK_SIZE * 8 + k) \<longleftrightarrow> block_bits (V (bitmap_start sb + i)) ! k"
proof -
  assume "k < BLOCK_SIZE * 8"
  then have "(i * BLOCK_SIZE * 8 + k) div (BLOCK_SIZE * 8) = i" "(i * BLOCK_SIZE * 8 + k) mod (BLOCK_SIZE * 8) = k"
    by (simp_all add: BLOCK_SIZE_def)
  then show ?thesis by (simp add: in_use_def)
qed

lemma alloc_blocks_found:
  assumes at: "cache_at content on_device well sb V H D L c"
    and bms: "\<And>i. i < num \<Longrightarrow> usable on_device sb (bitmap_start sb + i) \<and>
      bitmap_start sb + i \<notin> H \<and> bitmap_start sb + i \<notin> D"
    and n: "n < num_blocks sb" "n div (BLOCK_SIZE * 8) < num" "\<not> in_use sb V n"
      "usable on_device sb n" "n \<notin> H" "n \<notin> D" "n \<noteq> bitmap_start sb + n div (BLOCK_SIZE * 8)"
    and i: "i \<le> n div (BLOCK_SIZE * 8)"
    and used: "\<And>k. i * BLOCK_SIZE * 8 \<le> k \<Longrightarrow> k < n \<Longrightarrow> in_use sb V k"
    and q: "2 \<le> rm ctx" "card L + 2 \<le> LOG_MAX_SIZE"
  defines "bm \<equiv> bitmap_start sb + n div (BLOCK_SIZE * 8)"
  shows "\<exists>ctx' c' x. alloc_blocks dv sb ctx num i c = Ret (n, ctx', c') \<and> rm ctx \<le> rm ctx' + 2 \<and>
    length x = BLOCK_SIZE \<and> block_bits x = (block_bits (V bm))[n mod (BLOCK_SIZE * 8) := True] \<and>
    cache_at content on_device well sb (V(n := replicate BLOCK_SIZE 0, bm := x)) H D (insert bm (insert n L)) c'"
  using i used at
proof (induction "n div (BLOCK_SIZE * 8) - i" arbitrary: i c)
  case 0
  let ?j = "n mod (BLOCK_SIZE * 8)"
  have i: "i = n div (BLOCK_SIZE * 8)" using 0 by simp
  have nij: "n = i * BLOCK_SIZE * 8 + ?j" unfolding i by (metis div_mult_mod_eq mult.assoc)
  have bmi: "bm = bitmap_start sb + i" by (simp add: bm_def i)
  have num: "i < num" using n(2) i by simp
  have bu: "usable on_device sb bm" "bm \<notin> H" "bm \<notin> D" using bms [OF num] by (simp_all add: bmi)
  from at_acquire [OF 0(4) bu(1,2)] obtain c1 where 1: "cache_acquire dv bm c = Ret c1"
    and at1: "cache_at content on_device well sb V (insert bm H) D L c1" by blast
  have j: "?j < BLOCK_SIZE * 8" by (simp add: BLOCK_SIZE_def)
  have nH: "n \<notin> insert bm H" using n(5,7) by (simp add: bm_def)
  have bits: "alloc_bits dv sb ctx i 0 c1 =
      andthen (alloc_take dv ctx (bitmap_start sb + i) ?j (i * BLOCK_SIZE * 8 + ?j) c1)
        (\<lambda>(ctx1, c1). Ret (Some (i * BLOCK_SIZE * 8 + ?j), ctx1, c1))"
  proof (rule alloc_bits_found [OF at1])
    show "\<not> block_bits (V (bitmap_start sb + i)) ! ?j"
      using n(3) in_use_bit [OF j, of sb V i] nij by simp
    show "block_bits (V (bitmap_start sb + i)) ! k" if "0 \<le> k" "k < ?j" for k
      using 0(3) [of "i * BLOCK_SIZE * 8 + k"] in_use_bit [of k sb V i] that j nij by simp
  qed (use n(1) nij bmi j in auto)
  from alloc_take_result [OF at1 _ bu(3) n(4) nH n(6) j q] obtain ctx' c' x where
    t: "alloc_take dv ctx bm ?j n c1 = Ret (ctx', c')" "rm ctx \<le> rm ctx' + 2" "length x = BLOCK_SIZE"
    "block_bits x = (block_bits (V bm))[?j := True]"
    "cache_at content on_device well sb (V(n := replicate BLOCK_SIZE 0, bm := x)) (insert bm H - {bm}) D
      (insert bm (insert n L)) c'" by auto
  have "alloc_blocks dv sb ctx num i c = Ret (n, ctx', c')"
    using num 1 bits t(1) by (subst alloc_blocks.simps) (simp add: bmi flip: nij)
  moreover have "cache_at content on_device well sb (V(n := replicate BLOCK_SIZE 0, bm := x)) H D
      (insert bm (insert n L)) c'" using t(5) bu(2) by (simp add: Diff_insert_absorb)
  ultimately show ?case using t(2-4) by blast
next
  case (Suc m)
  then have lt: "i < n div (BLOCK_SIZE * 8)" by simp
  let ?bm = "bitmap_start sb + i"
  have num: "i < num" using n(2) lt by simp
  have bu: "usable on_device sb ?bm" "?bm \<notin> H" "?bm \<notin> D" using bms [OF num] by simp_all
  from at_acquire [OF Suc.prems(3) bu(1,2)] obtain c1 where 1: "cache_acquire dv ?bm c = Ret c1"
    and at1: "cache_at content on_device well sb V (insert ?bm H) D L c1" by blast
  have "(i + 1) * (BLOCK_SIZE * 8) \<le> n div (BLOCK_SIZE * 8) * (BLOCK_SIZE * 8)"
    using lt by (intro mult_le_mono1) simp
  also have "\<dots> \<le> n" by (rule div_times_less_eq_dividend)
  finally have le: "(i + 1) * BLOCK_SIZE * 8 \<le> n" by (simp add: mult.assoc)
  from at_release [OF at1] bu(2,3) obtain c2 where 2: "cache_release ?bm c1 = Ret c2"
    and at2: "cache_at content on_device well sb V (insert ?bm H - {?bm}) D L c2" by blast
  have "alloc_bits dv sb ctx i 0 c1 = andthen (cache_release ?bm c1) (\<lambda>c1. Ret (None, ctx, c1))"
  proof (rule alloc_bits_full [OF at1])
    show "block_bits (V ?bm) ! k" if "0 \<le> k" "k < BLOCK_SIZE * 8" for k
      using Suc.prems(2) [of "i * BLOCK_SIZE * 8 + k"] in_use_bit [OF that(2), of sb V i] that(2) le by simp
  qed (use le n(1) in auto)
  then have step: "alloc_blocks dv sb ctx num i c = alloc_blocks dv sb ctx num (i + 1) c2"
    using num 1 2 by (subst alloc_blocks.simps) simp
  have "insert ?bm H - {?bm} = H" using bu(2) by auto
  with at2 have at2': "cache_at content on_device well sb V H D L c2" by simp
  show ?case unfolding step
    by (rule Suc.hyps(1) [OF _ _ _ at2']) (use Suc lt in auto)
qed

end

definition num_bitmap_blocks :: "super_block \<Rightarrow> nat" where
  "num_bitmap_blocks sb = (num_data_blocks sb + BIT_PER_BLOCK - 1) mod 2 ^ 32 div BIT_PER_BLOCK"

definition bitmap_area :: "super_block \<Rightarrow> nat set" where
  "bitmap_area sb = {bitmap_start sb ..< bitmap_start sb + num_bitmap_blocks sb}"

text \<open>The block numbers the allocator looks at.\<close>

definition alloc_limit :: "super_block \<Rightarrow> nat" where
  "alloc_limit sb = min (num_blocks sb) (num_bitmap_blocks sb * (BLOCK_SIZE * 8))"

text \<open>
  What the allocator needs of the rest of the system: nobody holds a bitmap block, and a
  block marked free is an ordinary block nobody holds.
\<close>

definition alloc_ready ::
  "(nat \<Rightarrow> bool) \<Rightarrow> super_block \<Rightarrow> (nat \<Rightarrow> u8 list) \<Rightarrow> nat set \<Rightarrow> nat set \<Rightarrow> bool" where
  "alloc_ready use sb V H D \<longleftrightarrow>
     (\<forall>b \<in> bitmap_area sb. use b \<and> b \<notin> H \<and> b \<notin> D) \<and>
     (\<forall>n < alloc_limit sb. \<not> in_use sb V n \<longrightarrow> use n \<and> n \<notin> H \<and> n \<notin> D \<and> n \<notin> bitmap_area sb)"

lemma in_use_update:
  assumes x: "block_bits x = (block_bits (V (bitmap_start sb + n div (BLOCK_SIZE * 8))))[n mod (BLOCK_SIZE * 8) := v]"
    and other: "\<And>b. b \<in> bitmap_area sb \<Longrightarrow> b \<noteq> bitmap_start sb + n div (BLOCK_SIZE * 8) \<Longrightarrow> V' b = V b"
    and same: "V' (bitmap_start sb + n div (BLOCK_SIZE * 8)) = x"
    and m: "m < alloc_limit sb"
  shows "in_use sb V' m \<longleftrightarrow> (if m = n then v else in_use sb V m)"
proof (cases "m div (BLOCK_SIZE * 8) = n div (BLOCK_SIZE * 8)")
  case True
  have "m mod (BLOCK_SIZE * 8) < 4096" by (simp add: BLOCK_SIZE_def)
  moreover have "m mod (BLOCK_SIZE * 8) = n mod (BLOCK_SIZE * 8) \<longleftrightarrow> m = n"
    using True by (metis div_mult_mod_eq)
  ultimately show ?thesis using x same True by (auto simp: in_use_def nth_list_update)
next
  case False
  have "m < num_bitmap_blocks sb * (BLOCK_SIZE * 8)" using m by (simp add: alloc_limit_def)
  then have "m div (BLOCK_SIZE * 8) < num_bitmap_blocks sb" by (simp add: less_mult_imp_div_less)
  then have "V' (bitmap_start sb + m div (BLOCK_SIZE * 8)) = V (bitmap_start sb + m div (BLOCK_SIZE * 8))"
    using False by (intro other) (auto simp: bitmap_area_def)
  then show ?thesis using False by (auto simp: in_use_def)
qed

context block_dev
begin

lemma at_alloc:
  assumes at: "cache_at content on_device well sb V H D L c"
    and ready: "alloc_ready (usable on_device sb) sb V H D"
    and free: "\<exists>n < alloc_limit sb. \<not> in_use sb V n"
    and q: "2 \<le> rm ctx" "card L + 2 \<le> LOG_MAX_SIZE"
  shows "\<exists>n ctx' c' V'. cache_alloc dv sb ctx c = Ret (n, ctx', c') \<and>
    n < alloc_limit sb \<and> \<not> in_use sb V n \<and> (\<forall>k < n. in_use sb V k) \<and> rm ctx \<le> rm ctx' + 2 \<and>
    cache_at content on_device well sb V' H D (insert (bitmap_start sb + n div (BLOCK_SIZE * 8)) (insert n L)) c' \<and>
    V' n = replicate BLOCK_SIZE 0 \<and> (\<forall>m. m \<noteq> n \<longrightarrow> m \<notin> bitmap_area sb \<longrightarrow> V' m = V m) \<and>
    (\<forall>m < alloc_limit sb. in_use sb V' m \<longleftrightarrow> m = n \<or> in_use sb V m)"
proof -
  define n where "n = (LEAST n. n < alloc_limit sb \<and> \<not> in_use sb V n)"
  have n: "n < alloc_limit sb" "\<not> in_use sb V n"
    using LeastI_ex [OF free] by (simp_all add: n_def)
  have least: "in_use sb V k" if "k < n" for k
    using not_less_Least [of k "\<lambda>n. n < alloc_limit sb \<and> \<not> in_use sb V n"] that n(1) by (auto simp: n_def)
  let ?bm = "bitmap_start sb + n div (BLOCK_SIZE * 8)" and ?num = "num_bitmap_blocks sb"
  have num: "n div (BLOCK_SIZE * 8) < ?num" "n < num_blocks sb"
    using n(1) by (simp_all add: alloc_limit_def less_mult_imp_div_less)
  have bmi: "?bm \<in> bitmap_area sb" using num by (simp add: bitmap_area_def)
  have nu: "usable on_device sb n" "n \<notin> H" "n \<notin> D" "n \<notin> bitmap_area sb"
    using ready n by (auto simp: alloc_ready_def)
  have bms: "usable on_device sb (bitmap_start sb + i) \<and> bitmap_start sb + i \<notin> H \<and> bitmap_start sb + i \<notin> D"
    if "i < ?num" for i
  proof -
    have "bitmap_start sb + i \<in> bitmap_area sb" using that by (simp add: bitmap_area_def)
    then show ?thesis using ready by (simp add: alloc_ready_def)
  qed
  have "\<exists>ctx' c' x. alloc_blocks dv sb ctx ?num 0 c = Ret (n, ctx', c') \<and> rm ctx \<le> rm ctx' + 2 \<and>
      length x = BLOCK_SIZE \<and> block_bits x = (block_bits (V ?bm))[n mod (BLOCK_SIZE * 8) := True] \<and>
      cache_at content on_device well sb (V(n := replicate BLOCK_SIZE 0, ?bm := x)) H D (insert ?bm (insert n L)) c'"
    by (rule alloc_blocks_found [OF at bms num(2,1) n(2) nu(1-3)])
      (use nu(4) bmi least q in auto)
  then obtain ctx' c' x where run: "alloc_blocks dv sb ctx ?num 0 c = Ret (n, ctx', c')"
    and rm: "rm ctx \<le> rm ctx' + 2" and x: "block_bits x = (block_bits (V ?bm))[n mod (BLOCK_SIZE * 8) := True]"
    and at': "cache_at content on_device well sb (V(n := replicate BLOCK_SIZE 0, ?bm := x)) H D (insert ?bm (insert n L)) c'"
    by blast
  let ?V = "V(n := replicate BLOCK_SIZE 0, ?bm := x)"
  have "cache_alloc dv sb ctx c = Ret (n, ctx', c')"
    using run q(1) by (simp add: cache_alloc_def num_bitmap_blocks_def)
  moreover have "?V n = replicate BLOCK_SIZE 0" using bmi nu(4) by auto
  moreover have "\<forall>m. m \<noteq> n \<longrightarrow> m \<notin> bitmap_area sb \<longrightarrow> ?V m = V m" using bmi by auto
  moreover have "\<forall>m < alloc_limit sb. in_use sb ?V m \<longleftrightarrow> m = n \<or> in_use sb V m"
  proof (intro allI impI)
    fix m assume m: "m < alloc_limit sb"
    have "in_use sb ?V m \<longleftrightarrow> (if m = n then True else in_use sb V m)"
      by (rule in_use_update [where n = n and V = V and sb = sb and x = x]) (use x m nu(4) in auto)
    then show "in_use sb ?V m \<longleftrightarrow> m = n \<or> in_use sb V m" by simp
  qed
  ultimately show ?thesis using n least rm at' by blast
qed

lemma at_free:
  assumes at: "cache_at content on_device well sb V H D L c"
    and bm: "usable on_device sb (bitmap_start sb + n div (BLOCK_SIZE * 8))"
      "bitmap_start sb + n div (BLOCK_SIZE * 8) \<notin> H" "bitmap_start sb + n div (BLOCK_SIZE * 8) \<notin> D"
    and q: "bitmap_start sb + n div (BLOCK_SIZE * 8) \<in> L \<or> rm ctx \<noteq> 0 \<and> card L < LOG_MAX_SIZE"
  shows "\<exists>ctx' c' V'. cache_free dv sb (Some ctx) n c = Ret (Some ctx', c') \<and> rm ctx \<le> rm ctx' + 1 \<and>
    cache_at content on_device well sb V' H D (insert (bitmap_start sb + n div (BLOCK_SIZE * 8)) L) c' \<and>
    (\<forall>m. m \<noteq> bitmap_start sb + n div (BLOCK_SIZE * 8) \<longrightarrow> V' m = V m) \<and>
    (\<forall>m < alloc_limit sb. in_use sb V' m \<longleftrightarrow> m \<noteq> n \<and> in_use sb V m)"
proof -
  let ?bm = "bitmap_start sb + n div (BLOCK_SIZE * 8)" and ?j = "n mod (BLOCK_SIZE * 8)"
  have bm': "n div (BLOCK_SIZE * 8) + bitmap_start sb = ?bm" by simp
  have j: "?j < BLOCK_SIZE * 8" by (simp add: BLOCK_SIZE_def)
  from at_acquire [OF at bm(1,2)] obtain c1 where 1: "cache_acquire dv ?bm c = Ret c1"
    and at1: "cache_at content on_device well sb V (insert ?bm H) D L c1" by blast
  have 2: "get_data ?bm c1 = Ret (V ?bm)" using at_get [OF at1] by simp
  from block_bit_clear [OF j, of "V ?bm"] obtain cs where cs: "bitmap_clear (cells_of (V ?bm)) ?j = Ret cs"
    "length (bytes_of_cells cs) = BLOCK_SIZE" "block_bits (bytes_of_cells cs) = (block_bits (V ?bm))[?j := False]"
    by blast
  let ?V = "V(?bm := bytes_of_cells cs)"
  from at_put [OF at1 _ cs(2), of ?bm] obtain c2 where 3: "set_data ?bm (bytes_of_cells cs) c1 = Ret c2"
    and at2: "cache_at content on_device well sb ?V (insert ?bm H) (insert ?bm D) L c2" by blast
  let ?ctx = "if ?bm \<in> L then ctx else ctx\<lparr>rm := rm ctx - 1\<rparr>"
  from at_sync [OF at2 _ q] obtain c3 where 4: "cache_sync dv (Some ctx) ?bm c2 = Ret (Some ?ctx, c3)"
    and at3: "cache_at content on_device well sb ?V (insert ?bm H) (insert ?bm D - {?bm}) (insert ?bm L) c3"
    by blast
  have D: "insert ?bm D - {?bm} = D" and H: "insert ?bm H - {?bm} = H" using bm by auto
  from at_release [OF at3] D H bm(3) obtain c4 where 5: "cache_release ?bm c3 = Ret c4"
    and at4: "cache_at content on_device well sb ?V H D (insert ?bm L) c4" by fastforce
  have "cache_free dv sb (Some ctx) n c = Ret (Some ?ctx, c4)"
    unfolding cache_free_def bm' Let_def by (simp only: 1 2 cs(1) 3 4 5 andthen.simps prod.case)
  moreover have "\<forall>m < alloc_limit sb. in_use sb ?V m \<longleftrightarrow> m \<noteq> n \<and> in_use sb V m"
    using in_use_update [where V = V and V' = ?V and n = n and sb = sb, OF cs(3)] by auto
  moreover have "rm ctx \<le> rm ?ctx + 1" by auto
  moreover have "\<forall>m. m \<noteq> ?bm \<longrightarrow> ?V m = V m" by simp
  ultimately show ?thesis using at4 by blast
qed

end

section \<open>The interface\<close>

text \<open>
  The operations of \<^verbatim>\<open>struct block_cache\<close>, together with the access to the data of an
  acquired block. \<open>bcache_ops\<close> is the instance the kernel uses.
\<close>

record 'c block_cache =
  bc_acquire :: "nat \<Rightarrow> 'c \<Rightarrow> 'c outcome"
  bc_release :: "nat \<Rightarrow> 'c \<Rightarrow> 'c outcome"
  bc_begin_op :: "op_ctx \<Rightarrow> 'c \<Rightarrow> op_ctx \<times> 'c"
  bc_sync :: "op_ctx option \<Rightarrow> nat \<Rightarrow> 'c \<Rightarrow> (op_ctx option \<times> 'c) outcome"
  bc_end_op :: "nat \<Rightarrow> 'c \<Rightarrow> (bool \<times> 'c) outcome"
  bc_alloc :: "op_ctx \<Rightarrow> 'c \<Rightarrow> (nat \<times> op_ctx \<times> 'c) outcome"
  bc_free :: "op_ctx option \<Rightarrow> nat \<Rightarrow> 'c \<Rightarrow> (op_ctx option \<times> 'c) outcome"
  bc_get :: "nat \<Rightarrow> 'c \<Rightarrow> u8 list outcome"
  bc_put :: "nat \<Rightarrow> u8 list \<Rightarrow> 'c \<Rightarrow> 'c outcome"

definition bcache_ops :: "'d block_device \<Rightarrow> super_block \<Rightarrow> 'd bcache block_cache" where
  "bcache_ops dv sb =
     \<lparr>bc_acquire = cache_acquire dv, bc_release = cache_release, bc_begin_op = cache_begin_op,
      bc_sync = cache_sync dv, bc_end_op = cache_end_op dv sb, bc_alloc = cache_alloc dv sb,
      bc_free = cache_free dv sb, bc_get = get_data, bc_put = set_data\<rparr>"

text \<open>
  \<open>at V H D L c\<close>: in cache \<open>c\<close> the usable blocks have contents \<open>V\<close>, the blocks \<open>H\<close> are held, of
  which at most \<open>D\<close> are changed but not logged, and \<open>L\<close> is in the log.
\<close>

locale block_cache_laws =
  fixes bc :: "'c block_cache" and sb :: super_block and use :: "nat \<Rightarrow> bool"
    and at :: "(nat \<Rightarrow> u8 list) \<Rightarrow> nat set \<Rightarrow> nat set \<Rightarrow> nat set \<Rightarrow> 'c \<Rightarrow> bool"
  assumes acquire_law: "\<lbrakk>at V H D L c; use n; n \<notin> H\<rbrakk> \<Longrightarrow>
      \<exists>c'. bc_acquire bc n c = Ret c' \<and> at V (insert n H) D L c'"
    and get_law: "\<lbrakk>at V H D L c; n \<in> H\<rbrakk> \<Longrightarrow> bc_get bc n c = Ret (V n)"
    and put_law: "\<lbrakk>at V H D L c; n \<in> H; length x = BLOCK_SIZE\<rbrakk> \<Longrightarrow>
      \<exists>c'. bc_put bc n x c = Ret c' \<and> at (V(n := x)) H (insert n D) L c'"
    and sync_law: "\<lbrakk>at V H D L c; n \<in> H; n \<in> L \<or> rm ctx \<noteq> 0 \<and> card L < LOG_MAX_SIZE\<rbrakk> \<Longrightarrow>
      \<exists>c'. bc_sync bc (Some ctx) n c = Ret (Some (if n \<in> L then ctx else ctx\<lparr>rm := rm ctx - 1\<rparr>), c') \<and>
        at V H (D - {n}) (insert n L) c'"
    and release_law: "\<lbrakk>at V H D L c; n \<in> H; n \<notin> D\<rbrakk> \<Longrightarrow>
      \<exists>c'. bc_release bc n c = Ret c' \<and> at V (H - {n}) D L c'"
    and size_law: "\<lbrakk>at V H D L c; use n\<rbrakk> \<Longrightarrow> length (V n) = BLOCK_SIZE"
    and log_law: "at V H D L c \<Longrightarrow> finite L"
    and alloc_law: "\<lbrakk>at V H D L c; alloc_ready use sb V H D; \<exists>n < alloc_limit sb. \<not> in_use sb V n;
        2 \<le> rm ctx; card L + 2 \<le> LOG_MAX_SIZE\<rbrakk> \<Longrightarrow>
      \<exists>n ctx' c' V'. bc_alloc bc ctx c = Ret (n, ctx', c') \<and>
        n < alloc_limit sb \<and> \<not> in_use sb V n \<and> (\<forall>k < n. in_use sb V k) \<and> rm ctx \<le> rm ctx' + 2 \<and>
        at V' H D (insert (bitmap_start sb + n div (BLOCK_SIZE * 8)) (insert n L)) c' \<and>
        V' n = replicate BLOCK_SIZE 0 \<and> (\<forall>m. m \<noteq> n \<longrightarrow> m \<notin> bitmap_area sb \<longrightarrow> V' m = V m) \<and>
        (\<forall>m < alloc_limit sb. in_use sb V' m \<longleftrightarrow> m = n \<or> in_use sb V m)"
    and free_law: "\<lbrakk>at V H D L c; use (bitmap_start sb + n div (BLOCK_SIZE * 8));
        bitmap_start sb + n div (BLOCK_SIZE * 8) \<notin> H; bitmap_start sb + n div (BLOCK_SIZE * 8) \<notin> D;
        bitmap_start sb + n div (BLOCK_SIZE * 8) \<in> L \<or> rm ctx \<noteq> 0 \<and> card L < LOG_MAX_SIZE\<rbrakk> \<Longrightarrow>
      \<exists>ctx' c' V'. bc_free bc (Some ctx) n c = Ret (Some ctx', c') \<and> rm ctx \<le> rm ctx' + 1 \<and>
        at V' H D (insert (bitmap_start sb + n div (BLOCK_SIZE * 8)) L) c' \<and>
        (\<forall>m. m \<noteq> bitmap_start sb + n div (BLOCK_SIZE * 8) \<longrightarrow> V' m = V m) \<and>
        (\<forall>m < alloc_limit sb. in_use sb V' m \<longleftrightarrow> m \<noteq> n \<and> in_use sb V m)"
begin

text \<open>Looking at a block: acquire, read, release.\<close>

lemma read_block:
  assumes "at V H D L c" and "use n" and "n \<notin> H" and "n \<notin> D"
  shows "\<exists>c1 c2. bc_acquire bc n c = Ret c1 \<and> bc_get bc n c1 = Ret (V n) \<and>
    bc_release bc n c1 = Ret c2 \<and> at V H D L c2"
proof -
  from acquire_law [OF assms(1-3)] obtain c1 where 1: "bc_acquire bc n c = Ret c1"
    and at1: "at V (insert n H) D L c1" by blast
  from release_law [OF at1 _ assms(4)] obtain c2 where 2: "bc_release bc n c1 = Ret c2"
    and at2: "at V (insert n H - {n}) D L c2" by blast
  with 1 get_law [OF at1] assms(3) show ?thesis by auto
qed

text \<open>Changing a block in an operation: acquire, write, log, release.\<close>

lemma update_block:
  assumes "at V H D L c" and "use n" and "n \<notin> H" and "n \<notin> D" and "length x = BLOCK_SIZE"
    and "n \<in> L \<or> rm ctx \<noteq> 0 \<and> card L < LOG_MAX_SIZE"
  shows "\<exists>c1 c2 c3 c4. bc_acquire bc n c = Ret c1 \<and> bc_get bc n c1 = Ret (V n) \<and>
    bc_put bc n x c1 = Ret c2 \<and>
    bc_sync bc (Some ctx) n c2 = Ret (Some (if n \<in> L then ctx else ctx\<lparr>rm := rm ctx - 1\<rparr>), c3) \<and>
    bc_release bc n c3 = Ret c4 \<and> at (V(n := x)) H D (insert n L) c4"
proof -
  from acquire_law [OF assms(1-3)] obtain c1 where 1: "bc_acquire bc n c = Ret c1"
    and at1: "at V (insert n H) D L c1" by blast
  from put_law [OF at1 _ assms(5), of n] obtain c2 where 2: "bc_put bc n x c1 = Ret c2"
    and at2: "at (V(n := x)) (insert n H) (insert n D) L c2" by blast
  from sync_law [OF at2 _ assms(6)] obtain c3 where
    3: "bc_sync bc (Some ctx) n c2 = Ret (Some (if n \<in> L then ctx else ctx\<lparr>rm := rm ctx - 1\<rparr>), c3)"
    and at3: "at (V(n := x)) (insert n H) (insert n D - {n}) (insert n L) c3" by blast
  have D: "insert n D - {n} = D" and H: "insert n H - {n} = H" using assms(3,4) by auto
  from release_law [OF at3, of n] D H assms(4) obtain c4 where 4: "bc_release bc n c3 = Ret c4"
    and at4: "at (V(n := x)) H D (insert n L) c4" by auto
  show ?thesis using 1 2 3 4 get_law [OF at1] at4 by blast
qed

end

context block_dev
begin

lemma cache_provides:
  "block_cache_laws (bcache_ops dv sb) sb (usable on_device sb) (cache_at content on_device well sb)"
proof
  fix V H D L c n x ctx
  assume at: "cache_at content on_device well sb V H D L c"
  show "finite L" using at by (auto simp: cache_at_def)
  show "\<exists>c'. bc_acquire (bcache_ops dv sb) n c = Ret c' \<and> cache_at content on_device well sb V (insert n H) D L c'"
    if "usable on_device sb n" "n \<notin> H"
    using at_acquire [OF at that] by (simp add: bcache_ops_def)
  show "bc_get (bcache_ops dv sb) n c = Ret (V n)" if "n \<in> H"
    using at_get [OF at that] by (simp add: bcache_ops_def)
  show "\<exists>c'. bc_put (bcache_ops dv sb) n x c = Ret c' \<and>
      cache_at content on_device well sb (V(n := x)) H (insert n D) L c'"
    if "n \<in> H" "length x = BLOCK_SIZE"
    using at_put [OF at that] by (simp add: bcache_ops_def)
  show "\<exists>c'. bc_sync (bcache_ops dv sb) (Some ctx) n c =
        Ret (Some (if n \<in> L then ctx else ctx\<lparr>rm := rm ctx - 1\<rparr>), c') \<and>
      cache_at content on_device well sb V H (D - {n}) (insert n L) c'"
    if "n \<in> H" "n \<in> L \<or> rm ctx \<noteq> 0 \<and> card L < LOG_MAX_SIZE"
    using at_sync [OF at that] by (simp add: bcache_ops_def)
  show "\<exists>c'. bc_release (bcache_ops dv sb) n c = Ret c' \<and>
      cache_at content on_device well sb V (H - {n}) D L c'"
    if "n \<in> H" "n \<notin> D"
    using at_release [OF at that] by (simp add: bcache_ops_def)
  show "length (V n) = BLOCK_SIZE" if "usable on_device sb n" by (rule at_size [OF at that])
  have sel: "bc_alloc (bcache_ops dv sb) = cache_alloc dv sb" "bc_free (bcache_ops dv sb) = cache_free dv sb"
    by (simp_all add: bcache_ops_def)
  show "\<exists>n ctx' c' V'. bc_alloc (bcache_ops dv sb) ctx c = Ret (n, ctx', c') \<and>
      n < alloc_limit sb \<and> \<not> in_use sb V n \<and> (\<forall>k < n. in_use sb V k) \<and> rm ctx \<le> rm ctx' + 2 \<and>
      cache_at content on_device well sb V' H D (insert (bitmap_start sb + n div (BLOCK_SIZE * 8)) (insert n L)) c' \<and>
      V' n = replicate BLOCK_SIZE 0 \<and> (\<forall>m. m \<noteq> n \<longrightarrow> m \<notin> bitmap_area sb \<longrightarrow> V' m = V m) \<and>
      (\<forall>m < alloc_limit sb. in_use sb V' m \<longleftrightarrow> m = n \<or> in_use sb V m)"
    if "alloc_ready (usable on_device sb) sb V H D" "\<exists>n < alloc_limit sb. \<not> in_use sb V n"
      "2 \<le> rm ctx" "card L + 2 \<le> LOG_MAX_SIZE"
    unfolding sel by (rule at_alloc [OF at that])
  show "\<exists>ctx' c' V'. bc_free (bcache_ops dv sb) (Some ctx) n c = Ret (Some ctx', c') \<and> rm ctx \<le> rm ctx' + 1 \<and>
      cache_at content on_device well sb V' H D (insert (bitmap_start sb + n div (BLOCK_SIZE * 8)) L) c' \<and>
      (\<forall>m. m \<noteq> bitmap_start sb + n div (BLOCK_SIZE * 8) \<longrightarrow> V' m = V m) \<and>
      (\<forall>m < alloc_limit sb. in_use sb V' m \<longleftrightarrow> m \<noteq> n \<and> in_use sb V m)"
    if "usable on_device sb (bitmap_start sb + n div (BLOCK_SIZE * 8))"
      "bitmap_start sb + n div (BLOCK_SIZE * 8) \<notin> H" "bitmap_start sb + n div (BLOCK_SIZE * 8) \<notin> D"
      "bitmap_start sb + n div (BLOCK_SIZE * 8) \<in> L \<or> rm ctx \<noteq> 0 \<and> card L < LOG_MAX_SIZE"
    unfolding sel by (rule at_free [OF at that])
qed

end

text \<open>The cache in front of the SD card.\<close>

interpretation sd_cache: block_cache_laws "bcache_ops (sd_device sb_base hc) sb" sb
  "usable (sd_on_device sb_base hc) sb"
  "cache_at (sd_content sb_base hc) (sd_on_device sb_base hc) card_well sb" for sb_base hc sb
  by (rule sd.cache_provides)

end
