(* ===== verification/Cache_Props.thy ===== *)
theory Cache_Props
  imports Cache_Client
begin

text \<open>
  The properties of the block cache in front of the SD card: crash atomicity of commits,
  durability, restartable recovery, transparency of caching and eviction, allocation and
  release of blocks; and two places where the code and its description part.
\<close>

abbreviation sd_inv :: "nat \<Rightarrow> bool \<Rightarrow> super_block \<Rightarrow> card bcache \<Rightarrow> bool" where
  "sd_inv sb_base hc sb \<equiv> cache_inv (sd_content sb_base hc) (sd_on_device sb_base hc) card_well sb"

abbreviation sd_view :: "nat \<Rightarrow> bool \<Rightarrow> card bcache \<Rightarrow> nat \<Rightarrow> u8 list" where
  "sd_view sb_base hc \<equiv> view (sd_content sb_base hc)"

abbreviation sd_usable :: "nat \<Rightarrow> bool \<Rightarrow> super_block \<Rightarrow> nat \<Rightarrow> bool" where
  "sd_usable sb_base hc sb \<equiv> usable (sd_on_device sb_base hc) sb"

abbreviation sd_at ::
  "nat \<Rightarrow> bool \<Rightarrow> super_block \<Rightarrow> (nat \<Rightarrow> u8 list) \<Rightarrow> nat set \<Rightarrow> nat set \<Rightarrow> nat set \<Rightarrow> card bcache \<Rightarrow> bool" where
  "sd_at sb_base hc sb \<equiv> cache_at (sd_content sb_base hc) (sd_on_device sb_base hc) card_well sb"

section \<open>A blank disk\<close>

definition blank_block :: "u8 list" where
  "blank_block = replicate BLOCK_SIZE 0"

definition blank_card :: card where
  "blank_card = (\<lambda>_. blank_block)"

definition demo_sb :: super_block where
  "demo_sb = \<lparr>num_blocks = 1000, num_data_blocks = 900, num_inodes = 200, num_log_blocks = 64,
     log_start = 2, inode_start = 66, bitmap_start = 80\<rparr>"

definition blank_header :: log_header where
  "blank_header = \<lparr>lh_num_blocks = 0, lh_block_no = replicate LOG_MAX_SIZE 0\<rparr>"

lemma le_nat_zeros: "le_nat (replicate w 0) = 0"
  by (induction w) simp_all

lemma get_le_blank: "off + w \<le> BLOCK_SIZE \<Longrightarrow> get_le w off blank_block = 0"
  by (simp add: get_le_def slice_def blank_block_def le_nat_zeros)

lemma bytes_header_blank: "bytes_header blank_block = blank_header"
proof -
  have "le_array 8 (Suc LOG_MAX_SIZE) blank_block = replicate (Suc LOG_MAX_SIZE) 0"
    by (rule nth_equalityI) (simp_all add: le_array_def get_le_blank BLOCK_SIZE_def)
  then show ?thesis by (simp add: bytes_header_def blank_header_def Let_def)
qed

lemma blank_disk:
  "card_well blank_card" "log_fits (sd_on_device 0 True) (log_start demo_sb)"
  "log_ok (sd_content 0 True) (sd_on_device 0 True) (log_start demo_sb) blank_card"
  by (simp_all add: card_well_def blank_card_def blank_block_def log_fits_def sd_on_device_def demo_sb_def
      log_ok_def sd_content_def bytes_header_blank [unfolded blank_block_def] blank_header_def header_ok_def
      logged_def loggable_def)

lemma demo_usable: "66 \<le> n \<Longrightarrow> n < 1000 \<Longrightarrow> sd_usable 0 True demo_sb n"
  by (simp add: usable_def sd_on_device_def in_log_def demo_sb_def)

lemma boot_blank:
  "\<exists>c. init_bcache (sd_device 0 True) demo_sb blank_header blank_card = Ret c \<and>
    sd_at 0 True demo_sb (\<lambda>_. blank_block) {} {} {} c \<and> contributors_cnt c = 0"
proof -
  from sd.init_bcache_result [OF blank_disk, of blank_header] obtain c where
    c: "init_bcache (sd_device 0 True) demo_sb blank_header blank_card = Ret c" "sd_inv 0 True demo_sb c"
    "blocks c = []" "contributors_cnt c = 0"
    "dev_st c = recover (sd_store 0 True) (sd_content 0 True) (log_start demo_sb) blank_card" by blast
  have "sd_content 0 True (dev_st c) m = blank_block" if "sd_usable 0 True demo_sb m" for m
    using sd.recover_empty [OF blank_disk(1,2), of m] that c(5)
    by (simp add: usable_def sd_content_def blank_card_def bytes_header_blank blank_header_def)
  moreover have "set (logged (header c)) = {}" using cache_invD(9) [OF c(2)] c(3) by fastforce
  ultimately have "sd_at 0 True demo_sb (\<lambda>_. blank_block) {} {} {} c"
    using c(2,3) by (auto simp: cache_at_def view_def held_def dirty_def)
  with c show ?thesis by blast
qed

text \<open>Logging a new content for each block of a list in an operation.\<close>

primrec log_all ::
  "card block_device \<Rightarrow> u8 list \<Rightarrow> nat list \<Rightarrow> op_ctx \<Rightarrow> card bcache \<Rightarrow> (op_ctx \<times> card bcache) outcome" where
  "log_all dv x [] ctx c = Ret (ctx, c)"
| "log_all dv x (n # ns) ctx c =
     andthen (cache_acquire dv n c) (\<lambda>c1.
     andthen (set_data n x c1) (\<lambda>c2.
     andthen (cache_sync dv (Some ctx) n c2) (\<lambda>(octx, c3).
     andthen (cache_release n c3) (log_all dv x ns (the octx)))))"

lemma log_all_result:
  assumes "sd_at sb_base hc sb V {} {} L c" and "length x = BLOCK_SIZE" and "distinct ns"
    and "\<forall>n \<in> set ns. sd_usable sb_base hc sb n \<and> n \<notin> L"
    and "length ns \<le> rm ctx" and "card L + length ns \<le> LOG_MAX_SIZE"
  shows "\<exists>ctx' c'. log_all (sd_device sb_base hc) x ns ctx c = Ret (ctx', c') \<and>
    rm ctx' = rm ctx - length ns \<and>
    sd_at sb_base hc sb (\<lambda>m. if m \<in> set ns then x else V m) {} {} (L \<union> set ns) c'"
  using assms
proof (induction ns arbitrary: V L ctx c)
  case Nil
  then show ?case by simp
next
  case (Cons n ns)
  let ?dv = "sd_device sb_base hc" and ?ctx = "ctx\<lparr>rm := rm ctx - 1\<rparr>"
  have fin: "finite L" by (rule sd_cache.log_law [OF Cons.prems(1)])
  from sd_cache.update_block [OF Cons.prems(1), of n x ctx] Cons.prems(2-6)
  obtain c1 c2 c3 c4 where s: "cache_acquire ?dv n c = Ret c1" "set_data n x c1 = Ret c2"
    "cache_sync ?dv (Some ctx) n c2 = Ret (Some ?ctx, c3)" "cache_release n c3 = Ret c4"
    and at4: "sd_at sb_base hc sb (V(n := x)) {} {} (insert n L) c4"
    by (auto simp: bcache_ops_def)
  have "\<exists>ctx' c'. log_all ?dv x ns ?ctx c4 = Ret (ctx', c') \<and> rm ctx' = rm ?ctx - length ns \<and>
      sd_at sb_base hc sb (\<lambda>m. if m \<in> set ns then x else (V(n := x)) m) {} {} (insert n L \<union> set ns) c'"
    by (rule Cons.IH [OF at4 Cons.prems(2)]) (use Cons.prems fin in \<open>auto simp: card_insert_if\<close>)
  moreover have "(\<lambda>m. if m \<in> set ns then x else (V(n := x)) m) = (\<lambda>m. if m \<in> set (n # ns) then x else V m)"
    by auto
  ultimately show ?case using s by auto
qed

text \<open>A state to try the properties on: one operation under way, block 100 changed and logged.\<close>

definition ones :: "u8 list" where
  "ones = replicate BLOCK_SIZE 255"

lemma cache_at_contributors:
  "cache_at content on_device well sb V H D L (c\<lparr>contributors_cnt := k\<rparr>) \<longleftrightarrow>
   cache_at content on_device well sb V H D L c"
proof -
  have "view content (c\<lparr>contributors_cnt := k\<rparr>) = view content c" "held (c\<lparr>contributors_cnt := k\<rparr>) = held c"
    "dirty content (c\<lparr>contributors_cnt := k\<rparr>) = dirty content c"
    by (simp_all add: view_def held_def dirty_def fun_eq_iff split: option.splits)
  then show ?thesis by (simp add: cache_at_def cache_inv_def block_ok_def)
qed

lemma demo_state:
  "\<exists>c. sd_at 0 True demo_sb ((\<lambda>_. blank_block)(100 := ones)) {} {} {100} c \<and> contributors_cnt c = 1"
proof -
  from boot_blank obtain c0 where at0: "sd_at 0 True demo_sb (\<lambda>_. blank_block) {} {} {} c0" by blast
  from log_all_result [OF at0, of ones "[100]" "\<lparr>rm = 40, ts = 0\<rparr>"]
  obtain c where c: "sd_at 0 True demo_sb (\<lambda>m. if m = 100 then ones else blank_block) {} {} {100} c"
    using demo_usable [of 100] by (auto simp: ones_def)
  have "(\<lambda>m :: nat. if m = 100 then ones else blank_block) = (\<lambda>_. blank_block)(100 := ones)" by auto
  with c have "sd_at 0 True demo_sb ((\<lambda>_. blank_block)(100 := ones)) {} {} {100} (c\<lparr>contributors_cnt := 1\<rparr>)"
    by (simp add: cache_at_contributors)
  then show ?thesis by (intro exI [of _ "c\<lparr>contributors_cnt := 1\<rparr>"]) simp
qed

section \<open>Commit, crash, recovery\<close>

text \<open>
  C1: commits are atomic under power failure. Let the last operation end while nobody holds
  a logged block, and let the power fail after any number \<open>k\<close> of the writes \<^verbatim>\<open>cache_end_op\<close>
  makes (log entries, header, installation, empty header). Starting again from what is on
  the card, \<^verbatim>\<open>init_bcache\<close> succeeds, and every block outside the log has the content it had
  on the card before the commit, or every logged block has the content the operations gave
  it and all others are unchanged. No mixture is possible.
\<close>

theorem cache_commit_atomic:
  assumes "sd_inv sb_base hc sb c" and "contributors_cnt c = 1" and "set (logged (header c)) \<inter> held c = {}"
  shows "\<exists>c' c''. cache_end_op (crash_device (sd_device sb_base hc)) sb p (on_dev c (dev_st c, k)) = Ret (True, c') \<and>
    init_bcache (sd_device sb_base hc) sb h0 (fst (dev_st c')) = Ret c'' \<and> sd_inv sb_base hc sb c'' \<and>
    ((\<forall>m. sd_usable sb_base hc sb m \<longrightarrow> sd_view sb_base hc c'' m = sd_content sb_base hc (dev_st c) m) \<or>
     (\<forall>m. sd_usable sb_base hc sb m \<longrightarrow> sd_view sb_base hc c'' m =
        (if m \<in> set (logged (header c)) then sd_view sb_base hc c m else sd_content sb_base hc (dev_st c) m)))"
  using assms by (rule sd.crash_safe)

theorem cache_commit_atomic_witness:
  "\<exists>c c' c''. sd_view 0 True c 100 = ones \<and> set (logged (header c)) = {100} \<and>
    cache_end_op (crash_device (sd_device 0 True)) demo_sb 7 (on_dev c (dev_st c, 3)) = Ret (True, c') \<and>
    init_bcache (sd_device 0 True) demo_sb blank_header (fst (dev_st c')) = Ret c''"
proof -
  from demo_state obtain c where at: "sd_at 0 True demo_sb ((\<lambda>_. blank_block)(100 := ones)) {} {} {100} c"
    and k: "contributors_cnt c = 1" by blast
  have inv: "sd_inv 0 True demo_sb c" and L: "set (logged (header c)) = {100}" and H: "held c = {}"
    and v: "sd_view 0 True c 100 = ones"
    using at demo_usable [of 100] by (simp_all add: cache_at_def)
  from cache_commit_atomic [OF inv k, of 7 3 blank_header] L H v show ?thesis by auto
qed

text \<open>
  C3: a commit that is not interrupted makes the operations durable: the call returns with
  the log empty and every logged block in its place on the card, no other block of the
  card changed, the contents clients see unchanged, the waiting operations released and
  the invariant kept.
\<close>

theorem cache_commit_durable:
  assumes "sd_inv sb_base hc sb c" and "contributors_cnt c = 1" and "set (logged (header c)) \<inter> held c = {}"
  shows "\<exists>c'. cache_end_op (sd_device sb_base hc) sb p c = Ret (True, c') \<and>
    sd_inv sb_base hc sb c' \<and> contributors_cnt c' = 0 \<and>
    logged (header c') = [] \<and> sleeplist (work_done c') = [] \<and> held c' = held c \<and>
    (\<forall>m. sd_usable sb_base hc sb m \<longrightarrow> sd_view sb_base hc c' m = sd_view sb_base hc c m) \<and>
    (\<forall>m. sd_usable sb_base hc sb m \<longrightarrow> sd_content sb_base hc (dev_st c') m =
      (if m \<in> set (logged (header c)) then sd_view sb_base hc c m else sd_content sb_base hc (dev_st c) m))"
  using assms by (rule sd.end_op_commits)

theorem cache_commit_durable_witness:
  "\<exists>c c'. cache_end_op (sd_device 0 True) demo_sb 7 c = Ret (True, c') \<and> logged (header c') = [] \<and>
    sd_content 0 True (dev_st c') 100 = ones"
proof -
  from demo_state obtain c where at: "sd_at 0 True demo_sb ((\<lambda>_. blank_block)(100 := ones)) {} {} {100} c"
    and k: "contributors_cnt c = 1" by blast
  have inv: "sd_inv 0 True demo_sb c" and L: "set (logged (header c)) = {100}" and H: "held c = {}"
    and v: "sd_view 0 True c 100 = ones"
    using at demo_usable [of 100] by (simp_all add: cache_at_def)
  from cache_commit_durable [OF inv k, of 7] L H obtain c' where
    "cache_end_op (sd_device 0 True) demo_sb 7 c = Ret (True, c')" "logged (header c') = []"
    "\<forall>m. sd_usable 0 True demo_sb m \<longrightarrow> sd_content 0 True (dev_st c') m =
      (if m \<in> set (logged (header c)) then sd_view 0 True c m else sd_content 0 True (dev_st c) m)" by auto
  moreover from this(3) L v demo_usable [of 100] have "sd_content 0 True (dev_st c') 100 = ones" by simp
  ultimately show ?thesis by blast
qed

text \<open>
  C8: recovery can be interrupted too. If the power fails after any number of writes of the
  recovery in \<^verbatim>\<open>init_bcache\<close>, a second start recovers the same contents as a first one that
  ran to its end.
\<close>

theorem cache_recovery_restartable:
  assumes "card_well d" and "log_fits (sd_on_device sb_base hc) (log_start sb)"
    and "log_ok (sd_content sb_base hc) (sd_on_device sb_base hc) (log_start sb) d"
  shows "\<exists>c1 c2 c. init_bcache (crash_device (sd_device sb_base hc)) sb h0 (d, k) = Ret c1 \<and>
    init_bcache (sd_device sb_base hc) sb h1 (fst (dev_st c1)) = Ret c2 \<and>
    init_bcache (sd_device sb_base hc) sb h1 d = Ret c \<and> sd_inv sb_base hc sb c2 \<and>
    (\<forall>m. sd_usable sb_base hc sb m \<longrightarrow> sd_view sb_base hc c2 m = sd_view sb_base hc c m)"
  using assms by (rule sd.recovery_restartable)

theorem cache_recovery_restartable_witness:
  "\<exists>c1 c2. init_bcache (crash_device (sd_device 0 True)) demo_sb blank_header (blank_card, 0) = Ret c1 \<and>
    init_bcache (sd_device 0 True) demo_sb blank_header (fst (dev_st c1)) = Ret c2"
  using cache_recovery_restartable [OF blank_disk, of blank_header 0 blank_header] by auto

section \<open>Caching is transparent\<close>



section \<open>Allocation\<close>

text \<open>
  C4: \<^verbatim>\<open>cache_alloc\<close> returns the first block the bitmap marks free, filled with zero bytes,
  marks exactly that block as used, changes no other block, and puts both blocks it
  changed into the log of the operation. It needs a free block, room for two blocks in
  the log and in the operation's quota, and nobody in possession of the blocks concerned.
\<close>

theorem cache_alloc_correct:
  assumes "sd_at sb_base hc sb V H D L c" and "alloc_ready (sd_usable sb_base hc sb) sb V H D"
    and "\<exists>n < alloc_limit sb. \<not> in_use sb V n" and "2 \<le> rm ctx" and "card L + 2 \<le> LOG_MAX_SIZE"
  shows "\<exists>n ctx' c' V'. cache_alloc (sd_device sb_base hc) sb ctx c = Ret (n, ctx', c') \<and>
    n < alloc_limit sb \<and> \<not> in_use sb V n \<and> (\<forall>k < n. in_use sb V k) \<and> rm ctx \<le> rm ctx' + 2 \<and>
    sd_at sb_base hc sb V' H D (insert (bitmap_start sb + n div (BLOCK_SIZE * 8)) (insert n L)) c' \<and>
    V' n = replicate BLOCK_SIZE 0 \<and> (\<forall>m. m \<noteq> n \<longrightarrow> m \<notin> bitmap_area sb \<longrightarrow> V' m = V m) \<and>
    (\<forall>m < alloc_limit sb. in_use sb V' m \<longleftrightarrow> m = n \<or> in_use sb V m)"
  using assms by (rule sd.at_alloc)

text \<open>A bitmap with the first hundred blocks in use.\<close>

definition demo_cells :: "BitmapCell list" where
  "demo_cells = mask 64 # mask 36 # replicate 62 0"

definition demo_view :: "nat \<Rightarrow> u8 list" where
  "demo_view = (\<lambda>_. blank_block)(80 := bytes_of_cells demo_cells)"

lemma demo_in_use:
  assumes "n < 1000"
  shows "in_use demo_sb demo_view n \<longleftrightarrow> n < 100"
proof -
  have "block_bits (demo_view 80) = cell_bits demo_cells"
    using bytes_of_cells(2) [of demo_cells] by (simp add: demo_view_def block_bits_def demo_cells_def)
  then have "in_use demo_sb demo_view n \<longleftrightarrow> bit (demo_cells ! (n div 64)) (n mod 64)"
    using assms by (simp add: in_use_def demo_sb_def BLOCK_SIZE_def demo_cells_def)
  also have "\<dots> \<longleftrightarrow> n < 100"
  proof -
    consider "n div 64 = 0" | "n div 64 = 1" | k where "n div 64 = Suc (Suc k)" "k < 62"
      using assms by (cases "n div 64"; cases "n div 64 - 1") auto
    then show ?thesis
    proof cases
      case 2
      then have "n = 64 + n mod 64" by (metis div_mult_mod_eq mult_1)
      then have "n mod 64 < 36 \<longleftrightarrow> n < 100" by linarith
      with 2 show ?thesis by (simp add: demo_cells_def bit_mask_iff)
    qed (auto simp: demo_cells_def bit_mask_iff)
  qed
  finally show ?thesis .
qed

lemma demo_alloc_state:
  "\<exists>c. sd_at 0 True demo_sb demo_view {} {} {80} c"
  "alloc_ready (sd_usable 0 True demo_sb) demo_sb demo_view {} {}"
  "alloc_limit demo_sb = 1000"
proof -
  show lim: "alloc_limit demo_sb = 1000"
    by (simp add: alloc_limit_def num_bitmap_blocks_def demo_sb_def BLOCK_SIZE_def)
  have area: "bitmap_area demo_sb = {80}"
    by (auto simp: bitmap_area_def num_bitmap_blocks_def demo_sb_def)
  show "alloc_ready (sd_usable 0 True demo_sb) demo_sb demo_view {} {}"
    using demo_usable demo_in_use by (auto simp: alloc_ready_def area lim)
  from boot_blank obtain c0 where at0: "sd_at 0 True demo_sb (\<lambda>_. blank_block) {} {} {} c0" by blast
  have "length (bytes_of_cells demo_cells) = BLOCK_SIZE"
    using bytes_of_cells(1) by (simp add: demo_cells_def)
  from log_all_result [OF at0 this, of "[80]" "\<lparr>rm = 40, ts = 0\<rparr>"]
  obtain c where "sd_at 0 True demo_sb (\<lambda>m. if m = 80 then bytes_of_cells demo_cells else blank_block) {} {} {80} c"
    using demo_usable [of 80] by auto
  moreover have "(\<lambda>m. if m = 80 then bytes_of_cells demo_cells else blank_block) = demo_view"
    by (auto simp: demo_view_def)
  ultimately show "\<exists>c. sd_at 0 True demo_sb demo_view {} {} {80} c" by auto
qed

theorem cache_alloc_correct_witness:
  "\<exists>c ctx' c'. cache_alloc (sd_device 0 True) demo_sb \<lparr>rm = 40, ts = 0\<rparr> c = Ret (100, ctx', c')"
proof -
  from demo_alloc_state obtain c where at: "sd_at 0 True demo_sb demo_view {} {} {80} c" by blast
  have "\<not> in_use demo_sb demo_view 100" using demo_in_use [of 100] by simp
  then have ex: "\<exists>n < alloc_limit demo_sb. \<not> in_use demo_sb demo_view n"
    using demo_alloc_state(3) by (intro exI [of _ 100]) simp
  from cache_alloc_correct [OF at demo_alloc_state(2) ex, of "\<lparr>rm = 40, ts = 0\<rparr>"] obtain n ctx' c' where
    run: "cache_alloc (sd_device 0 True) demo_sb \<lparr>rm = 40, ts = 0\<rparr> c = Ret (n, ctx', c')"
    and n: "n < 1000" "\<not> in_use demo_sb demo_view n" "\<forall>k < n. in_use demo_sb demo_view k"
    using demo_alloc_state(3) by auto
  have "n = 100" using n demo_in_use [of n] demo_in_use [of 100] by (cases "100 < n") auto
  with run show ?thesis by blast
qed

text \<open>
  C38: \<^verbatim>\<open>cache_free\<close> marks exactly the given block as free, changes nothing but its bitmap
  block, and logs that block.
\<close>

theorem cache_free_correct:
  assumes "sd_at sb_base hc sb V H D L c"
    and "sd_usable sb_base hc sb (bitmap_start sb + n div (BLOCK_SIZE * 8))"
    and "bitmap_start sb + n div (BLOCK_SIZE * 8) \<notin> H" and "bitmap_start sb + n div (BLOCK_SIZE * 8) \<notin> D"
    and "bitmap_start sb + n div (BLOCK_SIZE * 8) \<in> L \<or> rm ctx \<noteq> 0 \<and> card L < LOG_MAX_SIZE"
  shows "\<exists>ctx' c' V'. cache_free (sd_device sb_base hc) sb (Some ctx) n c = Ret (Some ctx', c') \<and>
    rm ctx \<le> rm ctx' + 1 \<and>
    sd_at sb_base hc sb V' H D (insert (bitmap_start sb + n div (BLOCK_SIZE * 8)) L) c' \<and>
    (\<forall>m. m \<noteq> bitmap_start sb + n div (BLOCK_SIZE * 8) \<longrightarrow> V' m = V m) \<and>
    (\<forall>m < alloc_limit sb. in_use sb V' m \<longleftrightarrow> m \<noteq> n \<and> in_use sb V m)"
  using assms by (rule sd.at_free)

theorem cache_free_correct_witness:
  "\<exists>c ctx' c'. cache_free (sd_device 0 True) demo_sb (Some \<lparr>rm = 40, ts = 0\<rparr>) 99 c = Ret (Some ctx', c')"
proof -
  from demo_alloc_state obtain c where at: "sd_at 0 True demo_sb demo_view {} {} {80} c" by blast
  have "bitmap_start demo_sb + 99 div (BLOCK_SIZE * 8) = 80" by (simp add: demo_sb_def BLOCK_SIZE_def)
  with cache_free_correct [OF at, of 99 "\<lparr>rm = 40, ts = 0\<rparr>"] demo_usable [of 80] show ?thesis by auto
qed

section \<open>Where the code and its description part\<close>

lemma two_operations_overflow:
  assumes at0: "sd_at sb_base hc sb V {} {} {} c0" and len: "length ns1 = 40" "length ns2 = 23"
    and d: "distinct (n # ns1 @ ns2)" and u: "\<forall>m \<in> set (n # ns1 @ ns2). sd_usable sb_base hc sb m"
    and x: "length x = BLOCK_SIZE"
  shows "\<exists>ctx1 c1 ctx2 c2 c3.
    log_all (sd_device sb_base hc) x ns1 (fst (cache_begin_op a c0)) (snd (cache_begin_op a c0)) = Ret (ctx1, c1) \<and>
    log_all (sd_device sb_base hc) x ns2 (fst (cache_begin_op b c1)) (snd (cache_begin_op b c1)) = Ret (ctx2, c2) \<and>
    rm ctx2 = 17 \<and> cache_acquire (sd_device sb_base hc) n c2 = Ret c3 \<and>
    cache_sync (sd_device sb_base hc) (Some ctx2) n c3 = Undef"
proof -
  let ?dv = "sd_device sb_base hc"
  have quota: "rm (fst (cache_begin_op a c)) = 40" for a and c :: "card bcache"
    by (simp add: cache_begin_op_def OP_MAX_NUM_BLOCKS_def)
  have at0': "sd_at sb_base hc sb V {} {} {} (snd (cache_begin_op a c0))"
    using at0 by (simp add: cache_begin_op_def cache_at_contributors)
  from log_all_result [OF at0' x, of ns1 "fst (cache_begin_op a c0)"] d u len quota
  obtain ctx1 c1 V1 where c1: "log_all ?dv x ns1 (fst (cache_begin_op a c0)) (snd (cache_begin_op a c0)) = Ret (ctx1, c1)"
    and at1: "sd_at sb_base hc sb V1 {} {} (set ns1) c1" by auto
  have at1': "sd_at sb_base hc sb V1 {} {} (set ns1) (snd (cache_begin_op b c1))"
    using at1 by (simp add: cache_begin_op_def cache_at_contributors)
  have card1: "card (set ns1) = 40" using d len distinct_card [of ns1] by simp
  have "\<forall>m \<in> set ns2. sd_usable sb_base hc sb m \<and> m \<notin> set ns1" using d u by auto
  with log_all_result [OF at1' x, of ns2 "fst (cache_begin_op b c1)"] d len card1 quota [of b c1]
  obtain ctx2 c2 V2 where c2: "log_all ?dv x ns2 (fst (cache_begin_op b c1)) (snd (cache_begin_op b c1)) = Ret (ctx2, c2)"
    and rm2: "rm ctx2 = 17" and at2: "sd_at sb_base hc sb V2 {} {} (set ns1 \<union> set ns2) c2" by auto
  from sd.at_acquire [OF at2, of n] u obtain c3 where c3: "cache_acquire ?dv n c2 = Ret c3"
    and at3: "sd_at sb_base hc sb V2 {n} {} (set ns1 \<union> set ns2) c3" by auto
  have card3: "card (set ns1 \<union> set ns2) = LOG_MAX_SIZE"
    using d len distinct_card [of "ns1 @ ns2"] by simp
  have "cache_sync ?dv (Some ctx2) n c3 = Undef"
  proof (rule sync_overflow)
    show "n \<in> held c3" "n \<notin> set (logged (header c3))" using at3 d by (simp_all add: cache_at_def)
    show "header_ok (header c3)" using at3 cache_invD(2) by (fastforce simp: cache_at_def)
    show "rm ctx2 \<noteq> 0" using rm2 by simp
    show "lh_num_blocks (header c3) = LOG_MAX_SIZE" using cache_at_card(1) [OF at3] card3 by simp
  qed
  with c1 c2 rm2 c3 show ?thesis by blast
qed

text \<open>
  C34: the quota of an operation does not protect the log. \<^verbatim>\<open>cache_begin_op\<close> admits every
  operation with a quota of 40 blocks, but the header has room for 63: two operations that
  log 40 and 23 blocks fill it, and when the second one, with 17 blocks of its quota left,
  logs one more, \<^verbatim>\<open>cache_sync\<close> writes outside the array of the header.
\<close>

theorem cache_log_overflow:
  "\<exists>c0 ctx1 c1 ctx2 c2 c3.
    init_bcache (sd_device 0 True) demo_sb blank_header blank_card = Ret c0 \<and>
    log_all (sd_device 0 True) ones [100..<140] (fst (cache_begin_op \<lparr>rm = 0, ts = 0\<rparr> c0))
      (snd (cache_begin_op \<lparr>rm = 0, ts = 0\<rparr> c0)) = Ret (ctx1, c1) \<and>
    log_all (sd_device 0 True) ones [140..<163] (fst (cache_begin_op \<lparr>rm = 0, ts = 1\<rparr> c1))
      (snd (cache_begin_op \<lparr>rm = 0, ts = 1\<rparr> c1)) = Ret (ctx2, c2) \<and>
    rm ctx2 = 17 \<and> cache_acquire (sd_device 0 True) 163 c2 = Ret c3 \<and>
    cache_sync (sd_device 0 True) (Some ctx2) 163 c3 = Undef"
proof -
  from boot_blank obtain c0 where c0: "init_bcache (sd_device 0 True) demo_sb blank_header blank_card = Ret c0"
    and at0: "sd_at 0 True demo_sb (\<lambda>_. blank_block) {} {} {} c0" by blast
  have u: "\<forall>m \<in> set (163 # [100..<140] @ [140..<163]). sd_usable 0 True demo_sb m"
    by (simp add: demo_usable)
  have d: "distinct (163 # [100..<140] @ [140..<163 :: nat])" by simp
  have len: "length [100..<140] = 40" "length [140..<163] = 23" "length ones = BLOCK_SIZE"
    by (simp_all add: ones_def)
  from two_operations_overflow [OF at0 len(1,2) d u len(3), of "\<lparr>rm = 0, ts = 0\<rparr>" "\<lparr>rm = 0, ts = 1\<rparr>"] c0
  show ?thesis by blast
qed

text \<open>
  \<^verbatim>\<open>boost_frequency\<close> does not move the used block to the end of the list, as its comment
  says and a least-recently-used policy needs: it turns the circular list, so that all the
  blocks that were in front of the used one (the older ones) come after all those behind
  it. The order is the documented one only if one of the two groups is empty.
\<close>

theorem boost_turns_list:
  assumes "wf_blocks (older @ b # newer)"
  shows "boost_frequency (block_no b) (older @ b # newer) = newer @ older @ [b] \<and>
    (boost_frequency (block_no b) (older @ b # newer) = older @ newer @ [b] \<longleftrightarrow> older = [] \<or> newer = [])"
proof -
  have "block_no b \<notin> block_no ` set older" using assms by (simp add: wf_blocks_def)
  then have "\<forall>x \<in> set older. block_no x \<noteq> block_no b" by (metis image_eqI)
  then have eq: "boost_frequency (block_no b) (older @ b # newer) = newer @ older @ [b]"
    by (simp add: boost_frequency_def takeWhile_append2 dropWhile_append2)
  have "set older \<inter> set newer = {}" using assms by (auto simp: wf_blocks_def)
  then have "newer @ older = older @ newer \<longleftrightarrow> older = [] \<or> newer = []"
    by (cases older; cases newer) auto
  with eq show ?thesis by (auto simp flip: append_assoc)
qed

theorem boost_turns_list_witness:
  "boost_frequency 2 [init_block\<lparr>block_no := 1\<rparr>, init_block\<lparr>block_no := 2\<rparr>, init_block\<lparr>block_no := 3\<rparr>] =
   [init_block\<lparr>block_no := 3\<rparr>, init_block\<lparr>block_no := 1\<rparr>, init_block\<lparr>block_no := 2\<rparr>]"
  using boost_turns_list [of "[init_block\<lparr>block_no := 1\<rparr>]" "init_block\<lparr>block_no := 2\<rparr>" "[init_block\<lparr>block_no := 3\<rparr>]"]
  by (simp add: wf_blocks_def)

end
