(* ===== verification/Inode.thy ===== *)
theory Inode
  imports Cache_Client Kstring
begin

text \<open>
  The inode layer (\<^verbatim>\<open>fs/inode.c\<close>, \<^verbatim>\<open>fs/inode.h\<close>): on-disk inodes and their byte layout,
  mapping of file offsets to blocks, reading and writing files, directories, the table of
  inodes in memory, and path names. The layer reaches the block cache only through the
  operations of \<^verbatim>\<open>struct block_cache\<close>; the functions here take them as an argument. The
  state \<open>'c\<close> behind them also holds the console, which files of device type read and write
  through the two functions of \<open>dev_ops\<close>.
\<close>

section \<open>Constants and structures\<close>

definition INODE_NUM_DIRECT :: nat where "INODE_NUM_DIRECT = 12"
definition INODE_NUM_INDIRECT :: nat where "INODE_NUM_INDIRECT = BLOCK_SIZE div 4"
definition INODE_PER_BLOCK :: nat where "INODE_PER_BLOCK = BLOCK_SIZE div 64"
definition INODE_MAX_BLOCKS :: nat where "INODE_MAX_BLOCKS = INODE_NUM_DIRECT + INODE_NUM_INDIRECT"
definition INODE_MAX_BYTES :: nat where "INODE_MAX_BYTES = INODE_MAX_BLOCKS * BLOCK_SIZE"
definition INODE_INVALID :: nat where "INODE_INVALID = 0"
definition INODE_DIRECTORY :: nat where "INODE_DIRECTORY = 1"
definition INODE_REGULAR :: nat where "INODE_REGULAR = 2"
definition INODE_DEVICE :: nat where "INODE_DEVICE = 3"
definition ROOT_INODE_NO :: nat where "ROOT_INODE_NO = 1"
definition FILE_NAME_MAX_LENGTH :: nat where "FILE_NAME_MAX_LENGTH = 14"

lemma inode_sizes [simp]:
  "INODE_NUM_DIRECT = 12" "INODE_NUM_INDIRECT = 128" "INODE_PER_BLOCK = 8" "INODE_MAX_BLOCKS = 140"
  "INODE_MAX_BYTES = 71680" "FILE_NAME_MAX_LENGTH = 14"
  by (simp_all add: INODE_NUM_DIRECT_def INODE_NUM_INDIRECT_def INODE_PER_BLOCK_def
      INODE_MAX_BLOCKS_def INODE_MAX_BYTES_def FILE_NAME_MAX_LENGTH_def BLOCK_SIZE_def)

record dinode =
  dtype :: nat
  dmajor :: nat
  dminor :: nat
  num_links :: nat
  num_bytes :: nat
  addrs :: "nat list"
  indirect :: nat

record inode =
  ilock :: semaphore
  irc :: int
  inode_no :: nat
  ivalid :: bool
  entry :: dinode

record dirent =
  d_inode_no :: nat
  d_name :: "u8 list"

text \<open>The structures as bytes: 16-bit and 32-bit fields without padding.\<close>

definition dinode_bytes :: "dinode \<Rightarrow> u8 list" where
  "dinode_bytes e =
     le_bytes 2 (dtype e) @ le_bytes 2 (dmajor e) @ le_bytes 2 (dminor e) @ le_bytes 2 (num_links e) @
     le_bytes 4 (num_bytes e) @ of_le_array 4 (addrs e) @ le_bytes 4 (indirect e)"

definition bytes_dinode :: "u8 list \<Rightarrow> dinode" where
  "bytes_dinode x =
     \<lparr>dtype = get_le 2 0 x, dmajor = get_le 2 2 x, dminor = get_le 2 4 x, num_links = get_le 2 6 x,
      num_bytes = get_le 4 8 x, addrs = le_array 4 INODE_NUM_DIRECT (slice 12 48 x),
      indirect = get_le 4 60 x\<rparr>"

definition dirent_bytes :: "dirent \<Rightarrow> u8 list" where
  "dirent_bytes d = le_bytes 2 (d_inode_no d) @ d_name d"

definition bytes_dirent :: "u8 list \<Rightarrow> dirent" where
  "bytes_dirent x = \<lparr>d_inode_no = get_le 2 0 x, d_name = slice 2 FILE_NAME_MAX_LENGTH x\<rparr>"

text \<open>Console input and output, for files of device type.\<close>

record 'c dev_ops =
  console_in :: "nat \<Rightarrow> 'c \<Rightarrow> (u8 list \<times> 'c) outcome"
  console_out :: "u8 list \<Rightarrow> 'c \<Rightarrow> (nat \<times> 'c) outcome"

section \<open>Inodes on disk\<close>

definition to_block_no :: "super_block \<Rightarrow> nat \<Rightarrow> nat" where
  "to_block_no sb no = inode_start sb + no div INODE_PER_BLOCK"

text \<open>Offset of an inode within its block.\<close>

definition entry_off :: "nat \<Rightarrow> nat" where
  "entry_off no = no mod INODE_PER_BLOCK * 64"

definition get_entry :: "u8 list \<Rightarrow> nat \<Rightarrow> dinode" where
  "get_entry x no = bytes_dinode (slice (entry_off no) 64 x)"

definition put_entry :: "u8 list \<Rightarrow> nat \<Rightarrow> dinode \<Rightarrow> u8 list" where
  "put_entry x no e = patch (entry_off no) (dinode_bytes e) x"

definition get_addr :: "u8 list \<Rightarrow> nat \<Rightarrow> nat" where
  "get_addr x idx = get_le 4 (4 * idx) x"

definition put_addr :: "u8 list \<Rightarrow> nat \<Rightarrow> nat \<Rightarrow> u8 list" where
  "put_addr x idx n = put_le 4 (4 * idx) n x"

definition empty_dinode :: dinode where
  "empty_dinode = \<lparr>dtype = 0, dmajor = 0, dminor = 0, num_links = 0, num_bytes = 0,
     addrs = replicate INODE_NUM_DIRECT 0, indirect = 0\<rparr>"

function inode_alloc_loop ::
  "'c block_cache \<Rightarrow> super_block \<Rightarrow> op_ctx \<Rightarrow> nat \<Rightarrow> nat \<Rightarrow> 'c \<Rightarrow> (nat \<times> op_ctx \<times> 'c) outcome" where
  "inode_alloc_loop bc sb ctx ty no c =
     (if no < num_inodes sb then
        let b = to_block_no sb no in
        andthen (bc_acquire bc b c) (\<lambda>c1.
        andthen (bc_get bc b c1) (\<lambda>x.
        if dtype (get_entry x no) = INODE_INVALID then
          andthen (bc_put bc b (put_entry x no (empty_dinode\<lparr>dtype := ty\<rparr>)) c1) (\<lambda>c2.
          andthen (bc_sync bc (Some ctx) b c2) (\<lambda>(octx, c3).
          andthen (bc_release bc b c3) (\<lambda>c4.
          Ret (no, the octx, c4))))
        else
          andthen (bc_release bc b c1) (\<lambda>c2. inode_alloc_loop bc sb ctx ty (no + 1) c2)))
      else Panic)"
  by pat_completeness auto
termination by (relation "measure (\<lambda>(_, sb, _, _, no, _). num_inodes sb - no)") auto

declare inode_alloc_loop.simps [simp del]

definition inode_alloc ::
  "'c block_cache \<Rightarrow> super_block \<Rightarrow> op_ctx \<Rightarrow> nat \<Rightarrow> 'c \<Rightarrow> (nat \<times> op_ctx \<times> 'c) outcome" where
  "inode_alloc bc sb ctx ty c =
     andthen (ASSERT (ty \<noteq> INODE_INVALID)) (\<lambda>_. inode_alloc_loop bc sb ctx ty 1 c)"

definition inode_sync ::
  "'c block_cache \<Rightarrow> super_block \<Rightarrow> op_ctx option \<Rightarrow> inode \<Rightarrow> bool \<Rightarrow> 'c \<Rightarrow>
   (inode \<times> op_ctx option \<times> 'c) outcome" where
  "inode_sync bc sb octx ip do_write c =
     (let b = to_block_no sb (inode_no ip) in
      andthen (bc_acquire bc b c) (\<lambda>c1.
      andthen
        (if do_write \<and> ivalid ip then
           andthen (bc_get bc b c1) (\<lambda>x.
           andthen (bc_put bc b (put_entry x (inode_no ip) (entry ip)) c1) (\<lambda>c2.
           andthen (bc_sync bc octx b c2) (\<lambda>(octx1, c3).
           Ret (ip, octx1, c3))))
         else if \<not> ivalid ip then
           andthen (bc_get bc b c1) (\<lambda>x.
           Ret (ip\<lparr>entry := get_entry x (inode_no ip), ivalid := True\<rparr>, octx, c1))
         else Ret (ip, octx, c1))
        (\<lambda>(ip1, octx1, c4).
      andthen (bc_release bc b c4) (\<lambda>c5.
      Ret (ip1, octx1, c5)))))"

section \<open>Mapping offsets to blocks\<close>

text \<open>
  The result is the block number (0 if there is none and there is no context), the
  context, the changed inode entry, whether something was allocated, and the cache. The
  slot in an indirect block is written through a pointer kept from before the block was
  released.
\<close>

definition map_indirect ::
  "'c block_cache \<Rightarrow> op_ctx option \<Rightarrow> dinode \<Rightarrow> nat \<Rightarrow> bool \<Rightarrow> 'c \<Rightarrow>
   (nat \<times> op_ctx option \<times> dinode \<times> bool \<times> 'c) outcome" where
  "map_indirect bc octx e idx modified c =
     (let ib = indirect e in
      andthen (bc_acquire bc ib c) (\<lambda>c1.
      andthen (bc_get bc ib c1) (\<lambda>x.
      let block_no = get_addr x idx in
      andthen (bc_release bc ib c1) (\<lambda>c2.
      case octx of
        None \<Rightarrow> Ret (block_no, None, e, modified, c2)
      | Some ctx \<Rightarrow>
          if block_no = 0 then
            andthen (bc_alloc bc ctx c2) (\<lambda>(n, ctx1, c3).
            andthen (bc_get bc ib c3) (\<lambda>y.
            andthen (bc_put bc ib (put_addr y idx n) c3) (\<lambda>c4.
            Ret (n, Some ctx1, e, True, c4))))
          else Ret (block_no, octx, e, modified, c2)))))"

definition inode_map ::
  "'c block_cache \<Rightarrow> op_ctx option \<Rightarrow> dinode \<Rightarrow> nat \<Rightarrow> bool \<Rightarrow> 'c \<Rightarrow>
   (nat \<times> op_ctx option \<times> dinode \<times> bool \<times> 'c) outcome" where
  "inode_map bc octx e offset modified c =
     andthen (ASSERT (offset < INODE_NUM_DIRECT + INODE_NUM_INDIRECT)) (\<lambda>_.
     if offset < INODE_NUM_DIRECT then
       let block_no = addrs e ! offset in
       case octx of
         None \<Rightarrow> Ret (block_no, None, e, modified, c)
       | Some ctx \<Rightarrow>
           if block_no = 0 then
             andthen (bc_alloc bc ctx c) (\<lambda>(n, ctx1, c1).
             Ret (n, Some ctx1, e\<lparr>addrs := (addrs e)[offset := n mod 2 ^ 32]\<rparr>, True, c1))
           else Ret (block_no, octx, e, modified, c)
     else if indirect e = 0 then
       case octx of
         None \<Rightarrow> Ret (0, None, e, modified, c)
       | Some ctx \<Rightarrow>
           andthen (bc_alloc bc ctx c) (\<lambda>(n, ctx1, c1).
           map_indirect bc (Some ctx1) (e\<lparr>indirect := n mod 2 ^ 32\<rparr>) (offset - INODE_NUM_DIRECT) True c1)
     else map_indirect bc octx e (offset - INODE_NUM_DIRECT) modified c)"

section \<open>Reading and writing\<close>

text \<open>The bytes of one round: how many, and from where in the block.\<close>

definition chunk_len :: "nat \<Rightarrow> nat \<Rightarrow> nat \<Rightarrow> nat" where
  "chunk_len i offset len =
     (if i = 0 then cMIN (BLOCK_SIZE - offset mod BLOCK_SIZE) len else cMIN BLOCK_SIZE (len - i))"

definition chunk_off :: "nat \<Rightarrow> nat \<Rightarrow> nat" where
  "chunk_off i offset = (if i = 0 then offset mod BLOCK_SIZE else 0)"

lemma chunk_len_pos [simp]: "i < len \<Longrightarrow> 0 < chunk_len i offset len"
  by (auto simp: chunk_len_def cMIN_def BLOCK_SIZE_def)

lemma chunk_len_le: "i < len \<Longrightarrow> i + chunk_len i offset len \<le> len"
  by (auto simp: chunk_len_def cMIN_def)

function read_loop ::
  "'c block_cache \<Rightarrow> dinode \<Rightarrow> nat \<Rightarrow> nat \<Rightarrow> nat \<Rightarrow> u8 list \<Rightarrow> 'c \<Rightarrow> (u8 list \<times> 'c) outcome" where
  "read_loop bc e i len offset dest c =
     (if i < len then
        andthen (inode_map bc None e (offset div BLOCK_SIZE) False c) (\<lambda>(n, _, _, _, c1).
        andthen (bc_acquire bc n c1) (\<lambda>c2.
        andthen (bc_get bc n c2) (\<lambda>x.
        let cnt = chunk_len i offset len in
        andthen (bc_release bc n c2) (\<lambda>c3.
        read_loop bc e (i + cnt) len (offset + cnt) (dest @ slice (chunk_off i offset) cnt x) c3))))
      else Ret (dest, c))"
  by pat_completeness auto
termination
  by (relation "measure (\<lambda>(_, _, i, len, _). len - i)") (auto intro!: diff_less_mono2)

declare read_loop.simps [simp del]

definition inode_read ::
  "'c dev_ops \<Rightarrow> 'c block_cache \<Rightarrow> dinode \<Rightarrow> nat \<Rightarrow> nat \<Rightarrow> 'c \<Rightarrow> (u8 list \<times> 'c) outcome" where
  "inode_read dev bc e offset len c =
     (if dtype e = INODE_DEVICE then
        andthen (ASSERT (dmajor e = 1)) (\<lambda>_. console_in dev len c)
      else
        let len1 = (if num_bytes e < (len + offset) mod 2 ^ 64
                      then (num_bytes e + 2 ^ 64 - offset) mod 2 ^ 64 else len);
            stop = (offset + len1) mod 2 ^ 64
        in if num_bytes e < offset then Ret ([], c)
           else
             andthen (ASSERT (stop \<le> num_bytes e)) (\<lambda>_.
             andthen (ASSERT (offset \<le> stop)) (\<lambda>_.
             read_loop bc e 0 len1 offset [] c)))"

function write_loop ::
  "'c block_cache \<Rightarrow> op_ctx option \<Rightarrow> dinode \<Rightarrow> nat \<Rightarrow> nat \<Rightarrow> nat \<Rightarrow> u8 list \<Rightarrow> bool \<Rightarrow> 'c \<Rightarrow>
   (op_ctx option \<times> dinode \<times> bool \<times> 'c) outcome" where
  "write_loop bc octx e i len offset src modified c =
     (if i < len then
        andthen (inode_map bc octx e (offset div BLOCK_SIZE) modified c) (\<lambda>(n, octx1, e1, modified1, c1).
        andthen (bc_acquire bc n c1) (\<lambda>c2.
        andthen (bc_get bc n c2) (\<lambda>x.
        let cnt = chunk_len i offset len in
        andthen (bc_put bc n (patch (chunk_off i offset) (take cnt src) x) c2) (\<lambda>c3.
        andthen (bc_sync bc octx1 n c3) (\<lambda>(octx2, c4).
        andthen (bc_release bc n c4) (\<lambda>c5.
        write_loop bc octx2 e1 (i + cnt) len (offset + cnt) (drop cnt src) modified1 c5))))))
      else Ret (octx, e, modified, c))"
  by pat_completeness auto
termination
  by (relation "measure (\<lambda>(_, _, _, i, len, _). len - i)") (auto intro!: diff_less_mono2)

declare write_loop.simps [simp del]

text \<open>The source buffer has as many bytes as are to be written.\<close>

definition inode_write ::
  "'c dev_ops \<Rightarrow> 'c block_cache \<Rightarrow> super_block \<Rightarrow> op_ctx option \<Rightarrow> inode \<Rightarrow> u8 list \<Rightarrow> nat \<Rightarrow> 'c \<Rightarrow>
   (nat \<times> op_ctx option \<times> inode \<times> 'c) outcome" where
  "inode_write dev bc sb octx ip src offset c =
     (let e = entry ip; len = length src in
      if dtype e = INODE_DEVICE then
        andthen (ASSERT (dmajor e = 1)) (\<lambda>_.
        andthen (console_out dev src c) (\<lambda>(r, c1). Ret (r, octx, ip, c1)))
      else
        let stop = (offset + len) mod 2 ^ 64 in
        andthen (ASSERT (offset \<le> num_bytes e)) (\<lambda>_.
        andthen (ASSERT (stop \<le> INODE_MAX_BYTES)) (\<lambda>_.
        andthen (ASSERT (offset \<le> stop)) (\<lambda>_.
        andthen (write_loop bc octx e 0 len offset src False c) (\<lambda>(octx1, e1, _, c1).
        if num_bytes e1 < stop then
          andthen (inode_sync bc sb octx1 (ip\<lparr>entry := e1\<lparr>num_bytes := stop\<rparr>\<rparr>) True c1)
            (\<lambda>(ip1, octx2, c2). Ret (len, octx2, ip1, c2))
        else Ret (len, octx1, ip\<lparr>entry := e1\<rparr>, c1))))))"

section \<open>Truncation\<close>

text \<open>The loop over the direct addresses.\<close>

function clear_direct ::
  "'c block_cache \<Rightarrow> op_ctx option \<Rightarrow> dinode \<Rightarrow> nat \<Rightarrow> 'c \<Rightarrow> (op_ctx option \<times> dinode \<times> 'c) outcome" where
  "clear_direct bc octx e i c =
     (if i < INODE_NUM_DIRECT then
        let block_no = addrs e ! i in
        if block_no \<noteq> 0 then
          andthen (bc_free bc octx block_no c) (\<lambda>(octx1, c1).
          clear_direct bc octx1 (e\<lparr>addrs := (addrs e)[i := 0]\<rparr>) (i + 1) c1)
        else clear_direct bc octx e (i + 1) c
      else Ret (octx, e, c))"
  by pat_completeness auto
termination by (relation "measure (\<lambda>(_, _, _, i, _). INODE_NUM_DIRECT - i)") auto

text \<open>The loop over the addresses in the indirect block, which is held meanwhile.\<close>

function clear_indirect ::
  "'c block_cache \<Rightarrow> op_ctx option \<Rightarrow> nat \<Rightarrow> nat \<Rightarrow> 'c \<Rightarrow> (op_ctx option \<times> 'c) outcome" where
  "clear_indirect bc octx ib i c =
     (if i < INODE_NUM_INDIRECT then
        andthen (bc_get bc ib c) (\<lambda>x.
        let block_no = get_addr x i in
        if block_no \<noteq> 0 then
          andthen (bc_free bc octx block_no c) (\<lambda>(octx1, c1).
          andthen (bc_get bc ib c1) (\<lambda>y.
          andthen (bc_put bc ib (put_addr y i 0) c1) (\<lambda>c2.
          clear_indirect bc octx1 ib (i + 1) c2)))
        else clear_indirect bc octx ib (i + 1) c)
      else Ret (octx, c))"
  by pat_completeness auto
termination by (relation "measure (\<lambda>(_, _, _, i, _). INODE_NUM_INDIRECT - i)") auto

declare clear_direct.simps [simp del] clear_indirect.simps [simp del]

definition inode_clear ::
  "'c block_cache \<Rightarrow> super_block \<Rightarrow> op_ctx option \<Rightarrow> inode \<Rightarrow> 'c \<Rightarrow> (inode \<times> op_ctx option \<times> 'c) outcome" where
  "inode_clear bc sb octx ip c =
     andthen (clear_direct bc octx (entry ip) 0 c) (\<lambda>(octx1, e1, c1).
     andthen
       (if indirect e1 \<noteq> 0 then
          andthen (bc_acquire bc (indirect e1) c1) (\<lambda>c2.
          andthen (clear_indirect bc octx1 (indirect e1) 0 c2) (\<lambda>(octx2, c3).
          andthen (bc_release bc (indirect e1) c3) (\<lambda>c4.
          andthen (bc_free bc octx2 (indirect e1) c4) (\<lambda>(octx3, c5).
          Ret (octx3, e1\<lparr>indirect := 0\<rparr>, c5)))))
        else Ret (octx1, e1, c1))
       (\<lambda>(octx4, e4, c6).
     inode_sync bc sb octx4 (ip\<lparr>entry := e4\<lparr>num_bytes := 0\<rparr>\<rparr>) True c6))"

section \<open>Directories\<close>

text \<open>
  Comparing two name buffers: \<^verbatim>\<open>strncmp\<close> on a memory that holds the first at 0 and the
  second behind it. A name is a buffer of \<^verbatim>\<open>FILE_NAME_MAX_LENGTH\<close> bytes.
\<close>

definition two_buffers :: "u8 list \<Rightarrow> u8 list \<Rightarrow> mem" where
  "two_buffers a b = (\<lambda>i. if i < FILE_NAME_MAX_LENGTH then a ! i else b ! (i - FILE_NAME_MAX_LENGTH))"

definition same_name :: "u8 list \<Rightarrow> u8 list \<Rightarrow> bool" where
  "same_name a b \<longleftrightarrow> strncmp (two_buffers a b) 0 FILE_NAME_MAX_LENGTH FILE_NAME_MAX_LENGTH = 0"

definition DIRENT_SIZE :: nat where "DIRENT_SIZE = 2 + FILE_NAME_MAX_LENGTH"

text \<open>The result of a look-up: the inode number, and the offset of the entry if found.\<close>

function lookup_loop ::
  "'c dev_ops \<Rightarrow> 'c block_cache \<Rightarrow> dinode \<Rightarrow> u8 list \<Rightarrow> nat \<Rightarrow> 'c \<Rightarrow> (nat \<times> nat option \<times> 'c) outcome" where
  "lookup_loop dev bc e name i c =
     (if i < num_bytes e then
        andthen (inode_read dev bc e i DIRENT_SIZE c) (\<lambda>(x, c1).
        let d = bytes_dirent x in
        if d_inode_no d \<noteq> 0 \<and> same_name (d_name d) name then Ret (d_inode_no d, Some i, c1)
        else lookup_loop dev bc e name (i + DIRENT_SIZE) c1)
      else Ret (0, None, c))"
  by pat_completeness auto
termination
  by (relation "measure (\<lambda>(_, _, e, _, i, _). num_bytes e - i)") (auto simp: DIRENT_SIZE_def)

declare lookup_loop.simps [simp del]

definition inode_lookup ::
  "'c dev_ops \<Rightarrow> 'c block_cache \<Rightarrow> dinode \<Rightarrow> u8 list \<Rightarrow> 'c \<Rightarrow> (nat \<times> nat option \<times> 'c) outcome" where
  "inode_lookup dev bc e name c =
     andthen (ASSERT (dtype e = INODE_DIRECTORY)) (\<lambda>_. lookup_loop dev bc e name 0 c)"

text \<open>The search for a free entry; at the end of the directory if there is none.\<close>

function free_slot ::
  "'c dev_ops \<Rightarrow> 'c block_cache \<Rightarrow> dinode \<Rightarrow> nat \<Rightarrow> 'c \<Rightarrow> (nat \<times> 'c) outcome" where
  "free_slot dev bc e i c =
     (if i < num_bytes e then
        andthen (inode_read dev bc e i DIRENT_SIZE c) (\<lambda>(x, c1).
        if d_inode_no (bytes_dirent x) = 0 then Ret (i, c1)
        else free_slot dev bc e (i + DIRENT_SIZE) c1)
      else Ret (i, c))"
  by pat_completeness auto
termination
  by (relation "measure (\<lambda>(_, _, e, i, _). num_bytes e - i)") (auto simp: DIRENT_SIZE_def)

declare free_slot.simps [simp del]

text \<open>The value \<^verbatim>\<open>-1\<close> converted to \<^verbatim>\<open>usize\<close>.\<close>

definition usize_minus_one :: nat where "usize_minus_one = 2 ^ 64 - 1"

definition inode_insert ::
  "'c dev_ops \<Rightarrow> 'c block_cache \<Rightarrow> super_block \<Rightarrow> op_ctx option \<Rightarrow> inode \<Rightarrow> u8 list \<Rightarrow> nat \<Rightarrow> 'c \<Rightarrow>
   (nat \<times> op_ctx option \<times> inode \<times> 'c) outcome" where
  "inode_insert dev bc sb octx ip name no c =
     andthen (ASSERT (dtype (entry ip) = INODE_DIRECTORY)) (\<lambda>_.
     andthen (inode_lookup dev bc (entry ip) name c) (\<lambda>(found, _, c1).
     if found \<noteq> 0 then Ret (usize_minus_one, octx, ip, c1)
     else
       andthen (free_slot dev bc (entry ip) 0 c1) (\<lambda>(index, c2).
       andthen (inode_write dev bc sb octx ip
                 (dirent_bytes \<lparr>d_inode_no = no mod 2 ^ 16, d_name = take FILE_NAME_MAX_LENGTH name\<rparr>) index c2)
         (\<lambda>(_, octx1, ip1, c3). Ret (0, octx1, ip1, c3)))))"

definition inode_remove ::
  "'c dev_ops \<Rightarrow> 'c block_cache \<Rightarrow> super_block \<Rightarrow> op_ctx option \<Rightarrow> inode \<Rightarrow> nat \<Rightarrow> 'c \<Rightarrow>
   (op_ctx option \<times> inode \<times> 'c) outcome" where
  "inode_remove dev bc sb octx ip index c =
     (if index < num_bytes (entry ip) then
        andthen (inode_write dev bc sb octx ip (replicate DIRENT_SIZE 0) index c)
          (\<lambda>(_, octx1, ip1, c1). Ret (octx1, ip1, c1))
      else Ret (octx, ip, c))"

section \<open>Inodes in memory\<close>

text \<open>
  The objects \<^verbatim>\<open>struct inode\<close> live at addresses; \<open>cached\<close> is the list of all of them, from its
  head on, and \<open>fresh\<close> the address the allocator gives out next. \<open>world\<close> is the state behind
  the block cache.
\<close>

record 'c fs =
  icells :: "nat \<Rightarrow> inode"
  cached :: "nat list"
  fresh :: nat
  world :: 'c

definition upd_inode :: "nat \<Rightarrow> (inode \<Rightarrow> inode) \<Rightarrow> 'c fs \<Rightarrow> 'c fs" where
  "upd_inode p f s = s\<lparr>icells := (icells s)(p := f (icells s p))\<rparr>"

definition init_inode :: inode where
  "init_inode = \<lparr>ilock = init_sem 1, irc = 0, inode_no = 0, ivalid = False, entry = empty_dinode\<rparr>"

definition increment_rc :: "inode \<Rightarrow> inode" where
  "increment_rc ip = ip\<lparr>irc := irc ip + 1\<rparr>"

definition decrement_rc :: "inode \<Rightarrow> bool \<times> inode" where
  "decrement_rc ip = (let r = irc ip - 1 in (r \<le> 0, ip\<lparr>irc := r\<rparr>))"

definition inode_lock :: "nat \<Rightarrow> nat \<Rightarrow> 'c fs \<Rightarrow> 'c fs outcome" where
  "inode_lock th p s =
     andthen (ASSERT (0 < irc (icells s p))) (\<lambda>_.
     let (got, l) = wait_sem_enter th (ilock (icells s p))
     in if got then Ret (upd_inode p (\<lambda>ip. ip\<lparr>ilock := l\<rparr>) s) else Sleep)"

definition inode_unlock :: "nat \<Rightarrow> 'c fs \<Rightarrow> 'c fs outcome" where
  "inode_unlock p s =
     andthen (ASSERT (0 < irc (icells s p))) (\<lambda>_.
     andthen (post_sem (ilock (icells s p))) (\<lambda>(_, l).
     Ret (upd_inode p (\<lambda>ip. ip\<lparr>ilock := l\<rparr>) s)))"

text \<open>\<^verbatim>\<open>inode_sync\<close>, \<^verbatim>\<open>inode_clear\<close> through a pointer.\<close>

definition sync_at ::
  "'c block_cache \<Rightarrow> super_block \<Rightarrow> op_ctx option \<Rightarrow> nat \<Rightarrow> bool \<Rightarrow> 'c fs \<Rightarrow> (op_ctx option \<times> 'c fs) outcome" where
  "sync_at bc sb octx p do_write s =
     andthen (inode_sync bc sb octx (icells s p) do_write (world s)) (\<lambda>(ip, octx1, c).
     Ret (octx1, upd_inode p (\<lambda>_. ip) s\<lparr>world := c\<rparr>))"

definition clear_at ::
  "'c block_cache \<Rightarrow> super_block \<Rightarrow> op_ctx option \<Rightarrow> nat \<Rightarrow> 'c fs \<Rightarrow> (op_ctx option \<times> 'c fs) outcome" where
  "clear_at bc sb octx p s =
     andthen (inode_clear bc sb octx (icells s p) (world s)) (\<lambda>(ip, octx1, c).
     Ret (octx1, upd_inode p (\<lambda>_. ip) s\<lparr>world := c\<rparr>))"

definition inode_get ::
  "'c block_cache \<Rightarrow> super_block \<Rightarrow> nat \<Rightarrow> nat \<Rightarrow> 'c fs \<Rightarrow> (nat \<times> 'c fs) outcome" where
  "inode_get bc sb th no s =
     andthen (ASSERT (0 < no)) (\<lambda>_.
     andthen (ASSERT (no < num_inodes sb)) (\<lambda>_.
     case find (\<lambda>p. inode_no (icells s p) = no \<and> 0 < irc (icells s p) \<and> ivalid (icells s p))
            (rotate1 (cached s)) of
       Some p \<Rightarrow> Ret (p, upd_inode p increment_rc s)
     | None \<Rightarrow>
         let p = fresh s;
             s1 = s\<lparr>icells := (icells s)(p := increment_rc (init_inode\<lparr>inode_no := no\<rparr>)),
                    cached := cached s @ [p], fresh := fresh s + 1\<rparr>
         in andthen (inode_lock th p s1) (\<lambda>s2.
            andthen (sync_at bc sb None p False s2) (\<lambda>(_, s3).
            andthen (inode_unlock p s3) (\<lambda>s4.
            Ret (p, s4))))))"

definition inode_share :: "nat \<Rightarrow> 'c fs \<Rightarrow> nat \<times> 'c fs" where
  "inode_share p s = (p, upd_inode p increment_rc s)"

definition inode_put ::
  "'c block_cache \<Rightarrow> super_block \<Rightarrow> nat \<Rightarrow> op_ctx option \<Rightarrow> nat \<Rightarrow> 'c fs \<Rightarrow> (op_ctx option \<times> 'c fs) outcome" where
  "inode_put bc sb th octx p s =
     (let ip = icells s p in
      if irc ip = 1 \<and> num_links (entry ip) = 0 \<and> ivalid ip then
        andthen (inode_lock th p s) (\<lambda>s1.
        andthen (clear_at bc sb octx p (upd_inode p (\<lambda>ip. ip\<lparr>ivalid := False\<rparr>) s1)) (\<lambda>(octx1, s2).
        andthen (sync_at bc sb octx1 p True
                  (upd_inode p (\<lambda>ip. ip\<lparr>entry := (entry ip)\<lparr>dtype := INODE_INVALID\<rparr>\<rparr>) s2)) (\<lambda>(octx2, s3).
        andthen (inode_unlock p s3) (\<lambda>s4.
        Ret (octx2, s4\<lparr>cached := remove1 p (cached s4)\<rparr>)))))
      else Ret (octx, upd_inode p (\<lambda>ip. snd (decrement_rc ip)) s))"

text \<open>Start-up: the root inode, unless the disk has none.\<close>

definition init_inodes ::
  "'c block_cache \<Rightarrow> super_block \<Rightarrow> nat \<Rightarrow> 'c \<Rightarrow> (nat option \<times> 'c fs) outcome" where
  "init_inodes bc sb th c =
     (let s = \<lparr>icells = (\<lambda>_. init_inode), cached = [], fresh = 1, world = c\<rparr>
      in if ROOT_INODE_NO < num_inodes sb
         then andthen (inode_get bc sb th ROOT_INODE_NO s) (\<lambda>(p, s1). Ret (Some p, s1))
         else Ret (None, s))"

section \<open>Path names\<close>

abbreviation slash :: u8 where "slash \<equiv> 47"

text \<open>
  A path is the list of its bytes before the terminator. The result of \<^verbatim>\<open>skipelem\<close> is the
  rest of the path and the name buffer; what was behind a short name in the buffer stays.
\<close>

definition skipelem :: "u8 list \<Rightarrow> u8 list \<Rightarrow> (u8 list \<times> u8 list) option" where
  "skipelem path name =
     (let s = dropWhile (\<lambda>b. b = slash) path in
      if s = [] then None
      else
        let el = takeWhile (\<lambda>b. b \<noteq> slash) s;
            rest = dropWhile (\<lambda>b. b \<noteq> slash) s;
            name1 = (if FILE_NAME_MAX_LENGTH \<le> length el then patch 0 (take FILE_NAME_MAX_LENGTH el) name
                     else patch 0 (el @ [0]) name)
        in Some (dropWhile (\<lambda>b. b = slash) rest, name1))"

lemma skipelem_shorter: "skipelem path name = Some (rest, name1) \<Longrightarrow> length rest < length path"
proof -
  assume sk: "skipelem path name = Some (rest, name1)"
  let ?s = "dropWhile (\<lambda>b. b = slash) path"
  have ne: "?s \<noteq> []" and rest: "rest = dropWhile (\<lambda>b. b = slash) (dropWhile (\<lambda>b. b \<noteq> slash) ?s)"
    using sk by (auto simp: skipelem_def Let_def split: if_splits)
  have "hd ?s \<noteq> slash" using hd_dropWhile [OF ne] by simp
  then have "length (dropWhile (\<lambda>b. b \<noteq> slash) ?s) < length ?s"
    using ne by (cases ?s) (auto intro: le_imp_less_Suc length_dropWhile_le)
  moreover have "length rest \<le> length (dropWhile (\<lambda>b. b \<noteq> slash) ?s)"
    unfolding rest by (rule length_dropWhile_le)
  moreover have "length ?s \<le> length path" by (rule length_dropWhile_le)
  ultimately show ?thesis by linarith
qed

text \<open>
  The walk from inode \<open>p\<close>. The result is the inode found, if any, and the name buffer.
\<close>

function namex_loop ::
  "'c dev_ops \<Rightarrow> 'c block_cache \<Rightarrow> super_block \<Rightarrow> nat \<Rightarrow> op_ctx option \<Rightarrow> bool \<Rightarrow> nat \<Rightarrow> u8 list \<Rightarrow> u8 list \<Rightarrow>
   'c fs \<Rightarrow> (nat option \<times> u8 list \<times> op_ctx option \<times> 'c fs) outcome" where
  "namex_loop dev bc sb th octx parent p path name s =
     (case skipelem path name of
        None \<Rightarrow>
          if parent then
            andthen (inode_put bc sb th octx p s) (\<lambda>(octx1, s1). Ret (None, name, octx1, s1))
          else Ret (Some p, name, octx, s)
      | Some (rest, name1) \<Rightarrow>
          andthen (inode_lock th p s) (\<lambda>s1.
          if dtype (entry (icells s1 p)) \<noteq> INODE_DIRECTORY then
            andthen (inode_unlock p s1) (\<lambda>s2.
            andthen (inode_put bc sb th octx p s2) (\<lambda>(octx1, s3). Ret (None, name1, octx1, s3)))
          else if parent \<and> rest = [] then
            andthen (inode_unlock p s1) (\<lambda>s2. Ret (Some p, name1, octx, s2))
          else
            andthen (inode_lookup dev bc (entry (icells s1 p)) name1 (world s1)) (\<lambda>(no, _, c).
            let s2 = s1\<lparr>world := c\<rparr> in
            if no = 0 then
              andthen (inode_unlock p s2) (\<lambda>s3.
              andthen (inode_put bc sb th octx p s3) (\<lambda>(octx1, s4). Ret (None, name1, octx1, s4)))
            else
              andthen (inode_get bc sb th no s2) (\<lambda>(next, s3).
              andthen (inode_unlock p s3) (\<lambda>s4.
              andthen (inode_put bc sb th octx p s4) (\<lambda>(octx1, s5).
              namex_loop dev bc sb th octx1 parent next rest name1 s5))))))"
  by pat_completeness auto
termination
  by (relation "measure (\<lambda>(_, _, _, _, _, _, _, path, _, _). length path)") (auto dest: skipelem_shorter)

declare namex_loop.simps [simp del]

definition namex ::
  "'c dev_ops \<Rightarrow> 'c block_cache \<Rightarrow> super_block \<Rightarrow> nat \<Rightarrow> op_ctx option \<Rightarrow> nat \<Rightarrow> nat \<Rightarrow> bool \<Rightarrow> u8 list \<Rightarrow> u8 list \<Rightarrow>
   'c fs \<Rightarrow> (nat option \<times> u8 list \<times> op_ctx option \<times> 'c fs) outcome" where
  "namex dev bc sb th octx root cwd parent path name s =
     (let (p, s1) = inode_share (if path \<noteq> [] \<and> hd path = slash then root else cwd) s
      in namex_loop dev bc sb th octx parent p path name s1)"

definition namei ::
  "'c dev_ops \<Rightarrow> 'c block_cache \<Rightarrow> super_block \<Rightarrow> nat \<Rightarrow> op_ctx option \<Rightarrow> nat \<Rightarrow> nat \<Rightarrow> u8 list \<Rightarrow> 'c fs \<Rightarrow>
   (nat option \<times> op_ctx option \<times> 'c fs) outcome" where
  "namei dev bc sb th octx root cwd path s =
     andthen (namex dev bc sb th octx root cwd False path (replicate FILE_NAME_MAX_LENGTH 0) s)
       (\<lambda>(r, _, octx1, s1). Ret (r, octx1, s1))"

definition nameiparent ::
  "'c dev_ops \<Rightarrow> 'c block_cache \<Rightarrow> super_block \<Rightarrow> nat \<Rightarrow> op_ctx option \<Rightarrow> nat \<Rightarrow> nat \<Rightarrow> u8 list \<Rightarrow> u8 list \<Rightarrow>
   'c fs \<Rightarrow> (nat option \<times> u8 list \<times> op_ctx option \<times> 'c fs) outcome" where
  "nameiparent dev bc sb th octx root cwd path name s =
     namex dev bc sb th octx root cwd True path name s"

text \<open>File status: device, inode number, links, size and mode.\<close>

record stat =
  st_dev :: nat
  st_ino :: nat
  st_nlink :: nat
  st_size :: nat
  st_mode :: nat

definition S_IFREG :: nat where "S_IFREG = 32768"
definition S_IFDIR :: nat where "S_IFDIR = 16384"

definition stati :: "inode \<Rightarrow> stat outcome" where
  "stati ip =
     (let st = \<lparr>st_dev = 1, st_ino = inode_no ip, st_nlink = num_links (entry ip),
                st_size = num_bytes (entry ip), st_mode = 0\<rparr>
      in if dtype (entry ip) = INODE_REGULAR then Ret (st\<lparr>st_mode := S_IFREG\<rparr>)
         else if dtype (entry ip) = INODE_DIRECTORY then Ret (st\<lparr>st_mode := S_IFDIR\<rparr>)
         else if dtype (entry ip) = INODE_DEVICE then Ret st
         else Panic)"

end
