(* ===== verification/Inode_File.thy ===== *)
theory Inode_File
  imports Inode
begin

text \<open>
  Files as sequences of bytes. A file's inode and the contents of the blocks determine its
  bytes; reading returns them, and writing changes exactly the bytes written, allocating
  blocks where the file grows. The proofs use only the laws of the block cache interface.
\<close>

section \<open>The bytes of a file\<close>

text \<open>The block that holds the bytes of block \<open>k\<close> of the file, 0 if there is none.\<close>

definition fmap :: "(nat \<Rightarrow> u8 list) \<Rightarrow> dinode \<Rightarrow> nat \<Rightarrow> nat" where
  "fmap V e k =
     (if k < INODE_NUM_DIRECT then addrs e ! k
      else if indirect e = 0 then 0
      else get_addr (V (indirect e)) (k - INODE_NUM_DIRECT))"

definition fbyte :: "(nat \<Rightarrow> u8 list) \<Rightarrow> dinode \<Rightarrow> nat \<Rightarrow> u8" where
  "fbyte V e a = V (fmap V e (a div BLOCK_SIZE)) ! (a mod BLOCK_SIZE)"

definition file_bytes :: "(nat \<Rightarrow> u8 list) \<Rightarrow> dinode \<Rightarrow> u8 list" where
  "file_bytes V e = map (fbyte V e) [0..<num_bytes e]"

text \<open>
  A file that can be read: every block up to its size is there, and neither these blocks
  nor the indirect block are in anybody's hands.
\<close>

definition readable :: "(nat \<Rightarrow> bool) \<Rightarrow> (nat \<Rightarrow> u8 list) \<Rightarrow> dinode \<Rightarrow> nat set \<Rightarrow> nat set \<Rightarrow> bool" where
  "readable use V e H D \<longleftrightarrow>
     num_bytes e \<le> INODE_MAX_BYTES \<and>
     (\<forall>k. k * BLOCK_SIZE < num_bytes e \<longrightarrow> use (fmap V e k) \<and> fmap V e k \<notin> H \<union> D) \<and>
     (INODE_NUM_DIRECT * BLOCK_SIZE < num_bytes e \<longrightarrow>
        indirect e \<noteq> 0 \<and> use (indirect e) \<and> indirect e \<notin> H \<union> D)"

lemma readable_block:
  assumes "readable use V e H D" and "a < num_bytes e"
  shows "use (fmap V e (a div BLOCK_SIZE))" and "fmap V e (a div BLOCK_SIZE) \<notin> H"
    and "fmap V e (a div BLOCK_SIZE) \<notin> D" and "a div BLOCK_SIZE < INODE_MAX_BLOCKS"
proof -
  have "a div BLOCK_SIZE * BLOCK_SIZE < num_bytes e"
    using assms(2) by (metis div_times_less_eq_dividend le_less_trans)
  then show "use (fmap V e (a div BLOCK_SIZE))" "fmap V e (a div BLOCK_SIZE) \<notin> H"
    "fmap V e (a div BLOCK_SIZE) \<notin> D"
    using assms(1) by (auto simp: readable_def)
  have "a < INODE_MAX_BYTES" using assms by (simp add: readable_def)
  then show "a div BLOCK_SIZE < INODE_MAX_BLOCKS" by (simp add: BLOCK_SIZE_def)
qed

lemma readable_indirect:
  assumes "readable use V e H D" and "a < num_bytes e" and "\<not> a div BLOCK_SIZE < INODE_NUM_DIRECT"
  shows "indirect e \<noteq> 0" "use (indirect e)" "indirect e \<notin> H" "indirect e \<notin> D"
proof -
  have "INODE_NUM_DIRECT * BLOCK_SIZE \<le> a" using assms(3) by (simp add: BLOCK_SIZE_def)
  then have "INODE_NUM_DIRECT * BLOCK_SIZE < num_bytes e" using assms(2) by simp
  then show "indirect e \<noteq> 0" "use (indirect e)" "indirect e \<notin> H" "indirect e \<notin> D"
    using assms(1) by (auto simp: readable_def)
qed

section \<open>Rounds of the loops\<close>

text \<open>In every round the part of the block used starts at the offset within the block.\<close>

lemma chunk_uniform:
  assumes "i = 0 \<or> offset mod BLOCK_SIZE = 0"
  shows "chunk_off i offset = offset mod BLOCK_SIZE"
    and "chunk_len i offset len = min (BLOCK_SIZE - offset mod BLOCK_SIZE) (len - i)"
  using assms by (auto simp: chunk_off_def chunk_len_def cMIN_min)

lemma chunk_next:
  assumes "i = 0 \<or> offset mod BLOCK_SIZE = 0" and "i < len"
  shows "i + chunk_len i offset len = len \<or>
    (offset + chunk_len i offset len) mod BLOCK_SIZE = 0"
proof (cases "BLOCK_SIZE - offset mod BLOCK_SIZE \<le> len - i")
  case True
  have "offset mod BLOCK_SIZE < BLOCK_SIZE" by (simp add: BLOCK_SIZE_def)
  with div_mult_mod_eq [of offset BLOCK_SIZE]
  have "offset + (BLOCK_SIZE - offset mod BLOCK_SIZE) = offset div BLOCK_SIZE * BLOCK_SIZE + BLOCK_SIZE"
    by linarith
  then have "(offset + (BLOCK_SIZE - offset mod BLOCK_SIZE)) mod BLOCK_SIZE = 0" by simp
  then show ?thesis using True chunk_uniform(2) [OF assms(1), of len] by (simp add: min_def)
next
  case False
  then show ?thesis using assms(2) chunk_uniform(2) [OF assms(1), of len] by (simp add: min_def)
qed

lemma div_mod_step:
  assumes "r < b"
  shows "(q * b + r) div b = (q::nat)" "(q * b + r) mod b = r"
  using assms by simp_all

lemma chunk_block:
  assumes "i = 0 \<or> offset mod BLOCK_SIZE = 0" and "t < chunk_len i offset len"
  shows "(offset + t) div BLOCK_SIZE = offset div BLOCK_SIZE"
    and "(offset + t) mod BLOCK_SIZE = offset mod BLOCK_SIZE + t"
proof -
  have lt: "offset mod BLOCK_SIZE + t < BLOCK_SIZE"
    using assms(2) chunk_uniform(2) [OF assms(1), of len] by linarith
  have eq: "offset + t = offset div BLOCK_SIZE * BLOCK_SIZE + (offset mod BLOCK_SIZE + t)"
    by (metis add.assoc div_mult_mod_eq)
  show "(offset + t) div BLOCK_SIZE = offset div BLOCK_SIZE"
    "(offset + t) mod BLOCK_SIZE = offset mod BLOCK_SIZE + t"
    by (subst eq, rule div_mod_step [OF lt])+
qed

lemma chunk_fits:
  assumes "i = 0 \<or> offset mod BLOCK_SIZE = 0"
  shows "offset mod BLOCK_SIZE + chunk_len i offset len \<le> BLOCK_SIZE"
proof -
  have "offset mod BLOCK_SIZE < BLOCK_SIZE" by (simp add: BLOCK_SIZE_def)
  then show ?thesis using chunk_uniform(2) [OF assms, of len] by simp
qed

lemma slice_fbyte:
  assumes "i = 0 \<or> offset mod BLOCK_SIZE = 0" and "length (V (fmap V e (offset div BLOCK_SIZE))) = BLOCK_SIZE"
  shows "slice (chunk_off i offset) (chunk_len i offset len) (V (fmap V e (offset div BLOCK_SIZE))) =
    map (fbyte V e) [offset..<offset + chunk_len i offset len]"
  using assms(2) chunk_fits [OF assms(1), of len] chunk_block [OF assms(1)]
  by (intro nth_equalityI) (simp_all add: chunk_uniform(1) [OF assms(1)] nth_slice fbyte_def)

context block_cache_laws
begin

section \<open>Reading\<close>

lemma map_read:
  assumes at: "at V H D L c" and r: "readable use V e H D" and a: "a < num_bytes e"
  shows "\<exists>c'. inode_map bc None e (a div BLOCK_SIZE) False c =
      Ret (fmap V e (a div BLOCK_SIZE), None, e, False, c') \<and> at V H D L c'"
proof (cases "a div BLOCK_SIZE < INODE_NUM_DIRECT")
  case True
  then show ?thesis using at by (simp add: inode_map_def fmap_def)
next
  case False
  note ind = readable_indirect [OF r a False]
  from read_block [OF at ind(2-4)] obtain c1 c2 where "bc_acquire bc (indirect e) c = Ret c1"
    "bc_get bc (indirect e) c1 = Ret (V (indirect e))" "bc_release bc (indirect e) c1 = Ret c2" "at V H D L c2"
    by blast
  then show ?thesis using False ind(1) readable_block(4) [OF r a]
    by (simp add: inode_map_def map_indirect_def fmap_def Let_def)
qed

lemma read_loop_result:
  assumes "at V H D L c" and "readable use V e H D" and "i = 0 \<or> offset mod BLOCK_SIZE = 0"
    and "i \<le> len" and "offset + (len - i) \<le> num_bytes e"
  shows "\<exists>c'. read_loop bc e i len offset dest c =
      Ret (dest @ map (fbyte V e) [offset..<offset + (len - i)], c') \<and> at V H D L c'"
  using assms(1,3-5)
proof (induction "len - i" arbitrary: i offset dest c rule: less_induct)
  case less
  show ?case
  proof (cases "i < len")
    case False
    then show ?thesis using less.prems by (subst read_loop.simps) simp
  next
    case True
    let ?cnt = "chunk_len i offset len" and ?n = "fmap V e (offset div BLOCK_SIZE)"
    have off: "offset < num_bytes e" using less.prems(4) True by simp
    note blk = readable_block [OF assms(2) off]
    from map_read [OF less.prems(1) assms(2) off] obtain c1 where
      m: "inode_map bc None e (offset div BLOCK_SIZE) False c = Ret (?n, None, e, False, c1)"
      and at1: "at V H D L c1" by blast
    from read_block [OF at1 blk(1-3)] obtain c2 c3 where rb: "bc_acquire bc ?n c1 = Ret c2"
      "bc_get bc ?n c2 = Ret (V ?n)" "bc_release bc ?n c2 = Ret c3" and at3: "at V H D L c3" by blast
    have sz: "length (V ?n) = BLOCK_SIZE" by (rule size_law [OF at1 blk(1)])
    have cnt: "0 < ?cnt" "i + ?cnt \<le> len" using chunk_len_pos [OF True] chunk_len_le [OF True] by simp_all
    let ?dest = "dest @ map (fbyte V e) [offset..<offset + ?cnt]"
    have step: "read_loop bc e i len offset dest c = read_loop bc e (i + ?cnt) len (offset + ?cnt) ?dest c3"
      using True m rb by (subst read_loop.simps) (simp add: Let_def slice_fbyte [where V = V and e = e, OF less.prems(2) sz])
    have "\<exists>c'. read_loop bc e (i + ?cnt) len (offset + ?cnt) ?dest c3 =
        Ret (?dest @ map (fbyte V e) [offset + ?cnt..<offset + ?cnt + (len - (i + ?cnt))], c') \<and> at V H D L c'"
    proof (cases "i + ?cnt = len")
      case True
      then show ?thesis using at3 by (subst read_loop.simps) simp
    next
      case False
      then have "(offset + ?cnt) mod BLOCK_SIZE = 0" using chunk_next [OF less.prems(2) True] by blast
      then show ?thesis
        by (intro less.hyps at3) (use cnt less.prems(4) \<open>i < len\<close> in linarith | simp)+
    qed
    moreover have "offset + ?cnt + (len - (i + ?cnt)) = offset + (len - i)" using cnt by simp
    moreover have "[offset..<offset + ?cnt] @ [offset + ?cnt..<offset + (len - i)] = [offset..<offset + (len - i)]"
      using cnt upt_add_eq_append [of offset "offset + ?cnt" "len - i - ?cnt"] by simp
    ultimately show ?thesis using step by (simp flip: map_append)
  qed
qed

lemma inode_read_result:
  assumes at: "at V H D L c" and r: "readable use V e H D" and d: "dtype e \<noteq> INODE_DEVICE"
    and b: "offset < 2 ^ 63" "len < 2 ^ 63"
  shows "\<exists>c'. inode_read dev bc e offset len c = Ret (take len (drop offset (file_bytes V e)), c') \<and> at V H D L c'"
proof (cases "num_bytes e < offset")
  case True
  then show ?thesis using at d by (simp add: inode_read_def Let_def file_bytes_def)
next
  case False
  let ?len = "min len (num_bytes e - offset)"
  have nb: "num_bytes e \<le> 71680" using r by (simp add: readable_def)
  have big: "(2::nat) ^ 64 = 2 ^ 63 + 2 ^ 63" by simp
  have wrap: "(len + offset) mod 2 ^ 64 = len + offset" using b big by (intro mod_less) linarith
  have sub: "(num_bytes e + 2 ^ 64 - offset) mod 2 ^ 64 = num_bytes e - offset"
  proof -
    have "num_bytes e + 2 ^ 64 - offset = (num_bytes e - offset) + 2 ^ 64" using False by linarith
    moreover have "(num_bytes e - offset) mod 2 ^ 64 = num_bytes e - offset" using nb by (intro mod_less) simp
    ultimately show ?thesis by (simp only: mod_add_self2)
  qed
  have len1: "(if num_bytes e < (len + offset) mod 2 ^ 64 then (num_bytes e + 2 ^ 64 - offset) mod 2 ^ 64 else len) = ?len"
    unfolding wrap sub using False by (simp add: min_def) linarith
  have stop: "(offset + ?len) mod 2 ^ 64 = offset + ?len" using b big by (intro mod_less) linarith
  have "\<exists>c'. read_loop bc e 0 ?len offset [] c = Ret ([] @ map (fbyte V e) [offset..<offset + (?len - 0)], c') \<and> at V H D L c'"
    by (rule read_loop_result [OF at r]) (use False in auto)
  then obtain c' where "read_loop bc e 0 ?len offset [] c = Ret (map (fbyte V e) [offset..<offset + ?len], c')"
    and at': "at V H D L c'" by auto
  moreover have "map (fbyte V e) [offset..<offset + ?len] = take len (drop offset (file_bytes V e))"
    using False by (intro nth_equalityI) (auto simp: file_bytes_def)
  moreover have "offset + ?len \<le> num_bytes e" using False by linarith
  ultimately have "inode_read dev bc e offset len c = Ret (take len (drop offset (file_bytes V e)), c')"
    using d False by (simp only: inode_read_def Let_def len1 stop if_False) simp
  then show ?thesis using at' by blast
qed

end

end
