(* ===== verification/Inode_Write.thy ===== *)
theory Inode_Write
  imports Inode_File
begin

text \<open>
  Writing files. An inode survives the way to its block and back; a write changes exactly
  the bytes written, extends the file where it reaches past the end, and leaves the blocks
  of other files alone. The proofs use only the laws of the block cache interface.
\<close>

section \<open>Inodes in their blocks\<close>

text \<open>Every field within the range of its type.\<close>

definition dinode_ranges :: "dinode \<Rightarrow> bool" where
  "dinode_ranges e \<longleftrightarrow>
     dtype e < 2 ^ 16 \<and> dmajor e < 2 ^ 16 \<and> dminor e < 2 ^ 16 \<and> num_links e < 2 ^ 16 \<and>
     num_bytes e < 2 ^ 32 \<and> length (addrs e) = INODE_NUM_DIRECT \<and>
     (\<forall>a \<in> set (addrs e). a < 2 ^ 32) \<and> indirect e < 2 ^ 32"

lemma length_dinode_bytes: "length (addrs e) = INODE_NUM_DIRECT \<Longrightarrow> length (dinode_bytes e) = 64"
  by (simp add: dinode_bytes_def)

lemma bytes_dinode_bytes:
  assumes "dinode_ranges e"
  shows "bytes_dinode (dinode_bytes e) = e"
proof -
  have len: "length (addrs e) = 12" and a: "\<forall>a \<in> set (addrs e). a < 256 ^ 4"
    using assms by (simp_all add: dinode_ranges_def)
  have "le_array 4 12 (of_le_array 4 (addrs e)) = addrs e"
    using le_array_of_le_array [OF a] len by simp
  then show ?thesis
    using assms len
    by (simp add: bytes_dinode_def dinode_bytes_def dinode_ranges_def get_le_def slice_def le_nat_le_bytes_id)
qed

lemma dinode_bytes_dinode:
  assumes "length x = 64"
  shows "dinode_bytes (bytes_dinode x) = x"
proof -
  have part: "slice 0 n x @ slice n m x = slice 0 (n + m) x" for n m
    by (simp add: slice_def take_add)
  have le: "le_bytes n (get_le n p x) = slice p n x" if "p + n \<le> 64" for p n
    using that assms by (simp add: get_le_def le_bytes_le_nat)
  have "dinode_bytes (bytes_dinode x) =
      slice 0 2 x @ slice 2 2 x @ slice 4 2 x @ slice 6 2 x @ slice 8 4 x @ slice 12 48 x @ slice 60 4 x"
    using assms by (simp add: dinode_bytes_def bytes_dinode_def le of_le_array_le_array)
  also have "\<dots> = slice 0 64 x"
    by (simp add: part flip: append_assoc)
  finally show ?thesis using assms by (simp add: slice_def)
qed

lemma entry_off_fits: "entry_off no + 64 \<le> BLOCK_SIZE"
proof -
  have "no mod 8 * 64 \<le> 7 * 64" by (rule mult_le_mono1) simp
  then show ?thesis by (simp add: entry_off_def BLOCK_SIZE_def)
qed

lemma get_put_entry:
  assumes "dinode_ranges e" and "length x = BLOCK_SIZE"
  shows "get_entry (put_entry x no e) no = e" and "length (put_entry x no e) = BLOCK_SIZE"
  using assms entry_off_fits [of no] length_dinode_bytes [of e] bytes_dinode_bytes [OF assms(1)]
  by (simp_all add: get_entry_def put_entry_def dinode_ranges_def)

lemma get_put_entry_other:
  assumes "length (addrs e) = INODE_NUM_DIRECT" and "length x = BLOCK_SIZE"
    and "no mod INODE_PER_BLOCK \<noteq> no' mod INODE_PER_BLOCK"
  shows "get_entry (put_entry x no e) no' = get_entry x no'"
proof -
  have "entry_off no' + 64 \<le> entry_off no \<or> entry_off no + 64 \<le> entry_off no'"
    using assms(3) by (auto simp: entry_off_def)
  then show ?thesis
    using assms entry_off_fits [of no] entry_off_fits [of no'] length_dinode_bytes [of e]
    by (simp add: get_entry_def put_entry_def slice_patch_other)
qed

lemma empty_dinode_ranges: "ty < 2 ^ 16 \<Longrightarrow> dinode_ranges (empty_dinode\<lparr>dtype := ty\<rparr>)"
  by (simp add: dinode_ranges_def empty_dinode_def)

section \<open>The blocks of a file\<close>

definition own :: "(nat \<Rightarrow> u8 list) \<Rightarrow> dinode \<Rightarrow> nat set" where
  "own V e = {n. n \<noteq> 0 \<and> ((\<exists>k < INODE_MAX_BLOCKS. fmap V e k = n) \<or> indirect e = n)}"

text \<open>
  The blocks of a file are marked used and in nobody's hands, and no block serves twice.
\<close>

definition file_ok ::
  "(nat \<Rightarrow> bool) \<Rightarrow> super_block \<Rightarrow> (nat \<Rightarrow> u8 list) \<Rightarrow> dinode \<Rightarrow> nat set \<Rightarrow> nat set \<Rightarrow> bool" where
  "file_ok use sb V e H D \<longleftrightarrow>
     length (addrs e) = INODE_NUM_DIRECT \<and>
     (\<forall>n \<in> own V e. use n \<and> n \<notin> H \<and> n \<notin> D \<and> n \<notin> bitmap_area sb \<and> n < alloc_limit sb \<and> in_use sb V n) \<and>
     (\<forall>j < INODE_MAX_BLOCKS. \<forall>k < INODE_MAX_BLOCKS. fmap V e j \<noteq> 0 \<longrightarrow> fmap V e j = fmap V e k \<longrightarrow> j = k) \<and>
     (\<forall>k < INODE_MAX_BLOCKS. fmap V e k \<noteq> 0 \<longrightarrow> fmap V e k \<noteq> indirect e)"

definition volume_ok :: "(nat \<Rightarrow> bool) \<Rightarrow> super_block \<Rightarrow> (nat \<Rightarrow> u8 list) \<Rightarrow> nat set \<Rightarrow> nat set \<Rightarrow> bool" where
  "volume_ok use sb V H D \<longleftrightarrow> alloc_ready use sb V H D \<and> alloc_limit sb \<le> 2 ^ 32 \<and> in_use sb V 0"

definition free_blocks :: "super_block \<Rightarrow> (nat \<Rightarrow> u8 list) \<Rightarrow> nat set" where
  "free_blocks sb V = {n. n < alloc_limit sb \<and> \<not> in_use sb V n}"

lemma finite_free_blocks [simp]: "finite (free_blocks sb V)"
  by (simp add: free_blocks_def)

lemma fmap_own: "k < INODE_MAX_BLOCKS \<Longrightarrow> fmap V e k \<noteq> 0 \<Longrightarrow> fmap V e k \<in> own V e"
  unfolding own_def by blast

lemma indirect_own: "indirect e \<noteq> 0 \<Longrightarrow> indirect e \<in> own V e"
  unfolding own_def by blast

lemma file_okD:
  assumes "file_ok use sb V e H D" and "n \<in> own V e"
  shows "use n" "n \<notin> H" "n \<notin> D" "n \<notin> bitmap_area sb" "n < alloc_limit sb" "in_use sb V n"
  using assms by (simp_all add: file_ok_def)

lemma file_ok_length: "file_ok use sb V e H D \<Longrightarrow> length (addrs e) = INODE_NUM_DIRECT"
  by (simp add: file_ok_def)

lemma file_ok_inj:
  "\<lbrakk>file_ok use sb V e H D; fmap V e j = fmap V e k; fmap V e j \<noteq> 0; j < INODE_MAX_BLOCKS; k < INODE_MAX_BLOCKS\<rbrakk>
   \<Longrightarrow> j = k"
  unfolding file_ok_def by blast

lemma file_ok_indirect:
  "\<lbrakk>file_ok use sb V e H D; fmap V e k \<noteq> 0; k < INODE_MAX_BLOCKS\<rbrakk> \<Longrightarrow> fmap V e k \<noteq> indirect e"
  unfolding file_ok_def by blast

lemma own_cong:
  assumes "indirect e' = indirect e" and "\<And>k. k < INODE_MAX_BLOCKS \<Longrightarrow> fmap V' e' k = fmap V e k"
  shows "own V' e' = own V e"
  unfolding own_def using assms by auto

lemma bitmap_block_in_area:
  assumes "n < alloc_limit sb"
  shows "bitmap_start sb + n div (BLOCK_SIZE * 8) \<in> bitmap_area sb"
proof -
  have "n < num_bitmap_blocks sb * (BLOCK_SIZE * 8)" using assms by (simp add: alloc_limit_def)
  then have "n div (BLOCK_SIZE * 8) < num_bitmap_blocks sb" by (rule less_mult_imp_div_less)
  then show ?thesis by (simp add: bitmap_area_def)
qed

lemma in_use_cong:
  assumes "\<And>b. b \<in> bitmap_area sb \<Longrightarrow> V' b = V b" and "n < alloc_limit sb"
  shows "in_use sb V' n = in_use sb V n"
  using assms(1) [OF bitmap_block_in_area [OF assms(2)]] by (simp add: in_use_def)

lemma volume_ok_mono:
  assumes "volume_ok use sb V H D" and "\<And>m. m < alloc_limit sb \<Longrightarrow> in_use sb V m \<Longrightarrow> in_use sb V' m"
    and "0 < alloc_limit sb"
  shows "volume_ok use sb V' H D"
  using assms unfolding volume_ok_def alloc_ready_def by blast

text \<open>A changed data block.\<close>

lemma file_ok_update:
  assumes ok: "file_ok use sb V e H D" and k: "k < INODE_MAX_BLOCKS" "fmap V e k \<noteq> 0"
  shows "fmap (V(fmap V e k := x)) e j = fmap V e j" and "own (V(fmap V e k := x)) e = own V e"
    and "file_ok use sb (V(fmap V e k := x)) e H D"
    and "m < alloc_limit sb \<Longrightarrow> in_use sb (V(fmap V e k := x)) m = in_use sb V m"
proof -
  have f: "fmap (V(fmap V e k := x)) e j = fmap V e j" for j
    using file_ok_indirect [OF ok k(2,1)] by (simp add: fmap_def)
  then show "fmap (V(fmap V e k := x)) e j = fmap V e j" .
  show o: "own (V(fmap V e k := x)) e = own V e" by (rule own_cong) (simp_all add: f)
  have u: "in_use sb (V(fmap V e k := x)) m = in_use sb V m" if "m < alloc_limit sb" for m
    by (rule in_use_cong) (use file_okD(4) [OF ok fmap_own [OF k]] that in auto)
  then show "m < alloc_limit sb \<Longrightarrow> in_use sb (V(fmap V e k := x)) m = in_use sb V m" .
  show "file_ok use sb (V(fmap V e k := x)) e H D"
    using ok u unfolding file_ok_def o f by blast
qed

text \<open>A new block under one of the direct addresses.\<close>

lemma file_ok_extend:
  fixes V V' :: "nat \<Rightarrow> u8 list" and e :: dinode and k n :: nat
  defines "e' \<equiv> e\<lparr>addrs := (addrs e)[k := n]\<rparr>"
  assumes ok: "file_ok use sb V e H D" and vol: "volume_ok use sb V H D"
    and k: "k < INODE_NUM_DIRECT" "fmap V e k = 0"
    and n: "n < alloc_limit sb" "\<not> in_use sb V n"
    and same: "\<forall>m. m \<noteq> n \<longrightarrow> m \<notin> bitmap_area sb \<longrightarrow> V' m = V m"
    and used: "\<forall>m < alloc_limit sb. in_use sb V' m \<longleftrightarrow> m = n \<or> in_use sb V m"
  shows "fmap V' e' k = n" and "j \<noteq> k \<Longrightarrow> fmap V' e' j = fmap V e j" and "own V' e' = insert n (own V e)"
    and "n \<noteq> 0" and "n \<notin> own V e" and "file_ok use sb V' e' H D"
proof -
  have len: "length (addrs e) = INODE_NUM_DIRECT" by (rule file_ok_length [OF ok])
  show n0: "n \<noteq> 0" using n vol by (metis volume_ok_def)
  show new: "n \<notin> own V e" using file_okD(6) [OF ok] n(2) by blast
  have ind: "V' (indirect e) = V (indirect e)" if "indirect e \<noteq> 0"
    using file_okD(4) [OF ok indirect_own [OF that]] new indirect_own [OF that, of V] same by metis
  show fk: "fmap V' e' k = n" using k len by (simp add: fmap_def e'_def)
  have fj: "fmap V' e' j = fmap V e j" if "j \<noteq> k" for j
    using that ind by (auto simp: fmap_def e'_def)
  then show "j \<noteq> k \<Longrightarrow> fmap V' e' j = fmap V e j" .
  have ie: "indirect e' = indirect e" by (simp add: e'_def)
  have cases: "(\<exists>j < INODE_MAX_BLOCKS. fmap V' e' j = m) \<longleftrightarrow>
      m = n \<or> (\<exists>j < INODE_MAX_BLOCKS. j \<noteq> k \<and> fmap V e j = m)" for m
    using fk fj k(1) by (metis INODE_MAX_BLOCKS_def trans_less_add1)
  have drop: "(\<exists>j < INODE_MAX_BLOCKS. j \<noteq> k \<and> fmap V e j = m) \<longleftrightarrow> (\<exists>j < INODE_MAX_BLOCKS. fmap V e j = m)"
    if "m \<noteq> 0" for m
    using k(2) that by metis
  show o: "own V' e' = insert n (own V e)"
    unfolding own_def ie cases using drop n0 by auto
  have free: "use n" "n \<notin> H" "n \<notin> D" "n \<notin> bitmap_area sb"
    using vol n by (auto simp: volume_ok_def alloc_ready_def)
  have nof: "fmap V e j \<noteq> n" if "j < INODE_MAX_BLOCKS" for j
    using new fmap_own [OF that] n0 by metis
  have inj: "j = i" if "j < INODE_MAX_BLOCKS" "i < INODE_MAX_BLOCKS" "fmap V' e' j \<noteq> 0" "fmap V' e' j = fmap V' e' i" for i j
    using that fk fj nof file_ok_inj [OF ok] by metis
  have ni: "fmap V' e' j \<noteq> indirect e'" if "j < INODE_MAX_BLOCKS" "fmap V' e' j \<noteq> 0" for j
    using that fk fj ie new indirect_own file_ok_indirect [OF ok] by metis
  have own: "use m \<and> m \<notin> H \<and> m \<notin> D \<and> m \<notin> bitmap_area sb \<and> m < alloc_limit sb \<and> in_use sb V' m"
    if "m \<in> own V' e'" for m
    using that o free n used file_okD [OF ok] by auto
  have "length (addrs e') = INODE_NUM_DIRECT" using len by (simp add: e'_def)
  then show "file_ok use sb V' e' H D" using inj ni own unfolding file_ok_def by blast
qed

section \<open>Writing\<close>

text \<open>
  The effect of writing \<open>src\<close> at \<open>offset\<close>: the bytes written are there, the other bytes of
  the file and all blocks of others are as before, and the blocks gained are marked used.
\<close>

definition wrote ::
  "(nat \<Rightarrow> bool) \<Rightarrow> super_block \<Rightarrow> nat set \<Rightarrow> nat set \<Rightarrow> nat \<Rightarrow> u8 list \<Rightarrow>
   (nat \<Rightarrow> u8 list) \<Rightarrow> dinode \<Rightarrow> (nat \<Rightarrow> u8 list) \<Rightarrow> dinode \<Rightarrow> bool" where
  "wrote use sb H D offset src V e V' e' \<longleftrightarrow>
     e' = e\<lparr>addrs := addrs e'\<rparr> \<and> file_ok use sb V' e' H D \<and> own V e \<subseteq> own V' e' \<and>
     (\<forall>m \<in> own V' e'. m \<in> own V e \<or> \<not> in_use sb V m) \<and>
     (\<forall>k < INODE_MAX_BLOCKS. fmap V e k \<noteq> 0 \<longrightarrow> fmap V' e' k = fmap V e k) \<and>
     (\<forall>m. m \<notin> bitmap_area sb \<longrightarrow> m \<notin> own V' e' \<longrightarrow> V' m = V m) \<and>
     (\<forall>m < alloc_limit sb. in_use sb V' m \<longleftrightarrow> in_use sb V m \<or> m \<in> own V' e') \<and>
     (\<forall>a. offset \<le> a \<and> a < offset + length src \<longrightarrow>
        fmap V' e' (a div BLOCK_SIZE) \<noteq> 0 \<and> fbyte V' e' a = src ! (a - offset)) \<and>
     (\<forall>a < INODE_MAX_BYTES. \<not> (offset \<le> a \<and> a < offset + length src) \<longrightarrow>
        fmap V e (a div BLOCK_SIZE) \<noteq> 0 \<longrightarrow> fbyte V' e' a = fbyte V e a)"

lemma wroteD:
  assumes "wrote use sb H D offset src V e V' e'"
  shows "e' = e\<lparr>addrs := addrs e'\<rparr>" and "file_ok use sb V' e' H D" and "own V e \<subseteq> own V' e'"
    and "k < INODE_MAX_BLOCKS \<Longrightarrow> fmap V e k \<noteq> 0 \<Longrightarrow> fmap V' e' k = fmap V e k"
    and "m \<notin> bitmap_area sb \<Longrightarrow> m \<notin> own V' e' \<Longrightarrow> V' m = V m"
    and "m < alloc_limit sb \<Longrightarrow> in_use sb V' m \<longleftrightarrow> in_use sb V m \<or> m \<in> own V' e'"
    and "offset \<le> a \<Longrightarrow> a < offset + length src \<Longrightarrow> fmap V' e' (a div BLOCK_SIZE) \<noteq> 0"
    and "offset \<le> a \<Longrightarrow> a < offset + length src \<Longrightarrow> fbyte V' e' a = src ! (a - offset)"
    and "a < INODE_MAX_BYTES \<Longrightarrow> \<not> (offset \<le> a \<and> a < offset + length src) \<Longrightarrow>
      fmap V e (a div BLOCK_SIZE) \<noteq> 0 \<Longrightarrow> fbyte V' e' a = fbyte V e a"
    and "m \<in> own V' e' \<Longrightarrow> m \<in> own V e \<or> \<not> in_use sb V m"
  using assms unfolding wrote_def by blast+

lemma wroteI:
  assumes "e' = e\<lparr>addrs := addrs e'\<rparr>" and "file_ok use sb V' e' H D" and "own V e \<subseteq> own V' e'"
    and "\<And>m. m \<in> own V' e' \<Longrightarrow> m \<in> own V e \<or> \<not> in_use sb V m"
    and "\<And>k. k < INODE_MAX_BLOCKS \<Longrightarrow> fmap V e k \<noteq> 0 \<Longrightarrow> fmap V' e' k = fmap V e k"
    and "\<And>m. m \<notin> bitmap_area sb \<Longrightarrow> m \<notin> own V' e' \<Longrightarrow> V' m = V m"
    and "\<And>m. m < alloc_limit sb \<Longrightarrow> in_use sb V' m \<longleftrightarrow> in_use sb V m \<or> m \<in> own V' e'"
    and "\<And>a. offset \<le> a \<Longrightarrow> a < offset + length src \<Longrightarrow>
      fmap V' e' (a div BLOCK_SIZE) \<noteq> 0 \<and> fbyte V' e' a = src ! (a - offset)"
    and "\<And>a. a < INODE_MAX_BYTES \<Longrightarrow> \<not> (offset \<le> a \<and> a < offset + length src) \<Longrightarrow>
      fmap V e (a div BLOCK_SIZE) \<noteq> 0 \<Longrightarrow> fbyte V' e' a = fbyte V e a"
  shows "wrote use sb H D offset src V e V' e'"
  using assms unfolding wrote_def by blast

lemma wrote_nothing:
  assumes "file_ok use sb V e H D"
  shows "wrote use sb H D offset [] V e V e"
  using assms file_okD(6) [OF assms] by (simp add: wrote_def) blast

lemma addrs_update_trans:
  "e1 = e\<lparr>addrs := addrs e1\<rparr> \<Longrightarrow> e2 = e1\<lparr>addrs := addrs e2\<rparr> \<Longrightarrow> e2 = e\<lparr>addrs := addrs e2\<rparr>" for e :: dinode
  by (cases e; cases e1; cases e2) simp

lemma byte_block: "a < INODE_MAX_BYTES \<Longrightarrow> a div BLOCK_SIZE < INODE_MAX_BLOCKS"
  by (simp add: BLOCK_SIZE_def)

lemma wrote_append:
  assumes w1: "wrote use sb H D offset s1 V e V1 e1" and w2: "wrote use sb H D (offset + length s1) s2 V1 e1 V2 e2"
    and fits: "offset + length s1 + length s2 \<le> INODE_MAX_BYTES"
  shows "wrote use sb H D offset (s1 @ s2) V e V2 e2"
proof (rule wroteI)
  note a = wroteD [OF w1] and b = wroteD [OF w2]
  show "e2 = e\<lparr>addrs := addrs e2\<rparr>" using a(1) b(1) by (rule addrs_update_trans)
  show "file_ok use sb V2 e2 H D" by (rule b(2))
  show "own V e \<subseteq> own V2 e2" using a(3) b(3) by blast
  show "m \<in> own V e \<or> \<not> in_use sb V m" if "m \<in> own V2 e2" for m
    using a(6) [OF file_okD(5) [OF b(2) that]] a(10) [of m] b(10) [OF that] by blast
  show "fmap V2 e2 k = fmap V e k" if "k < INODE_MAX_BLOCKS" "fmap V e k \<noteq> 0" for k
    using a(4) [OF that] b(4) [OF that(1)] that(2) by simp
  show "V2 m = V m" if "m \<notin> bitmap_area sb" "m \<notin> own V2 e2" for m
    using a(5) b(3,5) that by (metis subsetD)
  show "in_use sb V2 m \<longleftrightarrow> in_use sb V m \<or> m \<in> own V2 e2" if "m < alloc_limit sb" for m
    using a(6) [OF that] b(6) [OF that] b(3) by blast
  show "fmap V2 e2 (x div BLOCK_SIZE) \<noteq> 0 \<and> fbyte V2 e2 x = (s1 @ s2) ! (x - offset)"
    if x: "offset \<le> x" "x < offset + length (s1 @ s2)" for x
  proof (cases "x < offset + length s1")
    case True
    have lim: "x < INODE_MAX_BYTES" using x(2) fits by simp
    have "fmap V1 e1 (x div BLOCK_SIZE) \<noteq> 0" using a(7) [OF x(1) True] .
    moreover have "x - offset < length s1" using True x(1) by linarith
    ultimately show ?thesis
      using a(8) [OF x(1) True] b(4) [OF byte_block [OF lim]] b(9) [OF lim] True
      by (simp add: nth_append)
  next
    case False
    then have "\<not> x - offset < length s1" using x(1) by linarith
    with False show ?thesis
      using b(7) [of x] b(8) [of x] x by (simp add: nth_append diff_diff_left)
  qed
  show "fbyte V2 e2 x = fbyte V e x"
    if x: "x < INODE_MAX_BYTES" "\<not> (offset \<le> x \<and> x < offset + length (s1 @ s2))" "fmap V e (x div BLOCK_SIZE) \<noteq> 0" for x
  proof -
    have "fmap V1 e1 (x div BLOCK_SIZE) \<noteq> 0" using a(4) [OF byte_block [OF x(1)] x(3)] x(3) by simp
    moreover have "\<not> (offset \<le> x \<and> x < offset + length s1)"
      "\<not> (offset + length s1 \<le> x \<and> x < offset + length s1 + length s2)" using x(2) by simp_all linarith+
    ultimately show ?thesis using a(9) [OF x(1) _ x(3)] b(9) [OF x(1)] by simp
  qed
qed

text \<open>Changing part of one block of the file is a write.\<close>

lemma wrote_update:
  assumes ok: "file_ok use sb V e H D" and k: "k < INODE_MAX_BLOCKS" "fmap V e k \<noteq> 0"
    and sz: "length (V (fmap V e k)) = BLOCK_SIZE" and p: "p + length src \<le> BLOCK_SIZE"
  shows "wrote use sb H D (k * BLOCK_SIZE + p) src V e (V(fmap V e k := patch p src (V (fmap V e k)))) e"
    (is "wrote _ _ _ _ _ _ _ _ ?V' _")
proof -
  note u = file_ok_update [OF ok k]
  have "?V' m = V m" if "m \<notin> own V e" for m using that fmap_own [OF k] by auto
  moreover have "fmap V e (a div BLOCK_SIZE) \<noteq> 0 \<and> fbyte ?V' e a = src ! (a - (k * BLOCK_SIZE + p))"
    if a: "k * BLOCK_SIZE + p \<le> a" "a < k * BLOCK_SIZE + p + length src" for a
  proof -
    have r: "a - k * BLOCK_SIZE < BLOCK_SIZE" and eq: "a = k * BLOCK_SIZE + (a - k * BLOCK_SIZE)" using a p by linarith+
    have "a div BLOCK_SIZE = k" "a mod BLOCK_SIZE = a - k * BLOCK_SIZE"
      using div_mod_step [OF r, of k] eq by simp_all
    moreover have "p \<le> a - k * BLOCK_SIZE" "a - k * BLOCK_SIZE < p + length src" using a by linarith+
    ultimately show ?thesis using r sz p k by (simp add: fbyte_def u(1) nth_patch diff_diff_left)
  qed
  moreover have "fbyte ?V' e a = fbyte V e a"
    if a: "a < INODE_MAX_BYTES" "\<not> (k * BLOCK_SIZE + p \<le> a \<and> a < k * BLOCK_SIZE + p + length src)"
      "fmap V e (a div BLOCK_SIZE) \<noteq> 0" for a
  proof (cases "a div BLOCK_SIZE = k")
    case True
    have eq: "a = k * BLOCK_SIZE + a mod BLOCK_SIZE" using True by (metis div_mult_mod_eq)
    have "a mod BLOCK_SIZE < BLOCK_SIZE" by (simp add: BLOCK_SIZE_def)
    moreover have "\<not> (p \<le> a mod BLOCK_SIZE \<and> a mod BLOCK_SIZE < p + length src)"
      using a(2) eq by (metis add.assoc nat_add_left_cancel_le nat_add_left_cancel_less)
    ultimately show ?thesis using True sz p by (auto simp: fbyte_def u(1) nth_patch)
  next
    case False
    then have "fmap V e (a div BLOCK_SIZE) \<noteq> fmap V e k"
      using file_ok_inj [OF ok _ a(3) byte_block [OF a(1)] k(1)] by blast
    then show ?thesis by (simp add: fbyte_def u(1))
  qed
  ultimately show ?thesis
    using u(3) file_okD(6) [OF ok] unfolding wrote_def u(2) by (auto simp: u(1) u(4))
qed

text \<open>Allocating without writing and then writing is a write.\<close>

lemma wrote_then:
  assumes w2: "wrote use sb H D offset src V1 e1 V2 e2" and w1: "wrote use sb H D offset' [] V e V1 e1"
  shows "wrote use sb H D offset src V e V2 e2"
proof (rule wroteI)
  note a = wroteD [OF w1] and b = wroteD [OF w2]
  show "e2 = e\<lparr>addrs := addrs e2\<rparr>" using a(1) b(1) by (rule addrs_update_trans)
  show "file_ok use sb V2 e2 H D" by (rule b(2))
  show "own V e \<subseteq> own V2 e2" using a(3) b(3) by blast
  show "m \<in> own V e \<or> \<not> in_use sb V m" if "m \<in> own V2 e2" for m
    using a(6) [OF file_okD(5) [OF b(2) that]] a(10) [of m] b(10) [OF that] by blast
  show "fmap V2 e2 k = fmap V e k" if "k < INODE_MAX_BLOCKS" "fmap V e k \<noteq> 0" for k
    using a(4) [OF that] b(4) [OF that(1)] that(2) by simp
  show "V2 m = V m" if "m \<notin> bitmap_area sb" "m \<notin> own V2 e2" for m
    using a(5) b(3,5) that by (metis subsetD)
  show "in_use sb V2 m \<longleftrightarrow> in_use sb V m \<or> m \<in> own V2 e2" if "m < alloc_limit sb" for m
    using a(6) [OF that] b(6) [OF that] b(3) by blast
  show "fmap V2 e2 (x div BLOCK_SIZE) \<noteq> 0 \<and> fbyte V2 e2 x = src ! (x - offset)"
    if "offset \<le> x" "x < offset + length src" for x
    using b(7,8) [OF that] by blast
  show "fbyte V2 e2 x = fbyte V e x"
    if x: "x < INODE_MAX_BYTES" "\<not> (offset \<le> x \<and> x < offset + length src)" "fmap V e (x div BLOCK_SIZE) \<noteq> 0" for x
  proof -
    have "fmap V1 e1 (x div BLOCK_SIZE) \<noteq> 0" using a(4) [OF byte_block [OF x(1)] x(3)] x(3) by simp
    then show ?thesis using a(9) [OF x(1) _ x(3)] b(9) [OF x(1,2)] by simp
  qed
qed

text \<open>Blocks touched by a write.\<close>

definition nblk :: "nat \<Rightarrow> nat \<Rightarrow> nat" where
  "nblk offset len = (if len = 0 then 0 else Suc ((offset + len - 1) div BLOCK_SIZE - offset div BLOCK_SIZE))"

lemma nblk_step:
  assumes "i = 0 \<or> offset mod BLOCK_SIZE = 0" and "i < len"
  shows "nblk offset (len - i) =
    Suc (nblk (offset + chunk_len i offset len) (len - (i + chunk_len i offset len)))"
proof (cases "i + chunk_len i offset len = len")
  case True
  let ?t = "len - i - 1"
  have "?t < chunk_len i offset len" using True assms(2) by linarith
  then have "(offset + ?t) div BLOCK_SIZE = offset div BLOCK_SIZE" by (rule chunk_block(1) [OF assms(1)])
  moreover have "offset + (len - i) - 1 = offset + ?t" using assms(2) by linarith
  ultimately show ?thesis using True assms(2) by (simp add: nblk_def)
next
  case False
  let ?cnt = "chunk_len i offset len"
  have lt: "i + ?cnt < len" using chunk_len_le [OF assms(2), of offset] False by linarith
  have cnt: "?cnt = BLOCK_SIZE - offset mod BLOCK_SIZE"
    using chunk_uniform(2) [OF assms(1), of len] lt by linarith
  have "offset mod BLOCK_SIZE < BLOCK_SIZE" by (simp add: BLOCK_SIZE_def)
  with cnt div_mult_mod_eq [of offset BLOCK_SIZE]
  have "offset + ?cnt = offset div BLOCK_SIZE * BLOCK_SIZE + BLOCK_SIZE" by linarith
  then have nxt: "(offset + ?cnt) div BLOCK_SIZE = Suc (offset div BLOCK_SIZE)"
    by (simp add: BLOCK_SIZE_def)
  have last: "offset + ?cnt + (len - (i + ?cnt)) - 1 = offset + (len - i) - 1" using lt by linarith
  have "(offset + ?cnt) div BLOCK_SIZE \<le> (offset + (len - i) - 1) div BLOCK_SIZE"
    using lt by (intro div_le_mono) linarith
  then show ?thesis using lt nxt last assms(2) by (simp add: nblk_def)
qed

context block_cache_laws
begin

text \<open>The block for a write, allocated if the file has none there.\<close>

lemma map_write:
  assumes at: "at V H D L c" and ok: "file_ok use sb V e H D" and vol: "volume_ok use sb V H D"
    and k: "k < INODE_MAX_BLOCKS" "k < INODE_NUM_DIRECT \<or> fmap V e k \<noteq> 0"
    and room: "0 < card (free_blocks sb V)" "2 \<le> rm ctx" "card L + 2 \<le> LOG_MAX_SIZE"
  shows "\<exists>ctx1 e1 md1 c1 V1 L1.
    inode_map bc (Some ctx) e k md c = Ret (fmap V1 e1 k, Some ctx1, e1, md1, c1) \<and>
    at V1 H D L1 c1 \<and> fmap V1 e1 k \<noteq> 0 \<and> wrote use sb H D (k * BLOCK_SIZE) [] V e V1 e1 \<and>
    card (free_blocks sb V) \<le> Suc (card (free_blocks sb V1)) \<and>
    (fmap V1 e1 k \<in> L1 \<and> rm ctx \<le> rm ctx1 + 2 \<and> card L1 \<le> card L + 2 \<or> ctx1 = ctx \<and> L1 = L)"
proof (cases "fmap V e k = 0")
  case True
  then have kd: "k < INODE_NUM_DIRECT" using k(2) by simp
  from room(1) have "free_blocks sb V \<noteq> {}" by (metis card.empty less_irrefl)
  then have fr: "\<exists>n < alloc_limit sb. \<not> in_use sb V n" by (auto simp: free_blocks_def)
  have rd: "alloc_ready use sb V H D" and lim: "alloc_limit sb \<le> 2 ^ 32" using vol by (simp_all add: volume_ok_def)
  from alloc_law [OF at rd fr room(2,3)] obtain n ctx1 c1 V1 where
    al: "bc_alloc bc ctx c = Ret (n, ctx1, c1)" and n: "n < alloc_limit sb" "\<not> in_use sb V n"
    and rm: "rm ctx \<le> rm ctx1 + 2"
    and at1: "at V1 H D (insert (bitmap_start sb + n div (BLOCK_SIZE * 8)) (insert n L)) c1"
    and oth: "\<forall>m. m \<noteq> n \<longrightarrow> m \<notin> bitmap_area sb \<longrightarrow> V1 m = V m"
    and us: "\<forall>m < alloc_limit sb. in_use sb V1 m \<longleftrightarrow> m = n \<or> in_use sb V m" by blast
  let ?e = "e\<lparr>addrs := (addrs e)[k := n]\<rparr>"
  note x = file_ok_extend [OF ok vol kd True n oth us]
  have "n mod 2 ^ 32 = n" using n(1) lim by (intro mod_less) linarith
  then have m: "inode_map bc (Some ctx) e k md c = Ret (n, Some ctx1, ?e, True, c1)"
    using True kd al by (simp add: inode_map_def fmap_def)
  have "fbyte V1 ?e a = fbyte V e a" if "a < INODE_MAX_BYTES" "fmap V e (a div BLOCK_SIZE) \<noteq> 0" for a
  proof -
    have ne: "a div BLOCK_SIZE \<noteq> k" using that True by metis
    have "fmap V e (a div BLOCK_SIZE) \<in> own V e" by (rule fmap_own [OF byte_block [OF that(1)] that(2)])
    then have "V1 (fmap V e (a div BLOCK_SIZE)) = V (fmap V e (a div BLOCK_SIZE))"
      using file_okD(4) [OF ok] x(5) oth by metis
    then show ?thesis using x(2) [OF ne] by (simp add: fbyte_def)
  qed
  moreover have "fmap V1 ?e j = fmap V e j" if "fmap V e j \<noteq> 0" for j using x(2) [of j] that True by metis
  ultimately have w: "wrote use sb H D (k * BLOCK_SIZE) [] V e V1 ?e"
    using x(3,6) us oth n(2) file_okD(6) [OF ok] unfolding wrote_def by auto
  have "free_blocks sb V1 = free_blocks sb V - {n}" using us by (auto simp: free_blocks_def)
  then have "card (free_blocks sb V) \<le> Suc (card (free_blocks sb V1))"
    by (simp add: card_Diff_singleton_if) arith
  moreover have "card (insert (bitmap_start sb + n div (BLOCK_SIZE * 8)) (insert n L)) \<le> card L + 2"
    using log_law [OF at] by (simp add: card_insert_if)
  ultimately show ?thesis using m at1 x(1,4) w rm by (metis insertI1 insertI2)
next
  case False
  have "inode_map bc (Some ctx) e k md c = Ret (fmap V e k, Some ctx, e, md, c) \<and> at V H D L c \<or>
    (\<exists>c1. inode_map bc (Some ctx) e k md c = Ret (fmap V e k, Some ctx, e, md, c1) \<and> at V H D L c1)"
  proof (cases "k < INODE_NUM_DIRECT")
    case True
    then show ?thesis using False at by (simp add: inode_map_def fmap_def)
  next
    case ind: False
    then have i0: "indirect e \<noteq> 0" using False by (auto simp: fmap_def split: if_splits)
    note d = file_okD [OF ok indirect_own [OF i0]]
    from read_block [OF at d(1-3)] obtain c1 c2 where "bc_acquire bc (indirect e) c = Ret c1"
      "bc_get bc (indirect e) c1 = Ret (V (indirect e))" "bc_release bc (indirect e) c1 = Ret c2" "at V H D L c2"
      by blast
    then show ?thesis using ind i0 False k(1)
      by (auto simp: inode_map_def map_indirect_def fmap_def Let_def)
  qed
  then obtain c1 where "inode_map bc (Some ctx) e k md c = Ret (fmap V e k, Some ctx, e, md, c1)" "at V H D L c1"
    by blast
  then show ?thesis using False wrote_nothing [OF ok, of "k * BLOCK_SIZE"]
    by (intro exI [of _ ctx] exI [of _ e] exI [of _ md] exI [of _ c1] exI [of _ V] exI [of _ L]) simp
qed

text \<open>One round: the block is found, changed, logged and released.\<close>

lemma wrote_volume:
  assumes "wrote use sb H D offset src V e V' e'" and "volume_ok use sb V H D" and "0 < alloc_limit sb"
  shows "volume_ok use sb V' H D"
  by (rule volume_ok_mono [OF assms(2) _ assms(3)]) (use wroteD(6) [OF assms(1)] in blast)

lemma write_round:
  assumes at: "at V H D L c" and ok: "file_ok use sb V e H D" and vol: "volume_ok use sb V H D"
    and k: "k < INODE_MAX_BLOCKS" "k < INODE_NUM_DIRECT \<or> fmap V e k \<noteq> 0"
    and room: "0 < card (free_blocks sb V)" "2 \<le> rm ctx" "card L + 2 \<le> LOG_MAX_SIZE"
    and p: "p + length src \<le> BLOCK_SIZE"
  shows "\<exists>n ctx1 e1 md1 c1 c2 x c3 c4 ctx2 c5 V2 L2.
    inode_map bc (Some ctx) e k md c = Ret (n, Some ctx1, e1, md1, c1) \<and> bc_acquire bc n c1 = Ret c2 \<and>
    bc_get bc n c2 = Ret x \<and> bc_put bc n (patch p src x) c2 = Ret c3 \<and>
    bc_sync bc (Some ctx1) n c3 = Ret (Some ctx2, c4) \<and> bc_release bc n c4 = Ret c5 \<and>
    at V2 H D L2 c5 \<and> wrote use sb H D (k * BLOCK_SIZE + p) src V e V2 e1 \<and>
    card (free_blocks sb V) \<le> Suc (card (free_blocks sb V2)) \<and> rm ctx \<le> rm ctx2 + 2 \<and> card L2 \<le> card L + 2"
proof -
  from map_write [OF at ok vol k room, of md] obtain ctx1 e1 md1 c1 V1 L1 where
    m: "inode_map bc (Some ctx) e k md c = Ret (fmap V1 e1 k, Some ctx1, e1, md1, c1)"
    and at1: "at V1 H D L1 c1" and n0: "fmap V1 e1 k \<noteq> 0"
    and w1: "wrote use sb H D (k * BLOCK_SIZE) [] V e V1 e1"
    and fr: "card (free_blocks sb V) \<le> Suc (card (free_blocks sb V1))"
    and lg: "fmap V1 e1 k \<in> L1 \<and> rm ctx \<le> rm ctx1 + 2 \<and> card L1 \<le> card L + 2 \<or> ctx1 = ctx \<and> L1 = L" by blast
  let ?n = "fmap V1 e1 k"
  let ?x = "patch p src (V1 ?n)"
  note ok1 = wroteD(2) [OF w1]
  note d = file_okD [OF ok1 fmap_own [OF k(1) n0]]
  have sz: "length (V1 ?n) = BLOCK_SIZE" by (rule size_law [OF at1 d(1)])
  then have lx: "length ?x = BLOCK_SIZE" using p by simp
  have "?n \<in> L1 \<or> rm ctx1 \<noteq> 0 \<and> card L1 < LOG_MAX_SIZE" using lg room by auto
  from update_block [OF at1 d(1-3) lx this] obtain c2 c3 c4 c5 where
    s: "bc_acquire bc ?n c1 = Ret c2" "bc_get bc ?n c2 = Ret (V1 ?n)" "bc_put bc ?n ?x c2 = Ret c3"
    "bc_sync bc (Some ctx1) ?n c3 = Ret (Some (if ?n \<in> L1 then ctx1 else ctx1\<lparr>rm := rm ctx1 - 1\<rparr>), c4)"
    "bc_release bc ?n c4 = Ret c5" and at5: "at (V1(?n := ?x)) H D (insert ?n L1) c5" by blast
  have "wrote use sb H D (k * BLOCK_SIZE + p) src V1 e1 (V1(?n := ?x)) e1"
    by (rule wrote_update [OF ok1 k(1) n0 sz p])
  then have "wrote use sb H D (k * BLOCK_SIZE + p) src V e (V1(?n := ?x)) e1"
    using w1 by (rule wrote_then)
  moreover have "free_blocks sb (V1(?n := ?x)) = free_blocks sb V1"
    using file_ok_update(4) [OF ok1 k(1) n0] by (auto simp: free_blocks_def)
  moreover have "rm ctx \<le> rm (if ?n \<in> L1 then ctx1 else ctx1\<lparr>rm := rm ctx1 - 1\<rparr>) + 2" using lg by auto
  moreover have "card (insert ?n L1) \<le> card L + 2"
    using lg log_law [OF at1] by (auto simp: card_insert_if)
  ultimately show ?thesis using m s at5 fr by metis
qed

lemma write_loop_result:
  assumes "at V H D L c" and "file_ok use sb V e H D" and "volume_ok use sb V H D" and "0 < alloc_limit sb"
    and "i = 0 \<or> offset mod BLOCK_SIZE = 0" and "i \<le> len" and "length src = len - i"
    and "offset + (len - i) \<le> INODE_MAX_BYTES"
    and "\<forall>k. offset div BLOCK_SIZE \<le> k \<and> k * BLOCK_SIZE < offset + (len - i) \<longrightarrow> k < INODE_NUM_DIRECT \<or> fmap V e k \<noteq> 0"
    and "nblk offset (len - i) \<le> card (free_blocks sb V)" and "2 * nblk offset (len - i) \<le> rm ctx"
    and "card L + 2 * nblk offset (len - i) \<le> LOG_MAX_SIZE"
  shows "\<exists>ctx' e' md' c' V' L'. write_loop bc (Some ctx) e i len offset src md c = Ret (Some ctx', e', md', c') \<and>
    at V' H D L' c' \<and> wrote use sb H D offset src V e V' e' \<and>
    rm ctx \<le> rm ctx' + 2 * nblk offset (len - i) \<and> card L' \<le> card L + 2 * nblk offset (len - i)"
  using assms(1-3,5-)
proof (induction "len - i" arbitrary: i offset src md c V e ctx L rule: less_induct)
  case less
  note prems = less.prems
  show ?case
  proof (cases "i < len")
    case False
    then show ?thesis using prems wrote_nothing [OF prems(2)]
      by (subst write_loop.simps) (auto simp: nblk_def)
  next
    case True
    let ?cnt = "chunk_len i offset len" and ?k = "offset div BLOCK_SIZE"
    have cnt: "0 < ?cnt" "i + ?cnt \<le> len" using chunk_len_pos [OF True] chunk_len_le [OF True] by simp_all
    note nb = nblk_step [OF prems(4) True]
    have off: "offset < INODE_MAX_BYTES" using prems(7) True by linarith
    have kb: "?k < INODE_MAX_BLOCKS" by (rule byte_block [OF off])
    have "?k * BLOCK_SIZE \<le> offset" by (rule div_times_less_eq_dividend)
    then have "?k * BLOCK_SIZE < offset + (len - i)" using True by linarith
    then have kd: "?k < INODE_NUM_DIRECT \<or> fmap V e ?k \<noteq> 0" using prems(8) by blast
    have lt: "length (take ?cnt src) = ?cnt" using prems(6) cnt by simp
    have fits: "offset mod BLOCK_SIZE + length (take ?cnt src) \<le> BLOCK_SIZE"
      using chunk_fits [OF prems(4), of len] lt by simp
    have off_eq: "?k * BLOCK_SIZE + offset mod BLOCK_SIZE = offset" by simp
    have "0 < card (free_blocks sb V)" "2 \<le> rm ctx" "card L + 2 \<le> LOG_MAX_SIZE"
      using prems(9-11) nb by linarith+
    from write_round [OF prems(1-3) kb kd this fits, of md, unfolded off_eq]
    obtain n ctx1 e1 md1 c1 c2 x c3 c4 ctx2 c5 V2 L2 where
      s: "inode_map bc (Some ctx) e ?k md c = Ret (n, Some ctx1, e1, md1, c1)" "bc_acquire bc n c1 = Ret c2"
      "bc_get bc n c2 = Ret x" "bc_put bc n (patch (offset mod BLOCK_SIZE) (take ?cnt src) x) c2 = Ret c3"
      "bc_sync bc (Some ctx1) n c3 = Ret (Some ctx2, c4)" "bc_release bc n c4 = Ret c5"
      and at2: "at V2 H D L2 c5" and w2: "wrote use sb H D offset (take ?cnt src) V e V2 e1"
      and q: "card (free_blocks sb V) \<le> Suc (card (free_blocks sb V2))" "rm ctx \<le> rm ctx2 + 2" "card L2 \<le> card L + 2"
      by blast
    have step: "write_loop bc (Some ctx) e i len offset src md c =
        write_loop bc (Some ctx2) e1 (i + ?cnt) len (offset + ?cnt) (drop ?cnt src) md1 c5"
      using True s by (subst write_loop.simps) (simp add: Let_def chunk_uniform(1) [OF prems(4)])
    have "\<exists>ctx' e' md' c' V' L'. write_loop bc (Some ctx2) e1 (i + ?cnt) len (offset + ?cnt) (drop ?cnt src) md1 c5 =
        Ret (Some ctx', e', md', c') \<and> at V' H D L' c' \<and> wrote use sb H D (offset + ?cnt) (drop ?cnt src) V2 e1 V' e' \<and>
        rm ctx2 \<le> rm ctx' + 2 * nblk (offset + ?cnt) (len - (i + ?cnt)) \<and>
        card L' \<le> card L2 + 2 * nblk (offset + ?cnt) (len - (i + ?cnt))"
    proof (cases "i + ?cnt = len")
      case True
      then show ?thesis using at2 wrote_nothing [OF wroteD(2) [OF w2]] prems(6) cnt
        by (subst write_loop.simps) (auto simp: nblk_def)
    next
      case False
      have al: "(offset + ?cnt) mod BLOCK_SIZE = 0" using chunk_next [OF prems(4) True] False by blast
      have dir: "k < INODE_NUM_DIRECT \<or> fmap V2 e1 k \<noteq> 0"
        if "(offset + ?cnt) div BLOCK_SIZE \<le> k" "k * BLOCK_SIZE < offset + ?cnt + (len - (i + ?cnt))" for k
      proof -
        have "?k \<le> k" using that(1) by (meson div_le_mono le_add1 order_trans)
        moreover have kk: "k * BLOCK_SIZE < offset + (len - i)" using that(2) cnt by linarith
        ultimately have "k < INODE_NUM_DIRECT \<or> fmap V e k \<noteq> 0" using prems(8) by blast
        moreover have "k < INODE_MAX_BLOCKS" using kk prems(7) by (simp add: BLOCK_SIZE_def)
        ultimately show ?thesis using wroteD(4) [OF w2] by metis
      qed
      have h: "len - (i + ?cnt) < len - i" "offset + ?cnt + (len - (i + ?cnt)) \<le> INODE_MAX_BYTES"
        "nblk (offset + ?cnt) (len - (i + ?cnt)) \<le> card (free_blocks sb V2)"
        "2 * nblk (offset + ?cnt) (len - (i + ?cnt)) \<le> rm ctx2"
        "card L2 + 2 * nblk (offset + ?cnt) (len - (i + ?cnt)) \<le> LOG_MAX_SIZE"
        using cnt True prems(7,9-11) q nb by linarith+
      have "length (drop ?cnt src) = len - (i + ?cnt)" using prems(6) by simp
      with h al dir cnt(2) show ?thesis
        by (intro less.hyps at2 wroteD(2) [OF w2] wrote_volume [OF w2 prems(3) assms(4)]) blast+
    qed
    then obtain ctx' e' md' c' V' L' where r: "write_loop bc (Some ctx2) e1 (i + ?cnt) len (offset + ?cnt) (drop ?cnt src) md1 c5 =
        Ret (Some ctx', e', md', c')" "at V' H D L' c'" "wrote use sb H D (offset + ?cnt) (drop ?cnt src) V2 e1 V' e'"
        "rm ctx2 \<le> rm ctx' + 2 * nblk (offset + ?cnt) (len - (i + ?cnt))"
        "card L' \<le> card L2 + 2 * nblk (offset + ?cnt) (len - (i + ?cnt))" by blast
    have "wrote use sb H D offset (take ?cnt src @ drop ?cnt src) V e V' e'"
      by (rule wrote_append [OF w2]) (use r(3) lt prems(6,7) cnt in simp_all)
    then have "wrote use sb H D offset src V e V' e'" by simp
    moreover have "rm ctx \<le> rm ctx' + 2 * nblk offset (len - i)" "card L' \<le> card L + 2 * nblk offset (len - i)"
      using r(4,5) q nb by linarith+
    ultimately show ?thesis using step r(1,2) by metis
  qed
qed

section \<open>Inodes and their blocks\<close>

lemma inode_sync_store:
  fixes ip :: inode
  defines "b \<equiv> to_block_no sb (inode_no ip)"
  assumes at: "at V H D L c" and b: "use b" "b \<notin> H" "b \<notin> D" and v: "ivalid ip"
    and len: "length (addrs (entry ip)) = INODE_NUM_DIRECT"
    and q: "b \<in> L \<or> rm ctx \<noteq> 0 \<and> card L < LOG_MAX_SIZE"
  shows "\<exists>ctx' c'. inode_sync bc sb (Some ctx) ip True c = Ret (ip, Some ctx', c') \<and>
    at (V(b := put_entry (V b) (inode_no ip) (entry ip))) H D (insert b L) c' \<and> rm ctx \<le> rm ctx' + 1"
proof -
  let ?x = "put_entry (V b) (inode_no ip) (entry ip)"
  have "length ?x = BLOCK_SIZE"
    using size_law [OF at b(1)] length_dinode_bytes [OF len] entry_off_fits [of "inode_no ip"]
    by (simp add: put_entry_def)
  from update_block [OF at b this q] obtain c1 c2 c3 c4 where
    "bc_acquire bc b c = Ret c1" "bc_get bc b c1 = Ret (V b)" "bc_put bc b ?x c1 = Ret c2"
    "bc_sync bc (Some ctx) b c2 = Ret (Some (if b \<in> L then ctx else ctx\<lparr>rm := rm ctx - 1\<rparr>), c3)"
    "bc_release bc b c3 = Ret c4" "at (V(b := ?x)) H D (insert b L) c4" by blast
  then show ?thesis using v q by (auto simp: inode_sync_def Let_def simp flip: b_def)
qed

lemma inode_sync_load:
  fixes ip :: inode
  defines "b \<equiv> to_block_no sb (inode_no ip)"
  assumes at: "at V H D L c" and b: "use b" "b \<notin> H" "b \<notin> D" and v: "\<not> ivalid ip"
  shows "\<exists>c'. inode_sync bc sb octx ip False c =
      Ret (ip\<lparr>entry := get_entry (V b) (inode_no ip), ivalid := True\<rparr>, octx, c') \<and> at V H D L c'"
proof -
  from read_block [OF at b] obtain c1 c2 where "bc_acquire bc b c = Ret c1"
    "bc_get bc b c1 = Ret (V b)" "bc_release bc b c1 = Ret c2" "at V H D L c2" by blast
  then show ?thesis using v by (simp add: inode_sync_def Let_def flip: b_def)
qed

end

text \<open>A file does not depend on the blocks of others.\<close>

lemma file_frame:
  assumes ok: "file_ok use sb V e H D" and b: "b \<notin> own V e" "b \<notin> bitmap_area sb"
  shows "k < INODE_MAX_BLOCKS \<Longrightarrow> fmap (V(b := x)) e k = fmap V e k"
    and "file_ok use sb (V(b := x)) e H D"
    and "a < INODE_MAX_BYTES \<Longrightarrow> fmap V e (a div BLOCK_SIZE) \<noteq> 0 \<Longrightarrow> fbyte (V(b := x)) e a = fbyte V e a"
proof -
  have "indirect e \<noteq> 0 \<Longrightarrow> indirect e \<noteq> b" using indirect_own [of e V] b(1) by blast
  then have f: "fmap (V(b := x)) e k = fmap V e k" for k by (auto simp: fmap_def)
  then show "k < INODE_MAX_BLOCKS \<Longrightarrow> fmap (V(b := x)) e k = fmap V e k" by simp
  have o: "own (V(b := x)) e = own V e" by (rule own_cong) (simp_all add: f)
  have u: "in_use sb (V(b := x)) m = in_use sb V m" if "m < alloc_limit sb" for m
    by (rule in_use_cong) (use b that in auto)
  show "file_ok use sb (V(b := x)) e H D" using ok u unfolding file_ok_def o f by blast
  show "fbyte (V(b := x)) e a = fbyte V e a" if "a < INODE_MAX_BYTES" "fmap V e (a div BLOCK_SIZE) \<noteq> 0"
    using fmap_own [OF byte_block [OF that(1)] that(2)] b(1) by (auto simp: fbyte_def f)
qed

lemma wrote_ranges:
  assumes w: "wrote use sb H D offset src V e V' e'" and r: "dinode_ranges e" and lim: "alloc_limit sb \<le> 2 ^ 32"
  shows "dinode_ranges e'"
proof -
  note ok = wroteD(2) [OF w]
  have len: "length (addrs e') = INODE_NUM_DIRECT" by (rule file_ok_length [OF ok])
  have "addrs e' ! k < 2 ^ 32" if "k < INODE_NUM_DIRECT" for k
  proof (cases "addrs e' ! k = 0")
    case False
    then have "fmap V' e' k \<noteq> 0" "fmap V' e' k = addrs e' ! k" using that by (simp_all add: fmap_def)
    then show ?thesis using file_okD(5) [OF ok fmap_own [of k]] that lim by fastforce
  qed simp
  then have "\<forall>a \<in> set (addrs e'). a < 2 ^ 32" using len by (metis in_set_conv_nth)
  moreover have "dtype e' = dtype e" "dmajor e' = dmajor e" "dminor e' = dminor e" "num_links e' = num_links e"
    "num_bytes e' = num_bytes e" "indirect e' = indirect e"
    using wroteD(1) [OF w] by (metis dinode.ext_inject dinode.surjective dinode.update_convs(6))+
  ultimately show ?thesis using r len by (simp add: dinode_ranges_def)
qed

section \<open>The whole write\<close>

text \<open>Every block up to the size is there.\<close>

definition no_holes :: "(nat \<Rightarrow> u8 list) \<Rightarrow> dinode \<Rightarrow> bool" where
  "no_holes V e \<longleftrightarrow> num_bytes e \<le> INODE_MAX_BYTES \<and> (\<forall>k. k * BLOCK_SIZE < num_bytes e \<longrightarrow> fmap V e k \<noteq> 0)"

lemma no_holes_byte: "no_holes V e \<Longrightarrow> a < num_bytes e \<Longrightarrow> fmap V e (a div BLOCK_SIZE) \<noteq> 0"
  unfolding no_holes_def by (meson div_times_less_eq_dividend le_less_trans)

lemma wrote_bytes:
  assumes w: "wrote use sb H D offset src V e V1 e1" and nh: "no_holes V e" and off: "offset \<le> num_bytes e"
    and fits: "offset + length src \<le> INODE_MAX_BYTES"
    and same: "\<And>a. a < INODE_MAX_BYTES \<Longrightarrow> fmap V1 e1 (a div BLOCK_SIZE) \<noteq> 0 \<Longrightarrow> fbyte V2 e2 a = fbyte V1 e1 a"
    and size: "num_bytes e2 = max (num_bytes e) (offset + length src)"
  shows "file_bytes V2 e2 = take offset (file_bytes V e) @ src @ drop (offset + length src) (file_bytes V e)"
proof (rule nth_equalityI)
  show len: "length (file_bytes V2 e2) =
      length (take offset (file_bytes V e) @ src @ drop (offset + length src) (file_bytes V e))"
    using off size by (simp add: file_bytes_def max_def)
  fix a assume "a < length (file_bytes V2 e2)"
  then have a: "a < max (num_bytes e) (offset + length src)" using size by (simp add: file_bytes_def)
  have lim: "a < INODE_MAX_BYTES" using a nh fits by (auto simp: no_holes_def)
  have l2: "file_bytes V2 e2 ! a = fbyte V2 e2 a" using a size by (simp add: file_bytes_def)
  show "file_bytes V2 e2 ! a = (take offset (file_bytes V e) @ src @ drop (offset + length src) (file_bytes V e)) ! a"
  proof (cases "offset \<le> a \<and> a < offset + length src")
    case True
    then have "fbyte V2 e2 a = src ! (a - offset)" using wroteD(7,8) [OF w] same [OF lim] by metis
    then show ?thesis using True off l2 by (simp add: nth_append file_bytes_def min_def) linarith
  next
    case False
    then have an: "a < num_bytes e" using a off by linarith
    have f: "fmap V e (a div BLOCK_SIZE) \<noteq> 0" by (rule no_holes_byte [OF nh an])
    then have "fmap V1 e1 (a div BLOCK_SIZE) \<noteq> 0" using wroteD(4) [OF w byte_block [OF lim]] by metis
    then have "fbyte V2 e2 a = fbyte V e a" using wroteD(9) [OF w lim False f] same [OF lim] by metis
    then show ?thesis using False an off l2 by (auto simp: nth_append file_bytes_def)
  qed
qed

lemma wrote_no_holes:
  assumes w: "wrote use sb H D offset src V e V1 e1" and nh: "no_holes V e" and off: "offset \<le> num_bytes e"
    and fits: "offset + length src \<le> INODE_MAX_BYTES"
    and same: "\<And>k. k < INODE_MAX_BLOCKS \<Longrightarrow> fmap V2 e2 k = fmap V1 e1 k"
    and size: "num_bytes e2 = max (num_bytes e) (offset + length src)"
  shows "no_holes V2 e2"
proof -
  have top: "num_bytes e2 \<le> INODE_MAX_BYTES" using nh fits size by (simp add: no_holes_def)
  moreover have "fmap V2 e2 k \<noteq> 0" if "k * BLOCK_SIZE < num_bytes e2" for k
  proof -
    have k: "k < INODE_MAX_BLOCKS" using that top by (simp add: BLOCK_SIZE_def)
    show ?thesis
    proof (cases "k * BLOCK_SIZE < num_bytes e")
      case True
      then have "fmap V e k \<noteq> 0" using nh by (simp add: no_holes_def)
      then show ?thesis using wroteD(4) [OF w k] same [OF k] by simp
    next
      case False
      then have "fmap V1 e1 (k * BLOCK_SIZE div BLOCK_SIZE) \<noteq> 0"
        by (intro wroteD(7) [OF w]) (use that off size in linarith)+
      then show ?thesis using same [OF k] by (simp add: BLOCK_SIZE_def)
    qed
  qed
  ultimately show ?thesis by (simp add: no_holes_def)
qed

context block_cache_laws
begin

lemma inode_write_result:
  fixes ip :: inode
  defines "e \<equiv> entry ip" and "b \<equiv> to_block_no sb (inode_no ip)"
  assumes at: "at V H D L c" and ok: "file_ok use sb V e H D" and vol: "volume_ok use sb V H D" and lim: "0 < alloc_limit sb"
    and nh: "no_holes V e" and r: "dinode_ranges e" and v: "ivalid ip" and d: "dtype e \<noteq> INODE_DEVICE"
    and off: "offset \<le> num_bytes e" and fits: "offset + length src \<le> INODE_MAX_BYTES"
    and dir: "\<forall>k. offset div BLOCK_SIZE \<le> k \<and> k * BLOCK_SIZE < offset + length src \<longrightarrow> k < INODE_NUM_DIRECT \<or> fmap V e k \<noteq> 0"
    and b: "use b" "b \<notin> H" "b \<notin> D" "b \<notin> own V e" "b \<notin> bitmap_area sb" "in_use sb V b"
    and q: "nblk offset (length src) \<le> card (free_blocks sb V)" "2 * nblk offset (length src) < rm ctx"
      "card L + 2 * nblk offset (length src) < LOG_MAX_SIZE"
  shows "\<exists>ctx' ip' c' V' L'. inode_write dev bc sb (Some ctx) ip src offset c = Ret (length src, Some ctx', ip', c') \<and>
    at V' H D L' c' \<and> file_ok use sb V' (entry ip') H D \<and> no_holes V' (entry ip') \<and> dtype (entry ip') = dtype e \<and>
    num_bytes (entry ip') = max (num_bytes e) (offset + length src) \<and>
    file_bytes V' (entry ip') = take offset (file_bytes V e) @ src @ drop (offset + length src) (file_bytes V e) \<and>
    (num_bytes e < offset + length src \<longrightarrow> get_entry (V' b) (inode_no ip) = entry ip') \<and>
    (\<forall>m. m \<notin> bitmap_area sb \<and> m \<notin> own V e \<and> m \<noteq> b \<and> (m < alloc_limit sb \<longrightarrow> in_use sb V m) \<longrightarrow> V' m = V m)"
proof -
  have lim32: "alloc_limit sb \<le> 2 ^ 32" using vol by (simp add: volume_ok_def)
  have wrap: "(offset + length src) mod 2 ^ 64 = offset + length src" using fits by (intro mod_less) simp
  have "\<exists>ctx' e' md' c' V' L'. write_loop bc (Some ctx) e 0 (length src) offset src False c = Ret (Some ctx', e', md', c') \<and>
    at V' H D L' c' \<and> wrote use sb H D offset src V e V' e' \<and>
    rm ctx \<le> rm ctx' + 2 * nblk offset (length src - 0) \<and> card L' \<le> card L + 2 * nblk offset (length src - 0)"
    by (rule write_loop_result [OF at ok vol lim]) (use fits dir q in auto)
  then obtain ctx1 e1 md1 c1 V1 L1 where
    wl: "write_loop bc (Some ctx) e 0 (length src) offset src False c = Ret (Some ctx1, e1, md1, c1)"
    and at1: "at V1 H D L1 c1" and w: "wrote use sb H D offset src V e V1 e1"
    and q1: "rm ctx \<le> rm ctx1 + 2 * nblk offset (length src)" "card L1 \<le> card L + 2 * nblk offset (length src)"
    by auto
  have nb1: "num_bytes e1 = num_bytes e" "dtype e1 = dtype e"
    using wroteD(1) [OF w] by (metis dinode.ext_inject dinode.surjective dinode.update_convs(6))+
  have bo: "b \<notin> own V1 e1" using wroteD(10) [OF w] b(4,6) by blast
  have oth: "V1 m = V m" if "m \<notin> bitmap_area sb" "m \<notin> own V e" "m < alloc_limit sb \<longrightarrow> in_use sb V m" for m
  proof -
    have "m \<notin> own V1 e1" using wroteD(10) [OF w, of m] file_okD(5) [OF wroteD(2) [OF w], of m] that(2,3) by blast
    then show ?thesis by (rule wroteD(5) [OF w that(1)])
  qed
  show ?thesis
  proof (cases "num_bytes e < offset + length src")
    case False
    have bytes: "file_bytes V1 e1 = take offset (file_bytes V e) @ src @ drop (offset + length src) (file_bytes V e)"
      by (rule wrote_bytes [OF w nh off fits]) (use False nb1 in auto)
    have "inode_write dev bc sb (Some ctx) ip src offset c = Ret (length src, Some ctx1, ip\<lparr>entry := e1\<rparr>, c1)"
      using wl off fits wrap d False nb1 by (simp add: inode_write_def Let_def flip: e_def)
    moreover have "num_bytes e1 = max (num_bytes e) (offset + length src)" using False nb1 by simp
    moreover have "no_holes V1 e1" by (rule wrote_no_holes [OF w nh off fits]) (use False nb1 in simp_all)
    ultimately show ?thesis using at1 wroteD(2) [OF w] bytes oth False nb1
      by (intro exI [of _ ctx1] exI [of _ "ip\<lparr>entry := e1\<rparr>"] exI [of _ c1] exI [of _ V1] exI [of _ L1]) auto
  next
    case True
    let ?e2 = "e1\<lparr>num_bytes := offset + length src\<rparr>"
    let ?ip = "ip\<lparr>entry := ?e2\<rparr>"
    let ?V = "V1(b := put_entry (V1 b) (inode_no ip) ?e2)"
    have r2: "dinode_ranges ?e2" using wrote_ranges [OF w r lim32] fits by (simp add: dinode_ranges_def)
    have f2: "fmap X ?e2 = fmap X e1" "own X ?e2 = own X e1" "fbyte X ?e2 = fbyte X e1" for X
      by (simp_all add: fmap_def own_def fbyte_def fun_eq_iff)
    have ok2: "file_ok use sb X ?e2 H D = file_ok use sb X e1 H D" for X by (simp add: file_ok_def f2)
    note fr = file_frame [OF wroteD(2) [OF w] bo b(5), where x = "put_entry (V1 b) (inode_no ip) ?e2"]
    have "\<exists>ctx' c'. inode_sync bc sb (Some ctx1) ?ip True c1 = Ret (?ip, Some ctx', c') \<and>
        at ?V H D (insert b L1) c' \<and> rm ctx1 \<le> rm ctx' + 1"
      using inode_sync_store [OF at1, of ?ip ctx1] b(1-3) v r2 q q1 by (auto simp: dinode_ranges_def simp flip: b_def)
    then obtain ctx2 c2 where s: "inode_sync bc sb (Some ctx1) ?ip True c1 = Ret (?ip, Some ctx2, c2)"
      and at2: "at ?V H D (insert b L1) c2" by blast
    have bytes: "file_bytes ?V ?e2 = take offset (file_bytes V e) @ src @ drop (offset + length src) (file_bytes V e)"
      by (rule wrote_bytes [OF w nh off fits]) (use True fr(3) in \<open>auto simp: f2\<close>)
    have "inode_write dev bc sb (Some ctx) ip src offset c = Ret (length src, Some ctx2, ?ip, c2)"
      using wl off fits wrap d True nb1 s by (simp add: inode_write_def Let_def flip: e_def)
    moreover have "num_bytes ?e2 = max (num_bytes e) (offset + length src)" using True by simp
    moreover have "get_entry (?V b) (inode_no ip) = ?e2"
      using get_put_entry(1) [OF r2 size_law [OF at1 b(1)]] by simp
    moreover have "file_ok use sb ?V ?e2 H D" unfolding ok2 by (rule fr(2))
    moreover have "no_holes ?V ?e2"
      by (rule wrote_no_holes [OF w nh off fits]) (use True fr(1) in \<open>simp_all add: f2\<close>)
    ultimately show ?thesis using at2 bytes oth nb1
      by (intro exI [of _ ctx2] exI [of _ ?ip] exI [of _ c2] exI [of _ ?V] exI [of _ "insert b L1"]) auto
  qed
qed

end

end
