(* ===== verification/Inode_Dir.thy ===== *)
theory Inode_Dir
  imports Inode_Write
begin

text \<open>
  Directories: a directory file is a list of entries; looking up, inserting and removing
  names are the corresponding operations on that list.
\<close>

section \<open>Entries\<close>

lemma dirent_size [simp]: "DIRENT_SIZE = 16"
  by (simp add: DIRENT_SIZE_def)

definition cname :: "u8 list \<Rightarrow> u8 list" where
  "cname nm = takeWhile (\<lambda>b. b \<noteq> 0) (take FILE_NAME_MAX_LENGTH nm)"

lemma same_name_iff:
  assumes "length a = FILE_NAME_MAX_LENGTH" and "FILE_NAME_MAX_LENGTH \<le> length b"
  shows "same_name a b \<longleftrightarrow> cname a = cname b"
proof -
  have "region (two_buffers a b) 0 14 = take 14 a" "region (two_buffers a b) 14 14 = take 14 b"
    using assms by (auto intro!: nth_equalityI simp: region_def two_buffers_def)
  then show ?thesis
    using assms by (simp add: same_name_def strncmp_def strncmp_loop_cmp_bytes cmp_bytes_eq_0 cname_def)
qed

definition dirent_ok :: "dirent \<Rightarrow> bool" where
  "dirent_ok d \<longleftrightarrow> d_inode_no d < 2 ^ 16 \<and> length (d_name d) = FILE_NAME_MAX_LENGTH"

lemma bytes_dirent_bytes: "dirent_ok d \<Longrightarrow> bytes_dirent (dirent_bytes d) = d"
  by (simp add: dirent_ok_def bytes_dirent_def dirent_bytes_def get_le_def slice_def le_nat_le_bytes_id)

lemma length_dirent_bytes: "dirent_ok d \<Longrightarrow> length (dirent_bytes d) = DIRENT_SIZE"
  by (simp add: dirent_ok_def dirent_bytes_def)

lemma dirent_ok_bytes: "length x = DIRENT_SIZE \<Longrightarrow> dirent_ok (bytes_dirent x)"
  using get_le_bound [of 0 2 x] by (simp add: dirent_ok_def bytes_dirent_def)

text \<open>The entries of a directory file.\<close>

definition entries_of :: "u8 list \<Rightarrow> dirent list" where
  "entries_of x = map (\<lambda>j. bytes_dirent (slice (j * DIRENT_SIZE) DIRENT_SIZE x)) [0..<length x div DIRENT_SIZE]"

lemma length_entries_of [simp]: "length (entries_of x) = length x div DIRENT_SIZE"
  by (simp add: entries_of_def)

lemma nth_entries_of:
  "j < length x div DIRENT_SIZE \<Longrightarrow> entries_of x ! j = bytes_dirent (slice (j * DIRENT_SIZE) DIRENT_SIZE x)"
  by (simp add: entries_of_def)

lemma entry_fits: "j < n div DIRENT_SIZE \<Longrightarrow> j * DIRENT_SIZE + DIRENT_SIZE \<le> n"
proof -
  assume "j < n div DIRENT_SIZE"
  then have "Suc j * DIRENT_SIZE \<le> n div DIRENT_SIZE * DIRENT_SIZE" by (intro mult_le_mono1) simp
  also have "\<dots> \<le> n" by (rule div_times_less_eq_dividend)
  finally show ?thesis by simp
qed

lemma entries_of_ok: "d \<in> set (entries_of x) \<Longrightarrow> dirent_ok d"
  using entry_fits [of _ "length x"] by (auto simp: entries_of_def intro!: dirent_ok_bytes)

text \<open>Overwriting an entry, and adding one at the end.\<close>

lemma slice_splice:
  assumes "off \<le> length x"
  shows "p + n \<le> off \<Longrightarrow> slice p n (take off x @ ys @ drop (off + length ys) x) = slice p n x"
    and "off + length ys \<le> p \<Longrightarrow> p + n \<le> length x \<Longrightarrow>
      slice p n (take off x @ ys @ drop (off + length ys) x) = slice p n x"
    and "slice off (length ys) (take off x @ ys @ drop (off + length ys) x) = ys"
proof -
  let ?y = "take off x @ ys @ drop (off + length ys) x"
  have nth: "?y ! i = (if i < off then x ! i else if i < off + length ys then ys ! (i - off) else x ! i)"
    if "i < length ?y" for i
    using assms that by (auto simp: nth_append)
  have len: "length ?y = max (off + length ys) (length x)" using assms by simp
  show "slice p n ?y = slice p n x" if "p + n \<le> off"
    by (rule nth_equalityI) (use that assms len nth in \<open>simp_all add: nth_slice\<close>)
  show "slice p n ?y = slice p n x" if "off + length ys \<le> p" "p + n \<le> length x"
    by (rule nth_equalityI) (use that assms len nth in \<open>simp_all add: nth_slice\<close>)
  show "slice off (length ys) ?y = ys" using assms by (simp add: slice_def)
qed

lemma entries_of_splice:
  assumes d: "dirent_ok d" and x: "DIRENT_SIZE dvd length x" and j: "j \<le> length (entries_of x)"
  shows "entries_of (take (j * DIRENT_SIZE) x @ dirent_bytes d @ drop (j * DIRENT_SIZE + DIRENT_SIZE) x) =
    (if j < length (entries_of x) then (entries_of x)[j := d] else entries_of x @ [d])" (is "entries_of ?y = _")
proof (rule nth_equalityI)
  let ?n = "length x div DIRENT_SIZE"
  have nx: "length x = ?n * DIRENT_SIZE" using x by simp
  have jn: "j \<le> ?n" using j by simp
  have off: "j * DIRENT_SIZE \<le> length x" using mult_le_mono1 [OF jn, of DIRENT_SIZE] nx by simp
  note sp = slice_splice [OF off, where ys = "dirent_bytes d", unfolded length_dirent_bytes [OF d]]
  have "length ?y = (if j < ?n then ?n * DIRENT_SIZE else Suc ?n * DIRENT_SIZE)"
    using off nx jn length_dirent_bytes [OF d] by (auto simp: min_def)
  then have ly: "length ?y div DIRENT_SIZE = (if j < ?n then ?n else Suc ?n)" by auto
  then show "length (entries_of ?y) =
      length (if j < length (entries_of x) then (entries_of x)[j := d] else entries_of x @ [d])" by simp
  fix i assume "i < length (entries_of ?y)"
  then have i: "i < (if j < ?n then ?n else Suc ?n)" "i < length ?y div DIRENT_SIZE" using ly by simp_all
  have ey: "entries_of ?y ! i = bytes_dirent (slice (i * DIRENT_SIZE) DIRENT_SIZE ?y)" by (rule nth_entries_of [OF i(2)])
  consider "i = j" | "i < j" | "j < i" "i < ?n" using i(1) jn by (cases "i = j"; cases "i < j") (auto split: if_splits)
  then show "entries_of ?y ! i =
      (if j < length (entries_of x) then (entries_of x)[j := d] else entries_of x @ [d]) ! i"
  proof cases
    case 1
    then show ?thesis using ey sp(3) bytes_dirent_bytes [OF d] jn by (auto simp: nth_append)
  next
    case 2
    have "i * DIRENT_SIZE + DIRENT_SIZE \<le> j * DIRENT_SIZE" using 2 by simp
    then show ?thesis using ey sp(1) 2 jn by (auto simp: nth_append nth_entries_of)
  next
    case 3
    have "j * DIRENT_SIZE + DIRENT_SIZE \<le> i * DIRENT_SIZE" "i * DIRENT_SIZE + DIRENT_SIZE \<le> length x"
      using 3 entry_fits [of i "length x"] by simp_all
    then show ?thesis using ey sp(2) 3 jn by (auto simp: nth_entries_of)
  qed
qed

section \<open>Searching\<close>

fun first_from :: "('a \<Rightarrow> bool) \<Rightarrow> 'a list \<Rightarrow> nat \<Rightarrow> nat option" where
  "first_from P [] j = None"
| "first_from P (x # xs) j = (if P x then Some j else first_from P xs (Suc j))"

lemma first_from_Some:
  "first_from P xs j = Some i \<longleftrightarrow> j \<le> i \<and> i < j + length xs \<and> P (xs ! (i - j)) \<and> (\<forall>k < i - j. \<not> P (xs ! k))"
proof (induction xs arbitrary: j)
  case Nil
  then show ?case by simp
next
  case (Cons x xs)
  show ?case
  proof (cases "P x")
    case True
    then show ?thesis by (auto simp: nth_Cons split: nat.splits)
  next
    case False
    have "(\<forall>k < i - j. \<not> P ((x # xs) ! k)) \<longleftrightarrow> (\<forall>k < i - Suc j. \<not> P (xs ! k))" if "j < i"
      using that False by (auto simp: nth_Cons split: nat.splits)
    then show ?thesis using False Cons by (cases "j < i") (auto simp: Suc_diff_Suc dest!: le_neq_implies_less)
  qed
qed

lemma first_from_None: "first_from P xs j = None \<longleftrightarrow> (\<forall>x \<in> set xs. \<not> P x)"
  by (induction xs arbitrary: j) auto

definition matches :: "u8 list \<Rightarrow> dirent \<Rightarrow> bool" where
  "matches name d \<longleftrightarrow> d_inode_no d \<noteq> 0 \<and> cname (d_name d) = cname name"

text \<open>A directory that can be read.\<close>

definition dir_ok :: "(nat \<Rightarrow> bool) \<Rightarrow> (nat \<Rightarrow> u8 list) \<Rightarrow> dinode \<Rightarrow> nat set \<Rightarrow> nat set \<Rightarrow> bool" where
  "dir_ok use V e H D \<longleftrightarrow>
     readable use V e H D \<and> dtype e = INODE_DIRECTORY \<and> DIRENT_SIZE dvd num_bytes e"

definition dir_entries :: "(nat \<Rightarrow> u8 list) \<Rightarrow> dinode \<Rightarrow> dirent list" where
  "dir_entries V e = entries_of (file_bytes V e)"

lemma length_file_bytes [simp]: "length (file_bytes V e) = num_bytes e"
  by (simp add: file_bytes_def)

lemma length_dir_entries [simp]: "length (dir_entries V e) = num_bytes e div DIRENT_SIZE"
  by (simp add: dir_entries_def)

lemma file_ok_readable:
  assumes "file_ok use sb V e H D" and "no_holes V e"
  shows "readable use V e H D"
proof -
  have "use (fmap V e k) \<and> fmap V e k \<notin> H \<union> D" if "k * BLOCK_SIZE < num_bytes e" for k
  proof -
    have "k < INODE_MAX_BLOCKS" "fmap V e k \<noteq> 0"
      using that assms(2) by (auto simp: no_holes_def BLOCK_SIZE_def)
    then show ?thesis using file_okD(1-3) [OF assms(1) fmap_own] by blast
  qed
  moreover have "indirect e \<noteq> 0 \<and> use (indirect e) \<and> indirect e \<notin> H \<union> D" if "INODE_NUM_DIRECT * BLOCK_SIZE < num_bytes e"
  proof -
    have "fmap V e INODE_NUM_DIRECT \<noteq> 0" using that assms(2) unfolding no_holes_def by blast
    then have "indirect e \<noteq> 0" by (auto simp: fmap_def split: if_splits)
    then show ?thesis using file_okD(1-3) [OF assms(1) indirect_own] by blast
  qed
  ultimately show ?thesis using assms(2) by (simp add: readable_def no_holes_def)
qed

text \<open>What the write of an entry needs.\<close>

definition dir_writable ::
  "(nat \<Rightarrow> bool) \<Rightarrow> super_block \<Rightarrow> (nat \<Rightarrow> u8 list) \<Rightarrow> nat set \<Rightarrow> nat set \<Rightarrow> nat set \<Rightarrow> inode \<Rightarrow> op_ctx \<Rightarrow> bool" where
  "dir_writable use sb V H D L ip ctx \<longleftrightarrow>
     (let e = entry ip; b = to_block_no sb (inode_no ip) in
      dtype e = INODE_DIRECTORY \<and> DIRENT_SIZE dvd num_bytes e \<and> no_holes V e \<and> dinode_ranges e \<and> ivalid ip \<and>
      file_ok use sb V e H D \<and> volume_ok use sb V H D \<and> 0 < alloc_limit sb \<and> free_blocks sb V \<noteq> {} \<and>
      use b \<and> b \<notin> H \<and> b \<notin> D \<and> b \<notin> own V e \<and> b \<notin> bitmap_area sb \<and> in_use sb V b \<and>
      2 < rm ctx \<and> card L + 2 < LOG_MAX_SIZE)"

lemma dir_writable_ok: "dir_writable use sb V H D L ip ctx \<Longrightarrow> dir_ok use V (entry ip) H D"
  using file_ok_readable by (auto simp: dir_writable_def dir_ok_def Let_def)

text \<open>The list operation behind the write of an entry.\<close>

definition put_dirent :: "nat \<Rightarrow> dirent \<Rightarrow> dirent list \<Rightarrow> dirent list" where
  "put_dirent j d ds = (if j < length ds then ds[j := d] else ds @ [d])"

text \<open>Where a new entry goes: the first free one, or behind the last.\<close>

definition slot_of :: "dirent list \<Rightarrow> nat" where
  "slot_of ds = (case first_from (\<lambda>d. d_inode_no d = 0) ds 0 of None \<Rightarrow> length ds | Some i \<Rightarrow> i)"

lemma zero_le_bytes: "le_bytes w 0 = replicate w 0"
  by (induction w) simp_all

context block_cache_laws
begin

lemma read_entry:
  assumes at: "at V H D L c" and ok: "dir_ok use V e H D" and j: "j < length (dir_entries V e)"
  shows "\<exists>x c'. inode_read dev bc e (j * DIRENT_SIZE) DIRENT_SIZE c = Ret (x, c') \<and> at V H D L c' \<and>
    bytes_dirent x = dir_entries V e ! j \<and> j * DIRENT_SIZE < num_bytes e"
proof -
  have fit: "j * DIRENT_SIZE + DIRENT_SIZE \<le> num_bytes e" using j by (intro entry_fits) simp
  have "num_bytes e \<le> 71680" using ok by (simp add: dir_ok_def readable_def)
  with fit have "j * DIRENT_SIZE < 2 ^ 63" "DIRENT_SIZE < 2 ^ 63" by simp_all
  moreover have "dtype e \<noteq> INODE_DEVICE" "readable use V e H D"
    using ok by (simp_all add: dir_ok_def INODE_DIRECTORY_def INODE_DEVICE_def)
  ultimately obtain c' where "inode_read dev bc e (j * DIRENT_SIZE) DIRENT_SIZE c =
      Ret (take DIRENT_SIZE (drop (j * DIRENT_SIZE) (file_bytes V e)), c')" "at V H D L c'"
    using inode_read_result [OF at] by blast
  moreover have "dir_entries V e ! j = bytes_dirent (take DIRENT_SIZE (drop (j * DIRENT_SIZE) (file_bytes V e)))"
    using j by (simp add: dir_entries_def nth_entries_of slice_def)
  moreover have "j * DIRENT_SIZE < num_bytes e" using fit by simp
  ultimately show ?thesis by metis
qed

lemma dir_end:
  assumes "dir_ok use V e H D" and "\<not> j < length (dir_entries V e)"
  shows "\<not> j * DIRENT_SIZE < num_bytes e"
proof -
  have "num_bytes e = num_bytes e div DIRENT_SIZE * DIRENT_SIZE" using assms(1) by (simp add: dir_ok_def)
  also have "\<dots> \<le> j * DIRENT_SIZE" using assms(2) by (intro mult_le_mono1) simp
  finally show ?thesis by simp
qed

lemma lookup_loop_result:
  assumes "at V H D L c" and ok: "dir_ok use V e H D" and nm: "FILE_NAME_MAX_LENGTH \<le> length name"
  shows "\<exists>c'. lookup_loop dev bc e name (j * DIRENT_SIZE) c =
      Ret (case first_from (matches name) (drop j (dir_entries V e)) j of
             None \<Rightarrow> (0, None, c') | Some i \<Rightarrow> (d_inode_no (dir_entries V e ! i), Some (i * DIRENT_SIZE), c')) \<and>
    at V H D L c'"
  using assms(1)
proof (induction "length (dir_entries V e) - j" arbitrary: j c)
  case 0
  then have "\<not> j < length (dir_entries V e)" by simp
  with dir_end [OF ok this] 0 show ?case by (subst lookup_loop.simps) simp
next
  case (Suc n)
  then have j: "j < length (dir_entries V e)" by simp
  let ?d = "dir_entries V e ! j"
  from read_entry [OF Suc.prems ok j] obtain x c1 where x: "inode_read dev bc e (j * DIRENT_SIZE) DIRENT_SIZE c = Ret (x, c1)"
    "at V H D L c1" "bytes_dirent x = ?d" "j * DIRENT_SIZE < num_bytes e" by blast
  have "?d \<in> set (entries_of (file_bytes V e))" using nth_mem [OF j] by (simp add: dir_entries_def)
  then have "length (d_name ?d) = FILE_NAME_MAX_LENGTH" using entries_of_ok dirent_ok_def by blast
  then have m: "d_inode_no ?d \<noteq> 0 \<and> same_name (d_name ?d) name \<longleftrightarrow> matches name ?d"
    using same_name_iff [OF _ nm] by (simp add: matches_def)
  have dj: "drop j (dir_entries V e) = ?d # drop (Suc j) (dir_entries V e)" using j by (rule Cons_nth_drop_Suc [symmetric])
  have nxt: "j * DIRENT_SIZE + DIRENT_SIZE = Suc j * DIRENT_SIZE" by simp
  show ?case
  proof (cases "matches name ?d")
    case True
    then show ?thesis using x m by (subst lookup_loop.simps) (simp add: dj Let_def)
  next
    case False
    have "lookup_loop dev bc e name (j * DIRENT_SIZE) c = lookup_loop dev bc e name (Suc j * DIRENT_SIZE) c1"
      using x m False by (subst lookup_loop.simps) (simp only: nxt Let_def if_True andthen.simps prod.case if_False)
    then show ?thesis using Suc.hyps(1) [of "Suc j" c1] Suc.hyps(2) x(2) False dj by simp
  qed
qed

lemma inode_lookup_result:
  assumes "at V H D L c" and "dir_ok use V e H D" and "FILE_NAME_MAX_LENGTH \<le> length name"
  shows "\<exists>c'. inode_lookup dev bc e name c =
      Ret (case first_from (matches name) (dir_entries V e) 0 of
             None \<Rightarrow> (0, None, c') | Some i \<Rightarrow> (d_inode_no (dir_entries V e ! i), Some (i * DIRENT_SIZE), c')) \<and>
    at V H D L c'"
  using lookup_loop_result [OF assms, of dev 0] assms(2) by (simp add: inode_lookup_def dir_ok_def)

lemma free_slot_result:
  assumes "at V H D L c" and ok: "dir_ok use V e H D"
  shows "\<exists>c'. free_slot dev bc e (j * DIRENT_SIZE) c =
      Ret ((case first_from (\<lambda>d. d_inode_no d = 0) (drop j (dir_entries V e)) j of
              None \<Rightarrow> max j (length (dir_entries V e)) | Some i \<Rightarrow> i) * DIRENT_SIZE, c') \<and> at V H D L c'"
  using assms(1)
proof (induction "length (dir_entries V e) - j" arbitrary: j c)
  case 0
  then have "\<not> j < length (dir_entries V e)" by simp
  with dir_end [OF ok this] 0 show ?case by (subst free_slot.simps) simp
next
  case (Suc n)
  then have j: "j < length (dir_entries V e)" by simp
  let ?d = "dir_entries V e ! j"
  from read_entry [OF Suc.prems ok j] obtain x c1 where x: "inode_read dev bc e (j * DIRENT_SIZE) DIRENT_SIZE c = Ret (x, c1)"
    "at V H D L c1" "bytes_dirent x = ?d" "j * DIRENT_SIZE < num_bytes e" by blast
  have dj: "drop j (dir_entries V e) = ?d # drop (Suc j) (dir_entries V e)" using j by (rule Cons_nth_drop_Suc [symmetric])
  have nxt: "j * DIRENT_SIZE + DIRENT_SIZE = Suc j * DIRENT_SIZE" by simp
  show ?case
  proof (cases "d_inode_no ?d = 0")
    case True
    then show ?thesis using x by (subst free_slot.simps) (simp add: dj)
  next
    case False
    have "free_slot dev bc e (j * DIRENT_SIZE) c = free_slot dev bc e (Suc j * DIRENT_SIZE) c1"
      using x False by (subst free_slot.simps) (simp only: nxt if_True andthen.simps prod.case if_False)
    moreover have "n = length (dir_entries V e) - Suc j" using Suc.hyps(2) by simp
    moreover have "max (Suc j) (length (dir_entries V e)) = max j (length (dir_entries V e))" using j by simp
    ultimately show ?thesis using Suc.hyps(1) [of "Suc j" c1] x(2) False dj
      by (simp del: length_dir_entries cong: option.case_cong)
  qed
qed

lemma nblk_entry: "nblk (j * DIRENT_SIZE) DIRENT_SIZE = 1"
proof -
  have "(j * 16 + 15) div 512 = j * 16 div (512 :: nat)"
  proof -
    have "(j * 16 + 15) div 16 div 32 = j * 16 div 16 div (32 :: nat)" by simp
    then show ?thesis by (simp add: div_mult2_eq [symmetric])
  qed
  then show ?thesis by (simp add: nblk_def BLOCK_SIZE_def)
qed

lemma write_entry:
  assumes at: "at V H D L c" and w: "dir_writable use sb V H D L ip ctx" and d: "dirent_ok d"
    and j: "j \<le> length (dir_entries V (entry ip))" "j * DIRENT_SIZE < INODE_NUM_DIRECT * BLOCK_SIZE \<or> j < length (dir_entries V (entry ip))"
  shows "\<exists>ctx' ip' c' V' L'. inode_write dev bc sb (Some ctx) ip (dirent_bytes d) (j * DIRENT_SIZE) c =
      Ret (DIRENT_SIZE, Some ctx', ip', c') \<and> at V' H D L' c' \<and> dir_ok use V' (entry ip') H D \<and>
    dir_entries V' (entry ip') = put_dirent j d (dir_entries V (entry ip)) \<and>
    (\<forall>m. m \<notin> bitmap_area sb \<and> m \<notin> own V (entry ip) \<and> m \<noteq> to_block_no sb (inode_no ip) \<and>
      (m < alloc_limit sb \<longrightarrow> in_use sb V m) \<longrightarrow> V' m = V m)"
proof -
  let ?e = "entry ip" and ?b = "to_block_no sb (inode_no ip)" and ?o = "j * DIRENT_SIZE"
  have ld: "length (dirent_bytes d) = DIRENT_SIZE" by (rule length_dirent_bytes [OF d])
  have p: "dtype ?e = INODE_DIRECTORY" "DIRENT_SIZE dvd num_bytes ?e" "no_holes V ?e" "dinode_ranges ?e" "ivalid ip"
    "file_ok use sb V ?e H D" "volume_ok use sb V H D" "0 < alloc_limit sb" "free_blocks sb V \<noteq> {}"
    "use ?b" "?b \<notin> H" "?b \<notin> D" "?b \<notin> own V ?e" "?b \<notin> bitmap_area sb" "in_use sb V ?b"
    "2 < rm ctx" "card L + 2 < LOG_MAX_SIZE"
    using w by (simp_all add: dir_writable_def Let_def)
  have dev: "dtype ?e \<noteq> INODE_DEVICE" using p(1) by (simp add: INODE_DIRECTORY_def INODE_DEVICE_def)
  have nb: "num_bytes ?e = length (dir_entries V ?e) * DIRENT_SIZE" using p(2) by simp
  have off: "?o \<le> num_bytes ?e" unfolding nb by (rule mult_le_mono1 [OF j(1)])
  have top: "?o + DIRENT_SIZE \<le> num_bytes ?e \<or> ?o + DIRENT_SIZE \<le> INODE_NUM_DIRECT * BLOCK_SIZE"
    using j(2) entry_fits [of j "num_bytes ?e"] by (auto simp: BLOCK_SIZE_def)
  have fits: "?o + length (dirent_bytes d) \<le> INODE_MAX_BYTES"
    using top p(3) unfolding ld by (auto simp: no_holes_def BLOCK_SIZE_def)
  have dir: "\<forall>k. ?o div BLOCK_SIZE \<le> k \<and> k * BLOCK_SIZE < ?o + length (dirent_bytes d) \<longrightarrow>
      k < INODE_NUM_DIRECT \<or> fmap V ?e k \<noteq> 0"
  proof (intro allI impI)
    fix k assume k: "?o div BLOCK_SIZE \<le> k \<and> k * BLOCK_SIZE < ?o + length (dirent_bytes d)"
    show "k < INODE_NUM_DIRECT \<or> fmap V ?e k \<noteq> 0"
    proof (cases "?o + DIRENT_SIZE \<le> num_bytes ?e")
      case True
      then have "k * BLOCK_SIZE < num_bytes ?e" using k ld by linarith
      then show ?thesis using p(3) unfolding no_holes_def by blast
    next
      case False
      then have "k * BLOCK_SIZE < INODE_NUM_DIRECT * BLOCK_SIZE" using k ld top by linarith
      then show ?thesis by simp
    qed
  qed
  have "0 < card (free_blocks sb V)" using p(9) by (simp add: card_gt_0_iff)
  then have q: "nblk ?o (length (dirent_bytes d)) \<le> card (free_blocks sb V)"
    "2 * nblk ?o (length (dirent_bytes d)) < rm ctx" "card L + 2 * nblk ?o (length (dirent_bytes d)) < LOG_MAX_SIZE"
    unfolding ld nblk_entry using p(16,17) by simp_all
  from inode_write_result [OF at p(6,7,8,3,4,5) dev off fits dir p(10-15) q, of dev, unfolded ld]
  obtain ctx' ip' c' V' L' where r: "inode_write dev bc sb (Some ctx) ip (dirent_bytes d) ?o c = Ret (DIRENT_SIZE, Some ctx', ip', c')"
    "at V' H D L' c'" "file_ok use sb V' (entry ip') H D" "no_holes V' (entry ip')" "dtype (entry ip') = dtype ?e"
    "num_bytes (entry ip') = max (num_bytes ?e) (?o + DIRENT_SIZE)" "file_bytes V' (entry ip') = take ?o (file_bytes V ?e) @ dirent_bytes d @ drop (?o + DIRENT_SIZE) (file_bytes V ?e)"
    "\<forall>m. m \<notin> bitmap_area sb \<and> m \<notin> own V ?e \<and> m \<noteq> ?b \<and> (m < alloc_limit sb \<longrightarrow> in_use sb V m) \<longrightarrow> V' m = V m" by blast
  have "dir_entries V' (entry ip') = put_dirent j d (dir_entries V ?e)"
    using entries_of_splice [OF d, of "file_bytes V ?e" j] p(2) j(1) r(7)
    by (simp only: dir_entries_def put_dirent_def length_file_bytes)
  moreover have "DIRENT_SIZE dvd num_bytes (entry ip')" unfolding r(6) using p(2) by (simp add: max_def)
  then have "dir_ok use V' (entry ip') H D"
    using file_ok_readable [OF r(3,4)] r(5) p(1) by (simp add: dir_ok_def)
  ultimately show ?thesis using r(1,2,8) by blast
qed

lemma inode_insert_result:
  fixes ip :: inode and V :: "nat \<Rightarrow> u8 list"
  defines "ds \<equiv> dir_entries V (entry ip)"
  assumes at: "at V H D L c" and w: "dir_writable use sb V H D L ip ctx" and nm: "FILE_NAME_MAX_LENGTH \<le> length name"
    and new: "\<forall>d \<in> set ds. \<not> matches name d"
    and slot: "slot_of ds * DIRENT_SIZE < INODE_NUM_DIRECT * BLOCK_SIZE \<or> slot_of ds < length ds"
  shows "\<exists>ctx' ip' c' V' L'. inode_insert dev bc sb (Some ctx) ip name no c = Ret (0, Some ctx', ip', c') \<and>
    at V' H D L' c' \<and> dir_ok use V' (entry ip') H D \<and>
    dir_entries V' (entry ip') =
      put_dirent (slot_of ds) \<lparr>d_inode_no = no mod 2 ^ 16, d_name = take FILE_NAME_MAX_LENGTH name\<rparr> ds"
proof -
  let ?d = "\<lparr>d_inode_no = no mod 2 ^ 16, d_name = take FILE_NAME_MAX_LENGTH name\<rparr>"
  note ok = dir_writable_ok [OF w]
  have none: "first_from (matches name) ds 0 = None" using new by (simp add: first_from_None)
  from inode_lookup_result [OF at ok nm, of dev] none obtain c1 where
    l: "inode_lookup dev bc (entry ip) name c = Ret (0, None, c1)" "at V H D L c1" by (auto simp: ds_def)
  have le: "slot_of ds \<le> length ds"
    by (auto simp: slot_of_def first_from_Some split: option.splits)
  from free_slot_result [OF l(2) ok, of dev 0] obtain c2 where
    f: "free_slot dev bc (entry ip) 0 c1 = Ret (slot_of ds * DIRENT_SIZE, c2)" "at V H D L c2"
    by (auto simp: slot_of_def ds_def)
  have d: "dirent_ok ?d" using nm by (simp add: dirent_ok_def)
  have dt: "dtype (entry ip) = INODE_DIRECTORY" using ok by (simp add: dir_ok_def)
  from write_entry [OF f(2) w d le [unfolded ds_def] slot [unfolded ds_def], of dev]
  obtain ctx' ip' c' V' L' where r: "inode_write dev bc sb (Some ctx) ip (dirent_bytes ?d) (slot_of ds * DIRENT_SIZE) c2 =
      Ret (DIRENT_SIZE, Some ctx', ip', c')" "at V' H D L' c'" "dir_ok use V' (entry ip') H D"
    "dir_entries V' (entry ip') = put_dirent (slot_of ds) ?d ds" unfolding ds_def by blast
  have "inode_insert dev bc sb (Some ctx) ip name no c = Ret (0, Some ctx', ip', c')"
    using l(1) f(1) dt r(1) by (simp add: inode_insert_def)
  then show ?thesis using r(2-4) by blast
qed

lemma inode_insert_taken:
  assumes at: "at V H D L c" and ok: "dir_ok use V (entry ip) H D" and nm: "FILE_NAME_MAX_LENGTH \<le> length name"
    and old: "\<exists>d \<in> set (dir_entries V (entry ip)). matches name d"
  shows "\<exists>c'. inode_insert dev bc sb (Some ctx) ip name no c = Ret (usize_minus_one, Some ctx, ip, c') \<and> at V H D L c'"
proof -
  from old obtain i where i: "first_from (matches name) (dir_entries V (entry ip)) 0 = Some i"
    using first_from_None by (metis not_None_eq)
  then have "d_inode_no (dir_entries V (entry ip) ! i) \<noteq> 0" by (simp add: first_from_Some matches_def)
  then show ?thesis using inode_lookup_result [OF at ok nm, of dev] i ok
    by (auto simp: inode_insert_def dir_ok_def)
qed

lemma inode_remove_result:
  assumes at: "at V H D L c" and w: "dir_writable use sb V H D L ip ctx" and j: "j < length (dir_entries V (entry ip))"
  shows "\<exists>ctx' ip' c' V' L'. inode_remove dev bc sb (Some ctx) ip (j * DIRENT_SIZE) c = Ret (Some ctx', ip', c') \<and>
    at V' H D L' c' \<and> dir_ok use V' (entry ip') H D \<and>
    dir_entries V' (entry ip') =
      (dir_entries V (entry ip))[j := \<lparr>d_inode_no = 0, d_name = replicate FILE_NAME_MAX_LENGTH 0\<rparr>]"
proof -
  let ?d = "\<lparr>d_inode_no = 0, d_name = replicate FILE_NAME_MAX_LENGTH 0\<rparr>"
  have d: "dirent_ok ?d" and z: "dirent_bytes ?d = replicate DIRENT_SIZE 0"
    by (simp_all add: dirent_ok_def dirent_bytes_def zero_le_bytes flip: replicate_add)
  have "j * DIRENT_SIZE < num_bytes (entry ip)" using entry_fits [of j "num_bytes (entry ip)"] j by simp
  moreover from write_entry [OF at w d less_imp_le [OF j], of dev] j obtain ctx' ip' c' V' L' where
    r: "inode_write dev bc sb (Some ctx) ip (dirent_bytes ?d) (j * DIRENT_SIZE) c = Ret (DIRENT_SIZE, Some ctx', ip', c')"
    "at V' H D L' c'" "dir_ok use V' (entry ip') H D"
    "dir_entries V' (entry ip') = put_dirent j ?d (dir_entries V (entry ip))" by blast
  ultimately have "inode_remove dev bc sb (Some ctx) ip (j * DIRENT_SIZE) c = Ret (Some ctx', ip', c')"
    by (simp only: inode_remove_def z) simp
  moreover have "put_dirent j ?d (dir_entries V (entry ip)) = (dir_entries V (entry ip))[j := ?d]"
    using j by (simp only: put_dirent_def if_True)
  ultimately show ?thesis using r(2-4) by metis
qed

end

text \<open>Insertion and look-up on the list.\<close>

lemma first_from_put:
  assumes "\<forall>x \<in> set ds. \<not> P x" and "P d" and "j \<le> length ds"
  shows "first_from P (put_dirent j d ds) 0 = Some j" "put_dirent j d ds ! j = d"
  using assms by (auto simp: first_from_Some put_dirent_def nth_append)

lemma slot_of_le: "slot_of ds \<le> length ds"
  by (auto simp: slot_of_def first_from_Some split: option.splits)

end
