(* ===== verification/Inode_Props.thy ===== *)
theory Inode_Props
  imports Inode_Dir Cache_Props
begin

text \<open>
  Properties of files and directories on the block cache in front of the SD card, and where
  the inode layer goes wrong.
\<close>

abbreviation sd_ops :: "nat \<Rightarrow> bool \<Rightarrow> super_block \<Rightarrow> card bcache block_cache" where
  "sd_ops sb_base hc sb \<equiv> bcache_ops (sd_device sb_base hc) sb"

text \<open>Inodes to try the properties on: an empty one, and one with a block.\<close>

definition demo_inode :: "nat \<Rightarrow> inode" where
  "demo_inode ty = \<lparr>ilock = init_sem 1, irc = 1, inode_no = 5, ivalid = True, entry = empty_dinode\<lparr>dtype := ty\<rparr>\<rparr>"

definition demo_dinode :: dinode where
  "demo_dinode = empty_dinode\<lparr>dtype := INODE_REGULAR, num_bytes := 4, addrs := 90 # replicate 11 0\<rparr>"

definition no_devices :: "card bcache dev_ops" where
  "no_devices = \<lparr>console_in = (\<lambda>n c. Ret ([], c)), console_out = (\<lambda>x c. Ret (length x, c))\<rparr>"

lemma fmap_empty: "fmap V (empty_dinode\<lparr>dtype := ty\<rparr>) k = 0"
  by (simp add: fmap_def empty_dinode_def)

lemma own_empty: "own V (empty_dinode\<lparr>dtype := ty\<rparr>) = {}"
  by (auto simp: own_def fmap_empty) (simp add: empty_dinode_def)

lemma demo_simps [simp]:
  "entry (demo_inode ty) = empty_dinode\<lparr>dtype := ty\<rparr>" "inode_no (demo_inode ty) = 5" "ivalid (demo_inode ty)"
  "to_block_no demo_sb 5 = 66" "num_bytes empty_dinode = 0"
  "num_bytes demo_dinode = 4" "dtype demo_dinode = INODE_REGULAR" "indirect demo_dinode = 0"
  by (simp_all add: demo_inode_def to_block_no_def demo_sb_def empty_dinode_def demo_dinode_def)

lemma demo_volume: "volume_ok (sd_usable 0 True demo_sb) demo_sb demo_view {} {}"
  using demo_alloc_state demo_in_use [of 0] by (simp add: volume_ok_def)

lemma demo_file_ok: "file_ok (sd_usable 0 True demo_sb) demo_sb V (empty_dinode\<lparr>dtype := ty\<rparr>) {} {}"
  by (simp add: file_ok_def own_empty fmap_empty) (simp add: empty_dinode_def)

lemma demo_free: "free_blocks demo_sb demo_view = {100..<1000}"
  using demo_in_use by (auto simp: free_blocks_def demo_alloc_state(3))

lemma demo_area: "bitmap_area demo_sb = {80}"
  by (auto simp: bitmap_area_def num_bitmap_blocks_def demo_sb_def)

section \<open>Files\<close>

text \<open>
  C5: \<^verbatim>\<open>inode_read\<close> returns the bytes of the file from the offset on, as many as asked for and
  as there are, and changes nothing: not the contents of any block, not what is held or
  logged. The file is one whose blocks are all there and not in anybody's hands.
\<close>

theorem inode_read_correct:
  assumes "sd_at sb_base hc sb V H D L c" and "readable (sd_usable sb_base hc sb) V e H D"
    and "dtype e \<noteq> INODE_DEVICE" and "offset < 2 ^ 63" and "len < 2 ^ 63"
  shows "\<exists>c'. inode_read dev (sd_ops sb_base hc sb) e offset len c =
      Ret (take len (drop offset (file_bytes V e)), c') \<and> sd_at sb_base hc sb V H D L c'"
  using assms by (rule sd_cache.inode_read_result)

theorem inode_read_correct_witness:
  "\<exists>c c'. inode_read no_devices (sd_ops 0 True demo_sb) demo_dinode 1 100 c = Ret ([0, 0, 0], c')"
proof -
  from demo_alloc_state obtain c where at: "sd_at 0 True demo_sb demo_view {} {} {80} c" by blast
  have f: "fmap demo_view demo_dinode k = (if k = 0 then 90 else 0)" for k
    by (auto simp: fmap_def demo_dinode_def empty_dinode_def nth_Cons split: nat.splits)
  have "readable (sd_usable 0 True demo_sb) demo_view demo_dinode {} {}"
    using demo_usable [of 90] by (auto simp: readable_def f BLOCK_SIZE_def)
  from inode_read_correct [OF at this, of 1 100 no_devices]
  have "\<exists>c'. inode_read no_devices (sd_ops 0 True demo_sb) demo_dinode 1 100 c =
      Ret (take 100 (drop 1 (file_bytes demo_view demo_dinode)), c')"
    by (auto simp: INODE_REGULAR_def INODE_DEVICE_def)
  moreover have "file_bytes demo_view demo_dinode = [0, 0, 0, 0]"
  proof -
    have "demo_view 90 = replicate 512 0" by (simp add: demo_view_def blank_block_def BLOCK_SIZE_def)
    then show ?thesis by (simp add: file_bytes_def fbyte_def f BLOCK_SIZE_def upt_rec)
  qed
  ultimately show ?thesis by auto
qed

text \<open>
  C2: \<^verbatim>\<open>inode_write\<close> puts exactly the given bytes at the offset: the file then has its old bytes
  with the new ones in their place, and is longer if the write reaches past the end. New
  blocks come out of the free ones, the inode on disk is updated if the size grew, and no
  block in use by anything else changes. The write may start anywhere up to the end of the
  file; new blocks must be among the direct ones.
\<close>

theorem inode_write_correct:
  assumes "sd_at sb_base hc sb V H D L c"
    and "file_ok (sd_usable sb_base hc sb) sb V (entry ip) H D"
    and "volume_ok (sd_usable sb_base hc sb) sb V H D" and "0 < alloc_limit sb"
    and "no_holes V (entry ip)" and "dinode_ranges (entry ip)" and "ivalid ip"
    and "dtype (entry ip) \<noteq> INODE_DEVICE"
    and "offset \<le> num_bytes (entry ip)" and "offset + length src \<le> INODE_MAX_BYTES"
    and "\<forall>k. offset div BLOCK_SIZE \<le> k \<and> k * BLOCK_SIZE < offset + length src \<longrightarrow>
      k < INODE_NUM_DIRECT \<or> fmap V (entry ip) k \<noteq> 0"
    and "sd_usable sb_base hc sb (to_block_no sb (inode_no ip))"
    and "to_block_no sb (inode_no ip) \<notin> H" and "to_block_no sb (inode_no ip) \<notin> D"
    and "to_block_no sb (inode_no ip) \<notin> own V (entry ip)" and "to_block_no sb (inode_no ip) \<notin> bitmap_area sb"
    and "in_use sb V (to_block_no sb (inode_no ip))"
    and "nblk offset (length src) \<le> card (free_blocks sb V)" and "2 * nblk offset (length src) < rm ctx"
    and "card L + 2 * nblk offset (length src) < LOG_MAX_SIZE"
  shows "\<exists>ctx' ip' c' V' L'.
    inode_write dev (sd_ops sb_base hc sb) sb (Some ctx) ip src offset c = Ret (length src, Some ctx', ip', c') \<and>
    sd_at sb_base hc sb V' H D L' c' \<and> file_ok (sd_usable sb_base hc sb) sb V' (entry ip') H D \<and>
    file_bytes V' (entry ip') =
      take offset (file_bytes V (entry ip)) @ src @ drop (offset + length src) (file_bytes V (entry ip)) \<and>
    (num_bytes (entry ip) < offset + length src \<longrightarrow>
      get_entry (V' (to_block_no sb (inode_no ip))) (inode_no ip) = entry ip') \<and>
    (\<forall>m. m \<notin> bitmap_area sb \<and> m \<notin> own V (entry ip) \<and> m \<noteq> to_block_no sb (inode_no ip) \<and>
      (m < alloc_limit sb \<longrightarrow> in_use sb V m) \<longrightarrow> V' m = V m)"
  using sd_cache.inode_write_result [OF assms, of dev] by blast

theorem inode_write_correct_witness:
  "\<exists>c ctx' ip' c' V'. inode_write no_devices (sd_ops 0 True demo_sb) demo_sb (Some \<lparr>rm = 40, ts = 0\<rparr>)
      (demo_inode INODE_REGULAR) [1, 2, 3] 0 c = Ret (3, Some ctx', ip', c') \<and>
    file_bytes V' (entry ip') = [1, 2, 3]"
proof -
  from demo_alloc_state obtain c where at: "sd_at 0 True demo_sb demo_view {} {} {80} c" by blast
  let ?ip = "demo_inode INODE_REGULAR"
  have n: "nblk 0 (length [1, 2, 3 :: u8]) = 1" by (simp add: nblk_def BLOCK_SIZE_def)
  have dir: "k < INODE_NUM_DIRECT" if "k * BLOCK_SIZE < 0 + length [1, 2, 3 :: u8]" for k
    using that by (simp add: BLOCK_SIZE_def)
  have "\<exists>ctx' ip' c' V' L'.
    inode_write no_devices (sd_ops 0 True demo_sb) demo_sb (Some \<lparr>rm = 40, ts = 0\<rparr>) ?ip [1, 2, 3] 0 c =
      Ret (length [1, 2, 3 :: u8], Some ctx', ip', c') \<and>
    sd_at 0 True demo_sb V' {} {} L' c' \<and> file_ok (sd_usable 0 True demo_sb) demo_sb V' (entry ip') {} {} \<and>
    file_bytes V' (entry ip') = take 0 (file_bytes demo_view (entry ?ip)) @ [1, 2, 3] @
      drop (0 + length [1, 2, 3 :: u8]) (file_bytes demo_view (entry ?ip)) \<and>
    (num_bytes (entry ?ip) < 0 + length [1, 2, 3 :: u8] \<longrightarrow>
      get_entry (V' (to_block_no demo_sb (inode_no ?ip))) (inode_no ?ip) = entry ip') \<and>
    (\<forall>m. m \<notin> bitmap_area demo_sb \<and> m \<notin> own demo_view (entry ?ip) \<and> m \<noteq> to_block_no demo_sb (inode_no ?ip) \<and>
      (m < alloc_limit demo_sb \<longrightarrow> in_use demo_sb demo_view m) \<longrightarrow> V' m = demo_view m)"
    by (rule inode_write_correct [OF at])
      (use demo_file_ok demo_volume demo_usable [of 66] demo_in_use [of 66] dir in
       \<open>simp_all only: n, simp_all add: own_empty demo_area demo_free demo_alloc_state(3) empty_dinode_ranges
          INODE_REGULAR_def INODE_DEVICE_def no_holes_def\<close>)
  moreover have "file_bytes demo_view (entry ?ip) = []" by (simp add: file_bytes_def)
  ultimately show ?thesis by (auto simp: numeral_3_eq_3)
qed

section \<open>Directories\<close>

text \<open>
  C7: inserting a name that the directory does not have and looking it up again gives the
  inode number inserted. The new entry takes the first free place, or the end; the other
  entries stay as they are; a second insertion of the name is refused with \<^verbatim>\<open>-1\<close> and
  changes nothing.
\<close>

theorem inode_insert_lookup:
  assumes "sd_at sb_base hc sb V H D L c" and "dir_writable (sd_usable sb_base hc sb) sb V H D L ip ctx"
    and "FILE_NAME_MAX_LENGTH \<le> length name" and "0 < no" and "no < 2 ^ 16"
    and "\<forall>d \<in> set (dir_entries V (entry ip)). \<not> matches name d"
    and "slot_of (dir_entries V (entry ip)) * DIRENT_SIZE < INODE_NUM_DIRECT * BLOCK_SIZE \<or>
      slot_of (dir_entries V (entry ip)) < length (dir_entries V (entry ip))"
  shows "\<exists>ctx' ip' c1 V' L' c2 c3.
    inode_insert dev (sd_ops sb_base hc sb) sb (Some ctx) ip name no c = Ret (0, Some ctx', ip', c1) \<and>
    sd_at sb_base hc sb V' H D L' c1 \<and>
    dir_entries V' (entry ip') = put_dirent (slot_of (dir_entries V (entry ip)))
      \<lparr>d_inode_no = no, d_name = take FILE_NAME_MAX_LENGTH name\<rparr> (dir_entries V (entry ip)) \<and>
    inode_lookup dev (sd_ops sb_base hc sb) (entry ip') name c1 =
      Ret (no, Some (slot_of (dir_entries V (entry ip)) * DIRENT_SIZE), c2) \<and> sd_at sb_base hc sb V' H D L' c2 \<and>
    inode_insert dev (sd_ops sb_base hc sb) sb (Some ctx') ip' name no' c2 = Ret (usize_minus_one, Some ctx', ip', c3)"
proof -
  let ?ds = "dir_entries V (entry ip)" and ?d = "\<lparr>d_inode_no = no, d_name = take FILE_NAME_MAX_LENGTH name\<rparr>"
  have no: "no mod 2 ^ 16 = no" using assms(5) by simp
  from sd_cache.inode_insert_result [OF assms(1-3,6,7), of dev no, unfolded no] obtain ctx' ip' c1 V' L' where
    ins: "inode_insert dev (sd_ops sb_base hc sb) sb (Some ctx) ip name no c = Ret (0, Some ctx', ip', c1)"
    and at1: "sd_at sb_base hc sb V' H D L' c1" and ok: "dir_ok (sd_usable sb_base hc sb) V' (entry ip') H D"
    and ds: "dir_entries V' (entry ip') = put_dirent (slot_of ?ds) ?d ?ds" by blast
  have m: "matches name ?d" using assms(4) by (simp add: matches_def cname_def)
  note put = first_from_put [where P = "matches name", OF assms(6) m slot_of_le]
  from sd_cache.inode_lookup_result [OF at1 ok assms(3), of dev, unfolded ds put option.case dirent.select_convs] obtain c2 where
    lk: "inode_lookup dev (sd_ops sb_base hc sb) (entry ip') name c1 = Ret (no, Some (slot_of ?ds * DIRENT_SIZE), c2)"
    and at2: "sd_at sb_base hc sb V' H D L' c2" by blast
  have "\<exists>d \<in> set (dir_entries V' (entry ip')). matches name d"
    unfolding ds using put(1) first_from_None [of "matches name"] by (metis not_None_eq)
  from sd_cache.inode_insert_taken [OF at2 ok assms(3) this, of dev ctx' no'] obtain c3 where
    "inode_insert dev (sd_ops sb_base hc sb) sb (Some ctx') ip' name no' c2 = Ret (usize_minus_one, Some ctx', ip', c3)"
    by blast
  with ins at1 ds lk at2 show ?thesis by blast
qed

theorem inode_insert_lookup_witness:
  "\<exists>c c1 c2 ctx' ip'. inode_insert no_devices (sd_ops 0 True demo_sb) demo_sb (Some \<lparr>rm = 40, ts = 0\<rparr>)
      (demo_inode INODE_DIRECTORY) (replicate 14 97) 7 c = Ret (0, Some ctx', ip', c1) \<and>
    inode_lookup no_devices (sd_ops 0 True demo_sb) (entry ip') (replicate 14 97) c1 = Ret (7, Some 0, c2)"
proof -
  from demo_alloc_state obtain c where at: "sd_at 0 True demo_sb demo_view {} {} {80} c" by blast
  let ?ip = "demo_inode INODE_DIRECTORY"
  have none: "dir_entries demo_view (entry ?ip) = []" by (simp add: dir_entries_def entries_of_def file_bytes_def)
  have ty: "dtype (entry ?ip) = INODE_DIRECTORY" by simp
  have "dir_writable (sd_usable 0 True demo_sb) demo_sb demo_view {} {} {80} ?ip \<lparr>rm = 40, ts = 0\<rparr>"
    using demo_file_ok demo_volume demo_usable [of 66] demo_in_use [of 66]
    by (simp add: dir_writable_def own_empty demo_area demo_free demo_alloc_state(3) empty_dinode_ranges
        INODE_DIRECTORY_def no_holes_def)
  note r = inode_insert_lookup [OF at this, of "replicate 14 97" 7 no_devices 0]
  have "slot_of [] = 0" by (simp add: slot_of_def)
  with r none show ?thesis by (force simp: BLOCK_SIZE_def)
qed

section \<open>Growing into the indirect block\<close>

lemma put_log_cong:
  "(\<And>n. n \<in> set ns \<Longrightarrow> f n = g n) \<Longrightarrow> put_log store base f i ns d = put_log store base g i ns d"
  by (induction ns arbitrary: i d) simp_all

context block_dev
begin

text \<open>A commit ignores what was written to blocks outside the log.\<close>

lemma commit_unlogged:
  assumes inv: "cache_inv content on_device well sb c" and free: "set (logged (header c)) \<inter> held c = {}"
    and n: "n \<notin> set (logged (header c))" and set: "set_data n x c = Ret c1" and last: "contributors_cnt c1 = 1"
  shows "\<exists>c2. cache_end_op dv sb p c1 = Ret (True, c2) \<and>
    (\<forall>m. usable on_device sb m \<longrightarrow> content (dev_st c2) m =
      (if m \<in> set (logged (header c)) then view content c m else content (dev_st c) m))"
proof -
  note I = cache_invD [OF inv] and S = commit_setup [OF inv free]
  let ?bs = "upd_block n (\<lambda>b. b\<lparr>data := x\<rparr>) (blocks c)"
  have c1: "c1 = c\<lparr>blocks := ?bs\<rparr>" using set by (auto simp: set_data_def with_block_def split: option.splits)
  have wf: "wf_blocks ?bs" using I(1) by (simp add: wf_upd)
  have bm: "bmap ?bs m = bmap (blocks c) m" if "m \<noteq> n" for m using that by (simp add: bmap_upd)
  have same: "block_data ?bs m = block_data (blocks c) m" "ready ?bs m = ready (blocks c) m"
    if "m \<in> set (logged (header c))" for m
  proof -
    have "m \<noteq> n" using that n by blast
    then show "block_data ?bs m = block_data (blocks c) m" "ready ?bs m = ready (blocks c) m"
      using bm by (simp_all add: block_data_def ready_def)
  qed
  have log: "put_log store (log_start sb) (block_data ?bs) 0 (logged (header c)) (dev_st c) =
      put_log store (log_start sb) (block_data (blocks c)) 0 (logged (header c)) (dev_st c)"
    by (rule put_log_cong) (rule same(1))
  have dist: "distinct (logged (header c))" using I(3) by (simp add: loggable_def)
  have rdy: "\<forall>m \<in> set (logged (header c)). ready ?bs m" using S(1) same(2) by blast
  have "\<exists>c2. cache_end_op dv sb p c1 = Ret (True, c2) \<and>
      dev_st c2 = commit store content (log_start sb) (header c1) (block_data (blocks c1)) (dev_st c1)"
    using end_op_result [OF last, of sb p] wf I(2,4-6) dist rdy S(4) log by (auto simp: c1)
  then obtain c2 where run: "cache_end_op dv sb p c1 = Ret (True, c2)"
    and dev: "dev_st c2 = commit store content (log_start sb) (header c) (block_data (blocks c)) (dev_st c)"
    by (auto simp: c1 commit_def log)
  have "content (dev_st c2) m = (if m \<in> set (logged (header c)) then view content c m else content (dev_st c) m)"
    if "usable on_device sb m" for m
    using commit_content [OF I(6,4,2,3) S(2)] S(3) that dev by (auto simp: usable_def)
  with run show ?thesis by blast
qed

end

text \<open>
  C40: the first write that reaches a new block behind the direct ones is lost. \<^verbatim>\<open>inode_map\<close>
  allocates the block and writes its number into the indirect block, but through a pointer
  to a block it has released already and without logging the change. Either the indirect
  block has been evicted in the meantime (the pointer dangles, \<open>Undef\<close>), or the cache shows
  the new number and the commit of the operation leaves the card without it: after the
  commit the slot on the card is still 0 while the block stays allocated.
\<close>

theorem inode_map_loses_slot:
  assumes "sd_at sb_base hc sb V {} {} L c" and "alloc_ready (sd_usable sb_base hc sb) sb V {} {}"
    and "\<exists>n < alloc_limit sb. \<not> in_use sb V n" and "2 \<le> rm ctx" and "card L + 2 \<le> LOG_MAX_SIZE"
    and "in_use sb V 0" and "alloc_limit sb \<le> 2 ^ 32"
    and "INODE_NUM_DIRECT \<le> k" and "k < INODE_MAX_BLOCKS" and "indirect e \<noteq> 0"
    and "sd_usable sb_base hc sb (indirect e)" and "indirect e \<notin> L" and "indirect e \<notin> bitmap_area sb"
    and "indirect e < alloc_limit sb" and "in_use sb V (indirect e)" and "fmap V e k = 0"
  shows "inode_map (sd_ops sb_base hc sb) (Some ctx) e k md c = Undef \<or>
    (\<exists>n ctx' c'. inode_map (sd_ops sb_base hc sb) (Some ctx) e k md c = Ret (n, Some ctx', e, True, c') \<and>
      n \<noteq> 0 \<and> get_addr (sd_view sb_base hc c' (indirect e)) (k - INODE_NUM_DIRECT) = n \<and>
      (contributors_cnt c' = 1 \<longrightarrow>
        (\<exists>c''. cache_end_op (sd_device sb_base hc) sb p c' = Ret (True, c'') \<and>
          get_addr (sd_content sb_base hc (dev_st c'') (indirect e)) (k - INODE_NUM_DIRECT) = 0)))"
proof -
  let ?ib = "indirect e" and ?idx = "k - INODE_NUM_DIRECT" and ?bc = "sd_ops sb_base hc sb"
  have slot0: "get_addr (V ?ib) ?idx = 0" using assms(8,10,16) by (simp add: fmap_def)
  from sd_cache.read_block [OF assms(1,11)] obtain c1 c2 where rd: "bc_acquire ?bc ?ib c = Ret c1"
    "bc_get ?bc ?ib c1 = Ret (V ?ib)" "bc_release ?bc ?ib c1 = Ret c2" and at2: "sd_at sb_base hc sb V {} {} L c2" by blast
  from sd_cache.alloc_law [OF at2 assms(2-5)] obtain n ctx3 c3 V3 where al: "bc_alloc ?bc ctx c2 = Ret (n, ctx3, c3)"
    and n: "n < alloc_limit sb" "\<not> in_use sb V n"
    and at3: "sd_at sb_base hc sb V3 {} {} (insert (bitmap_start sb + n div (BLOCK_SIZE * 8)) (insert n L)) c3"
    and oth: "\<forall>m. m \<noteq> n \<longrightarrow> m \<notin> bitmap_area sb \<longrightarrow> V3 m = V m" by blast
  have ne: "?ib \<noteq> n" "n \<noteq> 0" using assms(6,15) n(2) by metis+
  have V3: "V3 ?ib = V ?ib" using oth ne(1) assms(13) by blast
  let ?L3 = "insert (bitmap_start sb + n div (BLOCK_SIZE * 8)) (insert n L)"
  have inv3: "sd_inv sb_base hc sb c3" and L3: "set (logged (header c3)) = ?L3" and H3: "held c3 = {}"
    and v3: "sd_view sb_base hc c3 ?ib = V ?ib" using at3 V3 assms(11) by (simp_all add: cache_at_def)
  have ib: "?ib \<notin> set (logged (header c3))"
    unfolding L3 using assms(12,13) ne(1) bitmap_block_in_area [OF n(1)] by auto
  have step: "inode_map ?bc (Some ctx) e k md c =
      andthen (bc_get ?bc ?ib c3) (\<lambda>y. andthen (bc_put ?bc ?ib (put_addr y ?idx n) c3) (\<lambda>c4. Ret (n, Some ctx3, e, True, c4)))"
    using rd al slot0 assms(8-10) by (simp add: inode_map_def map_indirect_def Let_def)
  show ?thesis
  proof (cases "bmap (blocks c3) ?ib")
    case None
    then show ?thesis unfolding step by (simp add: bcache_ops_def get_data_def with_block_def bmap_def)
  next
    case (Some b)
    have wf: "wf_blocks (blocks c3)" by (rule cache_invD(1) [OF inv3])
    have b: "data b = V ?ib" using v3 Some by (simp add: view_def)
    have len: "length (V ?ib) = BLOCK_SIZE" by (rule sd_cache.size_law [OF at2 assms(11)])
    have dev: "sd_content sb_base hc (dev_st c3) ?ib = V ?ib"
      using cache_invD(8) [OF inv3 Some] ib H3 Some b by (auto simp: block_ok_def held_def)
    let ?x = "put_addr (V ?ib) ?idx n"
    obtain c4 where c4: "set_data ?ib ?x c3 = Ret c4" "c4 = c3\<lparr>blocks := upd_block ?ib (\<lambda>b. b\<lparr>data := ?x\<rparr>) (blocks c3)\<rparr>"
      using Some by (simp add: set_data_def with_block_def bmap_def)
    have run: "inode_map ?bc (Some ctx) e k md c = Ret (n, Some ctx3, e, True, c4)"
      unfolding step using Some b c4 by (simp add: bcache_ops_def get_data_def with_block_def bmap_def)
    have fit: "4 * ?idx + 4 \<le> BLOCK_SIZE" using assms(9) by (simp add: BLOCK_SIZE_def)
    have "sd_view sb_base hc c4 ?ib = ?x" using Some wf by (simp add: c4(2) view_def bmap_upd)
    moreover have "get_addr ?x ?idx = n"
      using get_put_le [of "4 * ?idx" 4 "V ?ib" n] fit len n(1) assms(7) by (simp add: get_addr_def put_addr_def)
    moreover have "\<exists>c''. cache_end_op (sd_device sb_base hc) sb p c4 = Ret (True, c'') \<and>
        get_addr (sd_content sb_base hc (dev_st c'') ?ib) ?idx = 0" if last: "contributors_cnt c4 = 1"
      using sd.commit_unlogged [OF inv3 _ ib c4(1) last, of p] H3 assms(11) ib dev slot0 by auto
    ultimately have "inode_map ?bc (Some ctx) e k md c = Ret (n, Some ctx3, e, True, c4) \<and> n \<noteq> 0 \<and>
        get_addr (sd_view sb_base hc c4 ?ib) ?idx = n \<and>
        (contributors_cnt c4 = 1 \<longrightarrow> (\<exists>c''. cache_end_op (sd_device sb_base hc) sb p c4 = Ret (True, c'') \<and>
          get_addr (sd_content sb_base hc (dev_st c'') ?ib) ?idx = 0))"
      using run ne(2) by metis
    then show ?thesis by blast
  qed
qed

theorem inode_map_loses_slot_witness:
  "\<exists>c. inode_map (sd_ops 0 True demo_sb) (Some \<lparr>rm = 40, ts = 0\<rparr>) (empty_dinode\<lparr>indirect := 90\<rparr>) 12 False c = Undef \<or>
    (\<exists>n ctx' c'. inode_map (sd_ops 0 True demo_sb) (Some \<lparr>rm = 40, ts = 0\<rparr>) (empty_dinode\<lparr>indirect := 90\<rparr>) 12 False c =
        Ret (n, Some ctx', empty_dinode\<lparr>indirect := 90\<rparr>, True, c') \<and> n \<noteq> 0 \<and> get_addr (sd_view 0 True c' 90) 0 = n)"
proof -
  from demo_alloc_state obtain c where at: "sd_at 0 True demo_sb demo_view {} {} {80} c" by blast
  let ?e = "empty_dinode\<lparr>indirect := 90\<rparr>"
  have "demo_view 90 = blank_block" by (simp add: demo_view_def)
  then have z: "fmap demo_view ?e 12 = 0"
    using get_le_blank [of 0 4] by (simp add: fmap_def get_addr_def BLOCK_SIZE_def)
  have free: "\<exists>n < alloc_limit demo_sb. \<not> in_use demo_sb demo_view n"
    using demo_in_use [of 100] demo_alloc_state(3) by (intro exI [of _ 100]) simp
  from inode_map_loses_slot [OF at demo_alloc_state(2) free, of "\<lparr>rm = 40, ts = 0\<rparr>" 12 ?e False 7]
  show ?thesis
    using z demo_in_use [of 0] demo_in_use [of 90] demo_usable [of 90]
    by (intro exI [of _ c]) (auto simp: demo_alloc_state(3) demo_area)
qed

section \<open>Inodes in memory\<close>

text \<open>
  An inode that still has links is never released from memory. When the last reference
  to it is dropped, \<^verbatim>\<open>inode_put\<close> only decrements the count: the object stays in the list of
  cached inodes with count 0. \<^verbatim>\<open>inode_get\<close> reuses only objects with a positive count, so the
  next use of the same inode makes another object and the old one remains for ever.
\<close>

theorem inode_put_leaks:
  assumes "irc (icells s p) = 1" and "0 < num_links (entry (icells s p))" and "p \<in> set (cached s)"
    and "p \<noteq> fresh s" and "0 < inode_no (icells s p)" and "inode_no (icells s p) < num_inodes sb"
    and "\<forall>q \<in> set (cached s). q \<noteq> p \<longrightarrow> inode_no (icells s q) \<noteq> inode_no (icells s p)"
  shows "\<exists>s1. inode_put bc sb th octx p s = Ret (octx, s1) \<and> p \<in> set (cached s1) \<and> irc (icells s1 p) = 0 \<and>
    (\<forall>q s2. inode_get bc sb th' (inode_no (icells s p)) s1 = Ret (q, s2) \<longrightarrow>
      q \<noteq> p \<and> p \<in> set (cached s2) \<and> irc (icells s2 p) = 0 \<and> cached s2 = cached s1 @ [q])"
proof -
  define s1 where "s1 = upd_inode p (\<lambda>ip. snd (decrement_rc ip)) s"
  have put: "inode_put bc sb th octx p s = Ret (octx, s1)" using assms(2) by (simp add: inode_put_def s1_def)
  have c1: "cached s1 = cached s" "fresh s1 = fresh s" "icells s1 p = (icells s p)\<lparr>irc := 0\<rparr>"
    "q \<noteq> p \<Longrightarrow> icells s1 q = icells s q" for q
    using assms(1) by (simp_all add: s1_def upd_inode_def decrement_rc_def)
  have none: "find (\<lambda>q. inode_no (icells s1 q) = inode_no (icells s p) \<and> 0 < irc (icells s1 q) \<and> ivalid (icells s1 q))
      (rotate1 (cached s1)) = None"
    unfolding find_None_iff using assms(7) c1 by (metis inode.select_convs(2) inode.surjective inode.update_convs(2) less_irrefl set_rotate1)
  have "q \<noteq> p \<and> p \<in> set (cached s2) \<and> irc (icells s2 p) = 0 \<and> cached s2 = cached s1 @ [q]"
    if "inode_get bc sb th' (inode_no (icells s p)) s1 = Ret (q, s2)" for q s2
    using that none assms(3-6) c1
    by (auto simp: inode_get_def Let_def andthen_eq_Ret inode_lock_def inode_unlock_def sync_at_def upd_inode_def
        split: if_splits prod.splits)
  then show ?thesis using put c1 assms(3) by auto
qed

theorem inode_put_leaks_witness:
  "\<exists>s s1 :: card bcache fs. cached s = [3] \<and> inode_put (sd_ops 0 True demo_sb) demo_sb 0 None 3 s = Ret (None, s1) \<and>
    3 \<in> set (cached s1) \<and> irc (icells s1 3) = 0"
proof -
  let ?ip = "(demo_inode INODE_REGULAR)\<lparr>entry := empty_dinode\<lparr>num_links := 1\<rparr>\<rparr>"
  let ?s = "\<lparr>icells = (\<lambda>_. ?ip), cached = [3], fresh = 4, world = undefined\<rparr> :: card bcache fs"
  have "irc ?ip = 1" "num_inodes demo_sb = 200" by (simp_all add: demo_inode_def demo_sb_def)
  then show ?thesis
    using inode_put_leaks [of ?s 3 demo_sb "sd_ops 0 True demo_sb" 0 None 0] by - (rule exI [of _ ?s], auto)
qed

section \<open>Path names\<close>

text \<open>The parts of a path between slashes, without the empty ones.\<close>

fun split_slash :: "u8 list \<Rightarrow> u8 list list" where
  "split_slash [] = [[]]"
| "split_slash (b # bs) =
     (if b = slash then [] # split_slash bs
      else case split_slash bs of [] \<Rightarrow> [[b]] | w # ws \<Rightarrow> (b # w) # ws)"

definition path_words :: "u8 list \<Rightarrow> u8 list list" where
  "path_words path = filter (\<lambda>w. w \<noteq> []) (split_slash path)"

text \<open>The names a walk along the path sees, one call of \<^verbatim>\<open>skipelem\<close> after the other.\<close>

function path_elems :: "u8 list \<Rightarrow> u8 list \<Rightarrow> u8 list list" where
  "path_elems path name =
     (case skipelem path name of None \<Rightarrow> [] | Some (rest, name1) \<Rightarrow> name1 # path_elems rest name1)"
  by pat_completeness auto
termination by (relation "measure (\<lambda>(path, _). length path)") (auto dest: skipelem_shorter)

declare path_elems.simps [simp del]

lemma split_slash_word:
  "split_slash bs = takeWhile (\<lambda>b. b \<noteq> slash) bs #
     (case dropWhile (\<lambda>b. b \<noteq> slash) bs of [] \<Rightarrow> [] | _ # rest \<Rightarrow> split_slash rest)"
  by (induction bs) auto

lemma path_words_skip: "path_words (dropWhile (\<lambda>b. b = slash) path) = path_words path"
  by (induction path) (auto simp: path_words_def)

lemma path_words_word:
  assumes "s \<noteq> []" and "hd s \<noteq> slash"
  shows "path_words s = takeWhile (\<lambda>b. b \<noteq> slash) s # path_words (dropWhile (\<lambda>b. b \<noteq> slash) s)"
proof -
  have "takeWhile (\<lambda>b. b \<noteq> slash) s \<noteq> []" using assms by (cases s) auto
  moreover have "path_words (dropWhile (\<lambda>b. b \<noteq> slash) s) =
      filter (\<lambda>w. w \<noteq> []) (case dropWhile (\<lambda>b. b \<noteq> slash) s of [] \<Rightarrow> [] | _ # rest \<Rightarrow> split_slash rest)"
  proof (cases "dropWhile (\<lambda>b. b \<noteq> slash) s")
    case (Cons b rest)
    then have "b = slash" using hd_dropWhile [of "\<lambda>b. b \<noteq> slash" s] by simp
    with Cons show ?thesis by (simp add: path_words_def)
  next
    case Nil
    then show ?thesis unfolding Nil by (simp add: path_words_def)
  qed
  ultimately show ?thesis unfolding path_words_def by (subst split_slash_word) simp
qed

lemma cname_short: "0 \<notin> set el \<Longrightarrow> length el < FILE_NAME_MAX_LENGTH \<Longrightarrow> cname (el @ 0 # xs) = el"
proof -
  assume "0 \<notin> set el" "length el < FILE_NAME_MAX_LENGTH"
  then have "take FILE_NAME_MAX_LENGTH (el @ 0 # xs) = el @ 0 # take (FILE_NAME_MAX_LENGTH - Suc (length el)) xs"
    by (simp add: take_Cons' Suc_diff_Suc)
  moreover have "takeWhile (\<lambda>b. b \<noteq> 0) (el @ 0 # ys) = el" for ys
    using \<open>0 \<notin> set el\<close> by (subst takeWhile_append2) auto
  ultimately show ?thesis by (simp only: cname_def)
qed

text \<open>
  C39: walking a path visits exactly its parts between slashes, in order: leading, trailing and
  repeated slashes make no difference, and a part longer than \<^verbatim>\<open>FILE_NAME_MAX_LENGTH\<close> is cut
  off there. What the name buffer held before does not matter.
\<close>

theorem path_elems_words:
  assumes "0 \<notin> set path" and "length name = FILE_NAME_MAX_LENGTH"
  shows "map cname (path_elems path name) = map (take FILE_NAME_MAX_LENGTH) (path_words path)"
  using assms
proof (induction path name rule: path_elems.induct)
  case (1 path name)
  let ?s = "dropWhile (\<lambda>b. b = slash) path"
  show ?case
  proof (cases "?s = []")
    case True
    then have "path_words path = path_words []" using path_words_skip [of path] by metis
    moreover have "path_elems path name = []" using True by (subst path_elems.simps) (simp add: skipelem_def)
    ultimately show ?thesis by (simp add: path_words_def)
  next
    case False
    let ?el = "takeWhile (\<lambda>b. b \<noteq> slash) ?s" and ?tl = "dropWhile (\<lambda>b. b \<noteq> slash) ?s"
    let ?rest = "dropWhile (\<lambda>b. b = slash) ?tl"
    let ?name = "if FILE_NAME_MAX_LENGTH \<le> length ?el then patch 0 (take FILE_NAME_MAX_LENGTH ?el) name
      else patch 0 (?el @ [0]) name"
    have sk: "skipelem path name = Some (?rest, ?name)" using False by (simp add: skipelem_def Let_def)
    have el0: "0 \<notin> set ?el" "0 \<notin> set ?rest"
      using 1(2) by (auto dest!: set_takeWhileD set_dropWhileD)
    have len: "length ?name = FILE_NAME_MAX_LENGTH" using 1(3) by simp
    have nm: "cname ?name = take FILE_NAME_MAX_LENGTH ?el"
    proof (cases "FILE_NAME_MAX_LENGTH \<le> length ?el")
      case True
      have "0 \<notin> set (take FILE_NAME_MAX_LENGTH ?el)" using el0(1) by (meson in_set_takeD)
      then have "takeWhile (\<lambda>b. b \<noteq> 0) (take FILE_NAME_MAX_LENGTH ?el) = take FILE_NAME_MAX_LENGTH ?el"
        by (simp only: takeWhile_eq_all_conv) metis
      then show ?thesis using True 1(3) by (simp add: patch_def cname_def)
    next
      case False
      then show ?thesis using cname_short [OF el0(1)] by (simp add: patch_def)
    qed
    have "path_words path = ?el # path_words ?rest"
      using path_words_skip [of path] path_words_skip [of ?tl] path_words_word [OF False] hd_dropWhile [OF False] by simp
    moreover have "path_elems path name = ?name # path_elems ?rest ?name"
      by (subst path_elems.simps) (simp only: sk option.case prod.case)
    moreover have "map cname (path_elems ?rest ?name) = map (take FILE_NAME_MAX_LENGTH) (path_words ?rest)"
      by (rule "1.IH" [OF sk refl el0(2) len])
    ultimately show ?thesis by (simp only: list.map nm)
  qed
qed

theorem path_elems_words_witness:
  "map cname (path_elems [47, 47, 97, 47, 98, 98, 47] (replicate 14 7)) = [[97], [98, 98]]"
  using path_elems_words [of "[47, 47, 97, 47, 98, 98, 47]" "replicate 14 7"]
  by (simp add: path_words_def)

end
