(* ===== verification/Ring.thy ===== *)
theory Ring
  imports Prelude
begin

text \<open>
  Ring buffers indexed by machine words that are never reset: the place of an element is the
  index modulo the size of the buffer. As the size divides the range of the index, nothing
  happens when the index wraps around.
\<close>

definition ring_list :: "nat \<Rightarrow> 'b list \<Rightarrow> 'a::len word \<Rightarrow> nat \<Rightarrow> 'b list" where
  "ring_list m buf i n = map (\<lambda>k. buf ! ((unat i + k) mod m)) [0..<n]"

lemma length_ring_list [simp]: "length (ring_list m buf i n) = n"
  by (simp add: ring_list_def)

lemma ring_list_0 [simp]: "ring_list m buf i 0 = []"
  by (simp add: ring_list_def)

locale ring_index =
  fixes m :: nat and ty :: "'a::len itself"
  assumes pos: "0 < m" and wraps: "m dvd 2 ^ LENGTH('a)"
begin

lemma place: "unat (w + of_nat k :: 'a word) mod m = (unat w + k) mod m"
proof -
  have "unat (w + of_nat k :: 'a word) = (unat w + k) mod 2 ^ LENGTH('a)"
    by (simp add: unat_word_ariths unat_of_nat mod_simps)
  then show ?thesis by (simp only: mod_mod_cancel [OF wraps])
qed

lemma apart:
  assumes "k < n" and "n < m"
  shows "(a + k) mod m \<noteq> (a + n) mod m"
proof
  assume "(a + k) mod m = (a + n) mod m"
  then have "m dvd (a + n) - (a + k)" using assms by (metis mod_eq_dvd_iff_nat nat_add_left_cancel_le less_imp_le)
  then show False using assms by (auto dest: dvd_imp_le)
qed

lemma snoc:
  assumes "n < m" and "length buf = m"
  shows "ring_list m (buf[unat (i + of_nat n :: 'a word) mod m := b]) i (Suc n) = ring_list m buf i n @ [b]"
proof (rule nth_equalityI)
  fix k assume "k < length (ring_list m (buf[unat (i + of_nat n :: 'a word) mod m := b]) i (Suc n))"
  then show "ring_list m (buf[unat (i + of_nat n) mod m := b]) i (Suc n) ! k = (ring_list m buf i n @ [b]) ! k"
    using apart [of k n "unat i"] assms pos
    by (cases "k = n") (auto simp: ring_list_def place nth_append simp del: upt_Suc)
qed simp

lemma beyond:
  assumes "n \<le> k" and "k < m" and "length buf = m"
  shows "ring_list m (buf[unat (i + of_nat k :: 'a word) mod m := b]) i n = ring_list m buf i n"
proof (rule nth_equalityI)
  fix j assume "j < length (ring_list m (buf[unat (i + of_nat k :: 'a word) mod m := b]) i n)"
  then have j: "j < n" by simp
  then have "(unat i + k) mod m \<noteq> (unat i + j) mod m" using apart [of j k "unat i"] assms(1,2) by simp
  then show "ring_list m (buf[unat (i + of_nat k) mod m := b]) i n ! j = ring_list m buf i n ! j"
    using j by (simp add: ring_list_def place)
qed simp

lemma step: "ring_list m buf (i :: 'a word) (Suc n) = buf ! (unat i mod m) # ring_list m buf (i + 1) n"
proof -
  have "(unat (i + 1) + k) mod m = (unat i + Suc k) mod m" for k
    using place [of "i + 1" k] place [of i "Suc k"] by (simp add: algebra_simps)
  then show ?thesis
    by (simp add: ring_list_def upt_conv_Cons map_Suc_upt [symmetric] del: upt_Suc)
qed

lemma split: "ring_list m buf (i :: 'a word) (a + b) = ring_list m buf i a @ ring_list m buf (i + of_nat a) b"
proof (induction a arbitrary: i)
  case (Suc a)
  show ?case using Suc [of "i + 1"] by (simp add: step algebra_simps)
qed simp

end

end
