(* ===== verification/Pipe.thy ===== *)
theory Pipe
  imports Sem Ring
begin

text \<open>
  Pipes (\<^verbatim>\<open>fs/pipe.c\<close>): a ring of \<^verbatim>\<open>PIPE_SIZE\<close> bytes with two 32-bit counters that are never
  reset and wrap around. The loops of \<^verbatim>\<open>pipe_write\<close> and \<^verbatim>\<open>pipe_read\<close> are cut where the
  thread really goes to sleep in \<^verbatim>\<open>cond_wait\<close>; a sleeping call is continued by the
  corresponding \<open>resume\<close> function. The spin lock is held from the start of a call to its end
  or sleep, so that each part runs alone.
\<close>

section \<open>Operations\<close>

definition PIPE_SIZE :: nat where "PIPE_SIZE = 512"

record pipe =
  wlock :: semaphore
  rlock :: semaphore
  pdata :: "u8 list"
  nread :: u32
  nwrite :: u32
  readopen :: bool
  writeopen :: bool

definition new_pipe :: pipe where
  "new_pipe = \<lparr>wlock = init_sem 0, rlock = init_sem 0, pdata = replicate PIPE_SIZE 0, nread = 0, nwrite = 0,
     readopen = True, writeopen = True\<rparr>"

text \<open>The first component says whether the memory of the pipe has been freed.\<close>

definition pipe_close :: "bool \<Rightarrow> pipe \<Rightarrow> (bool \<times> pipe) outcome" where
  "pipe_close writable pi =
     andthen
       (if writable then
          andthen (cond_broadcast (rlock pi)) (\<lambda>(_, r). Ret (pi\<lparr>writeopen := False, rlock := r\<rparr>))
        else
          andthen (cond_broadcast (wlock pi)) (\<lambda>(_, w). Ret (pi\<lparr>readopen := False, wlock := w\<rparr>)))
       (\<lambda>pi1. Ret (\<not> readopen pi1 \<and> \<not> writeopen pi1, pi1))"

text \<open>A call waits for the other side, fails, or is done.\<close>

datatype 'a transfer = Asleep | Failed | Finished 'a

definition pipe_full :: "pipe \<Rightarrow> bool" where
  "pipe_full pi \<longleftrightarrow> nwrite pi = nread pi + of_nat PIPE_SIZE"

definition pipe_put :: "u8 \<Rightarrow> pipe \<Rightarrow> pipe" where
  "pipe_put b pi = pi\<lparr>pdata := (pdata pi)[unat (nwrite pi) mod PIPE_SIZE := b], nwrite := nwrite pi + 1\<rparr>"

text \<open>
  The loop of \<^verbatim>\<open>pipe_write\<close> from position \<open>i\<close> on, in thread \<open>p\<close> whose \<^verbatim>\<open>killed\<close> flag is given. The
  result is how it ends, the position reached and the pipe.
\<close>

function pipe_write_run ::
  "nat \<Rightarrow> bool \<Rightarrow> u8 list \<Rightarrow> nat \<Rightarrow> pipe \<Rightarrow> (nat transfer \<times> nat \<times> pipe) outcome" where
  "pipe_write_run p killed src i pi =
     (if i < length src then
        if \<not> readopen pi \<or> killed then Ret (Failed, i, pi)
        else if pipe_full pi then
          andthen (cond_broadcast (rlock pi)) (\<lambda>(_, r).
          andthen (cond_wait_enter p (wlock pi)) (\<lambda>(got, w).
          if got then pipe_write_run p killed src i (pi\<lparr>wlock := w, rlock := r\<rparr>)
          else Ret (Asleep, i, pi\<lparr>wlock := w, rlock := r\<rparr>)))
        else pipe_write_run p killed src (i + 1) (pipe_put (src ! i) pi)
      else andthen (cond_broadcast (rlock pi)) (\<lambda>(_, r). Ret (Finished i, i, pi\<lparr>rlock := r\<rparr>)))"
  by pat_completeness auto
termination
  by (relation "measures [\<lambda>(_, _, src, i, _). length src - i, \<lambda>(_, _, _, _, pi). nat (val (wlock pi))]")
    (auto dest!: cond_wait_val)

declare pipe_write_run.simps [simp del]

definition pipe_write :: "nat \<Rightarrow> bool \<Rightarrow> u8 list \<Rightarrow> pipe \<Rightarrow> (nat transfer \<times> nat \<times> pipe) outcome" where
  "pipe_write p killed src pi = pipe_write_run p killed src 0 pi"

definition pipe_write_resume ::
  "nat \<Rightarrow> bool \<Rightarrow> u8 list \<Rightarrow> nat \<Rightarrow> pipe \<Rightarrow> (nat transfer \<times> nat \<times> pipe) outcome" where
  "pipe_write_resume p killed src i pi =
     andthen (cond_wait_leave p (wlock pi)) (\<lambda>w. pipe_write_run p killed src i (pi\<lparr>wlock := w\<rparr>))"

text \<open>The loop of \<^verbatim>\<open>pipe_read\<close> that waits for bytes.\<close>

function pipe_read_wait :: "nat \<Rightarrow> bool \<Rightarrow> pipe \<Rightarrow> (unit transfer \<times> pipe) outcome" where
  "pipe_read_wait p killed pi =
     (if nread pi = nwrite pi \<and> writeopen pi then
        if killed then Ret (Failed, pi)
        else andthen (cond_wait_enter p (rlock pi)) (\<lambda>(got, r).
          if got then pipe_read_wait p killed (pi\<lparr>rlock := r\<rparr>) else Ret (Asleep, pi\<lparr>rlock := r\<rparr>))
      else Ret (Finished (), pi))"
  by pat_completeness auto
termination
  by (relation "measure (\<lambda>(_, _, pi). nat (val (rlock pi)))") (auto dest!: cond_wait_val)

declare pipe_read_wait.simps [simp del]

primrec pipe_read_copy :: "nat \<Rightarrow> pipe \<Rightarrow> u8 list \<times> pipe" where
  "pipe_read_copy 0 pi = ([], pi)"
| "pipe_read_copy (Suc n) pi =
     (if nread pi = nwrite pi then ([], pi)
      else let b = pdata pi ! (unat (nread pi) mod PIPE_SIZE);
               (bs, pi1) = pipe_read_copy n (pi\<lparr>nread := nread pi + 1\<rparr>)
           in (b # bs, pi1))"

definition pipe_read_run :: "nat \<Rightarrow> bool \<Rightarrow> nat \<Rightarrow> pipe \<Rightarrow> (u8 list transfer \<times> pipe) outcome" where
  "pipe_read_run p killed n pi =
     andthen (pipe_read_wait p killed pi) (\<lambda>(t, pi1).
     case t of
       Asleep \<Rightarrow> Ret (Asleep, pi1)
     | Failed \<Rightarrow> Ret (Failed, pi1)
     | Finished _ \<Rightarrow>
         let (bs, pi2) = pipe_read_copy n pi1 in
         andthen (cond_broadcast (wlock pi2)) (\<lambda>(_, w). Ret (Finished bs, pi2\<lparr>wlock := w\<rparr>)))"

definition pipe_read :: "nat \<Rightarrow> bool \<Rightarrow> nat \<Rightarrow> pipe \<Rightarrow> (u8 list transfer \<times> pipe) outcome" where
  "pipe_read p killed n pi = pipe_read_run p killed n pi"

definition pipe_read_resume :: "nat \<Rightarrow> bool \<Rightarrow> nat \<Rightarrow> pipe \<Rightarrow> (u8 list transfer \<times> pipe) outcome" where
  "pipe_read_resume p killed n pi =
     andthen (cond_wait_leave p (rlock pi)) (\<lambda>r. pipe_read_run p killed n (pi\<lparr>rlock := r\<rparr>))"

section \<open>The ring as a queue\<close>

definition in_pipe :: "pipe \<Rightarrow> nat" where
  "in_pipe pi = unat (nwrite pi - nread pi)"

definition contents :: "pipe \<Rightarrow> u8 list" where
  "contents pi = ring_list PIPE_SIZE (pdata pi) (nread pi) (in_pipe pi)"

interpretation pring: ring_index PIPE_SIZE "TYPE(32)"
  by unfold_locales (simp_all add: PIPE_SIZE_def dvd_def)

definition pipe_ok :: "pipe \<Rightarrow> bool" where
  "pipe_ok pi \<longleftrightarrow> length (pdata pi) = PIPE_SIZE \<and> in_pipe pi \<le> PIPE_SIZE \<and> sem_ok (rlock pi) \<and> sem_ok (wlock pi)"

lemma PIPE_SIZE_pos [simp]: "0 < PIPE_SIZE"
  by (simp add: PIPE_SIZE_def)

lemma length_contents [simp]: "length (contents pi) = in_pipe pi"
  by (simp add: contents_def)

lemma nwrite_eq: "nwrite pi = nread pi + of_nat (in_pipe pi)"
  by (simp add: in_pipe_def)

lemma pipe_empty: "nread pi = nwrite pi \<longleftrightarrow> in_pipe pi = 0"
  by (auto simp: in_pipe_def unat_eq_0)

lemma pipe_full: "in_pipe pi \<le> PIPE_SIZE \<Longrightarrow> pipe_full pi \<longleftrightarrow> in_pipe pi = PIPE_SIZE"
proof -
  assume le: "in_pipe pi \<le> PIPE_SIZE"
  have "pipe_full pi \<longleftrightarrow> nwrite pi - nread pi = of_nat PIPE_SIZE"
    by (auto simp: pipe_full_def diff_eq_eq add.commute)
  also have "\<dots> \<longleftrightarrow> in_pipe pi = PIPE_SIZE"
    by (simp add: in_pipe_def PIPE_SIZE_def word_unat_eq_iff)
  finally show ?thesis .
qed

lemma pipe_put_ok:
  assumes ok: "pipe_ok pi" and room: "\<not> pipe_full pi"
  shows "pipe_ok (pipe_put b pi)" and "contents (pipe_put b pi) = contents pi @ [b]"
proof -
  have n: "in_pipe pi < PIPE_SIZE" using ok room pipe_full [of pi] by (auto simp: pipe_ok_def)
  have "in_pipe (pipe_put b pi) = unat ((nwrite pi - nread pi) + 1)" by (simp add: in_pipe_def pipe_put_def algebra_simps)
  also have "\<dots> = Suc (in_pipe pi)"
    using n by (simp add: in_pipe_def unat_word_ariths(1) PIPE_SIZE_def)
  finally have s: "in_pipe (pipe_put b pi) = Suc (in_pipe pi)" .
  have len: "length (pdata pi) = PIPE_SIZE" using ok by (simp add: pipe_ok_def)
  show "pipe_ok (pipe_put b pi)" using ok n s by (simp add: pipe_ok_def) (simp add: pipe_put_def)
  show "contents (pipe_put b pi) = contents pi @ [b]"
    using pring.snoc [OF n len, of "nread pi" b] s by (simp add: contents_def flip: nwrite_eq) (simp add: pipe_put_def)
qed

lemma pipe_take_ok:
  assumes ok: "pipe_ok pi" and ne: "nread pi \<noteq> nwrite pi"
  shows "pipe_ok (pi\<lparr>nread := nread pi + 1\<rparr>)"
    and "contents pi = pdata pi ! (unat (nread pi) mod PIPE_SIZE) # contents (pi\<lparr>nread := nread pi + 1\<rparr>)"
proof -
  let ?pi = "pi\<lparr>nread := nread pi + 1\<rparr>"
  have "in_pipe pi \<noteq> 0" using ne pipe_empty by blast
  then have "nwrite pi - nread pi \<noteq> 0" by (simp add: in_pipe_def unat_eq_0)
  then have "unat (nwrite pi - nread pi - 1) = unat (nwrite pi - nread pi) - 1" by (rule unat_minus_one)
  then have s: "in_pipe pi = Suc (in_pipe ?pi)" using \<open>in_pipe pi \<noteq> 0\<close> by (simp add: in_pipe_def algebra_simps)
  then show "pipe_ok ?pi" using ok by (simp add: pipe_ok_def)
  show "contents pi = pdata pi ! (unat (nread pi) mod PIPE_SIZE) # contents ?pi"
    by (simp add: contents_def s pring.step)
qed

section \<open>Calls\<close>

lemma pipe_ok_sems:
  "pipe_ok pi \<Longrightarrow> sem_ok w \<Longrightarrow> sem_ok r \<Longrightarrow> pipe_ok (pi\<lparr>wlock := w, rlock := r\<rparr>)"
  "contents (pi\<lparr>wlock := w, rlock := r\<rparr>) = contents pi" "in_pipe (pi\<lparr>wlock := w, rlock := r\<rparr>) = in_pipe pi"
  "pipe_ok pi \<Longrightarrow> sem_ok w \<Longrightarrow> pipe_ok (pi\<lparr>wlock := w\<rparr>)" "contents (pi\<lparr>wlock := w\<rparr>) = contents pi"
  "in_pipe (pi\<lparr>wlock := w\<rparr>) = in_pipe pi"
  "pipe_ok pi \<Longrightarrow> sem_ok r \<Longrightarrow> pipe_ok (pi\<lparr>rlock := r\<rparr>)" "contents (pi\<lparr>rlock := r\<rparr>) = contents pi"
  "in_pipe (pi\<lparr>rlock := r\<rparr>) = in_pipe pi"
  by (simp_all add: pipe_ok_def contents_def in_pipe_def)

text \<open>What a write has achieved when it stops at position \<open>j\<close>.\<close>

definition write_effect :: "nat \<Rightarrow> bool \<Rightarrow> u8 list \<Rightarrow> nat \<Rightarrow> pipe \<Rightarrow> nat transfer \<Rightarrow> nat \<Rightarrow> pipe \<Rightarrow> bool" where
  "write_effect p killed src i pi t j pi' \<longleftrightarrow>
     pipe_ok pi' \<and> i \<le> j \<and> j \<le> length src \<and> contents pi' = contents pi @ take (j - i) (drop i src) \<and>
     readopen pi' = readopen pi \<and> writeopen pi' = writeopen pi \<and>
     (case t of
        Asleep \<Rightarrow> j < length src \<and> in_pipe pi' = PIPE_SIZE \<and> p \<in> set (sleeplist (wlock pi')) \<and> sleeplist (rlock pi') = []
      | Failed \<Rightarrow> j < length src \<and> (killed \<or> \<not> readopen pi)
      | Finished m \<Rightarrow> m = length src \<and> j = m \<and> sleeplist (rlock pi') = [])"

lemma write_effect_step:
  assumes "write_effect p killed src (Suc i) (pipe_put (src ! i) pi) t j pi'" and "pipe_ok pi" "\<not> pipe_full pi"
    and "i < length src"
  shows "write_effect p killed src i pi t j pi'"
proof -
  have "take (j - i) (drop i src) = src ! i # take (j - Suc i) (drop (Suc i) src)" if "Suc i \<le> j"
    using assms(4) that by (simp add: Cons_nth_drop_Suc [symmetric] Suc_diff_Suc take_Cons' flip: Suc_diff_Suc)
  moreover have "readopen (pipe_put b pi) = readopen pi" "writeopen (pipe_put b pi) = writeopen pi" for b
    by (simp_all add: pipe_put_def)
  ultimately show ?thesis using assms(1) pipe_put_ok(2) [OF assms(2,3)]
    by (auto simp: write_effect_def split: transfer.splits)
qed

lemma write_run_result:
  assumes "pipe_ok pi" and "\<not> waits p (wlock pi)" and "i \<le> length src"
  shows "\<exists>t j pi'. pipe_write_run p killed src i pi = Ret (t, j, pi') \<and> write_effect p killed src i pi t j pi'"
  using assms
proof (induction p killed src i pi rule: pipe_write_run.induct)
  case (1 p killed src i pi)
  note ok = 1(3) and fresh = 1(4)
  have sems: "sem_ok (rlock pi)" "sem_ok (wlock pi)" using ok by (simp_all add: pipe_ok_def)
  from broadcast_result [OF sems(1)] obtain r where
    r: "cond_broadcast (rlock pi) = Ret (sleeplist (rlock pi), r)" "sem_ok r" "sleeplist r = []" by blast
  consider "\<not> i < length src" | "i < length src" "\<not> readopen pi \<or> killed"
    | "i < length src" "readopen pi \<and> \<not> killed" "pipe_full pi"
    | "i < length src" "readopen pi \<and> \<not> killed" "\<not> pipe_full pi" by blast
  then show ?case
  proof cases
    case 1
    then show ?thesis using r ok \<open>i \<le> length src\<close> pipe_ok_sems(7-9)
      by (subst pipe_write_run.simps) (auto simp: write_effect_def)
  next
    case 2
    then show ?thesis using ok by (subst pipe_write_run.simps) (auto simp: write_effect_def)
  next
    case 3
    from cond_wait_result [OF sems(2) fresh] obtain got w where
      w: "cond_wait_enter p (wlock pi) = Ret (got, w)" "sem_ok w" "up w = up (wlock pi)"
      "if got then sleeplist w = sleeplist (wlock pi) else sleeplist w = sleeplist (wlock pi) @ [p]" by blast
    let ?pi = "pi\<lparr>wlock := w, rlock := r\<rparr>"
    have full: "in_pipe pi = PIPE_SIZE" using 3(3) ok pipe_full by (simp add: pipe_ok_def)
    show ?thesis
    proof (cases got)
      case True
      have "pipe_write_run p killed src i pi = pipe_write_run p killed src i ?pi"
        using 3 r w True by (subst pipe_write_run.simps) simp
      moreover have "\<exists>t j pi'. pipe_write_run p killed src i ?pi = Ret (t, j, pi') \<and> write_effect p killed src i ?pi t j pi'"
        using 1(1) 3 r w True ok fresh \<open>i \<le> length src\<close> pipe_ok_sems(1) by auto
      ultimately show ?thesis
        by (simp add: write_effect_def pipe_ok_sems(2) cong: transfer.case_cong)
    next
      case False
      have "pipe_write_run p killed src i pi = Ret (Asleep, i, ?pi)"
        using 3 r w False by (subst pipe_write_run.simps) simp
      then show ?thesis using 3 ok r w False full pipe_ok_sems(1-3) by (auto simp: write_effect_def)
    qed
  next
    case 4
    have "pipe_write_run p killed src i pi = pipe_write_run p killed src (i + 1) (pipe_put (src ! i) pi)"
      using 4 by (subst pipe_write_run.simps) simp
    moreover have "\<not> waits p (wlock (pipe_put (src ! i) pi))" using fresh by (simp add: pipe_put_def)
    ultimately show ?thesis
      using 1(2) 4 pipe_put_ok(1) [OF ok 4(3)] write_effect_step [OF _ ok 4(3,1)] by fastforce
  qed
qed

lemma read_wait_result:
  assumes "pipe_ok pi" and "\<not> waits p (rlock pi)"
  shows "\<exists>t r. pipe_read_wait p killed pi = Ret (t, pi\<lparr>rlock := r\<rparr>) \<and> sem_ok r \<and>
    (case t of
       Asleep \<Rightarrow> in_pipe pi = 0 \<and> writeopen pi \<and> \<not> killed \<and> p \<in> set (sleeplist r)
     | Failed \<Rightarrow> in_pipe pi = 0 \<and> killed
     | Finished _ \<Rightarrow> in_pipe pi \<noteq> 0 \<or> \<not> writeopen pi)"
  using assms
proof (induction p killed pi rule: pipe_read_wait.induct)
  case (1 p killed pi)
  have sem: "sem_ok (rlock pi)" using 1(2) by (simp add: pipe_ok_def)
  have same: "pi\<lparr>rlock := rlock pi\<rparr> = pi" by simp
  show ?case
  proof (cases "nread pi = nwrite pi \<and> writeopen pi \<and> \<not> killed")
    case False
    then show ?thesis using sem pipe_empty [of pi] same
      by (subst pipe_read_wait.simps) (auto intro!: exI [of _ "rlock pi"])
  next
    case True
    from cond_wait_result [OF sem 1(3)] obtain got r where
      r: "cond_wait_enter p (rlock pi) = Ret (got, r)" "sem_ok r" "up r = up (rlock pi)"
      "if got then sleeplist r = sleeplist (rlock pi) else sleeplist r = sleeplist (rlock pi) @ [p]" by blast
    show ?thesis
    proof (cases got)
      case got: True
      have "pipe_read_wait p killed pi = pipe_read_wait p killed (pi\<lparr>rlock := r\<rparr>)"
        using True r got by (subst pipe_read_wait.simps) simp
      moreover have "\<exists>t r'. pipe_read_wait p killed (pi\<lparr>rlock := r\<rparr>) = Ret (t, pi\<lparr>rlock := r\<rparr>\<lparr>rlock := r'\<rparr>) \<and> sem_ok r' \<and>
          (case t of
             Asleep \<Rightarrow> in_pipe (pi\<lparr>rlock := r\<rparr>) = 0 \<and> writeopen (pi\<lparr>rlock := r\<rparr>) \<and> \<not> killed \<and> p \<in> set (sleeplist r')
           | Failed \<Rightarrow> in_pipe (pi\<lparr>rlock := r\<rparr>) = 0 \<and> killed
           | Finished _ \<Rightarrow> in_pipe (pi\<lparr>rlock := r\<rparr>) \<noteq> 0 \<or> \<not> writeopen (pi\<lparr>rlock := r\<rparr>))"
        using 1(1) True r got 1(2,3) pipe_ok_sems(7) by auto
      ultimately show ?thesis by (simp add: pipe_ok_sems(9) cong: transfer.case_cong)
    next
      case got: False
      have "pipe_read_wait p killed pi = Ret (Asleep, pi\<lparr>rlock := r\<rparr>)"
        using True r got by (subst pipe_read_wait.simps) simp
      then show ?thesis using True r got pipe_empty [of pi] by auto
    qed
  qed
qed

lemma read_copy_result:
  assumes "pipe_ok pi"
  shows "\<exists>k. pipe_read_copy n pi = (take n (contents pi), pi\<lparr>nread := k\<rparr>) \<and> pipe_ok (pi\<lparr>nread := k\<rparr>) \<and>
    contents (pi\<lparr>nread := k\<rparr>) = drop n (contents pi)"
  using assms
proof (induction n arbitrary: pi)
  case 0
  then show ?case by (auto intro!: exI [of _ "nread pi"])
next
  case (Suc n)
  show ?case
  proof (cases "nread pi = nwrite pi")
    case True
    then have "contents pi = []" using pipe_empty [of pi] by (simp add: contents_def)
    moreover have s: "pi\<lparr>nread := nread pi\<rparr> = pi" by simp
    ultimately show ?thesis using Suc.prems by (intro exI [of _ "nread pi"], unfold s) (simp add: True)
  next
    case False
    note take = pipe_take_ok [OF Suc.prems False]
    from Suc.IH [OF take(1)] obtain k where
      "pipe_read_copy n (pi\<lparr>nread := nread pi + 1\<rparr>) = (take n (contents (pi\<lparr>nread := nread pi + 1\<rparr>)), pi\<lparr>nread := k\<rparr>)"
      "pipe_ok (pi\<lparr>nread := k\<rparr>)" "contents (pi\<lparr>nread := k\<rparr>) = drop n (contents (pi\<lparr>nread := nread pi + 1\<rparr>))" by auto
    then show ?thesis using False take(2) by (auto simp: Let_def)
  qed
qed

definition read_effect :: "nat \<Rightarrow> bool \<Rightarrow> nat \<Rightarrow> pipe \<Rightarrow> u8 list transfer \<Rightarrow> pipe \<Rightarrow> bool" where
  "read_effect p killed n pi t pi' \<longleftrightarrow>
     pipe_ok pi' \<and> readopen pi' = readopen pi \<and> writeopen pi' = writeopen pi \<and>
     (case t of
        Asleep \<Rightarrow> in_pipe pi = 0 \<and> writeopen pi \<and> contents pi' = contents pi \<and> p \<in> set (sleeplist (rlock pi'))
      | Failed \<Rightarrow> killed \<and> in_pipe pi = 0 \<and> contents pi' = contents pi
      | Finished bs \<Rightarrow> bs = take n (contents pi) \<and> contents pi' = drop n (contents pi) \<and>
          (in_pipe pi \<noteq> 0 \<or> \<not> writeopen pi) \<and> sleeplist (wlock pi') = [])"

lemma read_run_result:
  assumes "pipe_ok pi" and "\<not> waits p (rlock pi)"
  shows "\<exists>t pi'. pipe_read_run p killed n pi = Ret (t, pi') \<and> read_effect p killed n pi t pi'"
proof -
  from read_wait_result [OF assms] obtain t r where
    w: "pipe_read_wait p killed pi = Ret (t, pi\<lparr>rlock := r\<rparr>)" "sem_ok r"
    "case t of Asleep \<Rightarrow> in_pipe pi = 0 \<and> writeopen pi \<and> \<not> killed \<and> p \<in> set (sleeplist r)
       | Failed \<Rightarrow> in_pipe pi = 0 \<and> killed | Finished _ \<Rightarrow> in_pipe pi \<noteq> 0 \<or> \<not> writeopen pi" by blast
  have ok: "pipe_ok (pi\<lparr>rlock := r\<rparr>)" by (rule pipe_ok_sems(7) [OF assms(1) w(2)])
  show ?thesis
  proof (cases t)
    case (Finished u)
    from read_copy_result [OF ok, of n] obtain k where
      k: "pipe_read_copy n (pi\<lparr>rlock := r\<rparr>) = (take n (contents pi), pi\<lparr>rlock := r, nread := k\<rparr>)"
      "pipe_ok (pi\<lparr>rlock := r, nread := k\<rparr>)" "contents (pi\<lparr>rlock := r, nread := k\<rparr>) = drop n (contents pi)"
      by (auto simp: pipe_ok_sems(8))
    have "sem_ok (wlock pi)" using assms(1) by (simp add: pipe_ok_def)
    from broadcast_result [OF this] obtain v where
      v: "cond_broadcast (wlock pi) = Ret (sleeplist (wlock pi), v)" "sem_ok v" "sleeplist v = []" by blast
    then show ?thesis
      using w Finished k pipe_ok_sems(4,5) [where pi = "pi\<lparr>rlock := r, nread := k\<rparr>" and w = v]
      by (simp add: pipe_read_run_def read_effect_def)
  qed (use w ok pipe_ok_sems(8) in \<open>auto simp: pipe_read_run_def read_effect_def\<close>)
qed

lemma close_result:
  assumes "pipe_ok pi"
  shows "\<exists>f pi'. pipe_close writable pi = Ret (f, pi') \<and> pipe_ok pi' \<and> contents pi' = contents pi \<and>
    readopen pi' = (readopen pi \<and> writable) \<and> writeopen pi' = (writeopen pi \<and> \<not> writable) \<and>
    (f \<longleftrightarrow> \<not> readopen pi' \<and> \<not> writeopen pi') \<and>
    sleeplist (if writable then rlock pi' else wlock pi') = []"
proof -
  have sems: "sem_ok (rlock pi)" "sem_ok (wlock pi)" using assms by (simp_all add: pipe_ok_def)
  from broadcast_result [OF sems(1)] broadcast_result [OF sems(2)] obtain r w where
    "cond_broadcast (rlock pi) = Ret (sleeplist (rlock pi), r)" "sem_ok r" "sleeplist r = []"
    "cond_broadcast (wlock pi) = Ret (sleeplist (wlock pi), w)" "sem_ok w" "sleeplist w = []" by blast
  then show ?thesis using assms
    by (simp add: pipe_close_def pipe_ok_def contents_def in_pipe_def)
qed

section \<open>Readers and writers\<close>

text \<open>
  The calls of any number of threads on one pipe, in the order in which they have its lock,
  with everything written so far and everything read so far.
\<close>

inductive pipe_run :: "pipe \<Rightarrow> u8 list \<Rightarrow> u8 list \<Rightarrow> bool" where
  start: "pipe_run new_pipe [] []"
| put: "\<lbrakk>pipe_run pi ws rs; \<not> waits p (wlock pi); pipe_write p killed src pi = Ret (t, j, pi')\<rbrakk>
    \<Longrightarrow> pipe_run pi' (ws @ take j src) rs"
| put_on: "\<lbrakk>pipe_run pi ws rs; p \<in> up (wlock pi); i \<le> length src; pipe_write_resume p killed src i pi = Ret (t, j, pi')\<rbrakk>
    \<Longrightarrow> pipe_run pi' (ws @ take (j - i) (drop i src)) rs"
| get: "\<lbrakk>pipe_run pi ws rs; \<not> waits p (rlock pi); pipe_read p killed n pi = Ret (t, pi')\<rbrakk>
    \<Longrightarrow> pipe_run pi' ws (rs @ (case t of Finished bs \<Rightarrow> bs | _ \<Rightarrow> []))"
| get_on: "\<lbrakk>pipe_run pi ws rs; p \<in> up (rlock pi); pipe_read_resume p killed n pi = Ret (t, pi')\<rbrakk>
    \<Longrightarrow> pipe_run pi' ws (rs @ (case t of Finished bs \<Rightarrow> bs | _ \<Rightarrow> []))"
| close: "\<lbrakk>pipe_run pi ws rs; pipe_close writable pi = Ret (f, pi')\<rbrakk> \<Longrightarrow> pipe_run pi' ws rs"

lemma new_pipe_ok: "pipe_ok new_pipe" "contents new_pipe = []"
  by (simp_all add: pipe_ok_def new_pipe_def contents_def in_pipe_def sem_ok_init)

lemma read_effect_bytes:
  "read_effect p killed n pi t pi' \<Longrightarrow> (case t of Finished bs \<Rightarrow> bs | _ \<Rightarrow> []) @ contents pi' = contents pi"
  by (auto simp: read_effect_def split: transfer.splits)

lemma pipe_run_queue: "pipe_run pi ws rs \<Longrightarrow> pipe_ok pi \<and> ws = rs @ contents pi"
proof (induction rule: pipe_run.induct)
  case start
  then show ?case by (simp add: new_pipe_ok)
next
  case (put pi ws rs p killed src t j pi')
  then show ?case using write_run_result [of pi p 0 src killed]
    by (auto simp: pipe_write_def write_effect_def)
next
  case (put_on pi ws rs p i src killed t j pi')
  let ?w = "(wlock pi)\<lparr>up := up (wlock pi) - {p}\<rparr>"
  have "pipe_ok (pi\<lparr>wlock := ?w\<rparr>)" "\<not> waits p (wlock (pi\<lparr>wlock := ?w\<rparr>))"
    using put_on sem_ok_leave_up [of "wlock pi" p] pipe_ok_sems(4) by (auto simp: pipe_ok_def)
  from write_run_result [OF this put_on(3), of killed] show ?case
    using put_on pipe_ok_sems(5) by (auto simp: pipe_write_resume_def cond_wait_leave_up write_effect_def)
next
  case (get pi ws rs p killed n t pi')
  then have "read_effect p killed n pi t pi'" using read_run_result [of pi p killed n] by (auto simp: pipe_read_def)
  then show ?case using get read_effect_bytes [of p killed n pi t pi'] by (auto simp: read_effect_def)
next
  case (get_on pi ws rs p killed n t pi')
  let ?r = "(rlock pi)\<lparr>up := up (rlock pi) - {p}\<rparr>"
  have "pipe_ok (pi\<lparr>rlock := ?r\<rparr>)" "\<not> waits p (rlock (pi\<lparr>rlock := ?r\<rparr>))"
    using get_on sem_ok_leave_up [of "rlock pi" p] pipe_ok_sems(7) by (auto simp: pipe_ok_def)
  from read_run_result [OF this, of killed n] have "read_effect p killed n (pi\<lparr>rlock := ?r\<rparr>) t pi'"
    using get_on by (auto simp: pipe_read_resume_def cond_wait_leave_up)
  moreover from read_effect_bytes [OF this] have "(case t of Finished bs \<Rightarrow> bs | _ \<Rightarrow> []) @ contents pi' = contents pi"
    by (simp only: pipe_ok_sems(8))
  ultimately show ?case using get_on by (simp add: read_effect_def)
next
  case (close pi ws rs writable f pi')
  then show ?case using close_result [of pi writable] by auto
qed

text \<open>
  C21: a pipe is a first-in first-out queue of at most \<^verbatim>\<open>PIPE_SIZE\<close> bytes, whatever calls any
  number of readers and writers make and however often the 32-bit counters wrap around:
  what has been read, followed by what is in the pipe, is what has been written.
\<close>

theorem pipe_fifo:
  assumes "pipe_run pi ws rs"
  shows "rs @ contents pi = ws \<and> length (contents pi) \<le> PIPE_SIZE"
  using pipe_run_queue [OF assms] by (auto simp: pipe_ok_def)

theorem pipe_fifo_witness: "\<exists>pi. pipe_run pi [1, 2, 3] [1, 2] \<and> contents pi = [3]"
proof -
  have free: "\<not> waits p (wlock new_pipe)" "\<not> waits p (rlock new_pipe)" for p
    by (simp_all add: new_pipe_def init_sem_def)
  from write_run_result [OF new_pipe_ok(1) free(1), of 0 "[1, 2, 3]" 1 False] obtain t j pi where
    w: "pipe_write 1 False [1, 2, 3] new_pipe = Ret (t, j, pi)" "write_effect 1 False [1, 2, 3] 0 new_pipe t j pi"
    by (auto simp: pipe_write_def)
  have "contents pi = take j [1, 2, 3]" using w(2) new_pipe_ok(2) by (simp add: write_effect_def)
  then have "in_pipe pi \<le> 3" by (metis length_contents length_take list.size(3,4) min.cobounded1 numeral_3_eq_3 Suc_eq_plus1 add_0)
  then have "t = Finished 3 \<and> j = 3"
    using w(2) by (auto simp: write_effect_def PIPE_SIZE_def new_pipe_def split: transfer.splits)
  then have r: "pipe_run pi [1, 2, 3] []" "contents pi = [1, 2, 3]" "pipe_ok pi"
    using pipe_run.put [OF pipe_run.start free(1) w(1)] w(2) new_pipe_ok(2) by (auto simp: write_effect_def)
  obtain p where p: "\<not> waits p (rlock pi)"
  proof -
    have "finite (up (rlock pi)) \<Longrightarrow> \<exists>p. \<not> waits p (rlock pi)"
      by (meson List.finite_set ex_new_if_finite finite_UnI infinite_UNIV_nat)
    moreover have "up (rlock pi) = {}"
      using w(1) by (simp add: pipe_write_def pipe_write_run.simps new_pipe_def pipe_full_def pipe_put_def PIPE_SIZE_def
          cond_broadcast_def post_all_sem_result sem_ok_init) (auto simp: init_sem_def)
    ultimately show ?thesis using that by auto
  qed
  from read_run_result [OF r(3) p, of False 2] obtain t' pi' where
    g: "pipe_read p False 2 pi = Ret (t', pi')" "read_effect p False 2 pi t' pi'" by (auto simp: pipe_read_def)
  have "in_pipe pi = 3" using r(2) length_contents [of pi] by simp
  then have "t' = Finished [1, 2]" using g(2) r(2) by (auto simp: read_effect_def split: transfer.splits)
  then have "pipe_run pi' [1, 2, 3] [1, 2]" using pipe_run.get [OF r(1) p g(1)] by simp
  with pipe_fifo [OF this] show ?thesis by auto
qed



text \<open>
  C35: killing a thread that waits in \<^verbatim>\<open>cond_wait\<close> brings the kernel down. The wait is
  alertable, so the thread runs again without having been signalled; \<^verbatim>\<open>_wait_sem\<close> then
  returns false, and \<^verbatim>\<open>cond_wait\<close> asserts that it returns true. So a read or write of a
  pipe that goes to sleep ends in a panic as soon as its process is killed.
\<close>

theorem killed_waiter_panics:
  assumes "sem_ok s" and "p \<in> set (sleeplist s)"
  shows "cond_wait_leave p s = Panic \<and>
    (\<forall>pi killed src i n. (wlock pi = s \<longrightarrow> pipe_write_resume p killed src i pi = Panic) \<and>
      (rlock pi = s \<longrightarrow> pipe_read_resume p killed n pi = Panic))"
proof -
  have "p \<notin> up s" using assms by (auto simp: sem_ok_def)
  then have "cond_wait_leave p s = Panic"
    using wait_sem_leave_result [OF assms(1), of p] assms(2) by (simp add: cond_wait_leave_def)
  then show ?thesis by (simp add: pipe_write_resume_def pipe_read_resume_def)
qed

theorem killed_waiter_panics_witness:
  "cond_wait_enter 4 (init_sem 0) = Ret (False, \<lparr>val = - 1, sleeplist = [4], up = {}\<rparr>) \<and>
   cond_wait_leave 4 \<lparr>val = - 1, sleeplist = [4], up = {}\<rparr> = Panic"
  using killed_waiter_panics [of "\<lparr>val = - 1, sleeplist = [4], up = {}\<rparr>" 4]
  by (simp add: sem_ok_def cond_wait_enter_def query_sem_def wait_sem_enter_def init_sem_def Let_def)

end
