(* ===== verification/Console.thy ===== *)
theory Console
  imports Inode Ring
begin

text \<open>
  The console (\<^verbatim>\<open>kernel/console.c\<close>) over the serial line (\<^verbatim>\<open>driver/uart.c\<close>): an interrupt
  handler with simple line editing fills a ring buffer, and readers take finished lines out
  of it. \<open>locked\<close> is the state of the spin lock: \<^verbatim>\<open>release_spinlock\<close> just clears it, whoever
  holds it. Input is cut at the sleeps as in pipes. The lock of the inode, given up for the
  time of a call, is not part of this state.
\<close>

section \<open>The serial line\<close>

text \<open>A read of the receiver, given the contents of its two registers.\<close>

definition uart_get_char :: "u32 \<Rightarrow> u32 \<Rightarrow> u8" where
  "uart_get_char iir io = (if iir AND 1 \<noteq> 0 \<or> iir AND 6 \<noteq> 4 then - 1 else ucast (io AND 255))"

text \<open>What goes out on the line for one character.\<close>

definition uart_put_char :: "u8 \<Rightarrow> u8 list" where
  "uart_put_char ch = (if ch = 10 then [10, 13] else [ch])"

section \<open>Operations\<close>

definition INPUT_BUF_SIZE :: nat where "INPUT_BUF_SIZE = 128"

record console =
  locked :: bool
  csem :: semaphore
  cbuf :: "u8 list"
  read_idx :: u64
  write_idx :: u64
  edit_idx :: u64

definition init_console :: console where
  "init_console = \<lparr>locked = False, csem = init_sem 0, cbuf = replicate INPUT_BUF_SIZE 0,
     read_idx = 0, write_idx = 0, edit_idx = 0\<rparr>"

text \<open>\<^verbatim>\<open>C(x)\<close>, the code of a control character.\<close>

definition C :: "u8 \<Rightarrow> u8" where
  "C x = x - 64"

text \<open>Wiping out one character on the screen.\<close>

abbreviation rub_out :: "u8 list" where
  "rub_out \<equiv> uart_put_char 8 @ uart_put_char 32 @ uart_put_char 8"

function kill_line :: "console \<Rightarrow> u8 list \<times> console" where
  "kill_line c =
     (if edit_idx c \<noteq> write_idx c \<and> cbuf c ! (unat (edit_idx c - 1) mod INPUT_BUF_SIZE) \<noteq> 10 then
        let (out, c1) = kill_line (c\<lparr>edit_idx := edit_idx c - 1\<rparr>) in (rub_out @ out, c1)
      else ([], c))"
  by pat_completeness auto
termination
proof (relation "measure (\<lambda>c. unat (edit_idx c - write_idx c))", goal_cases)
  case (2 c)
  then have "edit_idx c - write_idx c \<noteq> 0" by simp
  from unat_minus_one [OF this] have "unat (edit_idx c - 1 - write_idx c) = unat (edit_idx c - write_idx c) - 1"
    by (simp add: algebra_simps)
  moreover have "unat (edit_idx c - write_idx c) \<noteq> 0"
    using \<open>edit_idx c - write_idx c \<noteq> 0\<close> by (simp add: unat_eq_0)
  ultimately show ?case by simp
qed simp

declare kill_line.simps [simp del]

text \<open>
  The interrupt handler for a received character. The result is what is echoed and the
  console. \<open>Sleep\<close> stands for spinning on the lock.
\<close>

definition console_intr :: "u8 \<Rightarrow> console \<Rightarrow> (u8 list \<times> console) outcome" where
  "console_intr ch c =
     (if locked c then Sleep
      else if ch = C 85 then Ret (kill_line c)
      else if ch = C 72 \<or> ch = 127 then
        (if edit_idx c \<noteq> write_idx c then Ret (rub_out, c\<lparr>edit_idx := edit_idx c - 1\<rparr>) else Ret ([], c))
      else if ch \<noteq> 0 \<and> unat (edit_idx c - read_idx c) < INPUT_BUF_SIZE then
        let ch1 = (if ch = 13 then 10 else ch);
            c1 = c\<lparr>cbuf := (cbuf c)[unat (edit_idx c) mod INPUT_BUF_SIZE := ch1], edit_idx := edit_idx c + 1\<rparr>
        in if ch1 = 10 \<or> ch1 = C 68 \<or> unat (edit_idx c1 - read_idx c1) = INPUT_BUF_SIZE then
             andthen (cond_signal (csem c1)) (\<lambda>(_, s).
             Ret (uart_put_char ch1, c1\<lparr>csem := s, write_idx := edit_idx c1\<rparr>))
           else Ret (uart_put_char ch1, c1)
      else Ret ([], c))"

definition console_write :: "dinode \<Rightarrow> u8 list \<Rightarrow> console \<Rightarrow> (int \<times> u8 list \<times> console) outcome" where
  "console_write e buf c =
     (if dtype e \<noteq> INODE_DEVICE then Ret (- 1, [], c)
      else if locked c then Sleep
      else Ret (int (length buf), concat (map uart_put_char buf), c))"

text \<open>
  The loop of \<^verbatim>\<open>console_read\<close>: \<open>n\<close> more characters are wanted, \<open>dst\<close> has been read. The
  first component of the result is true when the call is over and false when it sleeps.
  The lock is released each time \<^verbatim>\<open>cond_wait\<close> returns.
\<close>

function console_read_run :: "nat \<Rightarrow> nat \<Rightarrow> u8 list \<Rightarrow> console \<Rightarrow> (bool \<times> nat \<times> u8 list \<times> console) outcome" where
  "console_read_run p n dst c =
     (if 0 < n then
        if read_idx c = write_idx c then
          andthen (cond_wait_enter p (csem c)) (\<lambda>(got, s).
          if got then console_read_run p n dst (c\<lparr>csem := s, locked := False\<rparr>)
          else Ret (False, n, dst, c\<lparr>csem := s, locked := False\<rparr>))
        else
          let ch = cbuf c ! (unat (read_idx c) mod INPUT_BUF_SIZE);
              c1 = c\<lparr>read_idx := read_idx c + 1\<rparr>
          in if ch = C 68 then Ret (True, n, dst, c1\<lparr>locked := False\<rparr>)
             else if ch = 10 then Ret (True, n - 1, dst @ [ch], c1\<lparr>locked := False\<rparr>)
             else console_read_run p (n - 1) (dst @ [ch]) c1
      else Ret (True, n, dst, c\<lparr>locked := False\<rparr>))"
  by pat_completeness auto
termination
  by (relation "measures [\<lambda>(_, n, _, _). n, \<lambda>(_, _, _, c). nat (val (csem c))]") (auto dest!: cond_wait_val)

declare console_read_run.simps [simp del]

definition console_read :: "nat \<Rightarrow> nat \<Rightarrow> console \<Rightarrow> (bool \<times> nat \<times> u8 list \<times> console) outcome" where
  "console_read p n c = (if locked c then Sleep else console_read_run p n [] (c\<lparr>locked := True\<rparr>))"

definition console_read_resume ::
  "nat \<Rightarrow> nat \<Rightarrow> u8 list \<Rightarrow> console \<Rightarrow> (bool \<times> nat \<times> u8 list \<times> console) outcome" where
  "console_read_resume p n dst c =
     andthen (cond_wait_leave p (csem c)) (\<lambda>s.
     if locked c then Sleep else console_read_run p n dst (c\<lparr>csem := s, locked := False\<rparr>))"

section \<open>Line editing\<close>

text \<open>The finished input that readers may take, and the line being edited.\<close>

definition ready_input :: "console \<Rightarrow> u8 list" where
  "ready_input c = ring_list INPUT_BUF_SIZE (cbuf c) (read_idx c) (unat (write_idx c - read_idx c))"

definition cur_line :: "console \<Rightarrow> u8 list" where
  "cur_line c = ring_list INPUT_BUF_SIZE (cbuf c) (write_idx c) (unat (edit_idx c - write_idx c))"

definition console_ok :: "console \<Rightarrow> bool" where
  "console_ok c \<longleftrightarrow>
     length (cbuf c) = INPUT_BUF_SIZE \<and>
     unat (write_idx c - read_idx c) + unat (edit_idx c - write_idx c) \<le> INPUT_BUF_SIZE \<and>
     10 \<notin> set (cur_line c) \<and> sem_ok (csem c)"

interpretation cring: ring_index INPUT_BUF_SIZE "TYPE(64)"
  by unfold_locales (simp_all add: INPUT_BUF_SIZE_def dvd_def)

lemma console_lengths [simp]:
  "length (ready_input c) = unat (write_idx c - read_idx c)" "length (cur_line c) = unat (edit_idx c - write_idx c)"
  by (simp_all add: ready_input_def cur_line_def)

lemma edit_distance:
  assumes "console_ok c"
  shows "unat (edit_idx c - read_idx c) = length (ready_input c) + length (cur_line c)"
proof -
  let ?a = "write_idx c - read_idx c" and ?b = "edit_idx c - write_idx c"
  have le: "unat ?a + unat ?b \<le> 128" using assms by (simp add: console_ok_def INPUT_BUF_SIZE_def)
  have add: "unat (a + b) = unat a + unat b" if "unat a + unat b \<le> 128" for a b :: u64
    using that by (simp add: unat_word_ariths(1))
  have "edit_idx c - read_idx c = ?a + ?b" by simp
  then show ?thesis using add [OF le] by simp
qed

lemma rub_out_ok:
  assumes ok: "console_ok c" and ne: "edit_idx c \<noteq> write_idx c"
  shows "console_ok (c\<lparr>edit_idx := edit_idx c - 1\<rparr>)" and "cur_line c = cur_line (c\<lparr>edit_idx := edit_idx c - 1\<rparr>) @
      [cbuf c ! (unat (edit_idx c - 1) mod INPUT_BUF_SIZE)]"
    and "ready_input (c\<lparr>edit_idx := edit_idx c - 1\<rparr>) = ready_input c"
proof -
  let ?c = "c\<lparr>edit_idx := edit_idx c - 1\<rparr>"
  have "edit_idx c - write_idx c \<noteq> 0" using ne by simp
  from unat_minus_one [OF this] have "unat (edit_idx c - 1 - write_idx c) = unat (edit_idx c - write_idx c) - 1"
    by (simp add: algebra_simps)
  moreover have "unat (edit_idx c - write_idx c) \<noteq> 0" using \<open>edit_idx c - write_idx c \<noteq> 0\<close> by (simp add: unat_eq_0)
  ultimately have s: "unat (edit_idx c - write_idx c) = unat (edit_idx c - 1 - write_idx c) + 1" by simp
  have at: "write_idx c + of_nat (unat (edit_idx c - 1 - write_idx c)) = edit_idx c - 1" by simp
  show line: "cur_line c = cur_line ?c @ [cbuf c ! (unat (edit_idx c - 1) mod INPUT_BUF_SIZE)]"
    unfolding cur_line_def s cring.split by (simp add: cring.step at)
  show "console_ok ?c" using ok s line by (auto simp: console_ok_def)
  show "ready_input ?c = ready_input c" by (simp add: ready_input_def)
qed

lemma kill_line_result:
  assumes "console_ok c"
  shows "console_ok (snd (kill_line c)) \<and> cur_line (snd (kill_line c)) = [] \<and>
    ready_input (snd (kill_line c)) = ready_input c \<and> locked (snd (kill_line c)) = locked c \<and>
    length (fst (kill_line c)) = 3 * length (cur_line c)"
  using assms
proof (induction c rule: kill_line.induct)
  case (1 c)
  show ?case
  proof (cases "edit_idx c = write_idx c")
    case True
    then show ?thesis using 1(2) by (subst (1 2 3 4 5) kill_line.simps) (simp add: cur_line_def)
  next
    case False
    note r = rub_out_ok [OF 1(2) False]
    have nl: "cbuf c ! (unat (edit_idx c - 1) mod INPUT_BUF_SIZE) \<noteq> 10"
      using r(2) 1(2) by (auto simp: console_ok_def)
    have "kill_line c = (rub_out @ fst (kill_line (c\<lparr>edit_idx := edit_idx c - 1\<rparr>)), snd (kill_line (c\<lparr>edit_idx := edit_idx c - 1\<rparr>)))"
      using False nl by (subst kill_line.simps) (simp add: case_prod_beta Let_def)
    moreover have "length (cur_line c) = Suc (length (cur_line (c\<lparr>edit_idx := edit_idx c - 1\<rparr>)))"
      using arg_cong [OF r(2), of length] by (simp only: length_append_singleton)
    ultimately show ?thesis using 1(1) False nl r by (simp add: uart_put_char_def)
  qed
qed

text \<open>The handler as an operation on the two lists.\<close>

definition intr_spec :: "u8 \<Rightarrow> u8 list \<times> u8 list \<Rightarrow> u8 list \<times> u8 list" where
  "intr_spec ch = (\<lambda>(inp, line).
     if ch = C 85 then (inp, [])
     else if ch = C 72 \<or> ch = 127 then (inp, butlast line)
     else if ch = 0 \<or> INPUT_BUF_SIZE \<le> length inp + length line then (inp, line)
     else
       let ch1 = (if ch = 13 then 10 else ch)
       in if ch1 = 10 \<or> ch1 = C 68 \<or> length inp + length line + 1 = INPUT_BUF_SIZE
          then (inp @ line @ [ch1], []) else (inp, line @ [ch1]))"

lemma type_char:
  fixes c :: console and ch :: u8
  defines "c1 \<equiv> c\<lparr>cbuf := (cbuf c)[unat (edit_idx c) mod INPUT_BUF_SIZE := ch], edit_idx := edit_idx c + 1\<rparr>"
  assumes ok: "console_ok c" and room: "unat (edit_idx c - read_idx c) < INPUT_BUF_SIZE"
  shows "ready_input c1 = ready_input c" and "cur_line c1 = cur_line c @ [ch]"
    and "unat (edit_idx c1 - write_idx c1) = Suc (unat (edit_idx c - write_idx c))"
    and "unat (edit_idx c1 - read_idx c1) = Suc (unat (edit_idx c - read_idx c))"
proof -
  let ?a = "unat (write_idx c - read_idx c)" and ?b = "unat (edit_idx c - write_idx c)"
  have len: "length (cbuf c) = INPUT_BUF_SIZE" using ok by (simp add: console_ok_def)
  have ab: "?a + ?b < INPUT_BUF_SIZE" using edit_distance [OF ok] room by simp
  have at: "write_idx c + of_nat ?b = edit_idx c" "read_idx c + of_nat (?a + ?b) = edit_idx c" by simp_all
  have bump: "unat (w + 1) = Suc (unat w)" if "unat w < INPUT_BUF_SIZE" for w :: u64
    using that by (simp add: unat_word_ariths(1) INPUT_BUF_SIZE_def)
  have e: "edit_idx c + 1 - write_idx c = (edit_idx c - write_idx c) + 1"
    "edit_idx c + 1 - read_idx c = (edit_idx c - read_idx c) + 1" by simp_all
  show s: "unat (edit_idx c1 - write_idx c1) = Suc ?b" using bump ab by (simp add: c1_def e)
  show "unat (edit_idx c1 - read_idx c1) = Suc (unat (edit_idx c - read_idx c))" using bump room by (simp add: c1_def e)
  show "ready_input c1 = ready_input c"
    using cring.beyond [OF _ ab len, of ?a "read_idx c" ch, unfolded at] by (simp add: ready_input_def c1_def)
  have "?b < INPUT_BUF_SIZE" using ab by simp
  from cring.snoc [OF this len, of "write_idx c" ch, unfolded at] show "cur_line c1 = cur_line c @ [ch]"
    unfolding cur_line_def s by (simp add: c1_def)
qed

lemma console_intr_refines:
  assumes ok: "console_ok c" and free: "\<not> locked c"
  shows "\<exists>out c'. console_intr ch c = Ret (out, c') \<and> console_ok c' \<and> \<not> locked c' \<and>
    (ready_input c', cur_line c') = intr_spec ch (ready_input c, cur_line c)"
proof -
  have len: "length (cbuf c) = INPUT_BUF_SIZE" and sem: "sem_ok (csem c)" and nl: "10 \<notin> set (cur_line c)"
    using ok by (simp_all add: console_ok_def)
  have dist: "unat (edit_idx c - read_idx c) = length (ready_input c) + length (cur_line c)" by (rule edit_distance [OF ok])
  consider "ch = C 85" | "ch \<noteq> C 85" "ch = C 72 \<or> ch = 127"
    | "ch \<noteq> C 85" "\<not> (ch = C 72 \<or> ch = 127)" "ch = 0 \<or> INPUT_BUF_SIZE \<le> unat (edit_idx c - read_idx c)"
    | "ch \<noteq> C 85" "\<not> (ch = C 72 \<or> ch = 127)" "ch \<noteq> 0" "unat (edit_idx c - read_idx c) < INPUT_BUF_SIZE" by linarith
  then show ?thesis
  proof cases
    case 1
    then show ?thesis using kill_line_result [OF ok] free
      by (cases "kill_line c") (simp add: console_intr_def intr_spec_def)
  next
    case 2
    show ?thesis
    proof (cases "edit_idx c = write_idx c")
      case True
      then have "cur_line c = []" by (simp add: cur_line_def)
      then show ?thesis using 2 True ok free by (auto simp: console_intr_def intr_spec_def)
    next
      case False
      note r = rub_out_ok [OF ok False]
      have "butlast (cur_line c) = cur_line (c\<lparr>edit_idx := edit_idx c - 1\<rparr>)" unfolding r(2) by simp
      then show ?thesis using 2 False r(1,3) free by (auto simp: console_intr_def intr_spec_def)
    qed
  next
    case 3
    then show ?thesis using ok free dist by (auto simp: console_intr_def intr_spec_def)
  next
    case 4
    define ch1 where "ch1 = (if ch = 13 then 10 else ch)"
    define c1 where "c1 = c\<lparr>cbuf := (cbuf c)[unat (edit_idx c) mod INPUT_BUF_SIZE := ch1], edit_idx := edit_idx c + 1\<rparr>"
    note t = type_char [OF ok 4(4), of ch1, folded c1_def]
    have c1s: "length (cbuf c1) = INPUT_BUF_SIZE" "csem c1 = csem c" "locked c1 = locked c" "read_idx c1 = read_idx c"
      "write_idx c1 = write_idx c" by (simp_all add: c1_def len)
    have e1: "edit_idx c1 = edit_idx c + 1" by (simp add: c1_def)
    show ?thesis
    proof (cases "ch1 = 10 \<or> ch1 = C 68 \<or> unat (edit_idx c1 - read_idx c1) = INPUT_BUF_SIZE")
      case True
      obtain w s where s: "cond_signal (csem c) = Ret (w, s)" "sem_ok s"
        using sem_ok_post [OF sem] post_sem_result [OF sem] by (auto simp: cond_signal_def split: list.splits)
      let ?c = "c1\<lparr>csem := s, write_idx := edit_idx c1\<rparr>"
      have run: "console_intr ch c = Ret (uart_put_char ch1, ?c)"
        using 4 True free s(1) c1s(2,4) by (simp add: console_intr_def Let_def e1 flip: ch1_def c1_def)
      have "unat (edit_idx c1 - read_idx c1) = unat (write_idx c1 - read_idx c1) + unat (edit_idx c1 - write_idx c1)"
        using t(3,4) dist c1s(4,5) by simp
      then have "ready_input ?c = ring_list INPUT_BUF_SIZE (cbuf c1) (read_idx c1) (unat (write_idx c1 - read_idx c1)) @
          ring_list INPUT_BUF_SIZE (cbuf c1) (write_idx c1) (unat (edit_idx c1 - write_idx c1))"
        using cring.split [of "cbuf c1" "read_idx c1"] by (simp add: ready_input_def)
      then have "ready_input ?c = ready_input c @ cur_line c @ [ch1]"
        using t(1,2) by (simp add: ready_input_def cur_line_def)
      moreover have "cur_line ?c = []" by (simp add: cur_line_def)
      moreover have "console_ok ?c"
        using c1s(1) s(2) t(4) 4(4) by (simp add: console_ok_def cur_line_def)
      moreover have "intr_spec ch (ready_input c, cur_line c) = (ready_input c @ cur_line c @ [ch1], [])"
        using 4 True dist t(4) by (auto simp: intr_spec_def Let_def simp flip: ch1_def)
      ultimately show ?thesis using run free c1s(3) by auto
    next
      case False
      have run: "console_intr ch c = Ret (uart_put_char ch1, c1)"
        using 4 False free c1s(4) by (simp add: console_intr_def Let_def e1 flip: ch1_def c1_def)
      have "console_ok c1"
        using c1s sem t nl False 4(4) dist by (simp add: console_ok_def)
      moreover have "intr_spec ch (ready_input c, cur_line c) = (ready_input c, cur_line c @ [ch1])"
        using 4 False dist t(4) by (auto simp: intr_spec_def Let_def simp flip: ch1_def)
      ultimately show ?thesis using run free c1s(3) t(1,2) by auto
    qed
  qed
qed

section \<open>Reading\<close>

text \<open>
  What a call for \<open>n\<close> characters takes out of the finished input: whether it is over, how
  many it still wants, what it has read and what is left. A line ends the call, and so
  does the end-of-file character, which is not handed over.
\<close>

fun take_line :: "nat \<Rightarrow> u8 list \<Rightarrow> bool \<times> nat \<times> u8 list \<times> u8 list" where
  "take_line 0 inp = (True, 0, [], inp)"
| "take_line (Suc n) [] = (False, Suc n, [], [])"
| "take_line (Suc n) (b # bs) =
     (if b = C 68 then (True, Suc n, [], bs)
      else if b = 10 then (True, n, [b], bs)
      else let (fin, k, r, rest) = take_line n bs in (fin, k, b # r, rest))"

lemma read_char_ok:
  assumes ok: "console_ok c" and ne: "read_idx c \<noteq> write_idx c"
  shows "ready_input c = cbuf c ! (unat (read_idx c) mod INPUT_BUF_SIZE) # ready_input (c\<lparr>read_idx := read_idx c + 1\<rparr>)"
    and "console_ok (c\<lparr>read_idx := read_idx c + 1\<rparr>)" and "cur_line (c\<lparr>read_idx := read_idx c + 1\<rparr>) = cur_line c"
proof -
  let ?c = "c\<lparr>read_idx := read_idx c + 1\<rparr>"
  have nz: "write_idx c - read_idx c \<noteq> 0" using ne by simp
  from unat_minus_one [OF this] have "unat (write_idx c - (read_idx c + 1)) = unat (write_idx c - read_idx c) - 1"
    by (simp add: algebra_simps)
  moreover have "unat (write_idx c - read_idx c) \<noteq> 0" using nz by (simp add: unat_eq_0)
  ultimately have s: "unat (write_idx c - read_idx c) = Suc (unat (write_idx c - (read_idx c + 1)))" by simp
  show "ready_input c = cbuf c ! (unat (read_idx c) mod INPUT_BUF_SIZE) # ready_input ?c"
    unfolding ready_input_def s by (simp add: cring.step)
  show line: "cur_line ?c = cur_line c" by (simp add: cur_line_def)
  show "console_ok ?c" using ok s line by (simp add: console_ok_def)
qed

lemma console_ok_sem:
  "console_ok (c\<lparr>csem := s, locked := l\<rparr>) \<longleftrightarrow> console_ok c \<and> sem_ok s" if "sem_ok (csem c)"
  using that by (auto simp: console_ok_def cur_line_def)

lemma console_lists_sem [simp]:
  "ready_input (c\<lparr>csem := s, locked := l\<rparr>) = ready_input c" "cur_line (c\<lparr>csem := s, locked := l\<rparr>) = cur_line c"
  "ready_input (c\<lparr>csem := s\<rparr>) = ready_input c" "cur_line (c\<lparr>csem := s\<rparr>) = cur_line c"
  "ready_input (c\<lparr>locked := l\<rparr>) = ready_input c" "cur_line (c\<lparr>locked := l\<rparr>) = cur_line c"
  "console_ok (c\<lparr>locked := l\<rparr>) = console_ok c"
  by (simp_all add: ready_input_def cur_line_def console_ok_def)

lemma console_read_run_result:
  assumes "console_ok c" and "\<not> waits p (csem c)"
  shows "\<exists>fin k r rest c'. take_line n (ready_input c) = (fin, k, r, rest) \<and>
    console_read_run p n dst c = Ret (fin, k, dst @ r, c') \<and> console_ok c' \<and> \<not> locked c' \<and>
    ready_input c' = rest \<and> cur_line c' = cur_line c \<and> (\<not> fin \<longrightarrow> p \<in> set (sleeplist (csem c')))"
  using assms
proof (induction p n dst c rule: console_read_run.induct)
  case (1 p n dst c)
  have sem: "sem_ok (csem c)" using 1(3) by (simp add: console_ok_def)
  consider "n = 0" | "0 < n" "read_idx c = write_idx c" | "0 < n" "read_idx c \<noteq> write_idx c" by blast
  then show ?case
  proof cases
    case 1
    then have "console_read_run p n dst c = Ret (True, 0, dst, c\<lparr>locked := False\<rparr>)"
      by (subst console_read_run.simps) simp
    then show ?thesis using 1 \<open>console_ok c\<close> by auto
  next
    case 2
    have empty: "ready_input c = []" using 2(2) by (simp add: ready_input_def)
    obtain m where n: "n = Suc m" using 2(1) by (cases n) auto
    from cond_wait_result [OF sem 1(4)] obtain got s where
      s: "cond_wait_enter p (csem c) = Ret (got, s)" "sem_ok s" "up s = up (csem c)"
      "if got then sleeplist s = sleeplist (csem c) else sleeplist s = sleeplist (csem c) @ [p]" by blast
    let ?c = "c\<lparr>csem := s, locked := False\<rparr>"
    have ok: "console_ok ?c" using console_ok_sem [OF sem] 1(3) s(2) by blast
    show ?thesis
    proof (cases got)
      case True
      have "console_read_run p n dst c = console_read_run p n dst ?c"
        using 2 s True by (subst console_read_run.simps) simp
      moreover have "\<exists>fin k r rest c'. take_line n (ready_input ?c) = (fin, k, r, rest) \<and>
          console_read_run p n dst ?c = Ret (fin, k, dst @ r, c') \<and> console_ok c' \<and> \<not> locked c' \<and>
          ready_input c' = rest \<and> cur_line c' = cur_line ?c \<and> (\<not> fin \<longrightarrow> p \<in> set (sleeplist (csem c')))"
        using 1(1) 2 s True ok 1(4) by simp
      ultimately show ?thesis by simp
    next
      case False
      have "console_read_run p n dst c = Ret (False, n, dst, ?c)"
        using 2 s False by (subst console_read_run.simps) simp
      then show ?thesis using ok empty s False n by auto
    qed
  next
    case 3
    obtain m where n: "n = Suc m" using 3(1) by (cases n) auto
    let ?ch = "cbuf c ! (unat (read_idx c) mod INPUT_BUF_SIZE)" and ?c = "c\<lparr>read_idx := read_idx c + 1\<rparr>"
    note r = read_char_ok [OF 1(3) 3(2)]
    show ?thesis
    proof (cases "?ch = C 68 \<or> ?ch = 10")
      case True
      then show ?thesis using 3 r n
        by (subst console_read_run.simps) (auto simp: Let_def C_def)
    next
      case False
      have "console_read_run p n dst c = console_read_run p m (dst @ [?ch]) ?c"
        using 3 False n by (subst console_read_run.simps) (simp add: Let_def)
      moreover have "\<exists>fin k rr rest c'. take_line m (ready_input ?c) = (fin, k, rr, rest) \<and>
          console_read_run p m (dst @ [?ch]) ?c = Ret (fin, k, (dst @ [?ch]) @ rr, c') \<and> console_ok c' \<and> \<not> locked c' \<and>
          ready_input c' = rest \<and> cur_line c' = cur_line ?c \<and> (\<not> fin \<longrightarrow> p \<in> set (sleeplist (csem c')))"
        using 1(2) 3 False n r(2) 1(4) by simp
      ultimately show ?thesis using r(1,3) n False by fastforce
    qed
  qed
qed

section \<open>Properties\<close>

text \<open>
  C25: the interrupt handler edits a line. On the finished input and the current line it
  acts as \<open>intr_spec\<close> says: \<^verbatim>\<open>^U\<close> drops the line, backspace and delete drop its last
  character, other characters are appended, and a line is finished by a newline (also
  typed as carriage return), by end-of-file or by filling the buffer. Input that does not
  fit is dropped. Nothing already finished is ever changed, and the indices may wrap.
\<close>

theorem console_edits_line:
  assumes "console_ok c" and "\<not> locked c"
  shows "\<exists>out c'. console_intr ch c = Ret (out, c') \<and> console_ok c' \<and> \<not> locked c' \<and>
    (ready_input c', cur_line c') = intr_spec ch (ready_input c, cur_line c)"
  using assms by (rule console_intr_refines)

lemma init_console_ok: "console_ok init_console" "\<not> locked init_console" "ready_input init_console = []" "cur_line init_console = []"
  by (simp_all add: init_console_def console_ok_def cur_line_def ready_input_def sem_ok_init)

theorem console_edits_line_witness:
  "\<exists>out c'. console_intr 97 init_console = Ret (out, c') \<and> (ready_input c', cur_line c') = ([], [97])"
  using console_edits_line [OF init_console_ok(1,2), of 97] init_console_ok(3,4)
  by (auto simp: intr_spec_def INPUT_BUF_SIZE_def C_def)

text \<open>
  C33: \<^verbatim>\<open>console_read\<close> hands over the finished input up to the end of the line, the end-of-file
  character or the number of characters wanted, and leaves the rest for the next call. It
  goes to sleep only when the finished input is used up before that.
\<close>

theorem console_read_takes_line:
  assumes "console_ok c" and "\<not> locked c" and "\<not> waits p (csem c)"
  shows "\<exists>fin k r rest c'. take_line n (ready_input c) = (fin, k, r, rest) \<and>
    console_read p n c = Ret (fin, k, r, c') \<and> console_ok c' \<and>
    ready_input c' = rest \<and> cur_line c' = cur_line c \<and> (\<not> fin \<longrightarrow> p \<in> set (sleeplist (csem c')))"
  using console_read_run_result [of "c\<lparr>locked := True\<rparr>" p n "[]"] assms by (auto simp: console_read_def)

theorem console_read_takes_line_witness:
  "\<exists>k r c'. console_read 3 5 init_console = Ret (False, k, r, c') \<and> 3 \<in> set (sleeplist (csem c'))"
proof -
  have "\<not> waits 3 (csem init_console)" by (simp add: init_console_def init_sem_def)
  from console_read_takes_line [OF init_console_ok(1,2) this, of 5] show ?thesis
    by (auto simp: init_console_ok(3) numeral_eq_Suc)
qed

end
