(* ===== verification/Mem.thy ===== *)
theory Mem
  imports Prelude
begin

text \<open>
  The memory allocator (\<^verbatim>\<open>kernel/mem.c\<close>): a list of free pages, and slab lists of pages cut into
  partitions of equal size. Memory is a function from addresses to 64-bit words. The free
  partitions of a page are chained through their first words, exactly as in the code. A
  \<^verbatim>\<open>struct list\<close> is the sequence of its nodes (theory \<open>Clist\<close> shows that this is what the list
  operations implement); removing a node from a list it is not on is undefined here. The
  links of \<^verbatim>\<open>pages_free\<close> live in the free pages themselves; a page that leaves the list is
  linked to itself. For \<^verbatim>\<open>pages_free\<close> the field \<^verbatim>\<open>size\<close> is kept apart from the sequence: freeing
  the page that is the last one of the list already links it to the same place again and
  only the size grows. Freeing any other page of the list cuts the list short, which is
  undefined here.
\<close>

section \<open>Addresses\<close>

definition PAGE_SIZE :: nat where "PAGE_SIZE = 4096"
definition KSPACE_MASK :: u64 where "KSPACE_MASK = 0xffff000000000000"
definition PHYSTOP :: u64 where "PHYSTOP = 0x3f000000"
definition MAX_PAGES :: nat where "MAX_PAGES = 1048576"
definition SLAB_MAX_ORDER :: nat where "SLAB_MAX_ORDER = 11"

definition K2P :: "u64 \<Rightarrow> u64" where "K2P a = a - KSPACE_MASK"
definition P2K :: "u64 \<Rightarrow> u64" where "P2K a = a + KSPACE_MASK"

definition PAGE_BASE :: "u64 \<Rightarrow> u64" where
  "PAGE_BASE a = a AND NOT (of_nat (PAGE_SIZE - 1))"

section \<open>State\<close>

text \<open>
  \<open>struct page\<close> with its \<^verbatim>\<open>partitioned_node\<close>; a page is named by its index in \<^verbatim>\<open>page_info\<close>. The
  field \<open>end_addr\<close> is the address of the linker symbol \<^verbatim>\<open>end\<close>.
\<close>

record page =
  addr :: u64
  base_size :: nat
  free_head :: u64
  alloc_partitions_cnt :: nat
  bucket_index :: nat
  ref :: int

record kmem =
  kwords :: "u64 \<Rightarrow> u64"
  page_info :: "nat \<Rightarrow> page"
  pages_free :: "u64 list"
  free_size :: nat
  slabs :: "nat \<Rightarrow> nat list"
  alloc_page_cnt :: int
  zero_pg :: u64
  end_addr :: u64

definition VA2ID :: "kmem \<Rightarrow> u64 \<Rightarrow> nat" where
  "VA2ID m v = unat ((v - PAGE_BASE (end_addr m) - of_nat PAGE_SIZE) div of_nat PAGE_SIZE)"

definition upd_page :: "nat \<Rightarrow> (page \<Rightarrow> page) \<Rightarrow> kmem \<Rightarrow> kmem" where
  "upd_page i f m = m\<lparr>page_info := (page_info m)(i := f (page_info m i))\<rparr>"

section \<open>Pages\<close>

text \<open>Start-up: every page between \<^verbatim>\<open>end\<close> and the top of memory is free.\<close>

function init_pages_loop :: "u64 \<Rightarrow> nat \<Rightarrow> kmem \<Rightarrow> kmem outcome" where
  "init_pages_loop p n m =
     (if p < P2K PHYSTOP then
        if MAX_PAGES \<le> n then Panic
        else
          init_pages_loop (p + of_nat PAGE_SIZE) (n + 1)
            (upd_page n (\<lambda>pg. pg\<lparr>addr := p, base_size := 0, free_head := p, alloc_partitions_cnt := 0\<rparr>)
              (m\<lparr>pages_free := pages_free m @ [p], free_size := free_size m + 1\<rparr>))
      else Ret m)"
  by pat_completeness auto
termination by (relation "measure (\<lambda>(_, n, _). MAX_PAGES - n)") auto

declare init_pages_loop.simps [simp del]

definition init_pages :: "kmem \<Rightarrow> kmem outcome" where
  "init_pages m =
     andthen (init_pages_loop (PAGE_BASE (end_addr m) + of_nat PAGE_SIZE) 0
       (m\<lparr>alloc_page_cnt := 0, pages_free := [], free_size := 0\<rparr>))
     (\<lambda>m1. Ret (m1\<lparr>slabs := (\<lambda>_. [])\<rparr>))"

definition kalloc_page :: "kmem \<Rightarrow> (u64 \<times> kmem) outcome" where
  "kalloc_page m =
     (case pages_free m of
        [] \<Rightarrow> Undef
      | p # ps \<Rightarrow>
          if free_size m = 1 then
            Ret (p, m\<lparr>alloc_page_cnt := alloc_page_cnt m + 1, pages_free := [], free_size := 0,
              kwords := (kwords m)(p := p, p + 8 := p)\<rparr>)
          else
            andthen (ASSERT (ps \<noteq> [])) (\<lambda>_.
            Ret (p, m\<lparr>alloc_page_cnt := alloc_page_cnt m + 1, pages_free := ps, free_size := free_size m - 1,
              kwords := (kwords m)(p := p, p + 8 := p)\<rparr>)))"

definition kfree_page :: "u64 \<Rightarrow> kmem \<Rightarrow> kmem outcome" where
  "kfree_page p m =
     (let m1 = m\<lparr>alloc_page_cnt := alloc_page_cnt m - 1, free_size := free_size m + 1\<rparr> in
      if p \<notin> set (pages_free m) then Ret (m1\<lparr>pages_free := pages_free m @ [p]\<rparr>)
      else if p = last (pages_free m) then Ret m1
      else Undef)"

definition fill_zero :: "u64 \<Rightarrow> (u64 \<Rightarrow> u64) \<Rightarrow> u64 \<Rightarrow> u64" where
  "fill_zero p w = (\<lambda>a. if PAGE_BASE a = p then 0 else w a)"

definition init_zero_page :: "kmem \<Rightarrow> kmem outcome" where
  "init_zero_page m =
     andthen (kalloc_page m) (\<lambda>(p, m1). Ret (m1\<lparr>zero_pg := p, kwords := fill_zero p (kwords m1)\<rparr>))"

section \<open>Partitions\<close>

text \<open>
  Rounding up to a power of two. The counter is 16 bits wide: for sizes above 32768 it becomes 0
  and the loop never ends.
\<close>

partial_function (option) round_up_loop :: "int \<Rightarrow> u16 \<Rightarrow> nat \<Rightarrow> (u16 \<times> nat) option" where
  "round_up_loop s result index =
     (if uint result < s then round_up_loop s (push_bit 1 result) (index + 1) else Some (result, index))"

text \<open>The result is the power of two, the size used and the index of the slab list.\<close>

definition round_up :: "int \<Rightarrow> (u16 \<times> nat \<times> nat) option" where
  "round_up s =
     (if s = 0 then Some (0, 0, 0)
      else
        case round_up_loop s 1 0 of
          None \<Rightarrow> None
        | Some (result, index) \<Rightarrow>
            Some (result, if 8 \<le> result then unat result else 8, if 3 \<le> index then index else 3))"

text \<open>The loop that chains the partitions of a page.\<close>

partial_function (option) chain_loop :: "u64 \<Rightarrow> u64 \<Rightarrow> u64 \<Rightarrow> (u64 \<Rightarrow> u64) \<Rightarrow> (u64 \<times> (u64 \<Rightarrow> u64)) option" where
  "chain_loop p stop r w =
     (if p < stop then chain_loop (p + r) stop r (w(p := p + r)) else Some (p, w))"

definition partition_page :: "nat \<Rightarrow> nat \<Rightarrow> kmem \<Rightarrow> (nat \<times> kmem) outcome" where
  "partition_page rounded_size bucket m =
     andthen (kalloc_page m) (\<lambda>(pg, m1).
     if pg = 0 then Undef
     else
       case chain_loop pg (pg + of_nat PAGE_SIZE - of_nat rounded_size) (of_nat rounded_size) (kwords m1) of
         None \<Rightarrow> Undef
       | Some (p, w) \<Rightarrow>
           let i = VA2ID m1 pg in
           if MAX_PAGES \<le> i then Undef
           else
             Ret (i, upd_page i (\<lambda>pi. pi\<lparr>addr := pg, base_size := rounded_size, free_head := pg,
                 bucket_index := bucket\<rparr>) (m1\<lparr>kwords := w(p := 0)\<rparr>)))"

definition alloc_partition :: "nat \<Rightarrow> kmem \<Rightarrow> u64 \<times> kmem" where
  "alloc_partition i m =
     (let f = free_head (page_info m i) in
      (f, upd_page i (\<lambda>pi. pi\<lparr>free_head := kwords m f, alloc_partitions_cnt := alloc_partitions_cnt pi + 1\<rparr>) m))"

definition has_room :: "kmem \<Rightarrow> nat \<Rightarrow> bool" where
  "has_room m i \<longleftrightarrow>
     alloc_partitions_cnt (page_info m i) + 1 < PAGE_SIZE div base_size (page_info m i)"

definition kalloc :: "int \<Rightarrow> kmem \<Rightarrow> (u64 \<times> kmem) outcome" where
  "kalloc s m =
     andthen (ASSERT (0 < s \<and> s \<le> int PAGE_SIZE)) (\<lambda>_.
     if 2048 < s then kalloc_page m
     else
       case round_up s of
         None \<Rightarrow> Undef
       | Some (_, rounded_size, bucket) \<Rightarrow>
           (case find (has_room m) (slabs m bucket) of
              Some i \<Rightarrow> Ret (alloc_partition i m)
            | None \<Rightarrow>
                andthen (partition_page rounded_size bucket m) (\<lambda>(i, m1).
                Ret (alloc_partition i (m1\<lparr>slabs := (slabs m1)(bucket := slabs m1 bucket @ [i])\<rparr>)))))"

definition kfree :: "u64 \<Rightarrow> kmem \<Rightarrow> kmem outcome" where
  "kfree p m =
     (let i = VA2ID m p in
      if MAX_PAGES \<le> i then Undef
      else
        let m1 = upd_page i (\<lambda>pi. pi\<lparr>alloc_partitions_cnt := alloc_partitions_cnt pi - 1\<rparr>) m;
            pi = page_info m1 i;
            f = free_head pi;
            m2 = m1\<lparr>kwords := (kwords m1)(f := p, p := kwords m1 f)\<rparr>
        in if f = 0 then Undef
           else if alloc_partitions_cnt pi = 0 then
             if i \<in> set (slabs m2 (bucket_index pi)) then
               kfree_page (addr pi)
                 (m2\<lparr>slabs := (slabs m2)(bucket_index pi := remove1 i (slabs m2 (bucket_index pi)))\<rparr>)
             else Undef
           else Ret m2)"

section \<open>Queries\<close>

definition PAGE_COUNT :: "kmem \<Rightarrow> u64" where
  "PAGE_COUNT m = (P2K PHYSTOP - PAGE_BASE (end_addr m)) div of_nat PAGE_SIZE - 1"

definition left_page_cnt :: "kmem \<Rightarrow> u64" where
  "left_page_cnt m = PAGE_COUNT m - of_int (alloc_page_cnt m)"

definition get_zero_page :: "kmem \<Rightarrow> u64" where
  "get_zero_page m = zero_pg m"

definition get_page_info_by_kaddr :: "kmem \<Rightarrow> u64 \<Rightarrow> nat option" where
  "get_page_info_by_kaddr m a = (let i = VA2ID m a in if MAX_PAGES \<le> i then None else Some i)"

end
