(* ===== verification/Mem_Safe.thy ===== *)
theory Mem_Safe
  imports Mem
begin

text \<open>
  Safety of the memory allocator. The blocks handed out and not yet given back never overlap,
  whatever is allocated, freed and written in between, and no call on a block in use fails.
  The invariant says for every page on a slab list that the chain of its free partitions
  and its partitions in use make up the page.
\<close>

section \<open>Places in memory\<close>

text \<open>Byte \<open>k\<close> of the memory that the allocator manages.\<close>

definition adr :: "kmem \<Rightarrow> nat \<Rightarrow> u64" where
  "adr m k = PAGE_BASE (end_addr m) + of_nat PAGE_SIZE + of_nat k"

definition geom :: "nat \<Rightarrow> kmem \<Rightarrow> bool" where
  "geom n m \<longleftrightarrow> n \<le> MAX_PAGES \<and> 0 < unat (adr m 0) \<and> unat (adr m 0) + PAGE_SIZE * n < 2 ^ 64"

lemma PAGE_SIZE_simps [simp]: "0 < PAGE_SIZE" "PAGE_SIZE \<noteq> 0"
  by (simp_all add: PAGE_SIZE_def)

lemma unat_u64: "x < 2 ^ 64 \<Longrightarrow> unat (of_nat x :: u64) = x"
  by (simp add: unat_of_nat)

lemma adr_add: "adr m (k + j) = adr m k + of_nat j"
  by (simp add: adr_def)

lemma unat_adr:
  assumes "geom n m" and "k \<le> PAGE_SIZE * n"
  shows "unat (adr m k) = unat (adr m 0) + k"
proof -
  have "adr m k = adr m 0 + of_nat k" by (simp add: adr_def)
  moreover have "unat (adr m 0) + k < 2 ^ 64" using assms by (simp add: geom_def)
  ultimately show ?thesis by (simp add: unat_word_ariths unat_of_nat)
qed

lemma adr_inj:
  assumes "geom n m" and "k \<le> PAGE_SIZE * n" and "j \<le> PAGE_SIZE * n"
  shows "adr m k = adr m j \<longleftrightarrow> k = j"
  using unat_adr [OF assms(1,2)] unat_adr [OF assms(1,3)] by (metis add_left_cancel)

lemma adr_nonzero: "geom n m \<Longrightarrow> k \<le> PAGE_SIZE * n \<Longrightarrow> adr m k \<noteq> 0"
  using unat_adr [of n m k] by (auto simp: geom_def)

lemma VA2ID_adr:
  assumes "geom n m" and "k < PAGE_SIZE * n"
  shows "VA2ID m (adr m k) = k div PAGE_SIZE" and "k div PAGE_SIZE < n"
proof -
  have "k < 2 ^ 64" using assms by (simp add: geom_def)
  then show "VA2ID m (adr m k) = k div PAGE_SIZE"
    by (simp add: VA2ID_def adr_def unat_div unat_of_nat PAGE_SIZE_def)
  show "k div PAGE_SIZE < n" using assms(2) by (simp add: div_less_iff_less_mult mult.commute)
qed

text \<open>The partitions of size \<open>z\<close> of page \<open>i\<close>.\<close>

definition parts :: "nat \<Rightarrow> nat \<Rightarrow> nat set" where
  "parts i z = (\<lambda>k. PAGE_SIZE * i + z * k) ` {..<PAGE_SIZE div z}"

lemma parts_bound:
  assumes "k \<in> parts i z" and "j < z" and "i < n"
  shows "k + j < PAGE_SIZE * n" and "(k + j) div PAGE_SIZE = i"
proof -
  from assms(1) obtain q where k: "k = PAGE_SIZE * i + z * q" and q: "q < PAGE_SIZE div z" by (auto simp: parts_def)
  have "z * q + j < z * (q + 1)" using assms(2) by simp
  also have "\<dots> \<le> z * (PAGE_SIZE div z)" using q by (intro mult_le_mono2) simp
  also have "\<dots> \<le> PAGE_SIZE" by (rule times_div_less_eq_dividend)
  finally have lt: "z * q + j < PAGE_SIZE" .
  have "PAGE_SIZE * (i + 1) \<le> PAGE_SIZE * n" using assms(3) by (intro mult_le_mono2) simp
  then show "k + j < PAGE_SIZE * n" using lt k by simp
  show "(k + j) div PAGE_SIZE = i" using lt k by (simp add: add.assoc)
qed

lemma parts_apart:
  assumes "k \<in> parts i z" and "k' \<in> parts i z" and "j < z" and "j' < z" and "k + j = k' + j'"
  shows "k = k'"
proof -
  from assms(1,2) obtain q q' where k: "k = PAGE_SIZE * i + z * q" "k' = PAGE_SIZE * i + z * q'" by (auto simp: parts_def)
  then have "z * q + j = z * q' + j'" using assms(5) by simp
  then have "(z * q + j) div z = (z * q' + j') div z" by simp
  then show ?thesis using k assms(3,4) by simp
qed

section \<open>Free chains\<close>

fun chain :: "(u64 \<Rightarrow> u64) \<Rightarrow> u64 \<Rightarrow> u64 list \<Rightarrow> bool" where
  "chain w f [] \<longleftrightarrow> f = 0"
| "chain w f (a # as) \<longleftrightarrow> f = a \<and> chain w (w a) as"

lemma chain_cong: "(\<And>a. a \<in> set as \<Longrightarrow> w a = w' a) \<Longrightarrow> chain w f as = chain w' f as"
  by (induction as arbitrary: f) auto

lemma chain_snoc: "chain w f (as @ [a]) \<Longrightarrow> chain (w(a := 0)) f (as @ [a])" if "a \<notin> set as"
  using that by (induction as arbitrary: f) auto

lemma chain_loop_result:
  assumes "unat p + z * k < 2 ^ 64" and "0 < z"
  shows "\<exists>w'. chain_loop p (p + of_nat (z * k)) (of_nat z) w = Some (p + of_nat (z * k), w') \<and>
    chain (w'(p + of_nat (z * k) := 0)) p (map (\<lambda>j. p + of_nat (z * j)) [0..<Suc k]) \<and>
    (\<forall>a. (\<forall>j<k. a \<noteq> p + of_nat (z * j)) \<longrightarrow> w' a = w a)"
  using assms(1)
proof (induction k arbitrary: p w)
  case 0
  show ?case by (subst chain_loop.simps) simp
next
  case (Suc k)
  have z64: "z < 2 ^ 64" "z * Suc k < 2 ^ 64" using Suc.prems assms(2) by (auto intro: le_less_trans)
  have lt: "p < p + of_nat (z * Suc k)"
    using Suc.prems assms(2) z64 by (simp only: word_less_nat_alt unat_word_ariths unat_of_nat) simp
  have up: "unat (p + of_nat z) = unat p + z"
    using Suc.prems by (simp add: unat_word_ariths unat_of_nat)
  have e: "p + of_nat z + of_nat (z * j) = p + of_nat (z * Suc j)" for j by simp
  have pre: "unat (p + of_nat z) + z * k < 2 ^ 64" using Suc.prems up by simp
  from Suc.IH [OF pre, of "w(p := p + of_nat z)", unfolded e] obtain w' where
    r: "chain_loop (p + of_nat z) (p + of_nat (z * Suc k)) (of_nat z) (w(p := p + of_nat z)) = Some (p + of_nat (z * Suc k), w')"
    and ch: "chain (w'(p + of_nat (z * Suc k) := 0)) (p + of_nat z) (map (\<lambda>j. p + of_nat (z * Suc j)) [0..<Suc k])"
    and fr: "\<forall>a. (\<forall>j<k. a \<noteq> p + of_nat (z * Suc j)) \<longrightarrow> w' a = (w(p := p + of_nat z)) a"
    by blast
  have ne: "p \<noteq> p + of_nat (z * Suc j)" if "j \<le> k" for j
  proof -
    have "z * Suc j \<le> z * Suc k" using that by (intro mult_le_mono2) simp
    then have "unat (of_nat (z * Suc j) :: u64) = z * Suc j" using z64(2) by (intro unat_u64) linarith
    then have "(of_nat (z * Suc j) :: u64) \<noteq> 0" using assms(2) by (metis mult_eq_0_iff nat.distinct(1) neq0_conv unat_0)
    then show ?thesis by (metis add.right_neutral add_left_cancel)
  qed
  have wp: "w' p = p + of_nat z" using fr ne by auto
  have m: "map (\<lambda>j. p + of_nat (z * j)) [0..<Suc (Suc k)] = p # map (\<lambda>j. p + of_nat (z * Suc j)) [0..<Suc k]"
    by (subst upt_conv_Cons) (simp_all add: map_Suc_upt [symmetric] comp_def del: upt_Suc mult_Suc_right)
  have "chain (w'(p + of_nat (z * Suc k) := 0)) p (map (\<lambda>j. p + of_nat (z * j)) [0..<Suc (Suc k)])"
    unfolding m using ch wp ne [of k] by simp
  moreover have "w' a = w a" if "\<forall>j<Suc k. a \<noteq> p + of_nat (z * j)" for a
    using fr that [rule_format, of "Suc _"] that [rule_format, of 0] by auto
  moreover have "chain_loop p (p + of_nat (z * Suc k)) (of_nat z) w = Some (p + of_nat (z * Suc k), w')"
    using lt r by (subst chain_loop.simps) simp
  ultimately show ?case by blast
qed

section \<open>Rounding\<close>

lemma round_up_loop_result:
  assumes "k \<le> 11" and "0 < s" and "s \<le> 2048" and "k = 0 \<or> 2 ^ (k - 1) < s"
  shows "\<exists>j. k \<le> j \<and> j \<le> 11 \<and> round_up_loop s (2 ^ k) k = Some (2 ^ j, j) \<and> s \<le> 2 ^ j \<and> (j = 0 \<or> 2 ^ (j - 1) < s)"
  using assms
proof (induction "11 - k" arbitrary: k)
  case 0
  then have "k = 11" by simp
  then show ?case using 0 by (subst round_up_loop.simps) auto
next
  case (Suc d)
  then have k: "k < 11" by simp
  then have "k = 0 \<or> k = 1 \<or> k = 2 \<or> k = 3 \<or> k = 4 \<or> k = 5 \<or> k = 6 \<or> k = 7 \<or> k = 8 \<or> k = 9 \<or> k = 10" by presburger
  then have u: "uint (2 ^ k :: u16) = 2 ^ k" by auto
  show ?case
  proof (cases "2 ^ k < s")
    case True
    have "push_bit 1 (2 ^ k :: u16) = 2 ^ (k + 1)" by (simp add: push_bit_eq_mult)
    with True u have "round_up_loop s (2 ^ k) k = round_up_loop s (2 ^ (k + 1)) (k + 1)"
      by (subst round_up_loop.simps) (simp add: mult.commute)
    moreover have "\<exists>j. k + 1 \<le> j \<and> j \<le> 11 \<and> round_up_loop s (2 ^ (k + 1)) (k + 1) = Some (2 ^ j, j) \<and> s \<le> 2 ^ j \<and>
        (j = 0 \<or> 2 ^ (j - 1) < s)"
      by (rule Suc.hyps(1)) (use Suc.hyps(2) Suc.prems k True in auto)
    then obtain j where
      "k + 1 \<le> j" "j \<le> 11" "round_up_loop s (2 ^ (k + 1)) (k + 1) = Some (2 ^ j, j)" "s \<le> 2 ^ j" "j = 0 \<or> 2 ^ (j - 1) < s"
      by blast
    ultimately show ?thesis by (auto intro!: exI [of _ j])
  next
    case False
    then show ?thesis using u Suc.prems by (subst round_up_loop.simps) (auto intro!: exI [of _ k])
  qed
qed


lemma round_up_result:
  assumes "0 < s" and "s \<le> 2048"
  shows "\<exists>r b. round_up s = Some (r, 2 ^ b, b) \<and> 3 \<le> b \<and> b \<le> 11 \<and> s \<le> 2 ^ b"
proof -
  from round_up_loop_result [of 0 s] assms obtain j where j: "j \<le> 11" "round_up_loop s 1 0 = Some (2 ^ j, j)" "s \<le> 2 ^ j"
    by auto
  have "j = 0 \<or> j = 1 \<or> j = 2 \<or> j = 3 \<or> j = 4 \<or> j = 5 \<or> j = 6 \<or> j = 7 \<or> j = 8 \<or> j = 9 \<or> j = 10 \<or> j = 11"
    using j(1) by presburger
  then have "(8 \<le> (2 ^ j :: u16) \<longleftrightarrow> 3 \<le> j) \<and> unat (2 ^ j :: u16) = 2 ^ j" by (auto simp: word_le_nat_alt)
  then have "round_up s = Some (2 ^ j, 2 ^ max 3 j, max 3 j)"
    using j(2) assms(1) by (auto simp: round_up_def max_def)
  moreover have "(2 :: int) ^ j \<le> 2 ^ max 3 j" by (intro power_increasing) auto
  then have "s \<le> 2 ^ max 3 j" using j(3) by linarith
  ultimately have "round_up s = Some (2 ^ j, 2 ^ max 3 j, max 3 j) \<and> 3 \<le> max 3 j \<and> max 3 j \<le> 11 \<and> s \<le> 2 ^ max 3 j"
    using j(1) by simp
  then show ?thesis by blast
qed

section \<open>The invariant\<close>

text \<open>The blocks in use are pairs of an address and a size; \<open>used L m i\<close> are those in page \<open>i\<close>.\<close>

definition used :: "(u64 \<times> nat) set \<Rightarrow> kmem \<Rightarrow> nat \<Rightarrow> u64 set" where
  "used L m i = {p. \<exists>s. (p, s) \<in> L \<and> VA2ID m p = i}"

definition slab_page :: "kmem \<Rightarrow> nat \<Rightarrow> nat \<Rightarrow> u64 set \<Rightarrow> u64 list \<Rightarrow> bool" where
  "slab_page m i b U fl \<longleftrightarrow>
     base_size (page_info m i) = 2 ^ b \<and> bucket_index (page_info m i) = b \<and>
     addr (page_info m i) = adr m (PAGE_SIZE * i) \<and>
     fl \<noteq> [] \<and> distinct fl \<and> chain (kwords m) (free_head (page_info m i)) fl \<and>
     set fl \<union> U = adr m ` parts i (2 ^ b) \<and> set fl \<inter> U = {} \<and>
     alloc_partitions_cnt (page_info m i) = card U"

definition block_in :: "nat \<Rightarrow> kmem \<Rightarrow> u64 \<Rightarrow> nat \<Rightarrow> bool" where
  "block_in n m p s \<longleftrightarrow>
     0 < s \<and> s \<le> PAGE_SIZE \<and>
     (if s \<le> 2048 then \<exists>i b. i \<in> set (slabs m b) \<and> s \<le> 2 ^ b \<and> p \<in> adr m ` parts i (2 ^ b)
      else \<exists>i < n. p = adr m (PAGE_SIZE * i) \<and> p \<notin> set (pages_free m) \<and> (\<forall>b. i \<notin> set (slabs m b)))"

definition heap_inv :: "nat \<Rightarrow> (u64 \<times> nat) set \<Rightarrow> kmem \<Rightarrow> bool" where
  "heap_inv n L m \<longleftrightarrow>
     geom n m \<and> distinct (pages_free m) \<and> set (pages_free m) \<subseteq> (\<lambda>i. adr m (PAGE_SIZE * i)) ` {..<n} \<and>
     (\<forall>b. distinct (slabs m b)) \<and>
     (\<forall>b. \<forall>i \<in> set (slabs m b). i < n \<and> 3 \<le> b \<and> b \<le> 11 \<and> adr m (PAGE_SIZE * i) \<notin> set (pages_free m) \<and>
       (\<exists>fl. slab_page m i b (used L m i) fl)) \<and>
     (\<forall>i < n. (\<forall>b. i \<notin> set (slabs m b)) \<longrightarrow> alloc_partitions_cnt (page_info m i) = 0) \<and>
     (\<forall>(p, s) \<in> L. block_in n m p s) \<and> (\<forall>p s t. (p, s) \<in> L \<longrightarrow> (p, t) \<in> L \<longrightarrow> s = t) \<and>
     free_size m = length (pages_free m)"

lemma heap_invD:
  assumes "heap_inv n L m"
  shows "geom n m" and "distinct (pages_free m)" and "set (pages_free m) \<subseteq> (\<lambda>i. adr m (PAGE_SIZE * i)) ` {..<n}"
    and "distinct (slabs m b)"
    and "i \<in> set (slabs m b) \<Longrightarrow> i < n \<and> 3 \<le> b \<and> b \<le> 11 \<and> adr m (PAGE_SIZE * i) \<notin> set (pages_free m)"
    and "i \<in> set (slabs m b) \<Longrightarrow> \<exists>fl. slab_page m i b (used L m i) fl"
    and "i < n \<Longrightarrow> \<forall>b. i \<notin> set (slabs m b) \<Longrightarrow> alloc_partitions_cnt (page_info m i) = 0"
    and "(p, s) \<in> L \<Longrightarrow> block_in n m p s"
    and "(p, s) \<in> L \<Longrightarrow> (p, t) \<in> L \<Longrightarrow> s = t"
    and "free_size m = length (pages_free m)"
proof -
  note I = assms [unfolded heap_inv_def]
  show "free_size m = length (pages_free m)" using I by simp
  show "geom n m" "distinct (pages_free m)" "set (pages_free m) \<subseteq> (\<lambda>i. adr m (PAGE_SIZE * i)) ` {..<n}" "distinct (slabs m b)"
    using I by simp_all
  show "i < n \<and> 3 \<le> b \<and> b \<le> 11 \<and> adr m (PAGE_SIZE * i) \<notin> set (pages_free m)" "\<exists>fl. slab_page m i b (used L m i) fl"
    if "i \<in> set (slabs m b)" using I that by simp_all
  show "alloc_partitions_cnt (page_info m i) = 0" if "i < n" "\<forall>b. i \<notin> set (slabs m b)" using I that by simp
  show "block_in n m p s" if "(p, s) \<in> L" using I that by auto
  show "s = t" if "(p, s) \<in> L" "(p, t) \<in> L"
  proof -
    from I have "\<forall>p s t. (p, s) \<in> L \<longrightarrow> (p, t) \<in> L \<longrightarrow> s = t" by (elim conjE)
    with that show ?thesis by metis
  qed
qed

lemma page_end: "i < n \<Longrightarrow> PAGE_SIZE * i < PAGE_SIZE * n"
  by simp

lemma one_slab:
  assumes "heap_inv n L m" and "i \<in> set (slabs m b)" and "i \<in> set (slabs m b')"
  shows "b = b'"
  using heap_invD(6) [OF assms(1,2)] heap_invD(6) [OF assms(1,3)] by (auto simp: slab_page_def)

lemma power_page: "3 \<le> b \<Longrightarrow> b \<le> 11 \<Longrightarrow> PAGE_SIZE div 2 ^ b = 2 ^ (12 - b) \<and> (8::nat) \<le> 2 ^ b"
proof -
  assume "3 \<le> b" "b \<le> 11"
  then have "b = 3 \<or> b = 4 \<or> b = 5 \<or> b = 6 \<or> b = 7 \<or> b = 8 \<or> b = 9 \<or> b = 10 \<or> b = 11" by presburger
  then show ?thesis by (auto simp: PAGE_SIZE_def)
qed

text \<open>Where the bytes of a block are.\<close>

lemma block_place:
  assumes inv: "heap_inv n L m" and "block_in n m p s" and "j < s"
  shows "\<exists>k. p + of_nat j = adr m (k + j) \<and> p = adr m k \<and> k + j < PAGE_SIZE * n \<and> (k + j) div PAGE_SIZE = VA2ID m p \<and>
    VA2ID m p < n \<and> (if s \<le> 2048 then \<exists>b. VA2ID m p \<in> set (slabs m b) \<and> k \<in> parts (VA2ID m p) (2 ^ b) \<and> s \<le> 2 ^ b
      else k = PAGE_SIZE * VA2ID m p \<and> (\<forall>b. VA2ID m p \<notin> set (slabs m b)))"
proof (cases "s \<le> 2048")
  case True
  from assms(2) True obtain i b k where i: "i \<in> set (slabs m b)" and b: "s \<le> 2 ^ b" and k: "p = adr m k" "k \<in> parts i (2 ^ b)"
    by (auto simp: block_in_def)
  have n: "i < n" using heap_invD(5) [OF inv i] by simp
  have j: "j < 2 ^ b" "(0::nat) < 2 ^ b" using assms(3) b by simp_all
  note kj = parts_bound [OF k(2) j(1) n] and k0 = parts_bound [OF k(2) j(2) n]
  have "VA2ID m p = i" using VA2ID_adr(1) [OF heap_invD(1) [OF inv]] k0 k(1) by simp
  then show ?thesis using True i b k n kj by (intro exI [of _ k]) (auto simp: adr_add)
next
  case False
  from assms(2) False obtain i where i: "i < n" "p = adr m (PAGE_SIZE * i)" "\<forall>b. i \<notin> set (slabs m b)" "s \<le> PAGE_SIZE"
    by (auto simp: block_in_def)
  have j: "j < PAGE_SIZE" using assms(3) i(4) by simp
  have "PAGE_SIZE * (i + 1) \<le> PAGE_SIZE * n" using i(1) by (intro mult_le_mono2) simp
  then have kj: "PAGE_SIZE * i + j < PAGE_SIZE * n" using j by simp
  have "VA2ID m p = i" using VA2ID_adr(1) [OF heap_invD(1) [OF inv], of "PAGE_SIZE * i"] i(1,2) by simp
  then show ?thesis using False i j kj by (intro exI [of _ "PAGE_SIZE * i"]) (auto simp: adr_add)
qed

lemma used_place:
  assumes "heap_inv n L m" and "p \<in> used L m i"
  shows "i < n" and "\<exists>k. p = adr m k \<and> k < PAGE_SIZE * n \<and> k div PAGE_SIZE = i"
proof -
  from assms(2) obtain s where s: "(p, s) \<in> L" "VA2ID m p = i" by (auto simp: used_def)
  have b: "block_in n m p s" by (rule heap_invD(8) [OF assms(1) s(1)])
  then have "0 < s" by (simp add: block_in_def)
  from block_place [OF assms(1) b this] s(2) show "i < n" "\<exists>k. p = adr m k \<and> k < PAGE_SIZE * n \<and> k div PAGE_SIZE = i"
    by auto
qed

lemma blocks_disjoint:
  assumes inv: "heap_inv n L m" and "(p, s) \<in> L" and "(q, t) \<in> L" and "(p, s) \<noteq> (q, t)" and "j < s" and "j' < t"
  shows "p + of_nat j \<noteq> q + of_nat j'"
proof
  assume eq: "p + of_nat j = q + of_nat j'"
  have pq: "p \<noteq> q" using heap_invD(9) [OF inv, of p s t] assms(2-4) by auto
  from block_place [OF inv heap_invD(8) [OF inv assms(2)] assms(5)] obtain k where
    k: "p + of_nat j = adr m (k + j)" "p = adr m k" "k + j < PAGE_SIZE * n" "(k + j) div PAGE_SIZE = VA2ID m p"
    and kp: "if s \<le> 2048 then \<exists>b. VA2ID m p \<in> set (slabs m b) \<and> k \<in> parts (VA2ID m p) (2 ^ b) \<and> s \<le> 2 ^ b
      else k = PAGE_SIZE * VA2ID m p \<and> (\<forall>b. VA2ID m p \<notin> set (slabs m b))" by blast
  from block_place [OF inv heap_invD(8) [OF inv assms(3)] assms(6)] obtain k' where
    k': "q + of_nat j' = adr m (k' + j')" "q = adr m k'" "k' + j' < PAGE_SIZE * n" "(k' + j') div PAGE_SIZE = VA2ID m q"
    and kp': "if t \<le> 2048 then \<exists>b. VA2ID m q \<in> set (slabs m b) \<and> k' \<in> parts (VA2ID m q) (2 ^ b) \<and> t \<le> 2 ^ b
      else k' = PAGE_SIZE * VA2ID m q \<and> (\<forall>b. VA2ID m q \<notin> set (slabs m b))" by blast
  have kk: "k + j = k' + j'" using adr_inj [OF heap_invD(1) [OF inv], of "k + j" "k' + j'"] eq k(1,3) k'(1,3) by simp
  then have pg: "VA2ID m q = VA2ID m p" using k(4) k'(4) by simp
  show False
  proof (cases "s \<le> 2048 \<and> t \<le> 2048")
    case True
    with kp obtain b where b: "VA2ID m p \<in> set (slabs m b)" "k \<in> parts (VA2ID m p) (2 ^ b)" "s \<le> 2 ^ b" by auto
    from True kp' pg obtain b' where b': "VA2ID m p \<in> set (slabs m b')" "k' \<in> parts (VA2ID m p) (2 ^ b')" "t \<le> 2 ^ b'"
      by auto
    have "b' = b" by (rule one_slab [OF inv b'(1) b(1)])
    with b b' have "k = k'" using parts_apart [of k "VA2ID m p" "2 ^ b" k' j j'] kk assms(5,6) by simp
    then show False using pq k(2) k'(2) by simp
  next
    case False
    have "k = k'"
    proof (cases "s \<le> 2048")
      case True
      then have "\<not> t \<le> 2048" using False by simp
      then show ?thesis using True kp kp' unfolding pg by auto
    next
      case s: False
      have "t > 2048"
      proof (rule ccontr)
        assume "\<not> t > 2048"
        then show False using s kp kp' unfolding pg by auto
      qed
      then show ?thesis using s kp kp' unfolding pg by simp
    qed
    then show False using pq k(2) k'(2) by simp
  qed
qed

section \<open>The steps of the allocator\<close>

text \<open>A page that is nowhere: not free, not cut up, and without blocks in use.\<close>

definition spare :: "nat \<Rightarrow> (u64 \<times> nat) set \<Rightarrow> kmem \<Rightarrow> nat \<Rightarrow> bool" where
  "spare n L m i \<longleftrightarrow> i < n \<and> adr m (PAGE_SIZE * i) \<notin> set (pages_free m) \<and> (\<forall>b. i \<notin> set (slabs m b)) \<and> used L m i = {}"

lemma same_end:
  assumes "end_addr m' = end_addr m"
  shows "adr m' = adr m" and "VA2ID m' = VA2ID m" and "geom n m' = geom n m" and "used L m' = used L m"
  using assms by (auto simp: fun_eq_iff adr_def VA2ID_def geom_def used_def)

lemma place_updates [simp]:
  "adr (kwords_update f1 m) = adr m"
  "adr (page_info_update f2 m) = adr m"
  "adr (pages_free_update f3 m) = adr m"
  "adr (slabs_update f4 m) = adr m"
  "adr (alloc_page_cnt_update f5 m) = adr m"
  "adr (free_size_update f6 m) = adr m"
  "VA2ID (kwords_update f1 m) = VA2ID m"
  "VA2ID (page_info_update f2 m) = VA2ID m"
  "VA2ID (pages_free_update f3 m) = VA2ID m"
  "VA2ID (slabs_update f4 m) = VA2ID m"
  "VA2ID (alloc_page_cnt_update f5 m) = VA2ID m"
  "VA2ID (free_size_update f6 m) = VA2ID m"
  "geom n (kwords_update f1 m) = geom n m"
  "geom n (page_info_update f2 m) = geom n m"
  "geom n (pages_free_update f3 m) = geom n m"
  "geom n (slabs_update f4 m) = geom n m"
  "geom n (alloc_page_cnt_update f5 m) = geom n m"
  "geom n (free_size_update f6 m) = geom n m"
  "used L (kwords_update f1 m) = used L m"
  "used L (page_info_update f2 m) = used L m"
  "used L (pages_free_update f3 m) = used L m"
  "used L (slabs_update f4 m) = used L m"
  "used L (alloc_page_cnt_update f5 m) = used L m"
  "used L (free_size_update f6 m) = used L m"
  "adr (upd_page i g m) = adr m"
  "VA2ID (upd_page i g m) = VA2ID m"
  "geom n (upd_page i g m) = geom n m"
  "used L (upd_page i g m) = used L m"
  by (rule same_end; simp add: upd_page_def)+

text \<open>A page keeps its state if neither its descriptor nor the words in it change.\<close>

lemma slab_page_same:
  assumes "slab_page m i b U fl" and "end_addr m' = end_addr m" and "page_info m' i = page_info m i"
    and "\<And>k. k \<in> parts i (2 ^ b) \<Longrightarrow> kwords m' (adr m k) = kwords m (adr m k)"
  shows "slab_page m' i b U fl"
proof -
  have "set fl \<subseteq> adr m ` parts i (2 ^ b)" using assms(1) by (auto simp: slab_page_def)
  then have "chain (kwords m') f fl = chain (kwords m) f fl" for f using assms(4) by (intro chain_cong) blast
  with assms(1,3) same_end [OF assms(2)] show ?thesis by (simp add: slab_page_def)
qed

lemma other_page:
  assumes "geom n m" and "j < n" and "i < n" and "j \<noteq> i" and "k \<in> parts j (2 ^ b)" and "d < PAGE_SIZE"
  shows "adr m k \<noteq> adr m (PAGE_SIZE * i + d)"
proof
  assume eq: "adr m k = adr m (PAGE_SIZE * i + d)"
  have k: "k < PAGE_SIZE * n" "k div PAGE_SIZE = j" using parts_bound [OF assms(5) _ assms(2), of 0] by simp_all
  have "PAGE_SIZE * (i + 1) \<le> PAGE_SIZE * n" using assms(3) by (intro mult_le_mono2) simp
  then have "PAGE_SIZE * i + d < PAGE_SIZE * n" using assms(6) by simp
  then have "k = PAGE_SIZE * i + d" using adr_inj [OF assms(1), of k "PAGE_SIZE * i + d"] eq k(1) by simp
  then show False using k(2) assms(4,6) by simp
qed

lemma heap_invI:
  assumes "geom n m" and "distinct (pages_free m)" and "set (pages_free m) \<subseteq> (\<lambda>i. adr m (PAGE_SIZE * i)) ` {..<n}"
    and "\<And>b. distinct (slabs m b)"
    and "\<And>i b. i \<in> set (slabs m b) \<Longrightarrow> i < n \<and> 3 \<le> b \<and> b \<le> 11 \<and> adr m (PAGE_SIZE * i) \<notin> set (pages_free m)"
    and "\<And>i b. i \<in> set (slabs m b) \<Longrightarrow> \<exists>fl. slab_page m i b (used L m i) fl"
    and "\<And>i. i < n \<Longrightarrow> \<forall>b. i \<notin> set (slabs m b) \<Longrightarrow> alloc_partitions_cnt (page_info m i) = 0"
    and "\<And>p s. (p, s) \<in> L \<Longrightarrow> block_in n m p s"
    and "\<And>p s t. (p, s) \<in> L \<Longrightarrow> (p, t) \<in> L \<Longrightarrow> s = t" and "free_size m = length (pages_free m)"
  shows "heap_inv n L m"
  unfolding heap_inv_def using assms by (intro conjI) (simp | blast)+

text \<open>Taking a page off the free list, and putting a spare page on it.\<close>

lemma kalloc_page_result:
  assumes inv: "heap_inv n L m" and free: "pages_free m = p # ps"
  shows "\<exists>m' i. kalloc_page m = Ret (p, m') \<and> heap_inv n L m' \<and> spare n L m' i \<and> p = adr m' (PAGE_SIZE * i) \<and>
    end_addr m' = end_addr m \<and> slabs m' = slabs m"
proof -
  note I = heap_invD [OF inv]
  let ?m = "m\<lparr>alloc_page_cnt := alloc_page_cnt m + 1, pages_free := ps, free_size := length ps,
    kwords := (kwords m)(p := p, p + 8 := p)\<rparr>"
  have run: "kalloc_page m = Ret (p, ?m)"
    using free I(10) by (cases "ps = []") (auto simp: kalloc_page_def)
  from I(3) free obtain i where i: "i < n" "p = adr m (PAGE_SIZE * i)" by auto
  have dist: "p \<notin> set ps" using I(2) free by simp
  have ns: "i \<notin> set (slabs m b)" for b using I(5) [of i b] i free by auto
  have "used L m i = {}"
  proof (rule ccontr)
    assume "used L m i \<noteq> {}"
    then obtain q s where q: "(q, s) \<in> L" "VA2ID m q = i" by (auto simp: used_def)
    have b: "block_in n m q s" by (rule I(8) [OF q(1)])
    then have "0 < s" by (simp add: block_in_def)
    from block_place [OF inv b this] q(2) ns have "s > 2048" "q = adr m (PAGE_SIZE * i)" by (auto split: if_splits)
    then show False using b i free by (auto simp: block_in_def)
  qed
  then have sp: "spare n L ?m i" using i dist ns by (simp add: spare_def)
  have p8: "p = adr m (PAGE_SIZE * i + 0)" "p + 8 = adr m (PAGE_SIZE * i + 8)" by (simp_all add: i(2) adr_def)
  have "heap_inv n L ?m"
  proof (rule heap_invI)
    show "\<exists>fl. slab_page ?m j b (used L ?m j) fl" if j: "j \<in> set (slabs ?m b)" for j b
    proof -
      have jn: "j < n" "j \<noteq> i" using I(5) [of j b] j ns by auto
      obtain fl where fl: "slab_page m j b (used L m j) fl" using I(6) [of j b] j by auto
      have "slab_page ?m j b (used L m j) fl"
      proof (rule slab_page_same [OF fl])
        fix k assume k: "k \<in> parts j (2 ^ b)"
        have "adr m k \<noteq> adr m (PAGE_SIZE * i + 0)" "adr m k \<noteq> adr m (PAGE_SIZE * i + 8)"
          by (rule other_page [OF I(1) jn(1) i(1) jn(2) k], simp add: PAGE_SIZE_def)+
        then have "adr m k \<noteq> p" "adr m k \<noteq> p + 8" by (metis p8(1), metis p8(2))
        then show "kwords ?m (adr m k) = kwords m (adr m k)" by simp
      qed simp_all
      then show ?thesis by auto
    qed
    show "block_in n ?m q s" if "(q, s) \<in> L" for q s
      using I(8) [OF that] free by (auto simp: block_in_def)
    show "s = t" if "(q, s) \<in> L" "(q, t) \<in> L" for q s t using that by (rule I(9))
  qed (use I free in auto)
  with sp free i(2) run show ?thesis by (intro exI [of _ ?m] exI [of _ i]) simp
qed

lemma kfree_page_result:
  assumes inv: "heap_inv n L m" and sp: "spare n L m i"
  shows "\<exists>m'. kfree_page (adr m (PAGE_SIZE * i)) m = Ret m' \<and> heap_inv n L m'"
proof -
  note I = heap_invD [OF inv]
  let ?p = "adr m (PAGE_SIZE * i)"
  let ?m = "m\<lparr>alloc_page_cnt := alloc_page_cnt m - 1, free_size := free_size m + 1, pages_free := pages_free m @ [?p]\<rparr>"
  have i: "i < n" "?p \<notin> set (pages_free m)" "\<forall>b. i \<notin> set (slabs m b)" "used L m i = {}" using sp by (simp_all add: spare_def)
  have inj: "adr m (PAGE_SIZE * j) = ?p \<longleftrightarrow> j = i" if "j < n" for j
    using adr_inj [OF I(1), of "PAGE_SIZE * j" "PAGE_SIZE * i"] that i(1) by simp
  have "heap_inv n L ?m"
  proof (rule heap_invI)
    show "j < n \<and> 3 \<le> b \<and> b \<le> 11 \<and> adr ?m (PAGE_SIZE * j) \<notin> set (pages_free ?m)" if "j \<in> set (slabs ?m b)" for j b
      using I(5) [of j b] that i(3) inj by auto
    show "\<exists>fl. slab_page ?m j b (used L ?m j) fl" if "j \<in> set (slabs ?m b)" for j b
      using I(6) [of j b] that by (auto simp: slab_page_def)
    show "block_in n ?m q s" if q: "(q, s) \<in> L" for q s
    proof (cases "s \<le> 2048")
      case True
      then show ?thesis using I(8) [OF q] by (auto simp: block_in_def)
    next
      case False
      then have "0 < s" by simp
      have "VA2ID m q \<noteq> i" using q i(4) by (auto simp: used_def)
      then have "q \<noteq> ?p" using VA2ID_adr(1) [OF I(1), of "PAGE_SIZE * i"] i(1) by auto
      then show ?thesis using False I(8) [OF q] by (auto simp: block_in_def)
    qed
    show "s = t" if "(q, s) \<in> L" "(q, t) \<in> L" for q s t using that by (rule I(9))
  qed (use I i in auto)
  then show ?thesis using i(2) by (simp add: kfree_page_def Let_def)
qed

lemma spare_block:
  assumes inv: "heap_inv n L m" and sp: "spare n L m i" and s: "2048 < s" "s \<le> PAGE_SIZE"
  shows "heap_inv n (insert (adr m (PAGE_SIZE * i), s) L) m"
proof -
  note I = heap_invD [OF inv]
  let ?p = "adr m (PAGE_SIZE * i)"
  have i: "i < n" "?p \<notin> set (pages_free m)" "\<forall>b. i \<notin> set (slabs m b)" "used L m i = {}" using sp by (simp_all add: spare_def)
  have id: "VA2ID m ?p = i" using VA2ID_adr(1) [OF I(1), of "PAGE_SIZE * i"] i(1) by simp
  have new: "(?p, t) \<notin> L" for t using i(4) id by (auto simp: used_def)
  have us: "used (insert (?p, s) L) m j = used L m j" if "j \<noteq> i" for j using that id by (auto simp: used_def)
  show ?thesis
  proof (rule heap_invI)
    show "\<exists>fl. slab_page m j b (used (insert (?p, s) L) m j) fl" if "j \<in> set (slabs m b)" for j b
    proof -
      have "j \<noteq> i" using that i(3) by auto
      then show ?thesis using I(6) [OF that] us [of j] by auto
    qed
    show "block_in n m q t" if "(q, t) \<in> insert (?p, s) L" for q t
      using that I(8) [of q t] s i by (auto simp: block_in_def)
    show "t = u" if "(q, t) \<in> insert (?p, s) L" "(q, u) \<in> insert (?p, s) L" for q t u
      using that new I(9) [of q t u] by auto
  qed (use I i in auto)
qed

text \<open>Cutting up a spare page.\<close>

lemma adr_parts: "adr m ` parts i z = set (map (\<lambda>k. adr m (PAGE_SIZE * i) + of_nat (z * k)) [0..<PAGE_SIZE div z])"
  by (simp add: parts_def adr_add image_image atLeast0LessThan del: of_nat_mult)

lemma cut_page:
  assumes inv: "heap_inv n L m" and sp: "spare n L m i" and b: "3 \<le> b" "b \<le> 11"
  defines "pg \<equiv> adr m (PAGE_SIZE * i)"
  shows "\<exists>p w m'. chain_loop pg (pg + of_nat PAGE_SIZE - of_nat (2 ^ b)) (of_nat (2 ^ b)) (kwords m) = Some (p, w) \<and>
    m' = (upd_page i (\<lambda>pi. pi\<lparr>addr := pg, base_size := 2 ^ b, free_head := pg, bucket_index := b\<rparr>) (m\<lparr>kwords := w(p := 0)\<rparr>))
      \<lparr>slabs := (slabs m)(b := slabs m b @ [i])\<rparr> \<and>
    heap_inv n L m' \<and> has_room m' i"
proof -
  note I = heap_invD [OF inv]
  have i: "i < n" "pg \<notin> set (pages_free m)" "\<forall>b. i \<notin> set (slabs m b)" "used L m i = {}"
    using sp by (simp_all add: spare_def pg_def)
  define z where "z = (2::nat) ^ b"
  define N where "N = PAGE_SIZE div z"
  have z: "0 < z" "z * N = PAGE_SIZE" "2 \<le> N"
  proof -
    have "b = 3 \<or> b = 4 \<or> b = 5 \<or> b = 6 \<or> b = 7 \<or> b = 8 \<or> b = 9 \<or> b = 10 \<or> b = 11" using b by presburger
    then show "0 < z" "z * N = PAGE_SIZE" "2 \<le> N" by (auto simp: z_def N_def PAGE_SIZE_def)
  qed
  then obtain N' where N': "N = Suc N'" "1 \<le> N'" by (cases N) auto
  have zN: "z * N' + z = PAGE_SIZE" using z(2) N' by simp
  have stop: "pg + of_nat PAGE_SIZE - of_nat z = pg + of_nat (z * N')"
    by (simp flip: zN)
  have "PAGE_SIZE * (i + 1) \<le> PAGE_SIZE * n" using i(1) by (intro mult_le_mono2) simp
  then have lim: "PAGE_SIZE * i + z * N' < PAGE_SIZE * n" using zN z(1) by simp
  have "unat pg + z * N' < 2 ^ 64"
    using unat_adr [OF I(1), of "PAGE_SIZE * i"] i(1) lim I(1) by (simp add: pg_def geom_def)
  from chain_loop_result [OF this z(1), of "kwords m"] obtain w where
    run: "chain_loop pg (pg + of_nat (z * N')) (of_nat z) (kwords m) = Some (pg + of_nat (z * N'), w)"
    and ch: "chain (w(pg + of_nat (z * N') := 0)) pg (map (\<lambda>j. pg + of_nat (z * j)) [0..<N])"
    and fr: "\<forall>a. (\<forall>j<N'. a \<noteq> pg + of_nat (z * j)) \<longrightarrow> w a = kwords m a" unfolding N'(1) by blast
  let ?w = "w(pg + of_nat (z * N') := 0)" and ?fl = "map (\<lambda>j. pg + of_nat (z * j)) [0..<N]"
  define m' where "m' = (upd_page i (\<lambda>pi. pi\<lparr>addr := pg, base_size := 2 ^ b, free_head := pg, bucket_index := b\<rparr>)
      (m\<lparr>kwords := ?w\<rparr>))\<lparr>slabs := (slabs m)(b := slabs m b @ [i])\<rparr>"
  have M: "page_info m' j = (if j = i then (page_info m i)\<lparr>addr := pg, base_size := 2 ^ b, free_head := pg, bucket_index := b\<rparr>
      else page_info m j)" "kwords m' = ?w" "pages_free m' = pages_free m"
    "slabs m' = (slabs m)(b := slabs m b @ [i])" "end_addr m' = end_addr m" for j
    by (simp_all add: m'_def upd_page_def)
  note E = same_end [OF M(5)]
  have part: "pg + of_nat (z * j) = adr m (PAGE_SIZE * i + z * j)" for j by (simp add: pg_def adr_add)
  have cnt: "alloc_partitions_cnt (page_info m i) = 0" by (rule I(7) [OF i(1,3)])
  have "distinct ?fl"
  proof -
    have "j = k" if "j < N" "k < N" "pg + of_nat (z * j) = pg + of_nat (z * k)" for j k
    proof -
      have "z * j \<le> z * N'" "z * k \<le> z * N'" using that N' by (auto intro: mult_le_mono2)
      then have "PAGE_SIZE * i + z * j \<le> PAGE_SIZE * n" "PAGE_SIZE * i + z * k \<le> PAGE_SIZE * n" using lim by linarith+
      then have "PAGE_SIZE * i + z * j = PAGE_SIZE * i + z * k"
        using adr_inj [OF I(1)] that(3) unfolding part by blast
      then show ?thesis using z(1) by simp
    qed
    then show ?thesis by (auto simp: distinct_map inj_on_def simp del: of_nat_mult)
  qed
  then have page: "slab_page m' i b {} ?fl"
    using ch cnt z(3) by (simp add: slab_page_def M E adr_parts N_def z_def pg_def)
  have inv': "heap_inv n L m'"
  proof (rule heap_invI)
    show "\<exists>fl. slab_page m' j c (used L m' j) fl" if j: "j \<in> set (slabs m' c)" for j c
    proof (cases "j = i")
      case True
      then have "c = b" using j i(3) by (auto simp: M split: if_splits)
      then show ?thesis using True page i(4) by (auto simp: E)
    next
      case False
      then have jc: "j \<in> set (slabs m c)" using j by (auto simp: M split: if_splits)
      obtain fl where fl: "slab_page m j c (used L m j) fl" using I(6) [OF jc] by blast
      have jn: "j < n" using I(5) [OF jc] by simp
      have "slab_page m' j c (used L m j) fl"
      proof (rule slab_page_same [OF fl M(5)])
        show "page_info m' j = page_info m j" using False by (simp add: M)
        fix k assume k: "k \<in> parts j (2 ^ c)"
        have "adr m k \<noteq> pg + of_nat (z * d)" if "d \<le> N'" for d
        proof -
          have "z * d \<le> z * N'" using that by (rule mult_le_mono2)
          then have "z * d < PAGE_SIZE" using zN z(1) by linarith
          then show ?thesis unfolding part by (rule other_page [OF I(1) jn i(1) False k])
        qed
        then show "kwords m' (adr m k) = kwords m (adr m k)" using fr by (auto simp: M(2) simp del: of_nat_mult)
      qed
      then show ?thesis by (auto simp: E)
    qed
    show "alloc_partitions_cnt (page_info m' j) = 0" if "j < n" "\<forall>c. j \<notin> set (slabs m' c)" for j
      using that I(7) [of j] by (auto simp: M split: if_splits)
    show "block_in n m' q s" if q: "(q, s) \<in> L" for q s
    proof -
      have "VA2ID m q \<noteq> i" using q i(4) by (auto simp: used_def)
      then have "q \<noteq> adr m (PAGE_SIZE * i)" using VA2ID_adr(1) [OF I(1), of "PAGE_SIZE * i"] i(1) by auto
      then show ?thesis using I(8) [OF q] by (fastforce simp: block_in_def M E split: if_splits)
    qed
    show "s = t" if "(q, s) \<in> L" "(q, t) \<in> L" for q s t using that by (rule I(9))
    show "j < n \<and> 3 \<le> c \<and> c \<le> 11 \<and> adr m' (PAGE_SIZE * j) \<notin> set (pages_free m')" if "j \<in> set (slabs m' c)" for j c
      using that I(5) [of j c] i(1,2) b by (auto simp: M E pg_def split: if_splits)
    show "free_size m' = length (pages_free m')" using I(10) by (simp add: m'_def upd_page_def)
  qed (use I i in \<open>auto simp: M E\<close>)
  have "has_room m' i" using cnt z(3) by (simp add: has_room_def M N_def z_def)
  moreover have "chain_loop pg (pg + of_nat PAGE_SIZE - of_nat (2 ^ b)) (of_nat (2 ^ b)) (kwords m) =
      Some (pg + of_nat (z * N'), w)" unfolding z_def [symmetric] stop by (rule run)
  ultimately show ?thesis using inv' m'_def by blast
qed

text \<open>
  Changing one page on a slab list: the descriptor of page \<open>i\<close> and words at its partitions. The
  rest of the invariant carries over.
\<close>

lemma change_page:
  assumes inv: "heap_inv n L m" and i: "i \<in> set (slabs m b)" and page: "slab_page m' i b (used L' m i) fl'"
    and M: "end_addr m' = end_addr m" "pages_free m' = pages_free m" "slabs m' = slabs m"
    and other: "\<And>j. j \<noteq> i \<Longrightarrow> page_info m' j = page_info m j"
    and words: "\<And>a. a \<notin> adr m ` parts i (2 ^ b) \<Longrightarrow> kwords m' a = kwords m a"
    and L': "\<And>q s. (q, s) \<in> L' \<Longrightarrow> VA2ID m q \<noteq> i \<Longrightarrow> (q, s) \<in> L" "\<And>q s. (q, s) \<in> L \<Longrightarrow> VA2ID m q \<noteq> i \<Longrightarrow> (q, s) \<in> L'"
      "\<And>q s. (q, s) \<in> L' \<Longrightarrow> VA2ID m q = i \<Longrightarrow> block_in n m q s" "\<And>q s t. (q, s) \<in> L' \<Longrightarrow> (q, t) \<in> L' \<Longrightarrow> s = t"
    and F: "free_size m' = free_size m"
  shows "heap_inv n L' m'"
proof -
  note I = heap_invD [OF inv] and E = same_end [OF M(1)]
  have us: "used L' m j = used L m j" if "j \<noteq> i" for j using L'(1,2) that by (fastforce simp: used_def)
  show ?thesis
  proof (rule heap_invI)
    show "\<exists>fl. slab_page m' j c (used L' m' j) fl" if j: "j \<in> set (slabs m' c)" for j c
    proof (cases "j = i")
      case True
      then have "c = b" using one_slab [OF inv, of i] i j M(3) by auto
      then show ?thesis using True page by (auto simp: E)
    next
      case False
      have jc: "j \<in> set (slabs m c)" using j M(3) by simp
      obtain fl where fl: "slab_page m j c (used L m j) fl" using I(6) [OF jc] by blast
      have "slab_page m' j c (used L m j) fl"
      proof (rule slab_page_same [OF fl M(1) other [OF False]])
        fix k assume k: "k \<in> parts j (2 ^ c)"
        have jn: "j < n" and "i < n" using I(5) [OF jc] I(5) [OF i] by auto
        have "adr m k \<noteq> adr m k'" if k': "k' \<in> parts i (2 ^ b)" for k'
        proof
          assume eq: "adr m k = adr m k'"
          have "k div PAGE_SIZE = j" "k < PAGE_SIZE * n" "k' div PAGE_SIZE = i" "k' < PAGE_SIZE * n"
            using parts_bound [OF k _ jn, of 0] parts_bound [OF k' _ \<open>i < n\<close>, of 0] by simp_all
          then show False using adr_inj [OF I(1), of k k'] eq False by auto
        qed
        then show "kwords m' (adr m k) = kwords m (adr m k)" using words by blast
      qed
      then show ?thesis using us [OF False] by (auto simp: E)
    qed
    show "alloc_partitions_cnt (page_info m' j) = 0" if "j < n" "\<forall>c. j \<notin> set (slabs m' c)" for j
      using that I(7) [of j] other [of j] M(3) i by (cases "j = i") auto
    show "block_in n m' q s" if q: "(q, s) \<in> L'" for q s
    proof -
      have "block_in n m q s" using L'(1,3) [OF q] I(8) [of q s] by blast
      then show ?thesis using M E by (simp add: block_in_def)
    qed
    show "s = t" if "(q, s) \<in> L'" "(q, t) \<in> L'" for q s t using that by (rule L'(4))
    show "j < n \<and> 3 \<le> c \<and> c \<le> 11 \<and> adr m' (PAGE_SIZE * j) \<notin> set (pages_free m')" if "j \<in> set (slabs m' c)" for j c
      using that I(5) [of j c] M E by simp
  qed (use I M E F in simp_all)
qed

lemma slab_used:
  assumes "heap_inv n L m" and "i \<in> set (slabs m b)" and "slab_page m i b (used L m i) fl"
  shows "length fl + card (used L m i) = PAGE_SIZE div 2 ^ b" and "finite (used L m i)"
    and "\<And>p. p \<in> adr m ` parts i (2 ^ b) \<Longrightarrow> VA2ID m p = i"
proof -
  have i: "i < n" using heap_invD(5) [OF assms(1,2)] by simp
  note g = heap_invD(1) [OF assms(1)]
  have b2: "(0::nat) < 2 ^ b" by simp
  have "inj_on (adr m) (parts i (2 ^ b))"
  proof (rule inj_onI)
    fix k k' assume k: "k \<in> parts i (2 ^ b)" "k' \<in> parts i (2 ^ b)" "adr m k = adr m k'"
    have "k < PAGE_SIZE * n" "k' < PAGE_SIZE * n"
      using parts_bound(1) [OF k(1) b2 i] parts_bound(1) [OF k(2) b2 i] by simp_all
    then show "k = k'" using adr_inj [OF g, of k k'] k(3) by simp
  qed
  then have "card (adr m ` parts i (2 ^ b)) = card (parts i (2 ^ b))" by (rule card_image)
  also have "\<dots> = PAGE_SIZE div 2 ^ b" by (simp add: parts_def card_image inj_on_def)
  finally have c: "card (adr m ` parts i (2 ^ b)) = PAGE_SIZE div 2 ^ b" .
  have fl: "set fl \<union> used L m i = adr m ` parts i (2 ^ b)" "set fl \<inter> used L m i = {}" "distinct fl"
    using assms(3) by (simp_all add: slab_page_def)
  have "finite (adr m ` parts i (2 ^ b))" by (simp add: parts_def)
  then show fin: "finite (used L m i)" using fl(1) by (metis finite_Un)
  show "length fl + card (used L m i) = PAGE_SIZE div 2 ^ b"
    using card_Un_disjoint [of "set fl" "used L m i"] fin fl c distinct_card [OF fl(3)] by simp
  show "VA2ID m p = i" if p: "p \<in> adr m ` parts i (2 ^ b)" for p
  proof -
    from p obtain k where k: "p = adr m k" "k \<in> parts i (2 ^ b)" by blast
    note pb = parts_bound [OF k(2) b2 i]
    show ?thesis using VA2ID_adr(1) [OF g, of k] pb k(1) by simp
  qed
qed

text \<open>Handing out a partition.\<close>

lemma alloc_partition_result:
  assumes inv: "heap_inv n L m" and i: "i \<in> set (slabs m b)" and room: "has_room m i"
    and s: "0 < s" "s \<le> 2 ^ b" "s \<le> 2048"
  shows "heap_inv n (insert (fst (alloc_partition i m), s) L) (snd (alloc_partition i m))"
proof -
  note I = heap_invD [OF inv]
  obtain fl where fl: "slab_page m i b (used L m i) fl" using I(6) [OF i] by blast
  then obtain f fl' where f: "fl = f # fl'" by (cases fl) (auto simp: slab_page_def)
  note F = fl [unfolded slab_page_def f] and U = slab_used [OF inv i fl]
  let ?pi = "page_info m i"
  define m' where "m' = upd_page i (\<lambda>pi. pi\<lparr>free_head := kwords m f, alloc_partitions_cnt := alloc_partitions_cnt pi + 1\<rparr>) m"
  have run: "alloc_partition i m = (f, m')" using F by (simp add: alloc_partition_def m'_def Let_def)
  have M: "end_addr m' = end_addr m" "pages_free m' = pages_free m" "slabs m' = slabs m" "kwords m' = kwords m"
    "page_info m' i = ?pi\<lparr>free_head := kwords m f, alloc_partitions_cnt := alloc_partitions_cnt ?pi + 1\<rparr>"
    "\<And>j. j \<noteq> i \<Longrightarrow> page_info m' j = page_info m j" by (simp_all add: m'_def upd_page_def)
  note E = same_end [OF M(1)]
  have ps: "s \<le> PAGE_SIZE" using s(3) by (simp add: PAGE_SIZE_def)
  have fp: "f \<in> adr m ` parts i (2 ^ b)" and fU: "f \<notin> used L m i" using F by auto
  have idf: "VA2ID m f = i" by (rule U(3) [OF fp])
  have new: "(f, t) \<notin> L" for t using fU idf by (auto simp: used_def)
  have "base_size ?pi = 2 ^ b" "alloc_partitions_cnt ?pi = card (used L m i)" using F by auto
  then have ne: "fl' \<noteq> []" using room U(1) by (auto simp: has_room_def f)
  have us: "used (insert (f, s) L) m i = insert f (used L m i)" using idf by (auto simp: used_def)
  have "slab_page m' i b (used (insert (f, s) L) m i) fl'"
    unfolding us slab_page_def using F ne fU U(2) by (auto simp: M E)
  then have "heap_inv n (insert (f, s) L) m'"
  proof (rule change_page [OF inv i _ M(1-3)])
    show "block_in n m q t" if "(q, t) \<in> insert (f, s) L" "VA2ID m q = i" for q t
      using that I(8) [of q t] fp i s ps by (auto simp: block_in_def)
    show "t = u" if "(q, t) \<in> insert (f, s) L" "(q, u) \<in> insert (f, s) L" for q t u
      using that new I(9) [of q t u] by auto
  qed (use M(4,6) idf in \<open>auto simp: m'_def upd_page_def\<close>)
  then show ?thesis by (simp add: run)
qed

lemma kalloc_result:
  assumes inv: "heap_inv n L m" and s: "0 < s" "s \<le> PAGE_SIZE" and free: "pages_free m \<noteq> []"
  shows "\<exists>p m'. kalloc (int s) m = Ret (p, m')"
    and "kalloc (int s) m = Ret (p, m') \<Longrightarrow> heap_inv n (insert (p, s) L) m' \<and> end_addr m' = end_addr m"
proof -
  obtain p0 ps where ps: "pages_free m = p0 # ps" using free by (cases "pages_free m") auto
  from kalloc_page_result [OF inv ps] obtain m1 i where pg: "kalloc_page m = Ret (p0, m1)" "heap_inv n L m1"
    "spare n L m1 i" "p0 = adr m1 (PAGE_SIZE * i)" and E1: "end_addr m1 = end_addr m" "slabs m1 = slabs m" by blast
  have "\<exists>p m'. kalloc (int s) m = Ret (p, m') \<and> heap_inv n (insert (p, s) L) m' \<and> end_addr m' = end_addr m"
  proof (cases "2048 < s")
    case True
    have "heap_inv n (insert (p0, s) L) m1" using spare_block [OF pg(2,3) True s(2)] pg(4) by simp
    then show ?thesis using True s pg(1) E1 by (simp add: kalloc_def ASSERT_True)
  next
    case False
    with round_up_result [of "int s"] s obtain r b where
      r: "round_up (int s) = Some (r, 2 ^ b, b)" "3 \<le> b" "b \<le> 11" "int s \<le> 2 ^ b" by auto
    have sb: "s \<le> 2 ^ b" using r(4) by simp
    have s8: "s \<le> 2048" using False by simp
    have step: "kalloc (int s) m = (case find (has_room m) (slabs m b) of
        Some i \<Rightarrow> Ret (alloc_partition i m)
      | None \<Rightarrow> andthen (partition_page (2 ^ b) b m) (\<lambda>(i, m1).
          Ret (alloc_partition i (m1\<lparr>slabs := (slabs m1)(b := slabs m1 b @ [i])\<rparr>))))"
      using False s r(1) by (simp add: kalloc_def ASSERT_True)
    have keep: "end_addr (snd (alloc_partition i m)) = end_addr m" for i m
      by (simp add: alloc_partition_def upd_page_def Let_def)
    show ?thesis
    proof (cases "find (has_room m) (slabs m b)")
      case (Some j)
      then have j: "j \<in> set (slabs m b)" "has_room m j" by (auto simp: find_Some_iff)
      have "heap_inv n (insert (fst (alloc_partition j m), s) L) (snd (alloc_partition j m))"
        by (rule alloc_partition_result [OF inv j s(1) sb s8])
      moreover obtain p' m' where "alloc_partition j m = (p', m')" by fastforce
      ultimately show ?thesis using keep [of j m] unfolding step Some by simp
    next
      case None
      from cut_page [OF pg(2,3) r(2,3)] obtain q w m2 where
        ch: "chain_loop p0 (p0 + of_nat PAGE_SIZE - of_nat (2 ^ b)) (of_nat (2 ^ b)) (kwords m1) = Some (q, w)"
        and m2: "m2 = (upd_page i (\<lambda>pi. pi\<lparr>addr := p0, base_size := 2 ^ b, free_head := p0, bucket_index := b\<rparr>)
          (m1\<lparr>kwords := w(q := 0)\<rparr>))\<lparr>slabs := (slabs m1)(b := slabs m1 b @ [i])\<rparr>"
        and inv2: "heap_inv n L m2" "has_room m2 i" unfolding pg(4) by blast
      have i: "i < n" using pg(3) by (simp add: spare_def)
      note g = heap_invD(1) [OF pg(2)]
      have id: "VA2ID m1 p0 = i" using VA2ID_adr(1) [OF g, of "PAGE_SIZE * i"] i pg(4) by simp
      have "p0 \<noteq> 0" using adr_nonzero [OF g, of "PAGE_SIZE * i"] i pg(4) by simp
      moreover have "i < MAX_PAGES" using i g by (simp add: geom_def)
      ultimately have pp: "partition_page (2 ^ b) b m = Ret (i, upd_page i (\<lambda>pi. pi\<lparr>addr := p0, base_size := 2 ^ b,
          free_head := p0, bucket_index := b\<rparr>) (m1\<lparr>kwords := w(q := 0)\<rparr>))"
        using pg(1) ch id by (simp add: partition_page_def Let_def)
      have run: "kalloc (int s) m = Ret (alloc_partition i m2)"
        unfolding step None option.case pp m2 by (simp add: upd_page_def)
      have "i \<in> set (slabs m2 b)" by (simp add: m2)
      then have "heap_inv n (insert (fst (alloc_partition i m2), s) L) (snd (alloc_partition i m2))"
        by (rule alloc_partition_result [OF inv2(1) _ inv2(2) s(1) sb s8])
      moreover have "end_addr (snd (alloc_partition i m2)) = end_addr m" using E1 by (simp add: keep m2 upd_page_def)
      moreover obtain p' m' where "alloc_partition i m2 = (p', m')" by fastforce
      ultimately show ?thesis unfolding run by simp
    qed
  qed
  then show "\<exists>p m'. kalloc (int s) m = Ret (p, m')"
    and "kalloc (int s) m = Ret (p, m') \<Longrightarrow> heap_inv n (insert (p, s) L) m' \<and> end_addr m' = end_addr m"
    by auto
qed

text \<open>Without a free page, \<^verbatim>\<open>kalloc\<close> still serves what fits in a page already cut up.\<close>

lemma kalloc_keeps:
  assumes inv: "heap_inv n L m" and s: "0 < s" and run: "kalloc (int s) m = Ret (p, m')"
  shows "heap_inv n (insert (p, s) L) m'"
proof -
  have sp: "s \<le> PAGE_SIZE" using run by (auto simp: kalloc_def ASSERT_def split: if_splits)
  show ?thesis
  proof (cases "pages_free m = []")
    case False
    then show ?thesis using kalloc_result(2) [OF inv s sp _ run] by simp
  next
    case True
    then have np: "kalloc_page m = Undef" by (simp add: kalloc_page_def)
    have s8: "s \<le> 2048" using run np s sp by (auto simp: kalloc_def ASSERT_def split: if_splits)
    with round_up_result [of "int s"] s obtain r b where
      r: "round_up (int s) = Some (r, 2 ^ b, b)" "3 \<le> b" "b \<le> 11" "int s \<le> 2 ^ b" by auto
    have sb: "s \<le> 2 ^ b" using r(4) by simp
    from run s sp s8 r(1) np obtain i where i: "find (has_room m) (slabs m b) = Some i" "alloc_partition i m = (p, m')"
      by (auto simp: kalloc_def ASSERT_True partition_page_def split: option.splits)
    then have "i \<in> set (slabs m b)" "has_room m i" by (auto simp: find_Some_iff)
    from alloc_partition_result [OF inv this s sb s8] i(2) show ?thesis by simp
  qed
qed

text \<open>Giving a partition back.\<close>

lemma block_small:
  assumes inv: "heap_inv n L m" and p: "(p, s) \<in> L" and s: "s \<le> 2048"
  shows "\<exists>b. VA2ID m p \<in> set (slabs m b) \<and> p \<in> adr m ` parts (VA2ID m p) (2 ^ b)"
proof -
  have b: "block_in n m p s" by (rule heap_invD(8) [OF inv p])
  then have "0 < s" by (simp add: block_in_def)
  from block_place [OF inv b this] s show ?thesis by auto
qed

lemma chain_push:
  assumes "chain w f (f # fl)" and "p \<notin> set (f # fl)" and "distinct (f # fl)"
  shows "chain (w(f := p, p := w f)) f (f # p # fl)"
proof -
  have "chain (w(f := p, p := w f)) (w f) fl = chain w (w f) fl" using assms(2,3) by (intro chain_cong) auto
  then show ?thesis using assms by auto
qed

lemma drop_slab:
  assumes inv: "heap_inv n L m" and b: "i \<in> set (slabs m b)" and none: "used L m i = {}"
  defines "m' \<equiv> m\<lparr>slabs := (slabs m)(b := remove1 i (slabs m b))\<rparr>"
  shows "heap_inv n L m'" and "spare n L m' i"
proof -
  note I = heap_invD [OF inv]
  have M: "end_addr m' = end_addr m" "pages_free m' = pages_free m" "page_info m' = page_info m" "kwords m' = kwords m"
    by (simp_all add: m'_def)
  note E = same_end [OF M(1)]
  have gone: "i \<notin> set (slabs m' c)" for c using I(4) [of b] one_slab [OF inv b, of c] by (auto simp: m'_def)
  have sl: "j \<in> set (slabs m' c) \<longleftrightarrow> j \<in> set (slabs m c)" if "j \<noteq> i" for j c using that by (simp add: m'_def)
  show "spare n L m' i" using gone none I(5) [OF b] by (simp add: spare_def E M)
  show "heap_inv n L m'"
  proof (rule heap_invI)
    show "\<exists>fl. slab_page m' j c (used L m' j) fl" if j: "j \<in> set (slabs m' c)" for j c
    proof -
      have "j \<in> set (slabs m c)" using j gone sl by metis
      then show ?thesis using I(6) [of j c] by (auto simp: slab_page_def E M)
    qed
    show "alloc_partitions_cnt (page_info m' j) = 0" if "j < n" "\<forall>c. j \<notin> set (slabs m' c)" for j
    proof (cases "j = i")
      case True
      then show ?thesis using I(6) [OF b] none by (auto simp: slab_page_def M)
    next
      case False
      then show ?thesis using I(7) [OF that(1)] that(2) sl by (simp add: M)
    qed
    show "block_in n m' q t" if q: "(q, t) \<in> L" for q t
    proof -
      have qi: "VA2ID m q \<noteq> i" using q none by (auto simp: used_def)
      have bl: "block_in n m q t" by (rule I(8) [OF q])
      then have "0 < t" by (simp add: block_in_def)
      from block_place [OF inv bl this] obtain k where k: "q = adr m k"
        "if t \<le> 2048 then \<exists>c. VA2ID m q \<in> set (slabs m c) \<and> k \<in> parts (VA2ID m q) (2 ^ c) \<and> t \<le> 2 ^ c
          else k = PAGE_SIZE * VA2ID m q \<and> (\<forall>c. VA2ID m q \<notin> set (slabs m c))" "VA2ID m q < n" by auto
      show ?thesis
      proof (cases "t \<le> 2048")
        case True
        with k obtain c where "VA2ID m q \<in> set (slabs m' c)" "k \<in> parts (VA2ID m q) (2 ^ c)" "t \<le> 2 ^ c"
          using sl [OF qi] by auto
        then show ?thesis using True bl k(1) unfolding block_in_def E by auto
      next
        case False
        with k have "q = adr m (PAGE_SIZE * VA2ID m q)" "\<forall>c. VA2ID m q \<notin> set (slabs m' c)" using sl [OF qi] by simp_all
        then show ?thesis using False bl k(3) unfolding block_in_def E M by auto
      qed
    qed
    show "t = u" if "(q, t) \<in> L" "(q, u) \<in> L" for q t u using that by (rule I(9))
    show "j < n \<and> 3 \<le> c \<and> c \<le> 11 \<and> adr m' (PAGE_SIZE * j) \<notin> set (pages_free m')" if j: "j \<in> set (slabs m' c)" for j c
    proof -
      have "j \<in> set (slabs m c)" using j gone sl by metis
      then show ?thesis using I(5) [of j c] by (simp add: E M)
    qed
    show "distinct (slabs m' c)" for c using I(4) by (simp add: m'_def)
  qed (use I(1-3,10) in \<open>simp_all add: E M\<close>, simp add: m'_def)
qed

lemma kfree_result:
  assumes inv: "heap_inv n L m" and p: "(p, s) \<in> L" and s: "s \<le> 2048"
  shows "\<exists>m'. kfree p m = Ret m' \<and> heap_inv n (L - {(p, s)}) m'"
proof -
  note I = heap_invD [OF inv]
  define i where "i = VA2ID m p"
  let ?L = "L - {(p, s)}"
  from block_small [OF inv p s] obtain b where b: "i \<in> set (slabs m b)" "p \<in> adr m ` parts i (2 ^ b)" by (auto simp: i_def)
  have i: "i < n" using I(5) [OF b(1)] by simp
  obtain fl where fl: "slab_page m i b (used L m i) fl" using I(6) [OF b(1)] by blast
  then obtain f fl' where f: "fl = f # fl'" by (cases fl) (auto simp: slab_page_def)
  note F = fl [unfolded slab_page_def f] and U = slab_used [OF inv b(1) fl]
  let ?pi = "page_info m i"
  have head: "free_head ?pi = f" and ad: "addr ?pi = adr m (PAGE_SIZE * i)" and bk: "bucket_index ?pi = b" using F by auto
  have pU: "p \<in> used L m i" using p by (auto simp: used_def i_def)
  have "(p, t) \<notin> ?L" for t using I(9) [OF p, of t] by auto
  then have us: "used ?L m i = used L m i - {p}" by (fastforce simp: used_def)
  have pf: "p \<notin> set fl" using F pU by (auto simp: f)
  define m2 where "m2 = (upd_page i (\<lambda>pi. pi\<lparr>alloc_partitions_cnt := alloc_partitions_cnt pi - 1\<rparr>) m)
    \<lparr>kwords := (kwords m)(f := p, p := kwords m f)\<rparr>"
  have M: "end_addr m2 = end_addr m" "pages_free m2 = pages_free m" "slabs m2 = slabs m"
    "kwords m2 = (kwords m)(f := p, p := kwords m f)"
    "page_info m2 i = ?pi\<lparr>alloc_partitions_cnt := alloc_partitions_cnt ?pi - 1\<rparr>"
    "\<And>j. j \<noteq> i \<Longrightarrow> page_info m2 j = page_info m j" by (simp_all add: m2_def upd_page_def)
  note E = same_end [OF M(1)]
  have fp: "f \<in> adr m ` parts i (2 ^ b)" using F by auto
  have inv2: "heap_inv n ?L m2"
  proof (rule change_page [OF inv b(1) _ M(1-3)])
    have "chain (kwords m2) f (f # p # fl')"
      unfolding M(4) by (rule chain_push) (use F pf in \<open>auto simp: f\<close>)
    then show "slab_page m2 i b (used ?L m i) (f # p # fl')"
      unfolding us slab_page_def using F pf U(2) pU by (auto simp: M E f)
    show "kwords m2 a = kwords m a" if "a \<notin> adr m ` parts i (2 ^ b)" for a
      using that fp b(2) by (auto simp: M(4))
    show "(q, t) \<in> ?L" if "(q, t) \<in> L" "VA2ID m q \<noteq> i" for q t using that by (auto simp: i_def)
    show "block_in n m q t" if "(q, t) \<in> ?L" for q t using that I(8) by simp
    show "t = u" if "(q, t) \<in> ?L" "(q, u) \<in> ?L" for q t u using that I(9) [of q t u] by simp
  qed (use M(6) in \<open>auto simp: m2_def upd_page_def\<close>)
  have f0: "f \<noteq> 0"
  proof -
    from fp obtain k where k: "f = adr m k" "k \<in> parts i (2 ^ b)" by blast
    have "k < PAGE_SIZE * n" using parts_bound(1) [OF k(2) _ i, of 0] by simp
    then show ?thesis using adr_nonzero [OF I(1), of k] k(1) by simp
  qed
  have iM: "i < MAX_PAGES" using i I(1) by (simp add: geom_def)
  define c where "c = alloc_partitions_cnt ?pi - 1"
  have run: "kfree p m = (if c = 0 then kfree_page (adr m (PAGE_SIZE * i)) (m2\<lparr>slabs := (slabs m)(b := remove1 i (slabs m b))\<rparr>)
      else Ret m2)"
  proof -
    have e: "kwords (upd_page i g m) = kwords m" "slabs (upd_page i g m) = slabs m"
      "page_info (upd_page i g m) i = g (page_info m i)" for g by (simp_all add: upd_page_def)
    show ?thesis
      using iM f0 b(1) head ad bk unfolding kfree_def i_def [symmetric] Let_def
      by (simp add: e c_def m2_def)
  qed
  show ?thesis
  proof (cases "c = 0")
    case False
    then show ?thesis using run inv2 by simp
  next
    case True
    have "card (used L m i) \<noteq> 0" using pU U(2) by auto
    moreover have "alloc_partitions_cnt ?pi = card (used L m i)" using F by simp
    ultimately have "card (used L m i) = 1" using True unfolding c_def by linarith
    then have "used ?L m2 i = {}" unfolding E us using pU by (auto simp: card_1_singleton_iff)
    note D = drop_slab [OF inv2 _ this, of b, unfolded M(3), OF b(1)]
    from kfree_page_result [OF D] show ?thesis using run True by (simp add: E)
  qed
qed

lemma free_whole:
  assumes inv: "heap_inv n L m" and p: "(p, s) \<in> L" and s: "2048 < s"
  shows "\<exists>m'. kfree_page p m = Ret m' \<and> heap_inv n (L - {(p, s)}) m'"
proof -
  note I = heap_invD [OF inv]
  let ?L = "L - {(p, s)}"
  from I(8) [OF p] s obtain i where i: "i < n" "p = adr m (PAGE_SIZE * i)" "p \<notin> set (pages_free m)" "\<forall>b. i \<notin> set (slabs m b)"
    by (auto simp: block_in_def)
  have id: "VA2ID m p = i" using VA2ID_adr(1) [OF I(1), of "PAGE_SIZE * i"] i(1,2) by simp
  have "used ?L m i = {}"
  proof (rule ccontr)
    assume "used ?L m i \<noteq> {}"
    then obtain q t where q: "(q, t) \<in> L" "(q, t) \<noteq> (p, s)" "VA2ID m q = i" by (auto simp: used_def)
    have b: "block_in n m q t" by (rule I(8) [OF q(1)])
    then have "0 < t" by (simp add: block_in_def)
    from block_place [OF inv b this] q(3) i(4) have "q = adr m (PAGE_SIZE * i)" by (auto split: if_splits)
    then show False using I(9) [OF p, of t] q(1,2) i(2) by simp
  qed
  then have sp: "spare n ?L m i" using i by (simp add: spare_def)
  have "used ?L m j = used L m j" if "j \<noteq> i" for j using that id by (auto simp: used_def)
  moreover have "j \<noteq> i" if "j \<in> set (slabs m b)" for j b using that i(4) by auto
  ultimately have pages: "\<exists>fl. slab_page m j b (used ?L m j) fl" if "j \<in> set (slabs m b)" for j b
    using I(6) [OF that] that by metis
  have "heap_inv n ?L m"
  proof (rule heap_invI)
    show "block_in n m q t" if "(q, t) \<in> ?L" for q t using I(8) that by simp
    show "t = u" if "(q, t) \<in> ?L" "(q, u) \<in> ?L" for q t u using that I(9) [of q t u] by simp
    show "\<exists>fl. slab_page m j b (used ?L m j) fl" if "j \<in> set (slabs m b)" for j b using that by (rule pages)
  qed (use I(1-5,7,10) in simp_all)
  from kfree_page_result [OF this sp] i(2) show ?thesis by simp
qed

text \<open>What a client writes into its block touches no free partition.\<close>

lemma client_store:
  assumes inv: "heap_inv n L m" and p: "(p, s) \<in> L" and j: "j < s"
  shows "heap_inv n L (m\<lparr>kwords := (kwords m)(p + of_nat j := v)\<rparr>)"
proof -
  note I = heap_invD [OF inv]
  let ?m = "m\<lparr>kwords := (kwords m)(p + of_nat j := v)\<rparr>"
  from block_place [OF inv I(8) [OF p] j] obtain k where k: "p + of_nat j = adr m (k + j)" "p = adr m k" "k + j < PAGE_SIZE * n"
    "(k + j) div PAGE_SIZE = VA2ID m p" and kp: "if s \<le> 2048 then \<exists>b. VA2ID m p \<in> set (slabs m b) \<and> k \<in> parts (VA2ID m p) (2 ^ b) \<and> s \<le> 2 ^ b
      else k = PAGE_SIZE * VA2ID m p \<and> (\<forall>b. VA2ID m p \<notin> set (slabs m b))" by blast
  have "\<exists>fl. slab_page ?m i b (used L ?m i) fl" if i: "i \<in> set (slabs m b)" for i b
  proof -
    obtain fl where fl: "slab_page m i b (used L m i) fl" using I(6) [OF i] by blast
    have iN: "i < n" using I(5) [OF i] by simp
    have "p + of_nat j \<notin> set fl"
    proof
      assume a: "p + of_nat j \<in> set fl"
      then obtain k' where k': "p + of_nat j = adr m k'" "k' \<in> parts i (2 ^ b)" using fl by (auto simp: slab_page_def)
      note pb = parts_bound [OF k'(2) _ iN, of 0]
      have ke: "k + j = k'" using adr_inj [OF I(1), of "k + j" k'] k(1,3) k'(1) pb by simp
      then have "VA2ID m p = i" using k(4) pb by simp
      then have "s \<le> 2048" using kp i by (auto split: if_splits)
      with kp obtain b' where b': "i \<in> set (slabs m b')" "k \<in> parts i (2 ^ b')" "s \<le> 2 ^ b'" using \<open>VA2ID m p = i\<close> by auto
      have bb: "b' = b" by (rule one_slab [OF inv b'(1) i])
      have "k = k'"
      proof (rule parts_apart)
        show "k \<in> parts i (2 ^ b)" "j < 2 ^ b" using b'(2,3) bb j by simp_all
      qed (use k'(2) ke in simp_all)
      then have "p \<in> set fl" using a k(2) k'(1) by simp
      moreover have "p \<in> used L m i" using p \<open>VA2ID m p = i\<close> by (auto simp: used_def)
      ultimately show False using fl by (auto simp: slab_page_def)
    qed
    then have "chain (kwords ?m) f fl = chain (kwords m) f fl" for f by (intro chain_cong) auto
    then have "slab_page ?m i b (used L m i) fl" using fl by (simp add: slab_page_def)
    then show ?thesis by auto
  qed
  note pages = this
  show ?thesis
  proof (rule heap_invI)
    show "\<exists>fl. slab_page ?m i b (used L ?m i) fl" if "i \<in> set (slabs ?m b)" for i b using pages that by simp
    show "block_in n ?m q t" if "(q, t) \<in> L" for q t using I(8) [OF that] by (simp add: block_in_def)
    show "t = u" if "(q, t) \<in> L" "(q, u) \<in> L" for q t u using that by (rule I(9))
  qed (use I(1-5,7,10) in simp_all)
qed

section \<open>Start-up\<close>

lemma PAGE_BASE_le: "PAGE_BASE a \<le> a"
  by (simp add: PAGE_BASE_def word_and_le1 word_and_le2)

lemma top_addr: "unat (P2K PHYSTOP) = 18446462599789805568"
  by (simp add: P2K_def PHYSTOP_def KSPACE_MASK_def)

lemma init_pages_loop_result:
  assumes "init_pages_loop p k m = Ret m'" and "p = adr m (PAGE_SIZE * k)" and "unat p = unat (adr m 0) + PAGE_SIZE * k"
    and "0 < unat (adr m 0)" and "k = 0 \<or> unat p < 2 ^ 64 - 1" and "k \<le> MAX_PAGES"
    and "pages_free m = map (\<lambda>i. adr m (PAGE_SIZE * i)) [0..<k]" and "\<forall>i<k. alloc_partitions_cnt (page_info m i) = 0"
    and "free_size m = length (pages_free m)"
  shows "\<exists>n. geom n m' \<and> pages_free m' = map (\<lambda>i. adr m' (PAGE_SIZE * i)) [0..<n] \<and>
    (\<forall>i<n. alloc_partitions_cnt (page_info m' i) = 0) \<and> end_addr m' = end_addr m \<and> free_size m' = length (pages_free m')"
  using assms
proof (induction p k m rule: init_pages_loop.induct)
  case (1 p k m)
  show ?case
  proof (cases "p < P2K PHYSTOP")
    case False
    then have "m' = m" using 1(2) by (subst (asm) init_pages_loop.simps) simp
    moreover have "unat p < 2 ^ 64" using unsigned_less [of p] by simp
    then have "geom k m" using 1(4,5,7) by (simp add: geom_def)
    ultimately show ?thesis using 1(8-10) by blast
  next
    case True
    have k: "k < MAX_PAGES" using 1(2) True by (subst (asm) init_pages_loop.simps) (auto split: if_splits)
    let ?m = "upd_page k (\<lambda>pg. pg\<lparr>addr := p, base_size := 0, free_head := p, alloc_partitions_cnt := 0\<rparr>)
      (m\<lparr>pages_free := pages_free m @ [p], free_size := free_size m + 1\<rparr>)"
    have run: "init_pages_loop (p + of_nat PAGE_SIZE) (k + 1) ?m = Ret m'"
      using 1(2) True k by (subst (asm) init_pages_loop.simps) simp
    have up: "unat p < unat (P2K PHYSTOP)" using True by (simp add: word_less_nat_alt)
    then have lim: "unat p + PAGE_SIZE < 2 ^ 64 - 1" unfolding top_addr by (simp add: PAGE_SIZE_def)
    then have u: "unat (p + of_nat PAGE_SIZE) = unat p + PAGE_SIZE"
      by (simp add: unat_word_ariths unat_of_nat PAGE_SIZE_def)
    have "\<exists>n. geom n m' \<and> pages_free m' = map (\<lambda>i. adr m' (PAGE_SIZE * i)) [0..<n] \<and>
      (\<forall>i<n. alloc_partitions_cnt (page_info m' i) = 0) \<and> end_addr m' = end_addr ?m \<and> free_size m' = length (pages_free m')"
    proof (rule 1(1) [OF True _ run])
      show "p + of_nat PAGE_SIZE = adr ?m (PAGE_SIZE * (k + 1))" by (simp add: 1(3) adr_def)
      show "unat (p + of_nat PAGE_SIZE) = unat (adr ?m 0) + PAGE_SIZE * (k + 1)" using u 1(4) by simp
      show "k + 1 = 0 \<or> unat (p + of_nat PAGE_SIZE) < 2 ^ 64 - 1" using u lim by simp
      show "pages_free ?m = map (\<lambda>i. adr ?m (PAGE_SIZE * i)) [0..<k + 1]" using 1(3,8) by (simp add: upd_page_def)
      show "\<forall>i<k + 1. alloc_partitions_cnt (page_info ?m i) = 0" using 1(9) by (auto simp: upd_page_def less_Suc_eq)
      show "free_size ?m = length (pages_free ?m)" using 1(10) by (simp add: upd_page_def)
    qed (use k 1(5) in simp_all)
    then show ?thesis by (simp add: upd_page_def)
  qed
qed

lemma init_pages_result:
  assumes "init_pages m = Ret m'" and "end_addr m < P2K PHYSTOP"
  shows "\<exists>n. heap_inv n {} m'"
proof -
  from assms(1) obtain m1 where run: "init_pages_loop (PAGE_BASE (end_addr m) + of_nat PAGE_SIZE) 0
      (m\<lparr>alloc_page_cnt := 0, pages_free := [], free_size := 0\<rparr>) = Ret m1" and m': "m' = m1\<lparr>slabs := (\<lambda>_. [])\<rparr>"
    by (auto simp: init_pages_def andthen_eq_Ret)
  let ?m = "m\<lparr>alloc_page_cnt := 0, pages_free := [], free_size := 0\<rparr>"
  have "PAGE_BASE (end_addr m) < P2K PHYSTOP" using PAGE_BASE_le assms(2) by (rule le_less_trans)
  then have up: "unat (PAGE_BASE (end_addr m)) < unat (P2K PHYSTOP)" by (simp add: word_less_nat_alt)
  then have "unat (adr m 0) = unat (PAGE_BASE (end_addr m)) + PAGE_SIZE"
    unfolding top_addr by (simp add: adr_def unat_word_ariths unat_of_nat PAGE_SIZE_def)
  then have "0 < unat (adr ?m 0)" by simp
  from init_pages_loop_result [OF run _ _ this] obtain n where
    n: "geom n m1" "pages_free m1 = map (\<lambda>i. adr m1 (PAGE_SIZE * i)) [0..<n]" "\<forall>i<n. alloc_partitions_cnt (page_info m1 i) = 0"
    "free_size m1 = length (pages_free m1)" by (auto simp: adr_def)
  have inj: "i = j" if "adr m1 (PAGE_SIZE * i) = adr m1 (PAGE_SIZE * j)" "i < n" "j < n" for i j
    using adr_inj [OF n(1), of "PAGE_SIZE * i" "PAGE_SIZE * j"] that by simp
  have "heap_inv n {} m'"
    by (rule heap_invI) (use n inj in \<open>auto simp: m' distinct_map inj_on_def\<close>)
  then show ?thesis by blast
qed

section \<open>Properties\<close>

text \<open>
  The life of the memory: start-up, then in any order allocations, blocks given back, and
  clients storing words in their blocks. \<open>L\<close> is the set of blocks in use.
\<close>

inductive mem_run :: "kmem \<Rightarrow> (u64 \<times> nat) set \<Rightarrow> bool" where
  start: "\<lbrakk>init_pages m0 = Ret m; end_addr m0 < P2K PHYSTOP\<rbrakk> \<Longrightarrow> mem_run m {}"
| alloc: "\<lbrakk>mem_run m L; 0 < s; kalloc (int s) m = Ret (p, m')\<rbrakk> \<Longrightarrow> mem_run m' (insert (p, s) L)"
| free: "\<lbrakk>mem_run m L; (p, s) \<in> L; s \<le> 2048; kfree p m = Ret m'\<rbrakk> \<Longrightarrow> mem_run m' (L - {(p, s)})"
| free_page: "\<lbrakk>mem_run m L; (p, s) \<in> L; 2048 < s; kfree_page p m = Ret m'\<rbrakk> \<Longrightarrow> mem_run m' (L - {(p, s)})"
| store: "\<lbrakk>mem_run m L; (p, s) \<in> L; j < s; 8 dvd j\<rbrakk> \<Longrightarrow> mem_run (m\<lparr>kwords := (kwords m)(p + of_nat j := v)\<rparr>) L"

lemma mem_run_inv: "mem_run m L \<Longrightarrow> \<exists>n. heap_inv n L m"
proof (induction rule: mem_run.induct)
  case (start m0 m)
  then show ?case by (rule init_pages_result)
next
  case (alloc m L s p m')
  then obtain n where "heap_inv n L m" by blast
  from kalloc_keeps [OF this alloc.hyps(2,3)] show ?case by blast
next
  case (free m L p s m')
  then obtain n where "heap_inv n L m" by blast
  from kfree_result [OF this free.hyps(2,3)] free.hyps(4) show ?case by auto
next
  case (free_page m L p s m')
  then obtain n where "heap_inv n L m" by blast
  from free_whole [OF this free_page.hyps(2,3)] free_page.hyps(4) show ?case by auto
next
  case (store m L p s j v)
  then obtain n where "heap_inv n L m" by blast
  from client_store [OF this store.hyps(2,3)] show ?case by blast
qed

text \<open>
  C9: blocks in use never overlap, whatever has been allocated, freed and written before. An
  allocation of 1 to 4096 bytes succeeds as long as there is a free page, and giving back a
  block in use always succeeds.
\<close>

theorem kalloc_safe:
  assumes "mem_run m L"
  shows "(\<forall>p s q t. (p, s) \<in> L \<and> (q, t) \<in> L \<and> (p, s) \<noteq> (q, t) \<longrightarrow> (\<forall>i < s. \<forall>j < t. p + of_nat i \<noteq> q + of_nat j)) \<and>
    (\<forall>s. 0 < s \<and> s \<le> PAGE_SIZE \<and> pages_free m \<noteq> [] \<longrightarrow> (\<exists>p m'. kalloc (int s) m = Ret (p, m'))) \<and>
    (\<forall>p s. (p, s) \<in> L \<longrightarrow> (\<exists>m'. (if s \<le> 2048 then kfree p m else kfree_page p m) = Ret m'))"
proof -
  from mem_run_inv [OF assms] obtain n where inv: "heap_inv n L m" by blast
  have 1: "\<forall>i < s. \<forall>j < t. p + of_nat i \<noteq> q + of_nat j" if "(p, s) \<in> L" "(q, t) \<in> L" "(p, s) \<noteq> (q, t)" for p s q t
    using blocks_disjoint [OF inv that] by blast
  have 2: "\<exists>p m'. kalloc (int s) m = Ret (p, m')" if "0 < s" "s \<le> PAGE_SIZE" "pages_free m \<noteq> []" for s
    using kalloc_result(1) [OF inv that] .
  have 3: "\<exists>m'. (if s \<le> 2048 then kfree p m else kfree_page p m) = Ret m'" if "(p, s) \<in> L" for p s
    using kfree_result [OF inv that] free_whole [OF inv that] by (cases "s \<le> 2048") auto
  show ?thesis
  proof (intro conjI)
    show "\<forall>p s q t. (p, s) \<in> L \<and> (q, t) \<in> L \<and> (p, s) \<noteq> (q, t) \<longrightarrow> (\<forall>i < s. \<forall>j < t. p + of_nat i \<noteq> q + of_nat j)"
    proof (rule allI)+
      fix p s q t
      show "(p, s) \<in> L \<and> (q, t) \<in> L \<and> (p, s) \<noteq> (q, t) \<longrightarrow> (\<forall>i < s. \<forall>j < t. p + of_nat i \<noteq> q + of_nat j)"
        using 1 [of p s q t] by blast
    qed
    show "\<forall>s. 0 < s \<and> s \<le> PAGE_SIZE \<and> pages_free m \<noteq> [] \<longrightarrow> (\<exists>p m'. kalloc (int s) m = Ret (p, m'))" using 2 by simp
    show "\<forall>p s. (p, s) \<in> L \<longrightarrow> (\<exists>m'. (if s \<le> 2048 then kfree p m else kfree_page p m) = Ret m')" using 3 by simp
  qed
qed

text \<open>A memory of three pages.\<close>

definition demo_mem :: kmem where
  "demo_mem = \<lparr>kwords = (\<lambda>_. 0),
     page_info = (\<lambda>_. \<lparr>addr = 0, base_size = 0, free_head = 0, alloc_partitions_cnt = 0, bucket_index = 0, ref = 0\<rparr>),
     pages_free = [], free_size = 0, slabs = (\<lambda>_. []), alloc_page_cnt = 0, zero_pg = 0, end_addr = 0xffff00003effc123\<rparr>"

lemma demo_mem_start: "\<exists>m. init_pages demo_mem = Ret m \<and> pages_free m \<noteq> [] \<and> mem_run m {}"
proof -
  have "PAGE_BASE (end_addr demo_mem) + of_nat PAGE_SIZE = 0xffff00003effd000"
    by (simp add: PAGE_BASE_def PAGE_SIZE_def demo_mem_def)
  moreover have "P2K PHYSTOP = 0xffff00003f000000" by (simp add: P2K_def PHYSTOP_def KSPACE_MASK_def)
  ultimately obtain m where m: "init_pages demo_mem = Ret m" "pages_free m \<noteq> []"
    by (simp add: init_pages_def init_pages_loop.simps PAGE_SIZE_def MAX_PAGES_def upd_page_def)
  have "mem_run m {}" by (rule mem_run.start [OF m(1)]) (simp add: demo_mem_def P2K_def PHYSTOP_def KSPACE_MASK_def)
  with m show ?thesis by blast
qed

theorem kalloc_safe_witness:
  "\<exists>m p m1. mem_run m {} \<and> kalloc 100 m = Ret (p, m1) \<and> mem_run m1 {(p, 100)} \<and> (\<exists>m2. kfree p m1 = Ret m2)"
proof -
  from demo_mem_start obtain m where m: "mem_run m {}" "pages_free m \<noteq> []" by blast
  from kalloc_safe [OF m(1)] have "\<forall>s. 0 < s \<and> s \<le> PAGE_SIZE \<and> pages_free m \<noteq> [] \<longrightarrow> (\<exists>p m'. kalloc (int s) m = Ret (p, m'))"
    by (elim conjE)
  from spec [OF this, of 100] m(2) have "\<exists>p m1. kalloc (int 100) m = Ret (p, m1)" by (simp add: PAGE_SIZE_def)
  then obtain p m1 where a: "kalloc (int 100) m = Ret (p, m1)" by blast
  have r: "mem_run m1 {(p, 100)}" using mem_run.alloc [OF m(1) _ a] by simp
  from kalloc_safe [OF r] have "\<exists>m2. kfree p m1 = Ret m2" by simp
  with m(1) a r show ?thesis by auto
qed

end
