(* ===== verification/Pgtbl.thy ===== *)
theory Pgtbl
  imports Mem_Safe
begin

text \<open>
  Page tables (\<^verbatim>\<open>vm/pgtbl.c\<close>, \<^verbatim>\<open>aarch64/mmu.h\<close>): four levels of tables of 512 entries in
  allocated pages. The walk, mapping and unmapping of pages, the recursive release of a
  table, and copying into the pages of another address space.
\<close>

section \<open>Entries and addresses\<close>

definition N_PTE_PER_TABLE :: nat where "N_PTE_PER_TABLE = 512"
definition PTE_VALID :: u64 where "PTE_VALID = 0x1"
definition PTE_TABLE :: u64 where "PTE_TABLE = 0x3"
definition PTE_RO :: u64 where "PTE_RO = push_bit 7 1"
definition PTE_USER_DATA :: u64 where
  "PTE_USER_DATA = push_bit 6 1 OR (push_bit 2 1 OR push_bit 10 1 OR push_bit 8 2) OR 0x3"

definition PTE_ADDRESS :: "u64 \<Rightarrow> u64" where "PTE_ADDRESS pte = pte AND NOT 0xFFFF000000000FFF"
definition PTE_FLAGS :: "u64 \<Rightarrow> u64" where "PTE_FLAGS pte = pte AND 0xFFFF000000000FFF"

definition VA_PART0 :: "u64 \<Rightarrow> u64" where "VA_PART0 va = drop_bit 39 (va AND 0xFF8000000000)"
definition VA_PART1 :: "u64 \<Rightarrow> u64" where "VA_PART1 va = drop_bit 30 (va AND 0x7FC0000000)"
definition VA_PART2 :: "u64 \<Rightarrow> u64" where "VA_PART2 va = drop_bit 21 (va AND 0x3FE00000)"
definition VA_PART3 :: "u64 \<Rightarrow> u64" where "VA_PART3 va = drop_bit 12 (va AND 0x1FF000)"

definition is_valid :: "u64 \<Rightarrow> bool" where "is_valid e \<longleftrightarrow> e AND PTE_VALID \<noteq> 0"

section \<open>The walk\<close>

text \<open>The upper levels, from the table at \<open>t\<close> on; missing tables are made if \<open>alloc\<close> is set.\<close>

fun walk :: "bool \<Rightarrow> u64 list \<Rightarrow> u64 \<Rightarrow> kmem \<Rightarrow> (u64 option \<times> kmem) outcome" where
  "walk alloc [] t m = Ret (Some t, m)"
| "walk alloc (x # xs) t m =
     (let a = t + 8 * x in
      if is_valid (kwords m a) then walk alloc xs (P2K (PTE_ADDRESS (kwords m a))) m
      else if \<not> alloc then Ret (None, m)
      else
        andthen (kalloc_page m) (\<lambda>(pg, m1).
        let e = K2P pg OR PTE_TABLE;
            m2 = m1\<lparr>kwords := fill_zero (P2K (PTE_ADDRESS e)) ((kwords m1)(a := e))\<rparr>
        in walk alloc xs (P2K (PTE_ADDRESS (kwords m2 a))) m2))"

text \<open>The result is the address of the entry, unless it is \<^verbatim>\<open>NULL\<close>.\<close>

definition get_pte :: "u64 \<Rightarrow> u64 \<Rightarrow> bool \<Rightarrow> kmem \<Rightarrow> (u64 option \<times> kmem) outcome" where
  "get_pte pt va alloc m =
     (if pt = 0 \<and> \<not> alloc then Ret (None, m)
      else
        andthen (if pt = 0 then andthen (kalloc_page m) (\<lambda>(pg, m1). Ret (K2P pg, m1)) else Ret (pt, m)) (\<lambda>(pt1, m1).
        andthen (walk alloc [VA_PART0 va, VA_PART1 va, VA_PART2 va] (P2K pt1) m1) (\<lambda>(r, m2).
        Ret (map_option (\<lambda>t. t + 8 * VA_PART3 va) r, m2))))"

section \<open>Mapping and unmapping\<close>

definition page_ref :: "int \<Rightarrow> nat \<Rightarrow> kmem \<Rightarrow> kmem" where
  "page_ref d i m = upd_page i (\<lambda>pg. pg\<lparr>ref := ref pg + d\<rparr>) m"

definition detach_mapped_page :: "u64 \<Rightarrow> kmem \<Rightarrow> kmem outcome" where
  "detach_mapped_page e m =
     (let a = P2K (PTE_ADDRESS e) in
      case get_page_info_by_kaddr m a of
        None \<Rightarrow> Ret m
      | Some i \<Rightarrow>
          let m1 = page_ref (- 1) i m in
          if ref (page_info m1 i) = 0 then kfree_page a m1 else Ret m1)"

text \<open>
  The test in the code looks at the address of the entry, not at the entry; and it keeps the
  bits of \<^verbatim>\<open>!PTE_VALID\<close>, which is 0.
\<close>

definition unmap_in_pgtbl :: "u64 \<Rightarrow> u64 \<Rightarrow> kmem \<Rightarrow> kmem outcome" where
  "unmap_in_pgtbl pt va m =
     andthen (get_pte pt va False m) (\<lambda>(r, m1).
     case r of
       None \<Rightarrow> Ret m1
     | Some pte \<Rightarrow>
         if \<not> is_valid pte then Ret m1
         else
           andthen (detach_mapped_page (kwords m1 pte) m1) (\<lambda>m2.
           Ret (m2\<lparr>kwords := (kwords m2)(pte := kwords m2 pte AND 0)\<rparr>)))"

partial_function (option) unmap_range_loop :: "u64 \<Rightarrow> u64 \<Rightarrow> u64 \<Rightarrow> kmem \<Rightarrow> kmem outcome option" where
  "unmap_range_loop pt b e m =
     (if b < e then
        case unmap_in_pgtbl pt b m of
          Ret m1 \<Rightarrow> unmap_range_loop pt (b + of_nat PAGE_SIZE) e m1
        | Panic \<Rightarrow> Some Panic
        | Sleep \<Rightarrow> Some Sleep
        | Undef \<Rightarrow> Some Undef
      else Some (Ret m))"

definition unmap_range_in_pgtbl :: "u64 \<Rightarrow> u64 \<Rightarrow> u64 \<Rightarrow> kmem \<Rightarrow> kmem outcome option" where
  "unmap_range_in_pgtbl pt b e m = unmap_range_loop pt (PAGE_BASE b) e m"

definition map_in_pgtbl :: "u64 \<Rightarrow> u64 \<Rightarrow> u64 \<Rightarrow> u64 \<Rightarrow> kmem \<Rightarrow> kmem outcome" where
  "map_in_pgtbl pt va ka flags m =
     andthen (get_pte pt va True m) (\<lambda>(r, m1).
     case r of
       None \<Rightarrow> Undef
     | Some pte \<Rightarrow>
         andthen (if is_valid (kwords m1 pte) then unmap_in_pgtbl pt va m1 else Ret m1) (\<lambda>m2.
         let m3 = m2\<lparr>kwords := (kwords m2)(pte := K2P ka OR flags OR PTE_VALID)\<rparr> in
         Ret (case get_page_info_by_kaddr m3 ka of None \<Rightarrow> m3 | Some i \<Rightarrow> page_ref 1 i m3)))"

section \<open>Release\<close>

text \<open>The loop over the entries of a table; \<open>f\<close> is applied to the valid ones.\<close>

function for_entries :: "(u64 \<Rightarrow> kmem \<Rightarrow> kmem outcome) \<Rightarrow> u64 \<Rightarrow> nat \<Rightarrow> kmem \<Rightarrow> kmem outcome" where
  "for_entries f base i m =
     (if i < N_PTE_PER_TABLE then
        let e = kwords m (base + 8 * of_nat i) in
        if is_valid e then andthen (f e m) (\<lambda>m1. for_entries f base (i + 1) m1)
        else for_entries f base (i + 1) m
      else Ret m)"
  by pat_completeness auto
termination by (relation "measure (\<lambda>(_, _, i, _). N_PTE_PER_TABLE - i)") auto

declare for_entries.simps [simp del]

text \<open>
  \<open>free_levels k e\<close> is the call at level \<open>3 - k\<close> for the table that the entry \<open>e\<close> points to.
\<close>

primrec free_levels :: "nat \<Rightarrow> u64 \<Rightarrow> kmem \<Rightarrow> kmem outcome" where
  "free_levels 0 e m =
     (let base = P2K (PTE_ADDRESS e) in
      andthen (for_entries detach_mapped_page base 0 m) (\<lambda>m1. kfree_page base m1))"
| "free_levels (Suc k) e m =
     (let base = P2K (PTE_ADDRESS e) in
      andthen (for_entries (free_levels k) base 0 m) (\<lambda>m1. kfree_page base m1))"

definition free_page_table_level :: "u64 \<Rightarrow> nat \<Rightarrow> kmem \<Rightarrow> kmem outcome" where
  "free_page_table_level e level m =
     andthen (ASSERT (level \<le> 3)) (\<lambda>_. free_levels (3 - level) e m)"

text \<open>The argument is the root of the table, which is then set to \<^verbatim>\<open>NULL\<close>.\<close>

definition free_page_table :: "u64 \<Rightarrow> kmem \<Rightarrow> (u64 \<times> kmem) outcome" where
  "free_page_table pt m =
     andthen (ASSERT (pt \<noteq> 0)) (\<lambda>_.
     andthen (free_page_table_level pt 0 m) (\<lambda>m1.
     andthen (kfree_page (P2K pt) m1) (\<lambda>m2.
     Ret (0, m2))))"

text \<open>The root that \<^verbatim>\<open>set_page_table\<close> loads; \<open>invalid_pt\<close> is the address of the empty table.\<close>

definition set_page_table :: "u64 \<Rightarrow> u64 \<Rightarrow> u64" where
  "set_page_table invalid_pt pt = (if pt \<noteq> 0 then pt else K2P invalid_pt)"

section \<open>Copying to another address space\<close>

text \<open>Bytes within the words of memory.\<close>

definition byte_at :: "(u64 \<Rightarrow> u64) \<Rightarrow> u64 \<Rightarrow> u8" where
  "byte_at w a = ucast (drop_bit (8 * unat (a AND 7)) (w (a AND NOT 7)))"

definition put_byte :: "u64 \<Rightarrow> u8 \<Rightarrow> (u64 \<Rightarrow> u64) \<Rightarrow> u64 \<Rightarrow> u64" where
  "put_byte a b w =
     (let k = 8 * unat (a AND 7); x = a AND NOT 7
      in w(x := (w x AND NOT (push_bit k 0xff)) OR push_bit k (ucast b)))"

primrec put_bytes :: "u64 \<Rightarrow> u8 list \<Rightarrow> (u64 \<Rightarrow> u64) \<Rightarrow> u64 \<Rightarrow> u64" where
  "put_bytes a [] w = w"
| "put_bytes a (b # bs) w = put_bytes (a + 1) bs (put_byte a b w)"

lemma page_offset: "unat (va - PAGE_BASE va) < PAGE_SIZE"
proof -
  have "va - PAGE_BASE va = va AND NOT (PAGE_BASE va)"
    by (rule disjunctive_diff) (auto simp: PAGE_BASE_def bit_simps)
  also have "\<dots> = va AND of_nat (PAGE_SIZE - 1)"
    by (rule bit_eqI) (auto simp: PAGE_BASE_def bit_simps)
  finally have "va - PAGE_BASE va \<le> of_nat (PAGE_SIZE - 1)" by (simp add: word_and_le1 word_and_le2)
  then show ?thesis by (simp add: word_le_nat_alt PAGE_SIZE_def)
qed

function copy_to_user :: "u64 \<Rightarrow> u64 \<Rightarrow> u8 list \<Rightarrow> kmem \<Rightarrow> (int \<times> kmem) outcome" where
  "copy_to_user pt va src m =
     (if src \<noteq> [] then
        andthen (get_pte pt va True m) (\<lambda>(r, m1).
        case r of
          None \<Rightarrow> Undef
        | Some pte \<Rightarrow>
            let p_addr = kwords m1 pte; off = unat (va - PAGE_BASE va); n = min (PAGE_SIZE - off) (length src) in
            if p_addr = 0 then Ret (- 1, m1)
            else
              copy_to_user pt (va + of_nat n) (drop n src)
                (m1\<lparr>kwords := put_bytes (P2K (PTE_ADDRESS p_addr) + of_nat off) (take n src) (kwords m1)\<rparr>))
      else Ret (0, m))"
  by pat_completeness auto
termination
  by (relation "measure (\<lambda>(_, _, src, _). length src)") (auto simp: min_def not_le page_offset)

declare copy_to_user.simps [simp del]

section \<open>Tables and frames\<close>

lemma P2K_K2P [simp]: "P2K (K2P a) = a" "K2P (P2K a) = a"
  by (simp_all add: P2K_def K2P_def)

lemma unat_mod_page: "unat (a mod 4096 :: u64) = unat a mod 4096" "unat (a mod 2 :: u64) = unat a mod 2"
  by (subst unat_mod, simp)+

lemma bit_address_mask: "n < 12 \<Longrightarrow> bit (0xFFFF000000000FFF :: u64) n"
proof -
  assume n: "n < 12"
  have "list_all (bit (0xFFFF000000000FFF :: u64)) [0..<12]" by (simp add: upt_rec)
  with n show ?thesis by (simp add: list_all_iff)
qed

text \<open>Every table starts a page.\<close>

lemma table_aligned: "unat (P2K (PTE_ADDRESS e)) mod 4096 = 0"
proof -
  have "take_bit 12 (PTE_ADDRESS e) = 0"
    by (rule bit_eqI) (auto simp: PTE_ADDRESS_def bit_simps bit_address_mask)
  then have "PTE_ADDRESS e mod 4096 = 0" by (simp add: take_bit_eq_mod)
  then have "unat (PTE_ADDRESS e mod 4096) = unat (0 :: u64)" by (rule arg_cong)
  then have "unat (PTE_ADDRESS e) mod 4096 = 0" by (simp only: unat_mod_page unat_0)
  moreover have "unat KSPACE_MASK mod 4096 = 0" by (simp add: KSPACE_MASK_def)
  ultimately have s: "(unat (PTE_ADDRESS e) + unat KSPACE_MASK) mod 4096 = 0"
    using mod_add_eq [of "unat (PTE_ADDRESS e)" 4096 "unat KSPACE_MASK"] by (simp only: add_0 mod_0)
  have "unat (P2K (PTE_ADDRESS e)) = (unat (PTE_ADDRESS e) + unat KSPACE_MASK) mod 2 ^ 64"
    unfolding P2K_def unat_word_ariths by simp
  moreover have "(4096 :: nat) dvd 2 ^ 64" by simp
  ultimately show ?thesis using s by (simp only: mod_mod_cancel)
qed

lemma entry_even:
  assumes "unat t mod 4096 = 0"
  shows "\<not> is_valid (t + 8 * x)"
proof -
  have u: "unat (t + 8 * x) = (unat t + 8 * unat x) mod 2 ^ 64"
    by (simp only: unat_word_ariths mod_add_right_eq) simp
  have "(2 :: nat) dvd 2 ^ 64" by simp
  then have "unat (t + 8 * x) mod 2 = (unat t + 8 * unat x) mod 2" unfolding u by (rule mod_mod_cancel)
  moreover obtain q where "unat t = 4096 * q" using assms by (auto simp: mod_eq_0_iff_dvd elim: dvdE)
  ultimately have "unat (t + 8 * x) mod 2 = 0" by simp
  then have "unat ((t + 8 * x) mod 2) = 0" by (simp only: unat_mod_page)
  then show ?thesis by (simp add: is_valid_def PTE_VALID_def and_one_eq unat_eq_0)
qed

lemma page_of:
  assumes "unat t mod 4096 = 0" and "unat d < 4096"
  shows "PAGE_BASE (t + d) = t"
proof -
  have lo: "\<not> bit t n" if "n < 12" for n
  proof -
    have "unat (t mod 4096) = 0" using assms(1) by (simp only: unat_mod_page)
    then have "take_bit 12 t = 0" by (simp add: take_bit_eq_mod unat_eq_0)
    then have "\<not> bit (take_bit 12 t) n" by simp
    then show ?thesis using that by (simp add: bit_take_bit_iff)
  qed
  have hi: "\<not> bit d n" if "12 \<le> n" for n
  proof -
    have "unat (d mod 4096) = unat d" using assms(2) by (simp only: unat_mod_page mod_less)
    then have "d mod 4096 = d" by (simp add: word_unat_eq_iff)
    then have "take_bit 12 d = d" by (simp add: take_bit_eq_mod)
    then have "bit d n \<longleftrightarrow> bit (take_bit 12 d) n" by simp
    then show ?thesis using that by (simp add: bit_take_bit_iff)
  qed
  have m: "of_nat (PAGE_SIZE - 1) = (mask 12 :: u64)" by (simp add: PAGE_SIZE_def mask_eq_exp_minus_1)
  have "\<not> bit t n \<or> \<not> bit d n" for n using lo [of n] hi [of n] by (cases "n < 12") auto
  then have "t + d = t OR d" by (rule disjunctive_add)
  then show ?thesis
    unfolding PAGE_BASE_def m by (auto simp: bit_simps not_less intro!: bit_eqI dest: hi) (meson lo not_le)
qed

definition frame :: "u64 \<Rightarrow> bool" where
  "frame p \<longleftrightarrow> PTE_ADDRESS (K2P p) = K2P p"

lemma frame_aligned: "frame p \<Longrightarrow> unat p mod 4096 = 0"
  using table_aligned [of "K2P p"] by (simp add: frame_def)

lemma table_entry:
  assumes "frame p"
  shows "P2K (PTE_ADDRESS (K2P p OR PTE_TABLE)) = p" and "is_valid (K2P p OR PTE_TABLE)"
proof -
  have "PTE_ADDRESS (K2P p OR PTE_TABLE) = PTE_ADDRESS (K2P p) OR PTE_ADDRESS PTE_TABLE"
    by (simp add: PTE_ADDRESS_def bit.conj_disj_distrib2)
  also have "PTE_ADDRESS PTE_TABLE = 0" by (simp add: PTE_ADDRESS_def PTE_TABLE_def)
  finally show "P2K (PTE_ADDRESS (K2P p OR PTE_TABLE)) = p" using assms by (simp add: frame_def)
  have "bit ((K2P p OR PTE_TABLE) AND PTE_VALID) 0" by (simp add: bit_simps PTE_TABLE_def PTE_VALID_def)
  then show "is_valid (K2P p OR PTE_TABLE)" by (auto simp: is_valid_def)
qed

lemma zero_invalid [simp]: "\<not> is_valid 0"
  by (simp add: is_valid_def)

lemma part_bound: "unat (VA_PART0 va) < 512" "unat (VA_PART1 va) < 512" "unat (VA_PART2 va) < 512" "unat (VA_PART3 va) < 512"
proof -
  have le: "unat (drop_bit k (va AND c)) < 512" if "unat c div 2 ^ k < 512" for k c
  proof -
    have "va AND c \<le> c" by (simp add: word_and_le1 word_and_le2)
    then have "unat (va AND c) div 2 ^ k \<le> unat c div 2 ^ k" by (intro div_le_mono) (simp add: word_le_nat_alt)
    moreover have "unat (drop_bit k (va AND c)) = unat (va AND c) div 2 ^ k"
      by (subst unat_drop_bit_eq) (rule drop_bit_eq_div)
    ultimately show ?thesis using that by linarith
  qed
  show "unat (VA_PART0 va) < 512" "unat (VA_PART1 va) < 512" "unat (VA_PART2 va) < 512" "unat (VA_PART3 va) < 512"
    unfolding VA_PART0_def VA_PART1_def VA_PART2_def VA_PART3_def by (rule le; simp)+
qed

lemma entry_page:
  assumes "unat t mod 4096 = 0" and "unat x < 512"
  shows "PAGE_BASE (t + 8 * x) = t"
  by (rule page_of [OF assms(1)]) (use assms(2) in \<open>simp add: unat_word_ariths\<close>)

section \<open>What the walk does\<close>

text \<open>The tables on the way, as far as they exist.\<close>

fun tables :: "u64 list \<Rightarrow> u64 \<Rightarrow> kmem \<Rightarrow> u64 list" where
  "tables [] t m = [t]"
| "tables (x # xs) t m =
     t # (if is_valid (kwords m (t + 8 * x)) then tables xs (P2K (PTE_ADDRESS (kwords m (t + 8 * x)))) m else [])"

lemma tables_head: "t \<in> set (tables xs t m)"
  by (cases xs) auto

lemma walk_reads: "\<exists>r. walk False xs t m = Ret (r, m) \<and> (\<forall>t'. r = Some t' \<and> xs \<noteq> [] \<longrightarrow> unat t' mod 4096 = 0)"
proof (induction xs arbitrary: t)
  case (Cons x xs)
  from Cons [of "P2K (PTE_ADDRESS (kwords m (t + 8 * x)))"] show ?case
    using table_aligned by (cases xs) (auto simp: Let_def)
qed simp

lemma get_pte_reads:
  obtains "get_pte pt va False m = Ret (None, m)"
  | t where "pt \<noteq> 0" "unat t mod 4096 = 0" "walk False [VA_PART0 va, VA_PART1 va, VA_PART2 va] (P2K pt) m = Ret (Some t, m)"
      "get_pte pt va False m = Ret (Some (t + 8 * VA_PART3 va), m)"
proof -
  from walk_reads [of "[VA_PART0 va, VA_PART1 va, VA_PART2 va]" "P2K pt" m] obtain r where
    r: "walk False [VA_PART0 va, VA_PART1 va, VA_PART2 va] (P2K pt) m = Ret (r, m)" "\<forall>t'. r = Some t' \<longrightarrow> unat t' mod 4096 = 0"
    by (auto simp del: walk.simps)
  show thesis
  proof (cases "pt = 0 \<or> r = None")
    case True
    then show thesis using r(1) that(1) by (auto simp: get_pte_def simp del: walk.simps)
  next
    case False
    then obtain t where "r = Some t" by blast
    then show thesis using False r that(2) [of t] by (simp add: get_pte_def del: walk.simps)
  qed
qed

lemma unmap_nothing: "unmap_in_pgtbl pt va m = Ret m"
  by (rule get_pte_reads [of pt va m]) (simp_all add: unmap_in_pgtbl_def entry_even)

lemma walk_same:
  assumes "walk False xs t m = Ret (Some t', m)" and "distinct (tables xs t m)" and "unat t mod 4096 = 0"
    and "\<forall>x \<in> set xs. unat x < 512" and "\<And>a. PAGE_BASE a \<noteq> t' \<Longrightarrow> kwords m' a = kwords m a"
  shows "walk False xs t m' = Ret (Some t', m') \<and> last (tables xs t m) = t'"
  using assms(1-4)
proof (induction xs arbitrary: t)
  case (Cons x xs)
  let ?a = "t + 8 * x" and ?t = "P2K (PTE_ADDRESS (kwords m (t + 8 * x)))"
  have v: "is_valid (kwords m ?a)" and w: "walk False xs ?t m = Ret (Some t', m)"
    using Cons.prems(1) by (auto simp: Let_def split: if_splits)
  have d: "distinct (tables xs ?t m)" "t \<notin> set (tables xs ?t m)" using Cons.prems(2) v by simp_all
  from Cons.IH [OF w d(1) table_aligned] Cons.prems(4) have ih: "walk False xs ?t m' = Ret (Some t', m')" "last (tables xs ?t m) = t'"
    by simp_all
  have "tables xs ?t m \<noteq> []" using tables_head [of ?t xs m] by auto
  then have "t' \<in> set (tables xs ?t m)" using ih(2) last_in_set by blast
  then have "PAGE_BASE ?a \<noteq> t'" using entry_page [OF Cons.prems(3), of x] Cons.prems(4) d(2) by auto
  then have "kwords m' ?a = kwords m ?a" by (rule assms(5))
  then show ?case using v ih \<open>tables xs ?t m \<noteq> []\<close> by simp
qed simp

lemma walk_makes:
  assumes "distinct (tables xs t m)" and "set (tables xs t m) \<inter> set (pages_free m) = {}" and "unat t mod 4096 = 0"
    and "\<forall>x \<in> set xs. unat x < 512" and "distinct (pages_free m)" and "\<forall>p \<in> set (pages_free m). frame p"
    and "length xs \<le> length (pages_free m)" and "free_size m = length (pages_free m)"
  shows "\<exists>t' m'. walk True xs t m = Ret (Some t', m') \<and> walk False xs t m' = Ret (Some t', m') \<and>
    distinct (tables xs t m') \<and> set (tables xs t m') \<subseteq> set (tables xs t m) \<union> set (pages_free m) \<and>
    (\<forall>a. PAGE_BASE a \<notin> set (tables xs t m) \<union> set (pages_free m) \<longrightarrow> kwords m' a = kwords m a)"
  using assms
proof (induction xs arbitrary: t m)
  case (Cons x xs)
  let ?a = "t + 8 * x"
  have pa: "PAGE_BASE ?a = t" using entry_page [OF Cons.prems(3), of x] Cons.prems(4) by simp
  have t: "t \<notin> set (pages_free m)" using Cons.prems(2) by simp
  show ?case
  proof (cases "is_valid (kwords m ?a)")
    case True
    let ?t = "P2K (PTE_ADDRESS (kwords m ?a))"
    have tab: "tables (x # xs) t m = t # tables xs ?t m" using True by simp
    have "\<exists>t' m'. walk True xs ?t m = Ret (Some t', m') \<and> walk False xs ?t m' = Ret (Some t', m') \<and>
      distinct (tables xs ?t m') \<and> set (tables xs ?t m') \<subseteq> set (tables xs ?t m) \<union> set (pages_free m) \<and>
      (\<forall>a. PAGE_BASE a \<notin> set (tables xs ?t m) \<union> set (pages_free m) \<longrightarrow> kwords m' a = kwords m a)"
      by (rule Cons.IH) (use Cons.prems True table_aligned in auto)
    then obtain t' m' where r: "walk True xs ?t m = Ret (Some t', m')" "walk False xs ?t m' = Ret (Some t', m')"
      "distinct (tables xs ?t m')" "set (tables xs ?t m') \<subseteq> set (tables xs ?t m) \<union> set (pages_free m)"
      "\<forall>a. PAGE_BASE a \<notin> set (tables xs ?t m) \<union> set (pages_free m) \<longrightarrow> kwords m' a = kwords m a" by blast
    have tn: "t \<notin> set (tables xs ?t m)" using Cons.prems(1) True by simp
    have same: "kwords m' ?a = kwords m ?a" using r(5) pa t tn by simp
    have "walk True (x # xs) t m = Ret (Some t', m')" using True r(1) by (simp add: Let_def)
    moreover have "walk False (x # xs) t m' = Ret (Some t', m')" using True r(2) same by (simp add: Let_def)
    moreover have tab': "tables (x # xs) t m' = t # tables xs ?t m'" using True same by simp
    moreover have "t \<notin> set (tables xs ?t m')" using r(4) t tn by blast
    ultimately show ?thesis using r(3-5) tab by (intro exI [of _ t'] exI [of _ m']) auto
  next
    case False
    obtain pg ps where ps: "pages_free m = pg # ps" using Cons.prems(7) by (cases "pages_free m") auto
    have fr: "frame pg" using Cons.prems(6) ps by simp
    let ?e = "K2P pg OR PTE_TABLE"
    define m1 where "m1 = m\<lparr>alloc_page_cnt := alloc_page_cnt m + 1, pages_free := ps, free_size := length ps,
      kwords := (kwords m)(pg := pg, pg + 8 := pg)\<rparr>"
    define m2 where "m2 = m1\<lparr>kwords := fill_zero pg ((kwords m1)(?a := ?e))\<rparr>"
    have al: "kalloc_page m = Ret (pg, m1)" using ps Cons.prems(8) by (cases "ps = []") (auto simp: kalloc_page_def m1_def)
    have tp: "t \<noteq> pg" using t ps by auto
    have p0: "PAGE_BASE pg = pg" "PAGE_BASE (pg + 8) = pg"
      using page_of [OF frame_aligned [OF fr], of 0] page_of [OF frame_aligned [OF fr], of 8] by simp_all
    have sz: "free_size m2 = length ps" by (simp add: m2_def m1_def)
    have M: "pages_free m2 = ps" "kwords m2 ?a = ?e" "\<And>b. PAGE_BASE b = pg \<Longrightarrow> kwords m2 b = 0"
      "\<And>b. PAGE_BASE b \<noteq> pg \<Longrightarrow> PAGE_BASE b \<noteq> t \<Longrightarrow> kwords m2 b = kwords m b"
      using p0 pa tp by (auto simp: m2_def m1_def fill_zero_def)
    have tab2: "tables xs pg m2 = [pg]"
      using entry_page [OF frame_aligned [OF fr]] Cons.prems(4) M(3) by (cases xs) simp_all
    have "\<exists>t' m'. walk True xs pg m2 = Ret (Some t', m') \<and> walk False xs pg m' = Ret (Some t', m') \<and>
      distinct (tables xs pg m') \<and> set (tables xs pg m') \<subseteq> set (tables xs pg m2) \<union> set (pages_free m2) \<and>
      (\<forall>a. PAGE_BASE a \<notin> set (tables xs pg m2) \<union> set (pages_free m2) \<longrightarrow> kwords m' a = kwords m2 a)"
      by (rule Cons.IH) (use Cons.prems ps tab2 M(1) sz frame_aligned [OF fr] in simp_all)
    then obtain t' m' where r: "walk True xs pg m2 = Ret (Some t', m')" "walk False xs pg m' = Ret (Some t', m')"
      "distinct (tables xs pg m')" "set (tables xs pg m') \<subseteq> insert pg (set ps)"
      "\<forall>a. PAGE_BASE a \<notin> insert pg (set ps) \<longrightarrow> kwords m' a = kwords m2 a" unfolding tab2 M(1) by auto
    have same: "kwords m' ?a = ?e" using r(5) pa t ps M(2) by simp
    have "walk True (x # xs) t m = Ret (Some t', m')"
      using False al r(1) table_entry(1) [OF fr] M(2) by (simp add: Let_def m2_def)
    moreover have "walk False (x # xs) t m' = Ret (Some t', m')" using r(2) same table_entry [OF fr] by (simp add: Let_def)
    moreover have tab': "tables (x # xs) t m' = t # tables xs pg m'" using same table_entry [OF fr] by simp
    moreover have "t \<notin> set (tables xs pg m')" using r(4) t ps by auto
    moreover have "set (tables (x # xs) t m') \<subseteq> set (tables (x # xs) t m) \<union> set (pages_free m)" unfolding tab' ps using r(4) by auto
    moreover have "kwords m' b = kwords m b" if "PAGE_BASE b \<notin> set (tables (x # xs) t m) \<union> set (pages_free m)" for b
      using that r(5) M(4) ps by auto
    ultimately show ?thesis using r(3) by (intro exI [of _ t'] exI [of _ m']) auto
  qed
qed (auto intro!: exI)

lemma kfree_page_last: "kfree_page p m = Ret m' \<Longrightarrow> p \<in> set (pages_free m') \<and> last (pages_free m') = p"
  by (cases "p \<in> set (pages_free m)") (auto simp: kfree_page_def Let_def split: if_splits)

lemma free_levels_frees:
  "free_levels k e m = Ret m' \<Longrightarrow> P2K (PTE_ADDRESS e) \<in> set (pages_free m') \<and> last (pages_free m') = P2K (PTE_ADDRESS e)"
  by (cases k) (auto simp: Let_def andthen_eq_Ret dest: kfree_page_last)

lemma for_entries_none:
  "\<forall>j<N_PTE_PER_TABLE. \<not> is_valid (kwords m (base + 8 * of_nat j)) \<Longrightarrow> for_entries f base i m = Ret m"
  by (induction "N_PTE_PER_TABLE - i" arbitrary: i) (subst for_entries.simps; simp)+

section \<open>Properties\<close>

abbreviation upper :: "u64 \<Rightarrow> u64 list" where
  "upper va \<equiv> [VA_PART0 va, VA_PART1 va, VA_PART2 va]"

text \<open>
  The tables on the way to \<open>va\<close> are different pages in use, and the free list is a list of
  different page frames.
\<close>

definition walk_ok :: "u64 \<Rightarrow> u64 \<Rightarrow> kmem \<Rightarrow> bool" where
  "walk_ok pt va m \<longleftrightarrow> pt \<noteq> 0 \<and> unat (P2K pt) mod 4096 = 0 \<and> distinct (tables (upper va) (P2K pt) m) \<and>
     set (tables (upper va) (P2K pt) m) \<inter> set (pages_free m) = {} \<and>
     distinct (pages_free m) \<and> (\<forall>p \<in> set (pages_free m). frame p) \<and> free_size m = length (pages_free m)"

text \<open>
  C12: what \<^verbatim>\<open>map_in_pgtbl\<close> enters, the walk finds: afterwards \<^verbatim>\<open>get_pte\<close> leads to an entry with
  the physical address of the page, the flags given and the valid bit. Missing tables are
  made from free pages; no word of memory changes outside the tables on the way and the
  pages that were free.
\<close>

theorem map_then_walk:
  assumes "walk_ok pt va m" and "3 \<le> length (pages_free m)"
  shows "\<exists>m' pte. map_in_pgtbl pt va ka flags m = Ret m' \<and> get_pte pt va False m' = Ret (Some pte, m') \<and>
    kwords m' pte = K2P ka OR flags OR PTE_VALID \<and>
    (\<forall>a. PAGE_BASE a \<notin> set (tables (upper va) (P2K pt) m) \<union> set (pages_free m) \<longrightarrow> kwords m' a = kwords m a)"
proof -
  let ?xs = "upper va" and ?t0 = "P2K pt"
  have bounds: "\<forall>x \<in> set ?xs. unat x < 512" using part_bound by simp
  have al: "unat ?t0 mod 4096 = 0" and pt: "pt \<noteq> 0" using assms(1) by (simp_all add: walk_ok_def)
  from walk_makes [of ?xs ?t0 m] assms bounds obtain t m1 where
    w1: "walk True ?xs ?t0 m = Ret (Some t, m1)" and w2: "walk False ?xs ?t0 m1 = Ret (Some t, m1)"
    and d: "distinct (tables ?xs ?t0 m1)" and sub: "set (tables ?xs ?t0 m1) \<subseteq> set (tables ?xs ?t0 m) \<union> set (pages_free m)"
    and fr: "\<forall>a. PAGE_BASE a \<notin> set (tables ?xs ?t0 m) \<union> set (pages_free m) \<longrightarrow> kwords m1 a = kwords m a"
    by (auto simp: walk_ok_def simp del: walk.simps tables.simps)
  let ?p = "t + 8 * VA_PART3 va" and ?e = "K2P ka OR flags OR PTE_VALID"
  let ?m2 = "m1\<lparr>kwords := (kwords m1)(?p := ?e)\<rparr>"
  let ?m3 = "case get_page_info_by_kaddr ?m2 ka of None \<Rightarrow> ?m2 | Some i \<Rightarrow> page_ref 1 i ?m2"
  have k3: "kwords ?m3 = (kwords m1)(?p := ?e)" by (auto simp: page_ref_def upd_page_def split: option.splits)
  have "get_pte pt va True m = Ret (Some ?p, m1)" using pt w1 by (simp add: get_pte_def del: walk.simps)
  then have run: "map_in_pgtbl pt va ka flags m = Ret ?m3"
    by (simp add: map_in_pgtbl_def unmap_nothing Let_def)
  have ta: "unat t mod 4096 = 0"
    using walk_reads [of ?xs ?t0 m1] w2 by (auto simp del: walk.simps)
  have pt3: "PAGE_BASE ?p = t" by (rule entry_page [OF ta part_bound(4)])
  have w3: "walk False ?xs ?t0 ?m3 = Ret (Some t, ?m3) \<and> last (tables ?xs ?t0 m1) = t"
    by (rule walk_same [OF w2 d al bounds]) (use pt3 in \<open>auto simp: k3\<close>)
  have g: "get_pte pt va False ?m3 = Ret (Some ?p, ?m3)" using pt w3 by (simp add: get_pte_def del: walk.simps)
  have "t \<in> set (tables ?xs ?t0 m1)" using w3 last_in_set [of "tables ?xs ?t0 m1"] by (auto simp del: walk.simps)
  then have "kwords ?m3 a = kwords m a" if "PAGE_BASE a \<notin> set (tables ?xs ?t0 m) \<union> set (pages_free m)" for a
    using that fr sub pt3 unfolding k3 by (auto simp del: tables.simps)
  with run g show ?thesis by (intro exI [of _ ?m3] exI [of _ ?p]) (simp add: k3 del: tables.simps)
qed

text \<open>A root table without entries, and three free pages.\<close>

definition demo_tables :: kmem where
  "demo_tables = demo_mem\<lparr>pages_free := [P2K 0x81000, P2K 0x82000, P2K 0x83000], free_size := 3\<rparr>"

theorem map_then_walk_witness:
  "\<exists>m' pte. map_in_pgtbl 0x80000 0x400000 (P2K 0x90000) PTE_USER_DATA demo_tables = Ret m' \<and>
    get_pte 0x80000 0x400000 False m' = Ret (Some pte, m') \<and> kwords m' pte = 0x90000 OR PTE_USER_DATA OR PTE_VALID"
proof -
  have "walk_ok 0x80000 0x400000 demo_tables"
    by (simp add: walk_ok_def demo_tables_def demo_mem_def frame_def PTE_ADDRESS_def P2K_def K2P_def KSPACE_MASK_def)
  from map_then_walk [OF this, of "P2K 0x90000" PTE_USER_DATA] show ?thesis
    by (auto simp: demo_tables_def)
qed

text \<open>
  C36: nothing is ever unmapped. \<^verbatim>\<open>unmap_in_pgtbl\<close> tests the lowest bit of the address of the
  entry, which is a multiple of 8, and returns: the entry stays, and so does the reference
  to the page. So a heap that shrinks, a file that is unmapped and a page that is mapped
  over another keep the old page reachable or leak it.
\<close>

theorem unmap_does_nothing:
  "unmap_in_pgtbl pt va m = Ret m \<and> (unmap_range_in_pgtbl pt b e m = None \<or> unmap_range_in_pgtbl pt b e m = Some (Ret m))"
proof -
  have "unmap_range_loop pt x e m = Some r \<Longrightarrow> r = Ret m" for x r
    by (erule unmap_range_loop.raw_induct [rotated]) (auto simp: unmap_nothing split: if_splits)
  then show ?thesis by (cases "unmap_range_in_pgtbl pt b e m") (auto simp: unmap_range_in_pgtbl_def unmap_nothing)
qed

text \<open>
  C37: \<^verbatim>\<open>free_page_table\<close> frees the root table twice: at the end of the recursion, and again
  itself. The list of free pages then counts one page more than it has, and two pages less
  are counted as in use than were freed. When later a single page is left on a list that
  counts too many, taking it fails an assertion of \<^verbatim>\<open>list_remove\<close>.
\<close>

theorem free_page_table_counts_twice:
  assumes "frame (P2K pt)" and "pt \<noteq> 0" and "free_page_table_level pt 0 m = Ret m1"
  shows "(\<exists>m2. free_page_table pt m = Ret (0, m2) \<and> pages_free m2 = pages_free m1 \<and> P2K pt \<in> set (pages_free m1) \<and>
      free_size m2 = free_size m1 + 1 \<and> alloc_page_cnt m2 = alloc_page_cnt m1 - 1) \<and>
    (\<forall>m p. pages_free m = [p] \<and> free_size m = length (pages_free m) + 1 \<longrightarrow> kalloc_page m = Panic)"
proof -
  have "P2K pt \<in> set (pages_free m1) \<and> last (pages_free m1) = P2K pt"
    using assms(1,3) free_levels_frees [of 3 pt m m1] by (simp add: free_page_table_level_def frame_def)
  then show ?thesis using assms(2,3) by (simp add: free_page_table_def kfree_page_def kalloc_page_def Let_def ASSERT_True)
qed

theorem free_page_table_counts_twice_witness:
  "\<exists>m2. free_page_table 0x80000 demo_tables = Ret (0, m2) \<and> length (pages_free m2) = 4 \<and> free_size m2 = 5"
proof -
  let ?m = "demo_tables\<lparr>alloc_page_cnt := - 1, free_size := 4, pages_free := pages_free demo_tables @ [P2K 0x80000]\<rparr>"
  have f: "frame (P2K 0x80000)" by (simp add: frame_def PTE_ADDRESS_def)
  have a: "PTE_ADDRESS 0x80000 = 0x80000" by (simp add: PTE_ADDRESS_def)
  have none: "for_entries (free_levels 2) (P2K 0x80000) 0 demo_tables = Ret demo_tables"
    by (rule for_entries_none) (simp add: demo_tables_def demo_mem_def)
  have "kfree_page (P2K 0x80000) demo_tables = Ret ?m"
    by (simp add: kfree_page_def Let_def demo_tables_def demo_mem_def P2K_def KSPACE_MASK_def)
  then have "free_levels (Suc 2) 0x80000 demo_tables = Ret ?m"
    by (simp only: free_levels.simps a Let_def none andthen.simps)
  then have "free_page_table_level 0x80000 0 demo_tables = Ret ?m"
    by (simp add: free_page_table_level_def numeral_3_eq_3 numeral_2_eq_2)
  from free_page_table_counts_twice [OF f _ this] show ?thesis by (auto simp: demo_tables_def)
qed

end
