(* ===== verification/Vmregion.thy ===== *)
theory Vmregion
  imports Pgtbl
begin

text \<open>
  Address spaces (\<^verbatim>\<open>vm/vmregion.c\<close>): the list of regions of a process, creating and releasing
  regions, copying an address space for \<^verbatim>\<open>fork\<close>, the heap, and the checks of user pointers.
  Loops over pages run on 64-bit addresses that may wrap around; a loop that does not end
  is \<^term>\<open>None\<close>. A region is a record with the address \<open>vself\<close> of its structure; \<^verbatim>\<open>list_forall\<close>
  visits a list from its second element round to the first.
\<close>

section \<open>Structures\<close>

definition VMR_FILE :: u64 where "VMR_FILE = 1"
definition VMR_RO :: u64 where "VMR_RO = push_bit 2 1"
definition VMR_HEAP :: u64 where "VMR_HEAP = push_bit 3 1"
definition VMR_STACK :: u64 where "VMR_STACK = push_bit 4 1"
definition VMR_MM :: u64 where "VMR_MM = push_bit 5 1"

record mmap_info =
  mm_fp :: "nat option"
  mm_offset :: u64
  mm_prot :: u32
  mm_flags :: u32

record vmregion =
  vself :: u64
  vflags :: u64
  vbegin :: u64
  vend :: u64
  vmmap :: mmap_info

record vmspace =
  pgtbl :: u64
  vmregions :: "vmregion list"

definition has_flag :: "u64 \<Rightarrow> vmregion \<Rightarrow> bool" where
  "has_flag f v \<longleftrightarrow> vflags v AND f \<noteq> 0"

definition init_mmap_info :: mmap_info where
  "init_mmap_info = \<lparr>mm_fp = None, mm_offset = 0, mm_prot = 0, mm_flags = 0\<rparr>"

text \<open>Changing the region at an address.\<close>

definition upd_region :: "u64 \<Rightarrow> (vmregion \<Rightarrow> vmregion) \<Rightarrow> vmspace \<Rightarrow> vmspace" where
  "upd_region a f vs = vs\<lparr>vmregions := map (\<lambda>v. if vself v = a then f v else v) (vmregions vs)\<rparr>"

section \<open>Regions\<close>

definition init_vmspace :: "kmem \<Rightarrow> (vmspace \<times> kmem) outcome" where
  "init_vmspace m =
     andthen (kalloc_page m) (\<lambda>(p, m1).
     Ret (\<lparr>pgtbl = K2P p, vmregions = []\<rparr>, m1\<lparr>kwords := fill_zero p (kwords m1)\<rparr>))"

definition check_vmregion_intersection :: "vmspace \<Rightarrow> u64 \<Rightarrow> u64 \<Rightarrow> bool" where
  "check_vmregion_intersection vs b e =
     list_ex (\<lambda>v. (vbegin v \<le> b \<and> b < vend v) \<or> (vbegin v \<le> e \<and> e < vend v)) (rotate1 (vmregions vs))"

text \<open>A region takes 64 bytes. The result is the new region, if there is one.\<close>

definition create_vmregion ::
  "u64 \<Rightarrow> u64 \<Rightarrow> u64 \<Rightarrow> vmspace \<Rightarrow> kmem \<Rightarrow> (vmregion option \<times> vmspace \<times> kmem) outcome" where
  "create_vmregion flags b len vs m =
     (if check_vmregion_intersection vs b (b + len) then Ret (None, vs, m)
      else
        andthen (kalloc 64 m) (\<lambda>(p, m1).
        let v = \<lparr>vself = p, vflags = flags, vbegin = b, vend = b + len, vmmap = init_mmap_info\<rparr>
        in Ret (Some v, vs\<lparr>vmregions := vmregions vs @ [v]\<rparr>, m1)))"

primrec free_regions :: "u64 \<Rightarrow> vmregion list \<Rightarrow> kmem \<Rightarrow> kmem outcome option" where
  "free_regions pt [] m = Some (Ret m)"
| "free_regions pt (v # vs) m =
     run_then (unmap_range_in_pgtbl pt (vbegin v) (vend v) m) (\<lambda>m1.
     run_then (Some (kfree (vself v) m1)) (\<lambda>m2.
     free_regions pt vs m2))"

definition free_vmregions :: "vmspace \<Rightarrow> kmem \<Rightarrow> (vmspace \<times> kmem) outcome option" where
  "free_vmregions vs m =
     run_then (free_regions (pgtbl vs) (vmregions vs) m) (\<lambda>m1. Some (Ret (vs\<lparr>vmregions := []\<rparr>, m1)))"

text \<open>The structure of the address space itself is at address \<open>a\<close>.\<close>

definition destroy_vmspace :: "u64 \<Rightarrow> vmspace \<Rightarrow> kmem \<Rightarrow> (vmspace \<times> kmem) outcome option" where
  "destroy_vmspace a vs m =
     run_then (free_vmregions vs m) (\<lambda>(vs1, m1).
     run_then (Some (free_page_table (pgtbl vs1) m1)) (\<lambda>(pt, m2).
     run_then (Some (kfree a m2)) (\<lambda>m3.
     Some (Ret (vs1\<lparr>pgtbl := pt\<rparr>, m3)))))"

section \<open>Copying an address space\<close>

primrec copy_regions :: "vmregion list \<Rightarrow> vmspace \<Rightarrow> kmem \<Rightarrow> (vmspace \<times> kmem) outcome" where
  "copy_regions [] dst m = Ret (dst, m)"
| "copy_regions (v # vs) dst m =
     andthen (create_vmregion (vflags v) (vbegin v) (vend v - vbegin v) dst m) (\<lambda>(_, dst1, m1).
     copy_regions vs dst1 m1)"

definition copy_vmregions :: "vmspace \<Rightarrow> vmspace \<Rightarrow> kmem \<Rightarrow> (vmspace \<times> kmem) outcome option" where
  "copy_vmregions src dst m =
     run_then (free_vmregions dst m) (\<lambda>(dst1, m1).
     Some (copy_regions (rotate1 (vmregions src)) dst1 m1))"

definition copy_page :: "u64 \<Rightarrow> u64 \<Rightarrow> (u64 \<Rightarrow> u64) \<Rightarrow> u64 \<Rightarrow> u64" where
  "copy_page dst src w = (\<lambda>a. if PAGE_BASE a = dst then w (src + (a - dst)) else w a)"

text \<open>One page of a region: shared read-only by both, or copied.\<close>

definition copy_one :: "bool \<Rightarrow> u64 \<Rightarrow> u64 \<Rightarrow> u64 \<Rightarrow> kmem \<Rightarrow> kmem outcome" where
  "copy_one share src dst i m =
     andthen (get_pte src i False m) (\<lambda>(r, m1).
     case r of
       None \<Rightarrow> Ret m1
     | Some pte \<Rightarrow>
         if \<not> is_valid (kwords m1 pte) then Ret m1
         else if share then
           andthen (map_in_pgtbl dst i (P2K (PTE_ADDRESS (kwords m1 pte))) (PTE_FLAGS (kwords m1 pte) OR PTE_RO) m1) (\<lambda>m2.
           map_in_pgtbl src i (P2K (PTE_ADDRESS (kwords m2 pte))) (PTE_FLAGS (kwords m2 pte) OR PTE_RO) m2)
         else
           andthen (kalloc_page m1) (\<lambda>(ka, m2).
           map_in_pgtbl dst i ka (PTE_FLAGS (kwords m2 pte))
             (m2\<lparr>kwords := copy_page ka (P2K (PTE_ADDRESS (kwords m2 pte))) (kwords m2)\<rparr>)))"

partial_function (option) copy_pages :: "bool \<Rightarrow> u64 \<Rightarrow> u64 \<Rightarrow> u64 \<Rightarrow> u64 \<Rightarrow> kmem \<Rightarrow> kmem outcome option" where
  "copy_pages share src dst i e m =
     (if i < e then
        case copy_one share src dst i m of
          Ret m1 \<Rightarrow> copy_pages share src dst (i + of_nat PAGE_SIZE) e m1
        | Panic \<Rightarrow> Some Panic
        | Sleep \<Rightarrow> Some Sleep
        | Undef \<Rightarrow> Some Undef
      else Some (Ret m))"

primrec copy_all_pages :: "bool \<Rightarrow> u64 \<Rightarrow> u64 \<Rightarrow> vmregion list \<Rightarrow> kmem \<Rightarrow> kmem outcome option" where
  "copy_all_pages share src dst [] m = Some (Ret m)"
| "copy_all_pages share src dst (v # vs) m =
     run_then (copy_pages share src dst (PAGE_BASE (vbegin v)) (vend v) m) (\<lambda>m1.
     copy_all_pages share src dst vs m1)"

definition copy_vmspace :: "vmspace \<Rightarrow> vmspace \<Rightarrow> bool \<Rightarrow> kmem \<Rightarrow> (vmspace \<times> kmem) outcome option" where
  "copy_vmspace src dst share m =
     run_then (copy_vmregions src dst m) (\<lambda>(dst1, m1).
     run_then (Some (free_page_table (pgtbl dst1) m1)) (\<lambda>(_, m2).
     run_then (Some (kalloc_page m2)) (\<lambda>(p, m3).
     run_then (copy_all_pages share (pgtbl src) (K2P p) (rotate1 (vmregions src)) m3) (\<lambda>m4.
     Some (Ret (dst1\<lparr>pgtbl := K2P p\<rparr>, m4))))))"

section \<open>The heap\<close>

text \<open>The result \<^verbatim>\<open>-1\<close> as an unsigned number.\<close>

definition u64_minus_one :: u64 where "u64_minus_one = - 1"

definition sbrk :: "int \<Rightarrow> vmspace \<Rightarrow> kmem \<Rightarrow> (u64 \<times> vmspace \<times> kmem) outcome option" where
  "sbrk sz vs m =
     (if sz mod int PAGE_SIZE \<noteq> 0 then Some Panic
      else
        case find (has_flag VMR_HEAP) (rotate1 (vmregions vs)) of
          None \<Rightarrow> Some (Ret (u64_minus_one, vs, m))
        | Some v \<Rightarrow>
            let old_end = vend v; new_end = vend v + of_int sz;
                vs1 = upd_region (vself v) (\<lambda>w. w\<lparr>vend := new_end\<rparr>) vs
            in if new_end < old_end \<and> new_end < vbegin v then Some (Ret (u64_minus_one, vs1, m))
               else
                 run_then
                   (if new_end < old_end then unmap_range_in_pgtbl (pgtbl vs1) new_end old_end m else Some (Ret m)) (\<lambda>m1.
                 if list_ex (\<lambda>w. vbegin w < new_end \<and> new_end < vend w) (rotate1 (vmregions vs1))
                 then Some (Ret (u64_minus_one, vs1, m1))
                 else Some (Ret (old_end, vs1, m1))))"

section \<open>User pointers\<close>

definition user_readable :: "vmregion list \<Rightarrow> u64 \<Rightarrow> u64 \<Rightarrow> bool" where
  "user_readable rs start sz = list_ex (\<lambda>v. vbegin v \<le> start \<and> start + sz \<le> vend v) (rotate1 rs)"

definition user_writeable :: "vmregion list \<Rightarrow> u64 \<Rightarrow> u64 \<Rightarrow> bool" where
  "user_writeable rs start sz =
     list_ex (\<lambda>v. \<not> has_flag VMR_RO v \<and> vbegin v \<le> start \<and> start + sz \<le> vend v) (rotate1 rs)"

text \<open>The memory of the process is \<open>um\<close>. The loop from position \<open>i\<close> on.\<close>

function user_strlen_loop :: "vmregion list \<Rightarrow> (u64 \<Rightarrow> u8) \<Rightarrow> u64 \<Rightarrow> nat \<Rightarrow> nat \<Rightarrow> nat" where
  "user_strlen_loop rs um str i maxlen =
     (if i < maxlen then
        if user_readable rs (str + of_nat i) 1 then
          if um (str + of_nat i) = 0 then i + 1 else user_strlen_loop rs um str (i + 1) maxlen
        else 0
      else 0)"
  by pat_completeness auto
termination by (relation "measure (\<lambda>(_, _, _, i, maxlen). maxlen - i)") auto

declare user_strlen_loop.simps [simp del]

definition user_strlen :: "vmregion list \<Rightarrow> (u64 \<Rightarrow> u8) \<Rightarrow> u64 \<Rightarrow> nat \<Rightarrow> nat" where
  "user_strlen rs um str maxlen = user_strlen_loop rs um str 0 maxlen"

section \<open>Properties\<close>

text \<open>A region of one page.\<close>

definition demo_region :: vmregion where
  "demo_region = \<lparr>vself = 0, vflags = 0, vbegin = 0x400000, vend = 0x401000, vmmap = init_mmap_info\<rparr>"

lemma user_strlen_found:
  assumes "user_strlen_loop rs um str i maxlen = n" and "0 < n"
  shows "i < n \<and> n \<le> maxlen \<and> um (str + of_nat (n - 1)) = 0 \<and>
    (\<forall>j. i \<le> j \<longrightarrow> j < n \<longrightarrow> user_readable rs (str + of_nat j) 1) \<and> (\<forall>j. i \<le> j \<longrightarrow> j + 1 < n \<longrightarrow> um (str + of_nat j) \<noteq> 0)"
  using assms
proof (induction rs um str i maxlen rule: user_strlen_loop.induct)
  case (1 rs um str i maxlen)
  have lt: "i < maxlen" and rd: "user_readable rs (str + of_nat i) 1"
    using 1(2,3) by (subst (asm) user_strlen_loop.simps; simp split: if_splits)+
  show ?case
  proof (cases "um (str + of_nat i) = 0")
    case True
    then have n: "n = i + 1" using 1(2) lt rd by (subst (asm) user_strlen_loop.simps) simp
    have "user_readable rs (str + of_nat j) 1" if "i \<le> j" "j < n" for j
    proof -
      have "j = i" using that n by simp
      then show ?thesis using rd by simp
    qed
    then show ?thesis using True lt n by auto
  next
    case False
    then have "user_strlen_loop rs um str (i + 1) maxlen = n" using 1(2) lt rd by (subst (asm) user_strlen_loop.simps) simp
    from 1(1) [OF lt rd False this 1(3)] have ih: "i + 1 < n" "n \<le> maxlen" "um (str + of_nat (n - 1)) = 0"
      "\<forall>j. i + 1 \<le> j \<longrightarrow> j < n \<longrightarrow> user_readable rs (str + of_nat j) 1"
      "\<forall>j. i + 1 \<le> j \<longrightarrow> j + 1 < n \<longrightarrow> um (str + of_nat j) \<noteq> 0" by blast+
    have le: "j = i \<or> i + 1 \<le> j" if "i \<le> j" for j using that by auto
    have "user_readable rs (str + of_nat j) 1" if "i \<le> j" "j < n" for j using le [OF that(1)] ih(4) that(2) rd by blast
    moreover have "um (str + of_nat j) \<noteq> 0" if "i \<le> j" "j + 1 < n" for j using le [OF that(1)] ih(5) that(2) False by blast
    ultimately show ?thesis using ih(1-3) by simp
  qed
qed

lemma user_strlen_finds:
  assumes "i < n" and "n \<le> maxlen" and "um (str + of_nat (n - 1)) = 0"
    and "\<And>j. i \<le> j \<Longrightarrow> j < n \<Longrightarrow> user_readable rs (str + of_nat j) 1"
    and "\<And>j. i \<le> j \<Longrightarrow> j + 1 < n \<Longrightarrow> um (str + of_nat j) \<noteq> 0"
  shows "user_strlen_loop rs um str i maxlen = n"
  using assms
proof (induction "n - i" arbitrary: i)
  case (Suc d)
  show ?case
  proof (cases "i + 1 = n")
    case True
    then show ?thesis using Suc.prems(2,3) Suc.prems(4) [of i] by (subst user_strlen_loop.simps) auto
  next
    case False
    then have "user_strlen_loop rs um str i maxlen = user_strlen_loop rs um str (i + 1) maxlen"
      using Suc.prems(1,2) Suc.prems(4,5) [of i] by (subst user_strlen_loop.simps) simp
    also have "\<dots> = n" by (rule Suc.hyps(1)) (use Suc False in auto)
    finally show ?thesis .
  qed
qed simp

text \<open>
  C27: \<^verbatim>\<open>user_strlen\<close> returns the length of the string with its terminator, if the string and its
  terminator lie within \<open>maxlen\<close> bytes all of which the process may read, and 0 otherwise.
\<close>

theorem user_strlen_correct:
  "user_strlen rs um str maxlen = n \<and> 0 < n \<longleftrightarrow>
     0 < n \<and> n \<le> maxlen \<and> um (str + of_nat (n - 1)) = 0 \<and> (\<forall>j<n. user_readable rs (str + of_nat j) 1) \<and>
     (\<forall>j. j + 1 < n \<longrightarrow> um (str + of_nat j) \<noteq> 0)"
proof
  assume "user_strlen rs um str maxlen = n \<and> 0 < n"
  then show "0 < n \<and> n \<le> maxlen \<and> um (str + of_nat (n - 1)) = 0 \<and> (\<forall>j<n. user_readable rs (str + of_nat j) 1) \<and>
      (\<forall>j. j + 1 < n \<longrightarrow> um (str + of_nat j) \<noteq> 0)"
    using user_strlen_found [of rs um str 0 maxlen n] unfolding user_strlen_def by simp
next
  assume a: "0 < n \<and> n \<le> maxlen \<and> um (str + of_nat (n - 1)) = 0 \<and> (\<forall>j<n. user_readable rs (str + of_nat j) 1) \<and>
      (\<forall>j. j + 1 < n \<longrightarrow> um (str + of_nat j) \<noteq> 0)"
  have "user_strlen_loop rs um str 0 maxlen = n" by (rule user_strlen_finds) (use a in blast)+
  then show "user_strlen rs um str maxlen = n \<and> 0 < n" using a by (simp add: user_strlen_def)
qed

theorem user_strlen_correct_witness:
  "user_strlen [demo_region] (\<lambda>a. if a = 0x400002 then 0 else 97) 0x400000 256 = 3"
  using user_strlen_correct [where rs = "[demo_region]" and um = "\<lambda>a. if a = 0x400002 then 0 else 97" and
      str = "0x400000" and maxlen = 256 and n = 3]
  by (auto simp: user_readable_def demo_region_def less_Suc_eq numeral_3_eq_3)

text \<open>
  C26: \<^verbatim>\<open>user_readable\<close> and \<^verbatim>\<open>user_writeable\<close> are sound only for ranges that do not wrap around:
  then every byte lies in one region of the process, which for writing is not read-only. A
  range whose end wraps around is accepted too: at any non-zero address in a region, a size of
  \<open>2 ^ 64 - 1\<close> bytes passes. \<^verbatim>\<open>writev\<close> takes such sizes from the user.
\<close>

theorem user_range_checked:
  "(unat start + unat sz < 2 ^ 64 \<and> user_readable rs start sz \<longrightarrow>
      (\<exists>v \<in> set rs. \<forall>i < unat sz. vbegin v \<le> start + of_nat i \<and> start + of_nat i < vend v)) \<and>
   (unat start + unat sz < 2 ^ 64 \<and> user_writeable rs start sz \<longrightarrow>
      (\<exists>v \<in> set rs. \<not> has_flag VMR_RO v \<and> (\<forall>i < unat sz. vbegin v \<le> start + of_nat i \<and> start + of_nat i < vend v))) \<and>
   (\<forall>v \<in> set rs. vbegin v \<le> start \<and> start \<le> vend v \<and> 0 < start \<longrightarrow> user_readable rs start (- 1))"
proof -
  have cover: "vbegin v \<le> start + of_nat i \<and> start + of_nat i < vend v"
    if w: "unat start + unat sz < 2 ^ 64" and v: "vbegin v \<le> start" "start + sz \<le> vend v" and i: "i < unat sz" for v i
  proof -
    have "unat sz < 2 ^ 64" using w by simp
    then have "unat (of_nat i :: u64) = i" using i by (intro unat_u64) simp
    then have "unat (start + of_nat i) = unat start + i" using w i by (simp add: unat_word_ariths)
    moreover have "unat (start + sz) = unat start + unat sz" using w by (simp add: unat_word_ariths)
    ultimately show ?thesis using v i by (simp add: word_le_nat_alt word_less_nat_alt)
  qed
  have wrap: "start + (- 1) \<le> vend v" if "start \<le> vend v" "0 < start" for v
  proof -
    have "start - 1 \<le> start" using that(2) by (simp add: word_le_nat_alt unat_minus_one word_gt_0)
    then show ?thesis using that(1) by simp
  qed
  show ?thesis
  proof (intro conjI impI ballI)
    assume a: "unat start + unat sz < 2 ^ 64 \<and> user_readable rs start sz"
    then obtain v where v: "v \<in> set rs" "vbegin v \<le> start" "start + sz \<le> vend v"
      by (auto simp: user_readable_def list_ex_iff)
    show "\<exists>v \<in> set rs. \<forall>i < unat sz. vbegin v \<le> start + of_nat i \<and> start + of_nat i < vend v"
      by (rule bexI [OF _ v(1)]) (use cover [OF conjunct1 [OF a] v(2,3)] in blast)
  next
    assume a: "unat start + unat sz < 2 ^ 64 \<and> user_writeable rs start sz"
    then obtain v where v: "v \<in> set rs" "\<not> has_flag VMR_RO v" "vbegin v \<le> start" "start + sz \<le> vend v"
      by (auto simp: user_writeable_def list_ex_iff)
    show "\<exists>v \<in> set rs. \<not> has_flag VMR_RO v \<and> (\<forall>i < unat sz. vbegin v \<le> start + of_nat i \<and> start + of_nat i < vend v)"
      by (rule bexI [OF _ v(1)]) (use v(2) cover [OF conjunct1 [OF a] v(3,4)] in blast)
  next
    fix v assume "v \<in> set rs" "vbegin v \<le> start \<and> start \<le> vend v \<and> 0 < start"
    then show "user_readable rs start (- 1)" using wrap [of v] unfolding user_readable_def list_ex_iff set_rotate1 by blast
  qed
qed

theorem user_range_checked_witness:
  "user_readable [demo_region] 0x400010 8 \<and>
   vbegin demo_region \<le> 0x400010 + of_nat 7 \<and> 0x400010 + of_nat 7 < vend demo_region \<and>
   user_readable [demo_region] 0x400010 (- 1)"
proof -
  have r: "user_readable [demo_region] 0x400010 8" by (simp add: user_readable_def demo_region_def)
  have b: "vbegin demo_region \<le> 0x400010" "0x400010 \<le> vend demo_region" by (simp_all add: demo_region_def)
  note t = user_range_checked [where start = "0x400010" and sz = 8 and rs = "[demo_region]"]
  have "\<forall>i < unat (8 :: u64). vbegin demo_region \<le> 0x400010 + of_nat i \<and> 0x400010 + of_nat i < vend demo_region"
    using t r by simp
  from this [rule_format, of 7]
  have "vbegin demo_region \<le> 0x400010 + of_nat 7 \<and> 0x400010 + of_nat 7 < vend demo_region" by simp
  moreover have "user_readable [demo_region] 0x400010 (- 1)" using t b by simp
  ultimately show ?thesis using r by blast
qed

section \<open>Regions that overlap\<close>

text \<open>
  A new region that encloses every existing one passes the check of \<^verbatim>\<open>create_vmregion\<close>, since only
  its two ends are compared with the existing regions.
\<close>

lemma enclosing_region_accepted:
  assumes "\<forall>v \<in> set (vmregions vs). b < vbegin v \<and> vend v \<le> b + len" and "kalloc 64 m = Ret (p, m1)"
  shows "\<exists>v vs'. create_vmregion flags b len vs m = Ret (Some v, vs', m1) \<and> vbegin v = b \<and> vend v = b + len \<and>
    vmregions vs' = vmregions vs @ [v]"
proof -
  have "\<not> check_vmregion_intersection vs b (b + len)"
    using assms(1) by (auto simp: check_vmregion_intersection_def list_ex_iff not_le)
  then show ?thesis using assms(2) by (simp add: create_vmregion_def Let_def)
qed

text \<open>
  A heap that cannot shrink as far as asked is left with its end below its beginning: \<^verbatim>\<open>sbrk\<close>
  changes the region before it checks.
\<close>

lemma sbrk_failure_breaks_heap:
  assumes "sz mod int PAGE_SIZE = 0" and "find (has_flag VMR_HEAP) (rotate1 (vmregions vs)) = Some v"
    and "vend v + of_int sz < vbegin v" and "vbegin v \<le> vend v"
  shows "\<exists>vs'. sbrk sz vs m = Some (Ret (u64_minus_one, vs', m)) \<and>
    vmregions vs' = map (\<lambda>w. if vself w = vself v then w\<lparr>vend := vend v + of_int sz\<rparr> else w) (vmregions vs)"
  using assms by (auto simp: sbrk_def upd_region_def Let_def)

end
