(* ===== verification/Rbtree.thy ===== *)
theory Rbtree
  imports Prelude
begin

text \<open>
  The red-black tree of \<^verbatim>\<open>src/src/lib/rbtree.c\<close>, used for the run queues and the timers, on its
  nodes: three words per node, the first of which packs the parent's address with the colour.
  NULL is the address 0, and following it where the code does not test for it is \<^verbatim>\<open>Undef\<close>.
  The comparison function of the caller is a parameter. Loops over a tree may not end when the links
  have a cycle, so they are partial functions.
\<close>

unbundle bit_operations_syntax

section \<open>Nodes\<close>

record rb_heap =
  parent_color :: "u64 \<Rightarrow> u64"
  rb_right :: "u64 \<Rightarrow> u64"
  rb_left :: "u64 \<Rightarrow> u64"
  rb_root :: u64

definition RB_RED :: u64 where "RB_RED = 0"
definition RB_BLACK :: u64 where "RB_BLACK = 1"

definition pc_parent :: "u64 \<Rightarrow> u64" where "pc_parent pc = pc AND NOT 3"
definition pc_color :: "u64 \<Rightarrow> u64" where "pc_color pc = pc AND 1"
definition pc_is_black :: "u64 \<Rightarrow> bool" where "pc_is_black pc \<longleftrightarrow> pc_color pc \<noteq> 0"

definition rb_parent :: "u64 \<Rightarrow> rb_heap \<Rightarrow> u64" where
  "rb_parent r h = pc_parent (parent_color h r)"

definition rb_color :: "u64 \<Rightarrow> rb_heap \<Rightarrow> u64" where
  "rb_color r h = pc_color (parent_color h r)"

definition rb_is_black :: "u64 \<Rightarrow> rb_heap \<Rightarrow> bool" where
  "rb_is_black r h \<longleftrightarrow> pc_is_black (parent_color h r)"

definition rb_is_red :: "u64 \<Rightarrow> rb_heap \<Rightarrow> bool" where
  "rb_is_red r h \<longleftrightarrow> \<not> pc_is_black (parent_color h r)"

text \<open>Stores to the fields of a node and to the root pointer.\<close>

definition set_pc :: "u64 \<Rightarrow> u64 \<Rightarrow> rb_heap \<Rightarrow> rb_heap" where
  "set_pc a v h = h\<lparr>parent_color := (parent_color h)(a := v)\<rparr>"

definition set_left :: "u64 \<Rightarrow> u64 \<Rightarrow> rb_heap \<Rightarrow> rb_heap" where
  "set_left a v h = h\<lparr>rb_left := (rb_left h)(a := v)\<rparr>"

definition set_right :: "u64 \<Rightarrow> u64 \<Rightarrow> rb_heap \<Rightarrow> rb_heap" where
  "set_right a v h = h\<lparr>rb_right := (rb_right h)(a := v)\<rparr>"

definition set_root :: "u64 \<Rightarrow> rb_heap \<Rightarrow> rb_heap" where
  "set_root v h = h\<lparr>rb_root := v\<rparr>"

definition rb_set_black :: "u64 \<Rightarrow> rb_heap \<Rightarrow> rb_heap" where
  "rb_set_black r h = set_pc r (parent_color h r OR RB_BLACK) h"

definition rb_red_parent :: "u64 \<Rightarrow> rb_heap \<Rightarrow> u64" where
  "rb_red_parent r h = parent_color h r"

definition rb_set_parent :: "u64 \<Rightarrow> u64 \<Rightarrow> rb_heap \<Rightarrow> rb_heap" where
  "rb_set_parent r p h = set_pc r (rb_color r h OR p) h"

definition rb_set_parent_color :: "u64 \<Rightarrow> u64 \<Rightarrow> u64 \<Rightarrow> rb_heap \<Rightarrow> rb_heap" where
  "rb_set_parent_color r p color h = set_pc r (p OR color) h"

text \<open>\<^verbatim>\<open>if (r) rb_set_parent_color(r, p, color)\<close>, a line of every rotation.\<close>

definition set_parent_color_if :: "u64 \<Rightarrow> u64 \<Rightarrow> u64 \<Rightarrow> rb_heap \<Rightarrow> rb_heap" where
  "set_parent_color_if r p color h = (if r \<noteq> 0 then rb_set_parent_color r p color h else h)"

definition rb_change_child :: "u64 \<Rightarrow> u64 \<Rightarrow> u64 \<Rightarrow> rb_heap \<Rightarrow> rb_heap" where
  "rb_change_child old new parent h =
     (if parent \<noteq> 0 then
        (if rb_left h parent = old then set_left parent new h else set_right parent new h)
      else set_root new h)"

definition rb_rotate_set_parents :: "u64 \<Rightarrow> u64 \<Rightarrow> u64 \<Rightarrow> rb_heap \<Rightarrow> rb_heap" where
  "rb_rotate_set_parents old new color h =
     (let parent = rb_parent old h;
          h1 = set_pc new (parent_color h old) h;
          h2 = rb_set_parent_color old new color h1
      in rb_change_child old new parent h2)"

section \<open>Rebalancing after an insertion\<close>

text \<open>
  Cases 2 and 3 where the parent is the left child of the grandparent and the uncle is black: in
  case 2 the node is the right child and is first rotated above its parent, which makes it case 3.
\<close>

definition insert_case2_left :: "u64 \<Rightarrow> u64 \<Rightarrow> rb_heap \<Rightarrow> rb_heap" where
  "insert_case2_left node parent h =
     (let tmp = rb_left h node;
          h = set_right parent tmp h;
          h = set_parent_color_if tmp parent RB_BLACK h;
          h = set_left node parent h
      in rb_set_parent_color parent node RB_RED h)"

definition insert_case3_left :: "u64 \<Rightarrow> u64 \<Rightarrow> u64 \<Rightarrow> rb_heap \<Rightarrow> rb_heap" where
  "insert_case3_left parent gparent tmp h =
     (let h = set_left gparent tmp h;
          h = set_parent_color_if tmp gparent RB_BLACK h;
          h = set_right parent gparent h
      in rb_rotate_set_parents gparent parent RB_RED h)"

definition insert_rotate_left :: "u64 \<Rightarrow> u64 \<Rightarrow> u64 \<Rightarrow> rb_heap \<Rightarrow> rb_heap" where
  "insert_rotate_left node parent gparent h =
     (let tmp = rb_right h parent in
      if node = tmp then
        let h = insert_case2_left node parent h in insert_case3_left node gparent (rb_right h node) h
      else insert_case3_left parent gparent tmp h)"

text \<open>The same where the parent is the right child.\<close>

definition insert_case2_right :: "u64 \<Rightarrow> u64 \<Rightarrow> rb_heap \<Rightarrow> rb_heap" where
  "insert_case2_right node parent h =
     (let tmp = rb_right h node;
          h = set_left parent tmp h;
          h = set_parent_color_if tmp parent RB_BLACK h;
          h = set_right node parent h
      in rb_set_parent_color parent node RB_RED h)"

definition insert_case3_right :: "u64 \<Rightarrow> u64 \<Rightarrow> u64 \<Rightarrow> rb_heap \<Rightarrow> rb_heap" where
  "insert_case3_right parent gparent tmp h =
     (let h = set_right gparent tmp h;
          h = set_parent_color_if tmp gparent RB_BLACK h;
          h = set_left parent gparent h
      in rb_rotate_set_parents gparent parent RB_RED h)"

definition insert_rotate_right :: "u64 \<Rightarrow> u64 \<Rightarrow> u64 \<Rightarrow> rb_heap \<Rightarrow> rb_heap" where
  "insert_rotate_right node parent gparent h =
     (let tmp = rb_left h parent in
      if node = tmp then
        let h = insert_case2_right node parent h in insert_case3_right node gparent (rb_left h node) h
      else insert_case3_right parent gparent tmp h)"

text \<open>Case 1, the uncle is red: the colours change and the loop goes on at the grandparent.\<close>

definition insert_recolor :: "u64 \<Rightarrow> u64 \<Rightarrow> u64 \<Rightarrow> rb_heap \<Rightarrow> u64 \<times> rb_heap" where
  "insert_recolor uncle parent gparent h =
     (let h = rb_set_parent_color uncle gparent RB_BLACK h;
          h = rb_set_parent_color parent gparent RB_BLACK h;
          up = rb_parent gparent h
      in (up, rb_set_parent_color gparent up RB_RED h))"

partial_function (option) insert_fix_loop :: "u64 \<Rightarrow> u64 \<Rightarrow> rb_heap \<Rightarrow> rb_heap outcome option" where
  "insert_fix_loop node parent h =
     (if parent = 0 then Some (Ret (set_root node (rb_set_parent_color node 0 RB_BLACK h)))
      else if rb_is_black parent h then Some (Ret h)
      else
        let gparent = rb_red_parent parent h in
        if gparent = 0 then Some Undef
        else
          let tmp = rb_right h gparent in
          if parent \<noteq> tmp then
            (if tmp \<noteq> 0 \<and> rb_is_red tmp h then
               let r = insert_recolor tmp parent gparent h in insert_fix_loop gparent (fst r) (snd r)
             else Some (Ret (insert_rotate_left node parent gparent h)))
          else
            let tmp = rb_left h gparent in
            if tmp \<noteq> 0 \<and> rb_is_red tmp h then
              let r = insert_recolor tmp parent gparent h in insert_fix_loop gparent (fst r) (snd r)
            else Some (Ret (insert_rotate_right node parent gparent h)))"

definition rb_insert_fix :: "u64 \<Rightarrow> rb_heap \<Rightarrow> rb_heap outcome option" where
  "rb_insert_fix node h = insert_fix_loop node (rb_red_parent node h) h"

section \<open>Unlinking a node\<close>

text \<open>The loop that goes left from the right child: the last two nodes it saw.\<close>

partial_function (option) successor_loop :: "u64 \<Rightarrow> u64 \<Rightarrow> rb_heap \<Rightarrow> (u64 \<times> u64) option" where
  "successor_loop successor tmp h =
     (let parent = successor; successor = tmp; tmp = rb_left h tmp
      in if tmp \<noteq> 0 then successor_loop successor tmp h else Some (parent, successor))"

text \<open>The part common to both ways of finding the successor.\<close>

definition replace_by_successor :: "u64 \<Rightarrow> u64 \<Rightarrow> u64 \<Rightarrow> u64 \<Rightarrow> rb_heap \<Rightarrow> u64 \<times> rb_heap" where
  "replace_by_successor node successor parent child2 h =
     (let tmp = rb_left h node;
          h = set_left successor tmp h;
          h = rb_set_parent tmp successor h;
          pc = parent_color h node;
          h = rb_change_child node successor (pc_parent pc) h
      in if child2 \<noteq> 0 then (0, rb_set_parent_color child2 parent RB_BLACK (set_pc successor pc h))
         else
           let pc2 = parent_color h successor
           in (if pc_is_black pc2 then parent else 0, set_pc successor pc h))"

definition rb_unlink :: "u64 \<Rightarrow> rb_heap \<Rightarrow> (u64 \<times> rb_heap) option" where
  "rb_unlink node h =
     (let child = rb_right h node; tmp = rb_left h node in
      if tmp = 0 then
        let pc = parent_color h node;
            parent = pc_parent pc;
            h = rb_change_child node child parent h
        in Some (if child \<noteq> 0 then (0, set_pc child pc h)
                 else (if pc_is_black pc then parent else 0, h))
      else if child = 0 then
        let pc = parent_color h node;
            h = set_pc tmp pc h
        in Some (0, rb_change_child node tmp (pc_parent pc) h)
      else
        let tmp = rb_left h child in
        if tmp = 0 then Some (replace_by_successor node child child (rb_right h child) h)
        else
          case successor_loop child tmp h of
            None \<Rightarrow> None
          | Some (parent, successor) \<Rightarrow>
              let child2 = rb_right h successor;
                  h = set_left parent child2 h;
                  h = set_right successor child h;
                  h = rb_set_parent child successor h
              in Some (replace_by_successor node successor parent child2 h))"

section \<open>Rebalancing after a removal\<close>

text \<open>
  The four cases with the short side on the left of \<^verbatim>\<open>parent\<close>. The result says whether the
  loop goes on (at which node) or is left.
\<close>

definition erase_sibling_left :: "u64 \<Rightarrow> u64 \<Rightarrow> rb_heap \<Rightarrow> (u64 \<times> rb_heap) outcome" where
  "erase_sibling_left parent sibling h =
     (if rb_is_red sibling h then
        let tmp1 = rb_left h sibling;
            h = set_right parent tmp1 h
        in if tmp1 = 0 then Undef
           else
             let h = rb_set_parent_color tmp1 parent RB_BLACK h;
                 h = set_left sibling parent h
             in Ret (tmp1, rb_rotate_set_parents parent sibling RB_RED h)
      else Ret (sibling, h))"

definition erase_rotate_left :: "u64 \<Rightarrow> u64 \<Rightarrow> u64 \<Rightarrow> rb_heap \<Rightarrow> rb_heap" where
  "erase_rotate_left parent sibling tmp1 h =
     (let tmp2 = rb_left h sibling;
          h = set_right parent tmp2 h;
          h = (if tmp2 \<noteq> 0 then rb_set_parent tmp2 parent h else h);
          h = set_left sibling parent h;
          h = rb_set_parent_color tmp1 sibling RB_BLACK h
      in rb_rotate_set_parents parent sibling RB_BLACK h)"

definition erase_case3_left :: "u64 \<Rightarrow> u64 \<Rightarrow> u64 \<Rightarrow> rb_heap \<Rightarrow> rb_heap" where
  "erase_case3_left parent sibling tmp2 h =
     (let tmp1 = rb_right h tmp2;
          h = set_left sibling tmp1 h;
          h = set_parent_color_if tmp1 sibling RB_BLACK h;
          h = set_right tmp2 sibling h
      in set_right parent tmp2 h)"

definition erase_sibling_right :: "u64 \<Rightarrow> u64 \<Rightarrow> rb_heap \<Rightarrow> (u64 \<times> rb_heap) outcome" where
  "erase_sibling_right parent sibling h =
     (if rb_is_red sibling h then
        let tmp1 = rb_right h sibling;
            h = set_left parent tmp1 h
        in if tmp1 = 0 then Undef
           else
             let h = rb_set_parent_color tmp1 parent RB_BLACK h;
                 h = set_right sibling parent h
             in Ret (tmp1, rb_rotate_set_parents parent sibling RB_RED h)
      else Ret (sibling, h))"

definition erase_rotate_right :: "u64 \<Rightarrow> u64 \<Rightarrow> u64 \<Rightarrow> rb_heap \<Rightarrow> rb_heap" where
  "erase_rotate_right parent sibling tmp1 h =
     (let tmp2 = rb_right h sibling;
          h = set_left parent tmp2 h;
          h = (if tmp2 \<noteq> 0 then rb_set_parent tmp2 parent h else h);
          h = set_right sibling parent h;
          h = rb_set_parent_color tmp1 sibling RB_BLACK h
      in rb_rotate_set_parents parent sibling RB_BLACK h)"

definition erase_case3_right :: "u64 \<Rightarrow> u64 \<Rightarrow> u64 \<Rightarrow> rb_heap \<Rightarrow> rb_heap" where
  "erase_case3_right parent sibling tmp2 h =
     (let tmp1 = rb_left h tmp2;
          h = set_right sibling tmp1 h;
          h = set_parent_color_if tmp1 sibling RB_BLACK h;
          h = set_left tmp2 sibling h
      in set_left parent tmp2 h)"

text \<open>
  Case 2, the sibling and its children are black: the first component is the parent at which the
  loop goes on, or 0 where it is left.
\<close>

definition erase_case2 :: "u64 \<Rightarrow> u64 \<Rightarrow> rb_heap \<Rightarrow> u64 \<times> rb_heap" where
  "erase_case2 parent sibling h =
     (let h = rb_set_parent_color sibling parent RB_RED h in
      if rb_is_red parent h then (0, rb_set_black parent h) else (rb_parent parent h, h))"

definition black_or_null :: "u64 \<Rightarrow> rb_heap \<Rightarrow> bool" where
  "black_or_null r h \<longleftrightarrow> r = 0 \<or> rb_is_black r h"

partial_function (option) erase_fix_loop :: "u64 \<Rightarrow> u64 \<Rightarrow> rb_heap \<Rightarrow> rb_heap outcome option" where
  "erase_fix_loop node parent h =
     (let sibling = rb_right h parent in
      if node \<noteq> sibling then
        (if sibling = 0 then Some Undef
         else
           case erase_sibling_left parent sibling h of
             Ret r \<Rightarrow>
               (let sibling = fst r; h = snd r; tmp1 = rb_right h sibling; tmp2 = rb_left h sibling in
                if black_or_null tmp1 h then
                  (if black_or_null tmp2 h then
                     (let c = erase_case2 parent sibling h in
                      if fst c \<noteq> 0 then erase_fix_loop parent (fst c) (snd c) else Some (Ret (snd c)))
                   else Some (Ret (erase_rotate_left parent tmp2 sibling (erase_case3_left parent sibling tmp2 h))))
                else Some (Ret (erase_rotate_left parent sibling tmp1 h)))
           | _ \<Rightarrow> Some Undef)
      else
        let sibling = rb_left h parent in
        if sibling = 0 then Some Undef
        else
          case erase_sibling_right parent sibling h of
            Ret r \<Rightarrow>
              (let sibling = fst r; h = snd r; tmp1 = rb_left h sibling; tmp2 = rb_right h sibling in
               if black_or_null tmp1 h then
                 (if black_or_null tmp2 h then
                    (let c = erase_case2 parent sibling h in
                     if fst c \<noteq> 0 then erase_fix_loop parent (fst c) (snd c) else Some (Ret (snd c)))
                  else Some (Ret (erase_rotate_right parent tmp2 sibling (erase_case3_right parent sibling tmp2 h))))
               else Some (Ret (erase_rotate_right parent sibling tmp1 h)))
          | _ \<Rightarrow> Some Undef)"

definition rb_erase_fix :: "u64 \<Rightarrow> rb_heap \<Rightarrow> rb_heap outcome option" where
  "rb_erase_fix parent h = erase_fix_loop 0 parent h"

section \<open>The operations\<close>

partial_function (option) insert_descend ::
  "(u64 \<Rightarrow> u64 \<Rightarrow> bool) \<Rightarrow> u64 \<Rightarrow> u64 \<Rightarrow> rb_heap \<Rightarrow> (bool \<times> rb_heap) option" where
  "insert_descend cmp node nw h =
     (if nw = 0 then Some (True, h)
      else if cmp node nw then
        (let nxt = rb_left h nw in
         if nxt = 0 then Some (True, set_pc node nw (set_left nw node h)) else insert_descend cmp node nxt h)
      else if cmp nw node then
        (let nxt = rb_right h nw in
         if nxt = 0 then Some (True, set_pc node nw (set_right nw node h)) else insert_descend cmp node nxt h)
      else Some (False, h))"

definition rb_insert :: "(u64 \<Rightarrow> u64 \<Rightarrow> bool) \<Rightarrow> u64 \<Rightarrow> rb_heap \<Rightarrow> (int \<times> rb_heap) outcome option" where
  "rb_insert cmp node h =
     (let h = set_pc node 0 (set_left node 0 (set_right node 0 h)) in
      case insert_descend cmp node (rb_root h) h of
        None \<Rightarrow> None
      | Some (True, h) \<Rightarrow> map_option (\<lambda>r. andthen r (\<lambda>h. Ret (0, h))) (rb_insert_fix node h)
      | Some (False, h) \<Rightarrow> Some (Ret (- 1, h)))"

definition rb_erase :: "u64 \<Rightarrow> rb_heap \<Rightarrow> rb_heap outcome option" where
  "rb_erase node h =
     (case rb_unlink node h of
        None \<Rightarrow> None
      | Some (rebalance, h) \<Rightarrow> (if rebalance \<noteq> 0 then rb_erase_fix rebalance h else Some (Ret h)))"

partial_function (option) lookup_loop :: "(u64 \<Rightarrow> u64 \<Rightarrow> bool) \<Rightarrow> u64 \<Rightarrow> u64 \<Rightarrow> rb_heap \<Rightarrow> u64 option" where
  "lookup_loop cmp node nw h =
     (if nw = 0 then Some 0
      else if cmp node nw then lookup_loop cmp node (rb_left h nw) h
      else if cmp nw node then lookup_loop cmp node (rb_right h nw) h
      else Some nw)"

definition rb_lookup :: "(u64 \<Rightarrow> u64 \<Rightarrow> bool) \<Rightarrow> u64 \<Rightarrow> rb_heap \<Rightarrow> u64 option" where
  "rb_lookup cmp node h = lookup_loop cmp node (rb_root h) h"

partial_function (option) first_loop :: "u64 \<Rightarrow> rb_heap \<Rightarrow> u64 option" where
  "first_loop n h = (if rb_left h n \<noteq> 0 then first_loop (rb_left h n) h else Some n)"

definition rb_first :: "rb_heap \<Rightarrow> u64 option" where
  "rb_first h = (if rb_root h = 0 then Some 0 else first_loop (rb_root h) h)"

text \<open>
  The structure \<^verbatim>\<open>RBTree\<close> adds a lock and a pointer to its own root. Its operations call those above;
  the lock is taken by their callers.
\<close>

definition rbtree_insert :: "(u64 \<Rightarrow> u64 \<Rightarrow> bool) \<Rightarrow> u64 \<Rightarrow> rb_heap \<Rightarrow> (int \<times> rb_heap) outcome option" where
  "rbtree_insert cmp node h = rb_insert cmp node h"

definition rbtree_erase :: "u64 \<Rightarrow> rb_heap \<Rightarrow> rb_heap outcome option" where
  "rbtree_erase node h = rb_erase node h"

definition rbtree_lookup :: "(u64 \<Rightarrow> u64 \<Rightarrow> bool) \<Rightarrow> u64 \<Rightarrow> rb_heap \<Rightarrow> u64 option" where
  "rbtree_lookup cmp node h = rb_lookup cmp node h"

definition rbtree_first :: "rb_heap \<Rightarrow> u64 option" where
  "rbtree_first h = rb_first h"

end
