(* ===== verification/Rbtree_Rep.thy ===== *)
theory Rbtree_Rep
  imports Rbtree
begin

text \<open>
  Red-black trees as a datatype, the predicate that says which nodes of the heap form which tree, and
  the proof that the pointer operations of \<^verbatim>\<open>Rbtree\<close> compute functions on the datatype. A place
  inside a tree is a subtree together with its surroundings (a zipper), since the loops walk upwards.
\<close>

section \<open>Packed words\<close>

definition al :: "u64 \<Rightarrow> bool" where "al p \<longleftrightarrow> take_bit 3 p = 0"

lemma al_bit: "al p \<Longrightarrow> n < 3 \<Longrightarrow> \<not> bit p n"
  by (metis al_def bit_take_bit_iff bit_0_eq bot_apply bot_bool_def)

lemma al_0 [simp]: "al 0" by (simp add: al_def)

datatype color = Red | Black

primrec cbit :: "color \<Rightarrow> u64" where
  "cbit Red = RB_RED"
| "cbit Black = RB_BLACK"

lemma pc_parent_pack [simp]: "al p \<Longrightarrow> pc_parent (p OR cbit c) = p"
proof -
  assume a: "al p"
  have "bit (pc_parent (p OR cbit c)) n = bit p n" for n
  proof -
    have three: "bit (3 :: u64) n \<longleftrightarrow> n < 2"
      by (cases n) (auto simp: bit_Suc bit_0 bit_1_iff)
    have "bit (cbit c) n \<Longrightarrow> n < 2" by (cases c) (auto simp: RB_RED_def RB_BLACK_def bit_1_iff)
    then show ?thesis using al_bit [OF a, of n] three bit_imp_le_length [of p n]
      unfolding pc_parent_def bit_and_iff bit_or_iff bit_not_iff by auto
  qed
  then show ?thesis by (intro bit_eqI)
qed

lemma pc_color_pack [simp]: "al p \<Longrightarrow> pc_color (p OR cbit c) = cbit c"
proof -
  assume a: "al p"
  have "bit (pc_color (p OR cbit c)) n = bit (cbit c) n" for n
    using al_bit [OF a, of 0]
    by (cases c; cases n) (auto simp: pc_color_def bit_and_iff bit_or_iff bit_1_iff RB_RED_def RB_BLACK_def)
  then show ?thesis by (intro bit_eqI)
qed

lemma pc_is_black_pack [simp]: "al p \<Longrightarrow> pc_is_black (p OR cbit c) \<longleftrightarrow> c = Black"
  unfolding pc_is_black_def by (subst pc_color_pack) (cases c; simp add: RB_RED_def RB_BLACK_def)+

lemma pack_red [simp]: "p OR RB_RED = p" by (simp add: RB_RED_def)

lemma pc_pack [simp]:
  "al p \<Longrightarrow> pc_parent p = p" "al p \<Longrightarrow> pc_parent (p OR RB_BLACK) = p"
  "al p \<Longrightarrow> \<not> pc_is_black p" "al p \<Longrightarrow> pc_is_black (p OR RB_BLACK)"
  "al p \<Longrightarrow> pc_color p = RB_RED" "al p \<Longrightarrow> pc_color (p OR RB_BLACK) = RB_BLACK"
  using pc_parent_pack [of p Red] pc_parent_pack [of p Black] pc_is_black_pack [of p Red]
    pc_is_black_pack [of p Black] pc_color_pack [of p Red] pc_color_pack [of p Black] by simp_all

lemma pc_null [simp]: "pc_is_black RB_BLACK" "pc_parent RB_BLACK = 0"
  using pc_pack(2,4) [of 0] by simp_all

section \<open>Disjoint sets of nodes\<close>

lemma apart_insert: "A \<inter> insert x B = {} \<longleftrightarrow> x \<notin> A \<and> A \<inter> B = {}"
  and apart_insert2: "insert x B \<inter> A = {} \<longleftrightarrow> x \<notin> A \<and> B \<inter> A = {}"
  and apart_Un: "A \<inter> (B \<union> C) = {} \<longleftrightarrow> A \<inter> B = {} \<and> A \<inter> C = {}"
  and apart_Un2: "(B \<union> C) \<inter> A = {} \<longleftrightarrow> B \<inter> A = {} \<and> C \<inter> A = {}"
  by auto

text \<open>Turns \<^verbatim>\<open>distinct\<close> of a concatenation into one fact for every pair of its parts.\<close>

lemmas apart_simps = append_assoc append_Cons append_Nil distinct_append distinct.simps set_append list.set apart_insert apart_insert2
  apart_Un apart_Un2 insert_iff Un_iff de_Morgan_disj conj_assoc empty_iff Int_empty_right not_False_eq_True simp_thms

lemmas subset_simps = set_append list.set Un_subset_iff insert_subset conj_assoc empty_subsetI simp_thms

section \<open>Trees and surroundings\<close>

datatype rbt = Tip | Br color rbt u64 rbt

primrec nodes :: "rbt \<Rightarrow> u64 list" where
  "nodes Tip = []"
| "nodes (Br c l a r) = nodes l @ a # nodes r"

primrec paint :: "color \<Rightarrow> rbt \<Rightarrow> rbt" where
  "paint c Tip = Tip"
| "paint c (Br d l a r) = Br c l a r"

lemma nodes_paint [simp]: "nodes (paint c t) = nodes t" by (cases t) simp_all

text \<open>\<^verbatim>\<open>InL c a r cx\<close>: the place is the left child of \<^verbatim>\<open>a\<close>, whose right subtree is \<^verbatim>\<open>r\<close>.\<close>

datatype ctx = Top | InL color u64 rbt ctx | InR color rbt u64 ctx

primrec zip_up :: "ctx \<Rightarrow> rbt \<Rightarrow> rbt" where
  "zip_up Top t = t"
| "zip_up (InL c a r cx) t = zip_up cx (Br c t a r)"
| "zip_up (InR c l a cx) t = zip_up cx (Br c l a t)"

primrec before :: "ctx \<Rightarrow> u64 list" where
  "before Top = []"
| "before (InL c a r cx) = before cx"
| "before (InR c l a cx) = before cx @ nodes l @ [a]"

primrec after :: "ctx \<Rightarrow> u64 list" where
  "after Top = []"
| "after (InL c a r cx) = a # nodes r @ after cx"
| "after (InR c l a cx) = after cx"

lemma nodes_zip_up [simp]: "nodes (zip_up cx t) = before cx @ nodes t @ after cx"
  by (induction cx arbitrary: t) simp_all

primrec up :: "ctx \<Rightarrow> u64" where
  "up Top = 0"
| "up (InL c a r cx) = a"
| "up (InR c l a cx) = a"

section \<open>Representation in the heap\<close>

primrec rep :: "rb_heap \<Rightarrow> u64 \<Rightarrow> u64 \<Rightarrow> rbt \<Rightarrow> bool" where
  "rep h p q Tip \<longleftrightarrow> q = 0"
| "rep h p q (Br c l a r) \<longleftrightarrow> q = a \<and> a \<noteq> 0 \<and> al a \<and> parent_color h a = p OR cbit c \<and>
     rep h a (rb_left h a) l \<and> rep h a (rb_right h a) r"

primrec repc :: "rb_heap \<Rightarrow> ctx \<Rightarrow> u64 \<Rightarrow> bool" where
  "repc h Top q \<longleftrightarrow> rb_root h = q"
| "repc h (InL c a r cx) q \<longleftrightarrow> a \<noteq> 0 \<and> al a \<and> parent_color h a = up cx OR cbit c \<and>
     rb_left h a = q \<and> rep h a (rb_right h a) r \<and> repc h cx a"
| "repc h (InR c l a cx) q \<longleftrightarrow> a \<noteq> 0 \<and> al a \<and> parent_color h a = up cx OR cbit c \<and>
     rep h a (rb_left h a) l \<and> rb_right h a = q \<and> repc h cx a"

abbreviation cnodes :: "ctx \<Rightarrow> u64 list" where "cnodes cx \<equiv> before cx @ after cx"

lemma repc_al [simp]: "repc h cx q \<Longrightarrow> al (up cx)" by (cases cx) simp_all

lemma rep_zip: "rep h (up cx) q t \<and> repc h cx q \<Longrightarrow> rep h 0 (rb_root h) (zip_up cx t)"
  by (induction cx arbitrary: q t) auto

lemma zip_rep:
  "rep h 0 (rb_root h) (zip_up cx t) \<Longrightarrow> \<exists>q. rep h (up cx) q t \<and> repc h cx q"
  by (induction cx arbitrary: t) fastforce+

text \<open>What the stores leave alone.\<close>

lemma sel_set [simp]:
  "parent_color (set_pc a v h) x = (if x = a then v else parent_color h x)"
  "parent_color (set_left a v h) = parent_color h" "parent_color (set_right a v h) = parent_color h"
  "parent_color (set_root v h) = parent_color h"
  "rb_left (set_left a v h) x = (if x = a then v else rb_left h x)"
  "rb_left (set_pc a v h) = rb_left h" "rb_left (set_right a v h) = rb_left h" "rb_left (set_root v h) = rb_left h"
  "rb_right (set_right a v h) x = (if x = a then v else rb_right h x)"
  "rb_right (set_pc a v h) = rb_right h" "rb_right (set_left a v h) = rb_right h" "rb_right (set_root v h) = rb_right h"
  "rb_root (set_root v h) = v" "rb_root (set_pc a v h) = rb_root h"
  "rb_root (set_left a v h) = rb_root h" "rb_root (set_right a v h) = rb_root h"
  by (simp_all add: set_pc_def set_left_def set_right_def set_root_def)

lemma rep_set [simp]:
  "x \<notin> set (nodes t) \<Longrightarrow> rep (set_pc x v h) p q t = rep h p q t"
  "x \<notin> set (nodes t) \<Longrightarrow> rep (set_left x v h) p q t = rep h p q t"
  "x \<notin> set (nodes t) \<Longrightarrow> rep (set_right x v h) p q t = rep h p q t"
  "rep (set_root v h) p q t = rep h p q t"
  by (induction t arbitrary: p q) auto

lemma repc_set [simp]:
  "x \<notin> set (cnodes cx) \<Longrightarrow> repc (set_pc x v h) cx q = repc h cx q"
  "x \<notin> set (cnodes cx) \<Longrightarrow> repc (set_left x v h) cx q = repc h cx q"
  "x \<notin> set (cnodes cx) \<Longrightarrow> repc (set_right x v h) cx q = repc h cx q"
  by (induction cx arbitrary: q) auto

lemma rep_null: "rep h p q t \<Longrightarrow> q = 0 \<longleftrightarrow> t = Tip" by (cases t) auto

lemma rep_in: "rep h p q t \<Longrightarrow> t \<noteq> Tip \<Longrightarrow> q \<in> set (nodes t)" by (cases t) auto

lemma rep_nonnull: "rep h p q t \<Longrightarrow> x \<in> set (nodes t) \<Longrightarrow> x \<noteq> 0 \<and> al x"
  by (induction t arbitrary: p q) auto

lemma repc_nonnull: "repc h cx q \<Longrightarrow> x \<in> set (cnodes cx) \<Longrightarrow> x \<noteq> 0 \<and> al x"
  by (induction cx arbitrary: q) (auto dest: rep_nonnull)

text \<open>Changing the parent of a subtree, with and without its colour.\<close>

lemma rep_reparent:
  assumes "rep h p q t" "distinct (nodes t)" "al p" "al p'"
  shows "rep (if q \<noteq> 0 then rb_set_parent q p' h else h) p' q t"
    and "t \<noteq> Tip \<Longrightarrow> rep (rb_set_parent q p' h) p' q t"
proof -
  have "rep (rb_set_parent q p' h) p' q t" if "t \<noteq> Tip"
    using assms that by (cases t) (auto simp: rb_set_parent_def rb_color_def ac_simps)
  then show "rep (if q \<noteq> 0 then rb_set_parent q p' h else h) p' q t"
    and "t \<noteq> Tip \<Longrightarrow> rep (rb_set_parent q p' h) p' q t"
    using assms(1) by (cases t; simp)+
qed

lemma rep_recolor:
  assumes "rep h p q t" "distinct (nodes t)"
  shows "rep (set_parent_color_if q p' (cbit c) h) p' q (paint c t)"
    and "t \<noteq> Tip \<Longrightarrow> rep (rb_set_parent_color q p' (cbit c) h) p' q (paint c t)"
  using assms by (cases t; auto simp: set_parent_color_if_def rb_set_parent_color_def)+

text \<open>Such stores touch the root of the subtree only.\<close>

lemma rep_recolor_other:
  assumes "q = 0 \<or> q \<notin> set (nodes t)"
  shows "rep (set_parent_color_if q p' c h) p0 q0 t = rep h p0 q0 t"
  using assms by (auto simp: set_parent_color_if_def rb_set_parent_color_def)

lemma repc_recolor_other:
  assumes "q = 0 \<or> q \<notin> set (cnodes cx)"
  shows "repc (set_parent_color_if q p' c h) cx q0 = repc h cx q0"
  using assms by (auto simp: set_parent_color_if_def rb_set_parent_color_def)

lemma sel_recolor [simp]:
  "rb_left (set_parent_color_if q p c h) = rb_left h" "rb_right (set_parent_color_if q p c h) = rb_right h"
  "rb_root (set_parent_color_if q p c h) = rb_root h"
  "rb_left (rb_set_parent_color q p c h) = rb_left h" "rb_right (rb_set_parent_color q p c h) = rb_right h"
  "rb_root (rb_set_parent_color q p c h) = rb_root h"
  "rb_left (rb_set_parent q p h) = rb_left h" "rb_right (rb_set_parent q p h) = rb_right h"
  "rb_root (rb_set_parent q p h) = rb_root h"
  by (simp_all add: set_parent_color_if_def rb_set_parent_color_def rb_set_parent_def)

lemma parent_color_recolor [simp]:
  "x \<noteq> 0 \<Longrightarrow> parent_color (set_parent_color_if q p c h) x = (if x = q then p OR c else parent_color h x)"
  "parent_color (rb_set_parent_color q p c h) x = (if x = q then p OR c else parent_color h x)"
  by (auto simp: set_parent_color_if_def rb_set_parent_color_def)

text \<open>The stores are confined to a set of nodes.\<close>

definition only :: "u64 set \<Rightarrow> rb_heap \<Rightarrow> rb_heap \<Rightarrow> bool" where
  "only S h h' \<longleftrightarrow> (\<forall>x. x \<notin> S \<longrightarrow> parent_color h' x = parent_color h x \<and> rb_left h' x = rb_left h x \<and> rb_right h' x = rb_right h x)"

lemma only_refl [simp]: "only S h h" by (simp add: only_def)

lemma only_trans [trans]: "only S h h1 \<Longrightarrow> only S h1 h2 \<Longrightarrow> only S h h2" by (simp add: only_def)

lemma only_set [simp]:
  "x \<in> S \<Longrightarrow> only S h (set_pc x v h') = only S h h'" "x \<in> S \<Longrightarrow> only S h (set_left x v h') = only S h h'"
  "x \<in> S \<Longrightarrow> only S h (set_right x v h') = only S h h'" "only S h (set_root v h') = only S h h'"
  by (auto simp: only_def)

lemma only_change_child [simp]: "p = 0 \<or> p \<in> S \<Longrightarrow> only S h (rb_change_child old new p h') = only S h h'"
  by (auto simp: rb_change_child_def)

lemma only_rep: "only S h h' \<Longrightarrow> set (nodes t) \<inter> S = {} \<Longrightarrow> rep h' p q t = rep h p q t"
  by (induction t arbitrary: p q) (simp_all add: only_def apart_Un2)

text \<open>Replacing the child of the node above a place.\<close>

lemma repc_change_child:
  assumes "repc h cx old" "old \<noteq> 0" "old \<notin> set (cnodes cx)" "distinct (cnodes cx)"
  shows "repc (rb_change_child old new (up cx) h) cx new"
proof (cases cx)
  case (InR c l a cx')
  then have "rb_left h a \<noteq> old" using assms rep_in [of h a "rb_left h a" l] by (cases l) auto
  then show ?thesis using assms InR by (auto simp: rb_change_child_def)
qed (use assms in \<open>auto simp: rb_change_child_def\<close>)

lemma change_child_other [simp]:
  "parent_color (rb_change_child old new p h) = parent_color h"
  "p \<noteq> x \<Longrightarrow> rb_left (rb_change_child old new p h) x = rb_left h x"
  "p \<noteq> x \<Longrightarrow> rb_right (rb_change_child old new p h) x = rb_right h x"
  "p \<notin> set (nodes t) \<Longrightarrow> rep (rb_change_child old new p h) pp q t = rep h pp q t"
  by (simp_all add: rb_change_child_def)

lemma rep_0: "rep h p q t \<Longrightarrow> 0 \<notin> set (nodes t)" by (induction t arbitrary: p q) auto

lemma up_in: "up cx = 0 \<or> up cx \<in> set (cnodes cx)" by (cases cx) auto

lemma up_notin: "distinct (xs @ cnodes cx) \<Longrightarrow> 0 \<notin> set xs \<Longrightarrow> up cx \<notin> set xs"
  by (cases cx) auto

lemma rotate_sel:
  assumes "parent_color h old = up cx OR cbit c" "al (up cx)" "new \<noteq> old"
  shows "rb_parent old h = up cx"
    and "parent_color (rb_rotate_set_parents old new d h) x =
      (if x = old then new OR d else if x = new then up cx OR cbit c else parent_color h x)"
    and "up cx \<noteq> x \<Longrightarrow> rb_left (rb_rotate_set_parents old new d h) x = rb_left h x"
    and "up cx \<noteq> x \<Longrightarrow> rb_right (rb_rotate_set_parents old new d h) x = rb_right h x"
    and "up cx \<notin> set (nodes t) \<Longrightarrow> old \<notin> set (nodes t) \<Longrightarrow> new \<notin> set (nodes t) \<Longrightarrow>
      rep (rb_rotate_set_parents old new d h) p q t = rep h p q t"
  using assms by (simp_all add: rb_rotate_set_parents_def Let_def rb_parent_def rb_set_parent_color_def)

lemma rotate_only:
  assumes "parent_color h old = up cx OR cbit c" "al (up cx)" "old \<in> S" "new \<in> S" "up cx = 0 \<or> up cx \<in> S" "new \<noteq> old"
  shows "only S h0 (rb_rotate_set_parents old new d h) = only S h0 h"
  using assms by (simp add: rb_rotate_set_parents_def Let_def rb_parent_def rb_set_parent_color_def)

lemma rotate_repc:
  assumes "repc h cx old" "old \<noteq> 0" "old \<notin> set (cnodes cx)" "new \<notin> set (cnodes cx)" "distinct (cnodes cx)"
    and "parent_color h old = up cx OR cbit c"
  shows "repc (rb_rotate_set_parents old new d h) cx new"
proof -
  have "rb_parent old h = up cx" using assms(1,6) by (simp add: rb_parent_def)
  then show ?thesis using assms unfolding rb_rotate_set_parents_def Let_def rb_set_parent_color_def
    by (simp add: repc_change_child)
qed

section \<open>Rotations of an insertion\<close>

text \<open>Case 3 of an insertion: the parent, with any word for its own parent, takes the place of the grandparent.\<close>

lemma insert_case3_left_rep:
  assumes t: "rep h p (rb_left h p) t" "rep h p (rb_right h p) s" "p \<noteq> 0" "al p"
    and c: "repc h (InL cg g u cx) q" and d: "distinct ((nodes t @ p # nodes s @ g # nodes u) @ cnodes cx)"
  shows "let h' = insert_case3_left p g (rb_right h p) h in
    rep h' (up cx) p (Br cg t p (Br Red (paint Black s) g u)) \<and> repc h' cx p"
proof -
  have z: "0 \<notin> set (nodes t @ p # nodes s @ g # nodes u)" using t c by (auto dest: rep_0)
  have a: "al (up cx)" using c repc_al by auto
  show ?thesis using t c a d [unfolded apart_simps] up_notin [OF d z]
    by (cases s; clarsimp simp: insert_case3_left_def Let_def set_parent_color_if_def rb_set_parent_color_def
        rotate_repc [where c = cg] rotate_sel [where cx = cx and c = cg])
qed

lemma insert_case3_left_only:
  assumes c: "repc h (InL cg g u cx) q" and S: "g \<in> S" "p \<in> S" "x = 0 \<or> x \<in> S" "set (cnodes cx) \<subseteq> S" and ne: "p \<noteq> g" "x \<noteq> g"
  shows "only S h (insert_case3_left p g x h)"
proof -
  have a: "al (up cx)" using c repc_al by auto
  have b: "up cx = 0 \<or> up cx \<in> S" using up_in [of cx] S(4) by auto
  have g: "g \<noteq> 0" "parent_color h g = up cx OR cbit cg" using c by simp_all
  have "only S h (set_parent_color_if x g RB_BLACK (set_left g x h))"
    using S by (auto simp: set_parent_color_if_def rb_set_parent_color_def)
  then show ?thesis
    unfolding insert_case3_left_def Let_def using S ne g by (subst rotate_only [OF _ a S(1,2) b, where c = cg]) auto
qed

lemma insert_case3_right_rep:
  assumes t: "rep h p (rb_right h p) t" "rep h p (rb_left h p) s" "p \<noteq> 0" "al p"
    and c: "repc h (InR cg u g cx) q" and d: "distinct ((nodes u @ g # nodes s @ p # nodes t) @ cnodes cx)"
  shows "let h' = insert_case3_right p g (rb_left h p) h in
    rep h' (up cx) p (Br cg (Br Red u g (paint Black s)) p t) \<and> repc h' cx p"
proof -
  have z: "0 \<notin> set (nodes u @ g # nodes s @ p # nodes t)" using t c by (auto dest: rep_0)
  have a: "al (up cx)" using c repc_al by auto
  show ?thesis using t c a d [unfolded apart_simps] up_notin [OF d z]
    by (cases s; clarsimp simp: insert_case3_right_def Let_def set_parent_color_if_def rb_set_parent_color_def
        rotate_repc [where c = cg] rotate_sel [where cx = cx and c = cg])
qed

lemma insert_case3_right_only:
  assumes c: "repc h (InR cg u g cx) q" and S: "g \<in> S" "p \<in> S" "x = 0 \<or> x \<in> S" "set (cnodes cx) \<subseteq> S" and ne: "p \<noteq> g" "x \<noteq> g"
  shows "only S h (insert_case3_right p g x h)"
proof -
  have a: "al (up cx)" using c repc_al by auto
  have b: "up cx = 0 \<or> up cx \<in> S" using up_in [of cx] S(4) by auto
  have g: "g \<noteq> 0" "parent_color h g = up cx OR cbit cg" using c by simp_all
  have "only S h (set_parent_color_if x g RB_BLACK (set_right g x h))"
    using S by (auto simp: set_parent_color_if_def rb_set_parent_color_def)
  then show ?thesis
    unfolding insert_case3_right_def Let_def using S ne g by (subst rotate_only [OF _ a S(1,2) b, where c = cg]) auto
qed

text \<open>Case 2: the node is rotated above its parent.\<close>

lemma insert_case2_left_rep:
  assumes t: "rep h p n (Br Red l n r)" and c: "repc h (InR Red s p (InL cg g u cx)) n"
    and d: "distinct ((nodes s @ p # nodes l @ n # nodes r @ g # nodes u) @ cnodes cx)"
    and S: "set ((nodes s @ p # nodes l @ n # nodes r @ g # nodes u) @ cnodes cx) \<subseteq> S"
  shows "let h' = insert_case2_left n p h in rep h' n (rb_left h' n) (Br Red s p (paint Black l)) \<and>
    rep h' n (rb_right h' n) r \<and> repc h' (InL cg g u cx) p \<and> only S h h'"
  using t c d [unfolded apart_simps] S [unfolded subset_simps]
  by (cases l; clarsimp simp: insert_case2_left_def Let_def set_parent_color_if_def rb_set_parent_color_def)

lemma insert_case2_right_rep:
  assumes t: "rep h p n (Br Red l n r)" and c: "repc h (InL Red p s (InR cg u g cx)) n"
    and d: "distinct ((nodes u @ g # nodes l @ n # nodes r @ p # nodes s) @ cnodes cx)"
    and S: "set ((nodes u @ g # nodes l @ n # nodes r @ p # nodes s) @ cnodes cx) \<subseteq> S"
  shows "let h' = insert_case2_right n p h in rep h' n (rb_right h' n) (Br Red (paint Black r) p s) \<and>
    rep h' n (rb_left h' n) l \<and> repc h' (InR cg u g cx) p \<and> only S h h'"
  using t c d [unfolded apart_simps] S [unfolded subset_simps]
  by (cases r; clarsimp simp: insert_case2_right_def Let_def set_parent_color_if_def rb_set_parent_color_def)

text \<open>Case 1: the colours of the grandparent and its children are exchanged.\<close>

lemma insert_recolor_left_rep:
  assumes t: "rep h g p (Br Red a p b)" and c: "repc h (InL cg g (Br Red cl x cr) cx) p"
    and d: "distinct ((nodes a @ p # nodes b @ g # nodes cl @ x # nodes cr) @ cnodes cx)"
    and S: "{p, g, x} \<subseteq> S"
  shows "let (q, h') = insert_recolor x p g h in q = up cx \<and>
    rep h' (up cx) g (Br Red (Br Black a p b) g (Br Black cl x cr)) \<and> repc h' cx g \<and> only S h h'"
proof -
  have a: "al (up cx)" using c repc_al by auto
  show ?thesis using t c a d [unfolded apart_simps] S [unfolded subset_simps]
    by (clarsimp simp: insert_recolor_def Let_def rb_set_parent_color_def rb_parent_def)
qed

lemma insert_recolor_right_rep:
  assumes t: "rep h g p (Br Red a p b)" and c: "repc h (InR cg (Br Red cl x cr) g cx) p"
    and d: "distinct ((nodes cl @ x # nodes cr @ g # nodes a @ p # nodes b) @ cnodes cx)"
    and S: "{p, g, x} \<subseteq> S"
  shows "let (q, h') = insert_recolor x p g h in q = up cx \<and>
    rep h' (up cx) g (Br Red (Br Black cl x cr) g (Br Black a p b)) \<and> repc h' cx g \<and> only S h h'"
proof -
  have a: "al (up cx)" using c repc_al by auto
  show ?thesis using t c a d [unfolded apart_simps] S [unfolded subset_simps]
    by (clarsimp simp: insert_recolor_def Let_def rb_set_parent_color_def rb_parent_def)
qed

section \<open>Rebalancing after an insertion as a function\<close>

fun is_red :: "rbt \<Rightarrow> bool" where
  "is_red (Br Red l a r) \<longleftrightarrow> True"
| "is_red t \<longleftrightarrow> False"

fun ins_fix :: "rbt \<Rightarrow> ctx \<Rightarrow> rbt" where
  "ins_fix t (InL Red p s (InL cg g u cx)) =
     (if is_red u then ins_fix (Br Red (Br Black t p s) g (paint Black u)) cx
      else zip_up cx (Br cg t p (Br Red (paint Black s) g u)))"
| "ins_fix t (InR Red s p (InL cg g u cx)) =
     (if is_red u then ins_fix (Br Red (Br Black s p t) g (paint Black u)) cx
      else (case t of Br c l n r \<Rightarrow> zip_up cx (Br cg (Br Red s p (paint Black l)) n (Br Red (paint Black r) g u)) | Tip \<Rightarrow> Tip))"
| "ins_fix t (InL Red p s (InR cg u g cx)) =
     (if is_red u then ins_fix (Br Red (paint Black u) g (Br Black t p s)) cx
      else (case t of Br c l n r \<Rightarrow> zip_up cx (Br cg (Br Red u g (paint Black l)) n (Br Red (paint Black r) p s)) | Tip \<Rightarrow> Tip))"
| "ins_fix t (InR Red s p (InR cg u g cx)) =
     (if is_red u then ins_fix (Br Red (paint Black u) g (Br Black s p t)) cx
      else zip_up cx (Br cg (Br Red u g (paint Black s)) p t))"
| "ins_fix t Top = paint Black t"
| "ins_fix t (InL Black p s cx) = zip_up (InL Black p s cx) t"
| "ins_fix t (InR Black s p cx) = zip_up (InR Black s p cx) t"
| "ins_fix t (InL Red p s Top) = Br Red t p s"
| "ins_fix t (InR Red s p Top) = Br Red s p t"

text \<open>The node on top is black.\<close>

fun top_black :: "ctx \<Rightarrow> bool" where
  "top_black Top \<longleftrightarrow> True"
| "top_black (InL c a r Top) \<longleftrightarrow> c = Black"
| "top_black (InR c l a Top) \<longleftrightarrow> c = Black"
| "top_black (InL c a r cx) \<longleftrightarrow> top_black cx"
| "top_black (InR c l a cx) \<longleftrightarrow> top_black cx"

lemma top_black_up: "top_black (InL c a r cx) \<Longrightarrow> top_black cx" "top_black (InR c l a cx) \<Longrightarrow> top_black cx"
  by (cases cx; simp)+

lemma rep_is_red: "rep h p q t \<Longrightarrow> al p \<Longrightarrow> (q \<noteq> 0 \<and> rb_is_red q h) = is_red t"
  by (cases t rule: is_red.cases) (auto simp: rb_is_red_def)

lemma is_redE: "is_red t \<Longrightarrow> (\<And>l a r. t = Br Red l a r \<Longrightarrow> P) \<Longrightarrow> P" by (cases t rule: is_red.cases) auto

text \<open>The heap after a last rotation at a place, as seen from the root.\<close>

definition rotated :: "ctx \<Rightarrow> rbt \<Rightarrow> u64 set \<Rightarrow> rb_heap \<Rightarrow> rb_heap \<Rightarrow> bool" where
  "rotated cx t S h h' \<longleftrightarrow> rep h' 0 (rb_root h') (zip_up cx t) \<and> only S h h'"

lemma rotatedI: "rep h' (up cx) q t \<Longrightarrow> repc h' cx q \<Longrightarrow> only S h h' \<Longrightarrow> rotated cx t S h h'"
  by (auto simp: rotated_def intro: rep_zip)

end
