(* ===== verification/Rbtree_Inv.thy ===== *)
theory Rbtree_Inv
  imports Rbtree_Rep
begin

text \<open>
  The colour invariants of red-black trees for trees and for the surroundings of a place, and that the
  function \<^const>\<open>ins_fix\<close> restores them.
\<close>

section \<open>Black height and colours\<close>

primrec bh :: "rbt \<Rightarrow> nat" where
  "bh Tip = 0"
| "bh (Br c l a r) = bh l + (if c = Black then 1 else 0)"

primrec inv_h :: "rbt \<Rightarrow> bool" where
  "inv_h Tip \<longleftrightarrow> True"
| "inv_h (Br c l a r) \<longleftrightarrow> inv_h l \<and> inv_h r \<and> bh l = bh r"

primrec inv_c :: "rbt \<Rightarrow> bool" where
  "inv_c Tip \<longleftrightarrow> True"
| "inv_c (Br c l a r) \<longleftrightarrow> inv_c l \<and> inv_c r \<and> (c = Red \<longrightarrow> \<not> is_red l \<and> \<not> is_red r)"

definition rb_inv :: "rbt \<Rightarrow> bool" where
  "rb_inv t \<longleftrightarrow> inv_h t \<and> inv_c t \<and> \<not> is_red t"

text \<open>The surroundings of a place for a subtree of black height \<^verbatim>\<open>k\<close>.\<close>

primrec cinv_h :: "nat \<Rightarrow> ctx \<Rightarrow> bool" where
  "cinv_h k Top \<longleftrightarrow> True"
| "cinv_h k (InL c a r cx) \<longleftrightarrow> inv_h r \<and> bh r = k \<and> cinv_h (k + (if c = Black then 1 else 0)) cx"
| "cinv_h k (InR c l a cx) \<longleftrightarrow> inv_h l \<and> bh l = k \<and> cinv_h (k + (if c = Black then 1 else 0)) cx"

primrec cred :: "ctx \<Rightarrow> bool" where
  "cred Top \<longleftrightarrow> False"
| "cred (InL c a r cx) \<longleftrightarrow> c = Red"
| "cred (InR c l a cx) \<longleftrightarrow> c = Red"

primrec cinv_c :: "ctx \<Rightarrow> bool" where
  "cinv_c Top \<longleftrightarrow> True"
| "cinv_c (InL c a r cx) \<longleftrightarrow> inv_c r \<and> cinv_c cx \<and> (c = Red \<longrightarrow> \<not> is_red r \<and> \<not> cred cx)"
| "cinv_c (InR c l a cx) \<longleftrightarrow> inv_c l \<and> cinv_c cx \<and> (c = Red \<longrightarrow> \<not> is_red l \<and> \<not> cred cx)"

lemma is_red_Br [simp]: "is_red (Br c l a r) \<longleftrightarrow> c = Red" by (cases c) simp_all

lemma not_color [simp]: "c \<noteq> Red \<longleftrightarrow> c = Black" "c \<noteq> Black \<longleftrightarrow> c = Red" by (cases c; simp)+

lemma inv_h_zip: "inv_h (zip_up cx t) \<longleftrightarrow> inv_h t \<and> cinv_h (bh t) cx"
proof (induction cx arbitrary: t)
  case (InL c a r cx) then show ?case by (cases "bh r = bh t") auto
next
  case (InR c l a cx) then show ?case by (cases "bh l = bh t") auto
qed simp

lemma inv_c_zip: "inv_c (zip_up cx t) \<longleftrightarrow> inv_c t \<and> cinv_c cx \<and> (cred cx \<longrightarrow> \<not> is_red t)"
  by (induction cx arbitrary: t) auto

lemma top_red: "\<not> is_red (zip_up cx t) \<longleftrightarrow> (if cx = Top then \<not> is_red t else top_black cx)"
proof (induction cx arbitrary: t)
  case (InL c a r cx) then show ?case by (cases cx) simp_all
next
  case (InR c l a cx) then show ?case by (cases cx) simp_all
qed simp

lemma zip_ctx:
  "rb_inv (zip_up cx t) \<longleftrightarrow> inv_h t \<and> cinv_h (bh t) cx \<and> inv_c t \<and> cinv_c cx \<and> (cred cx \<longrightarrow> \<not> is_red t) \<and>
     (if cx = Top then \<not> is_red t else top_black cx)"
  unfolding rb_inv_def inv_h_zip inv_c_zip top_red by blast

lemma paint_inv [simp]:
  "inv_h (paint c t) \<longleftrightarrow> inv_h t" "inv_c t \<Longrightarrow> inv_c (paint Black t)" "\<not> is_red (paint Black t)"
  "\<not> is_red t \<Longrightarrow> paint Black t = t" "is_red t \<Longrightarrow> bh (paint Black t) = Suc (bh t)"
  by (cases t; simp)+

section \<open>Insertion\<close>

lemma ins_fix_nodes: "t \<noteq> Tip \<Longrightarrow> nodes (ins_fix t cx) = before cx @ nodes t @ after cx"
  by (induction t cx rule: ins_fix.induct) (auto split: rbt.splits)

theorem ins_fix_inv:
  "is_red t \<Longrightarrow> inv_h t \<Longrightarrow> inv_c t \<Longrightarrow> cinv_h (bh t) cx \<Longrightarrow> cinv_c cx \<Longrightarrow> top_black cx \<Longrightarrow> rb_inv (ins_fix t cx)"
proof (induction t cx rule: ins_fix.induct)
  case (1 t p s cg g u cx)
  then show ?case
    using top_black_up(1) [OF top_black_up(1) [OF 1(7)]] by (cases cg) (auto simp: zip_ctx)
next
  case (2 t s p cg g u cx)
  then show ?case
    using top_black_up(1) [OF top_black_up(2) [OF 2(7)]] by (cases cg) (auto simp: zip_ctx split: rbt.splits)
next
  case (3 t p s cg u g cx)
  then show ?case
    using top_black_up(2) [OF top_black_up(1) [OF 3(7)]] by (cases cg) (auto simp: zip_ctx split: rbt.splits)
next
  case (4 t s p cg u g cx)
  then show ?case
    using top_black_up(2) [OF top_black_up(2) [OF 4(7)]] by (cases cg) (auto simp: zip_ctx)
next
  case (5 t) then show ?case by (simp add: rb_inv_def)
next
  case (6 t p s cx) then show ?case using zip_ctx [of "InL Black p s cx" t] by auto
next
  case (7 t s p cx) then show ?case using zip_ctx [of "InR Black s p cx" t] by auto
qed simp_all

section \<open>Ordered trees in the heap\<close>

text \<open>What a comparison function has to be on the nodes at hand: a strict linear order.\<close>

definition strict_order :: "(u64 \<Rightarrow> u64 \<Rightarrow> bool) \<Rightarrow> u64 set \<Rightarrow> bool" where
  "strict_order lt S \<longleftrightarrow> (\<forall>x\<in>S. \<not> lt x x) \<and> (\<forall>x\<in>S. \<forall>y\<in>S. \<forall>z\<in>S. lt x y \<longrightarrow> lt y z \<longrightarrow> lt x z) \<and>
     (\<forall>x\<in>S. \<forall>y\<in>S. x \<noteq> y \<longrightarrow> lt x y \<or> lt y x)"

text \<open>The heap holds a red-black tree with these nodes in this order.\<close>

definition rb_tree :: "(u64 \<Rightarrow> u64 \<Rightarrow> bool) \<Rightarrow> rb_heap \<Rightarrow> u64 list \<Rightarrow> bool" where
  "rb_tree lt h xs \<longleftrightarrow> (\<exists>t. rep h 0 (rb_root h) t \<and> nodes t = xs \<and> rb_inv t) \<and> distinct xs \<and> sorted_wrt lt xs"

text \<open>The list with a node put at its place.\<close>

definition put :: "(u64 \<Rightarrow> u64 \<Rightarrow> bool) \<Rightarrow> u64 \<Rightarrow> u64 list \<Rightarrow> u64 list" where
  "put lt n xs = takeWhile (\<lambda>x. lt x n) xs @ n # dropWhile (\<lambda>x. lt x n) xs"

lemma set_put [simp]: "set (put lt n xs) = insert n (set xs)"
  using arg_cong [OF takeWhile_dropWhile_id [of "\<lambda>x. lt x n" xs], of set] unfolding put_def set_append by auto

lemma put_split:
  assumes "strict_order lt (insert n (set (ys @ zs)))" "\<forall>x\<in>set ys. lt x n" "\<forall>x\<in>set zs. lt n x" "n \<notin> set zs"
  shows "put lt n (ys @ zs) = ys @ n # zs"
proof -
  have "\<not> lt (hd zs) n" if "zs \<noteq> []"
  proof
    assume a: "lt (hd zs) n"
    have hd: "hd zs \<in> set zs" using that by simp
    then have "lt n n" using a assms(1,3) unfolding strict_order_def by (metis insertI1 insertI2 set_append Un_iff)
    then show False using assms(1) by (auto simp: strict_order_def)
  qed
  then have "takeWhile (\<lambda>x. lt x n) zs = [] \<and> dropWhile (\<lambda>x. lt x n) zs = zs" by (cases zs) auto
  then show ?thesis using assms(2) by (simp add: put_def)
qed

end
