(* ===== verification/Rbtree_Insert.thy ===== *)
theory Rbtree_Insert
  imports Rbtree_Inv
begin

text \<open>
  The loop of \<^verbatim>\<open>__rb_insert_fix\<close> computes the function \<^const>\<open>ins_fix\<close>, which keeps the order of the
  nodes and restores the colour invariants.
\<close>

section \<open>The loop computes the function\<close>

lemma insert_left_step:
  assumes t: "rep h g p (Br Red a p b)" and c: "repc h (InL cg g u cx) p"
    and d: "distinct (nodes a @ p # nodes b @ g # nodes u @ cnodes cx)"
    and S: "{p, g} \<union> set (nodes u) \<subseteq> S"
  shows "is_red u \<Longrightarrow> \<exists>h'. insert_fix_loop n p h = insert_fix_loop g (up cx) h' \<and>
      rep h' (up cx) g (Br Red (Br Black a p b) g (paint Black u)) \<and> repc h' cx g \<and> only S h h'"
    and "\<not> is_red u \<Longrightarrow> insert_fix_loop n p h = Some (Ret (insert_rotate_left n p g h))"
proof -
  have g: "p \<noteq> 0" "g \<noteq> 0" "al g" "rb_red_parent p h = g" "\<not> rb_is_black p h"
    using t c by (auto simp: rb_red_parent_def rb_is_black_def)
  have u: "rep h g (rb_right h g) u" using c by simp
  have ne: "p \<noteq> rb_right h g" using u d g(1) by (cases u) auto
  note unf = insert_fix_loop.simps [of n p h]
  show "\<exists>h'. insert_fix_loop n p h = insert_fix_loop g (up cx) h' \<and>
      rep h' (up cx) g (Br Red (Br Black a p b) g (paint Black u)) \<and> repc h' cx g \<and> only S h h'" if r: "is_red u"
  proof -
    from r obtain l x s where ux: "u = Br Red l x s" by (rule is_redE)
    then have x: "rb_right h g = x" using u by simp
    have "let (q, h') = insert_recolor x p g h in q = up cx \<and>
      rep h' (up cx) g (Br Red (Br Black a p b) g (Br Black l x s)) \<and> repc h' cx g \<and> only S h h'"
      by (rule insert_recolor_left_rep [OF t c [unfolded ux]]) (use d ux S in simp_all)
    moreover have "insert_fix_loop n p h =
      insert_fix_loop g (fst (insert_recolor x p g h)) (snd (insert_recolor x p g h))"
      using unf g ne rep_is_red [OF u g(3)] r x by (simp add: Let_def)
    ultimately show ?thesis using ux by (auto split: prod.splits)
  qed
  show "insert_fix_loop n p h = Some (Ret (insert_rotate_left n p g h))" if r: "\<not> is_red u"
    using unf g ne rep_is_red [OF u g(3)] r by (simp add: Let_def)
qed

lemma insert_right_step:
  assumes t: "rep h g p (Br Red a p b)" and c: "repc h (InR cg u g cx) p"
    and d: "distinct (nodes u @ g # nodes a @ p # nodes b @ cnodes cx)"
    and S: "{p, g} \<union> set (nodes u) \<subseteq> S"
  shows "is_red u \<Longrightarrow> \<exists>h'. insert_fix_loop n p h = insert_fix_loop g (up cx) h' \<and>
      rep h' (up cx) g (Br Red (paint Black u) g (Br Black a p b)) \<and> repc h' cx g \<and> only S h h'"
    and "\<not> is_red u \<Longrightarrow> insert_fix_loop n p h = Some (Ret (insert_rotate_right n p g h))"
proof -
  have g: "p \<noteq> 0" "g \<noteq> 0" "al g" "rb_red_parent p h = g" "\<not> rb_is_black p h" "rb_right h g = p"
    using t c by (auto simp: rb_red_parent_def rb_is_black_def)
  have u: "rep h g (rb_left h g) u" using c by simp
  note unf = insert_fix_loop.simps [of n p h]
  show "\<exists>h'. insert_fix_loop n p h = insert_fix_loop g (up cx) h' \<and>
      rep h' (up cx) g (Br Red (paint Black u) g (Br Black a p b)) \<and> repc h' cx g \<and> only S h h'" if r: "is_red u"
  proof -
    from r obtain l x s where ux: "u = Br Red l x s" by (rule is_redE)
    then have x: "rb_left h g = x" using u by simp
    have "let (q, h') = insert_recolor x p g h in q = up cx \<and>
      rep h' (up cx) g (Br Red (Br Black l x s) g (Br Black a p b)) \<and> repc h' cx g \<and> only S h h'"
      by (rule insert_recolor_right_rep [OF t c [unfolded ux]]) (use d ux S in simp_all)
    moreover have "insert_fix_loop n p h =
      insert_fix_loop g (fst (insert_recolor x p g h)) (snd (insert_recolor x p g h))"
      using unf g rep_is_red [OF u g(3)] r x by (simp add: Let_def)
    ultimately show ?thesis using ux by (auto split: prod.splits)
  qed
  show "insert_fix_loop n p h = Some (Ret (insert_rotate_right n p g h))" if r: "\<not> is_red u"
    using unf g rep_is_red [OF u g(3)] r by (simp add: Let_def)
qed

text \<open>The rotations, for the four positions of the node.\<close>

lemma insert_rotate_rep:
  assumes t: "rep h p n (Br Red l n r)"
  shows "repc h (InL Red p s (InL cg g u cx)) n \<Longrightarrow> distinct ((nodes l @ n # nodes r) @ p # nodes s @ g # nodes u @ cnodes cx) \<Longrightarrow> set ((nodes l @ n # nodes r) @ p # nodes s @ g # nodes u @ cnodes cx) \<subseteq> S \<Longrightarrow>
      rotated cx (Br cg (Br Red l n r) p (Br Red (paint Black s) g u)) S h (insert_rotate_left n p g h)"
    and "repc h (InR Red s p (InL cg g u cx)) n \<Longrightarrow> distinct (nodes s @ p # (nodes l @ n # nodes r) @ g # nodes u @ cnodes cx) \<Longrightarrow> set (nodes s @ p # (nodes l @ n # nodes r) @ g # nodes u @ cnodes cx) \<subseteq> S \<Longrightarrow>
      rotated cx (Br cg (Br Red s p (paint Black l)) n (Br Red (paint Black r) g u)) S h (insert_rotate_left n p g h)"
    and "repc h (InL Red p s (InR cg u g cx)) n \<Longrightarrow> distinct (nodes u @ g # (nodes l @ n # nodes r) @ p # nodes s @ cnodes cx) \<Longrightarrow> set (nodes u @ g # (nodes l @ n # nodes r) @ p # nodes s @ cnodes cx) \<subseteq> S \<Longrightarrow>
      rotated cx (Br cg (Br Red u g (paint Black l)) n (Br Red (paint Black r) p s)) S h (insert_rotate_right n p g h)"
    and "repc h (InR Red s p (InR cg u g cx)) n \<Longrightarrow> distinct (nodes u @ g # nodes s @ p # (nodes l @ n # nodes r) @ cnodes cx) \<Longrightarrow> set (nodes u @ g # nodes s @ p # (nodes l @ n # nodes r) @ cnodes cx) \<subseteq> S \<Longrightarrow>
      rotated cx (Br cg (Br Red u g (paint Black s)) p (Br Red l n r)) S h (insert_rotate_right n p g h)"
proof -
  assume c: "repc h (InL Red p s (InL cg g u cx)) n" and d: "distinct ((nodes l @ n # nodes r) @ p # nodes s @ g # nodes u @ cnodes cx)"
    and S: "set ((nodes l @ n # nodes r) @ p # nodes s @ g # nodes u @ cnodes cx) \<subseteq> S"
  have ne: "n \<noteq> rb_right h p" and x: "rb_right h p = 0 \<or> rb_right h p \<in> set (nodes s)" using t c d by (cases s; auto)+
  have eq: "insert_rotate_left n p g h = insert_case3_left p g (rb_right h p) h"
    using ne by (simp add: insert_rotate_left_def Let_def)
  have "rep h p (rb_left h p) (Br Red l n r)" using t c by simp
  with insert_case3_left_rep [of h p "Br Red l n r" s cg g u cx p] c d
  have "let h' = insert_case3_left p g (rb_right h p) h in rep h' (up cx) p (Br cg (Br Red l n r) p (Br Red (paint Black s) g u)) \<and> repc h' cx p" by simp
  moreover have "only S h (insert_case3_left p g (rb_right h p) h)"
    by (rule insert_case3_left_only [where cg = cg and u = u and cx = cx and q = p]) (use c d S x in auto)
  ultimately show "rotated cx (Br cg (Br Red l n r) p (Br Red (paint Black s) g u)) S h (insert_rotate_left n p g h)"
    unfolding eq Let_def by (intro rotatedI) auto
next
  assume c: "repc h (InR Red s p (InL cg g u cx)) n" and d: "distinct (nodes s @ p # (nodes l @ n # nodes r) @ g # nodes u @ cnodes cx)"
    and S: "set (nodes s @ p # (nodes l @ n # nodes r) @ g # nodes u @ cnodes cx) \<subseteq> S"
  define h1 where "h1 = insert_case2_left n p h"
  have 1: "rep h1 n (rb_left h1 n) (Br Red s p (paint Black l))" "rep h1 n (rb_right h1 n) r" "repc h1 (InL cg g u cx) p" "only S h h1"
    using insert_case2_left_rep [OF t c, where S = S] d S unfolding h1_def Let_def by auto
  have x: "rb_right h1 n = 0 \<or> rb_right h1 n \<in> set (nodes r)" using 1(2) by (cases r) auto
  have eq: "insert_rotate_left n p g h = insert_case3_left n g (rb_right h1 n) h1"
    using c by (simp add: insert_rotate_left_def h1_def Let_def)
  have "let h' = insert_case3_left n g (rb_right h1 n) h1 in rep h' (up cx) n (Br cg (Br Red s p (paint Black l)) n (Br Red (paint Black r) g u)) \<and> repc h' cx n"
    by (rule insert_case3_left_rep [OF 1(1,2) _ _ 1(3)]) (use t d in auto)
  moreover have "only S h1 (insert_case3_left n g (rb_right h1 n) h1)"
    by (rule insert_case3_left_only [OF 1(3)]) (use d S x 1(3) in auto)
  ultimately show "rotated cx (Br cg (Br Red s p (paint Black l)) n (Br Red (paint Black r) g u)) S h (insert_rotate_left n p g h)"
    unfolding eq Let_def by (intro rotatedI) (auto intro: only_trans [OF 1(4)])
next
  assume c: "repc h (InL Red p s (InR cg u g cx)) n" and d: "distinct (nodes u @ g # (nodes l @ n # nodes r) @ p # nodes s @ cnodes cx)"
    and S: "set (nodes u @ g # (nodes l @ n # nodes r) @ p # nodes s @ cnodes cx) \<subseteq> S"
  define h1 where "h1 = insert_case2_right n p h"
  have 1: "rep h1 n (rb_right h1 n) (Br Red (paint Black r) p s)" "rep h1 n (rb_left h1 n) l" "repc h1 (InR cg u g cx) p" "only S h h1"
    using insert_case2_right_rep [OF t c, where S = S] d S unfolding h1_def Let_def by auto
  have x: "rb_left h1 n = 0 \<or> rb_left h1 n \<in> set (nodes l)" using 1(2) by (cases l) auto
  have eq: "insert_rotate_right n p g h = insert_case3_right n g (rb_left h1 n) h1"
    using c by (simp add: insert_rotate_right_def h1_def Let_def)
  have "let h' = insert_case3_right n g (rb_left h1 n) h1 in rep h' (up cx) n (Br cg (Br Red u g (paint Black l)) n (Br Red (paint Black r) p s)) \<and> repc h' cx n"
    by (rule insert_case3_right_rep [OF 1(1,2) _ _ 1(3)]) (use t d in auto)
  moreover have "only S h1 (insert_case3_right n g (rb_left h1 n) h1)"
    by (rule insert_case3_right_only [OF 1(3)]) (use d S x 1(3) in auto)
  ultimately show "rotated cx (Br cg (Br Red u g (paint Black l)) n (Br Red (paint Black r) p s)) S h (insert_rotate_right n p g h)"
    unfolding eq Let_def by (intro rotatedI) (auto intro: only_trans [OF 1(4)])
next
  assume c: "repc h (InR Red s p (InR cg u g cx)) n" and d: "distinct (nodes u @ g # nodes s @ p # (nodes l @ n # nodes r) @ cnodes cx)"
    and S: "set (nodes u @ g # nodes s @ p # (nodes l @ n # nodes r) @ cnodes cx) \<subseteq> S"
  have ne: "n \<noteq> rb_left h p" and x: "rb_left h p = 0 \<or> rb_left h p \<in> set (nodes s)" using t c d by (cases s; auto)+
  have eq: "insert_rotate_right n p g h = insert_case3_right p g (rb_left h p) h"
    using ne by (simp add: insert_rotate_right_def Let_def)
  have "rep h p (rb_right h p) (Br Red l n r)" using t c by simp
  with insert_case3_right_rep [of h p "Br Red l n r" s cg u g cx p] c d
  have "let h' = insert_case3_right p g (rb_left h p) h in rep h' (up cx) p (Br cg (Br Red u g (paint Black s)) p (Br Red l n r)) \<and> repc h' cx p" by simp
  moreover have "only S h (insert_case3_right p g (rb_left h p) h)"
    by (rule insert_case3_right_only [where cg = cg and u = u and cx = cx and q = p]) (use c d S x in auto)
  ultimately show "rotated cx (Br cg (Br Red u g (paint Black s)) p (Br Red l n r)) S h (insert_rotate_right n p g h)"
    unfolding eq Let_def by (intro rotatedI) auto
qed

lemma insert_black_parent:
  assumes "rep h (up cx) n t" "repc h cx n" "cx = InL Black p s cx' \<or> cx = InR Black s p cx'"
  shows "insert_fix_loop n (up cx) h = Some (Ret h) \<and> rep h 0 (rb_root h) (zip_up cx t)"
proof -
  have "up cx \<noteq> 0" "al (up cx')" "parent_color h (up cx) = up cx' OR RB_BLACK" using assms(2,3) repc_al by auto
  then have "insert_fix_loop n (up cx) h = Some (Ret h)" by (subst insert_fix_loop.simps) (simp add: rb_is_black_def)
  then show ?thesis using rep_zip assms by blast
qed

theorem insert_fix_loop_rep:
  "t = Br Red l n r \<Longrightarrow> rep h (up cx) n t \<Longrightarrow> repc h cx n \<Longrightarrow> distinct (nodes t @ cnodes cx) \<Longrightarrow> top_black cx \<Longrightarrow>
   set (nodes t @ cnodes cx) \<subseteq> S \<Longrightarrow>
   \<exists>h'. insert_fix_loop n (up cx) h = Some (Ret h') \<and> rep h' 0 (rb_root h') (ins_fix t cx) \<and> only S h h'"
proof (induction t cx arbitrary: h l n r rule: ins_fix.induct)
  case (1 t p s cg g u cx)
  have p: "rep h g p (Br Red t p s)" and c: "repc h (InL cg g u cx) p" using 1(3,4) by auto
  have d: "distinct (nodes t @ p # nodes s @ g # nodes u @ cnodes cx)" using 1(5) by (simp; blast)
  have S: "{p, g} \<union> set (nodes u) \<subseteq> S" using 1(7) by auto
  note st = insert_left_step [OF p c d S, of n]
  show ?case
  proof (cases "is_red u")
    case True
    then obtain h' where h': "insert_fix_loop n p h = insert_fix_loop g (up cx) h'"
      "rep h' (up cx) g (Br Red (Br Black t p s) g (paint Black u))" "repc h' cx g" "only S h h'" using st(1) by blast
    obtain h2 where "insert_fix_loop g (up cx) h' = Some (Ret h2)" "rep h2 0 (rb_root h2) (ins_fix (Br Red (Br Black t p s) g (paint Black u)) cx)" "only S h' h2"
      using 1(1) [OF True refl h'(2,3)] d top_black_up(1) [OF top_black_up(1) [OF 1(6)]] 1(7) by auto
    then show ?thesis using h' True by (auto intro: only_trans)
  next
    case False
    then show ?thesis using st(2) [OF False] insert_rotate_rep(1) [OF 1(3) [simplified 1(2) up.simps], where S = S] 1(2,4) d 1(7) by (auto simp: rotated_def)
  qed
next
  case (2 t s p cg g u cx)
  have p: "rep h g p (Br Red s p t)" and c: "repc h (InL cg g u cx) p" using 2(3,4) by auto
  have d: "distinct (nodes s @ p # nodes t @ g # nodes u @ cnodes cx)" using 2(5) by (simp; blast)
  have S: "{p, g} \<union> set (nodes u) \<subseteq> S" using 2(7) by auto
  note st = insert_left_step [OF p c d S, of n]
  show ?case
  proof (cases "is_red u")
    case True
    then obtain h' where h': "insert_fix_loop n p h = insert_fix_loop g (up cx) h'"
      "rep h' (up cx) g (Br Red (Br Black s p t) g (paint Black u))" "repc h' cx g" "only S h h'" using st(1) by blast
    obtain h2 where "insert_fix_loop g (up cx) h' = Some (Ret h2)" "rep h2 0 (rb_root h2) (ins_fix (Br Red (Br Black s p t) g (paint Black u)) cx)" "only S h' h2"
      using 2(1) [OF True refl h'(2,3)] d top_black_up(1) [OF top_black_up(2) [OF 2(6)]] 2(7) by auto
    then show ?thesis using h' True by (auto intro: only_trans)
  next
    case False
    then show ?thesis using st(2) [OF False] insert_rotate_rep(2) [OF 2(3) [simplified 2(2) up.simps], where S = S] 2(2,4) d 2(7) by (auto simp: rotated_def)
  qed
next
  case (3 t p s cg u g cx)
  have p: "rep h g p (Br Red t p s)" and c: "repc h (InR cg u g cx) p" using 3(3,4) by auto
  have d: "distinct (nodes u @ g # nodes t @ p # nodes s @ cnodes cx)" using 3(5) by (simp; blast)
  have S: "{p, g} \<union> set (nodes u) \<subseteq> S" using 3(7) by auto
  note st = insert_right_step [OF p c d S, of n]
  show ?case
  proof (cases "is_red u")
    case True
    then obtain h' where h': "insert_fix_loop n p h = insert_fix_loop g (up cx) h'"
      "rep h' (up cx) g (Br Red (paint Black u) g (Br Black t p s))" "repc h' cx g" "only S h h'" using st(1) by blast
    obtain h2 where "insert_fix_loop g (up cx) h' = Some (Ret h2)" "rep h2 0 (rb_root h2) (ins_fix (Br Red (paint Black u) g (Br Black t p s)) cx)" "only S h' h2"
      using 3(1) [OF True refl h'(2,3)] d top_black_up(2) [OF top_black_up(1) [OF 3(6)]] 3(7) by auto
    then show ?thesis using h' True by (auto intro: only_trans)
  next
    case False
    then show ?thesis using st(2) [OF False] insert_rotate_rep(3) [OF 3(3) [simplified 3(2) up.simps], where S = S] 3(2,4) d 3(7) by (auto simp: rotated_def)
  qed
next
  case (4 t s p cg u g cx)
  have p: "rep h g p (Br Red s p t)" and c: "repc h (InR cg u g cx) p" using 4(3,4) by auto
  have d: "distinct (nodes u @ g # nodes s @ p # nodes t @ cnodes cx)" using 4(5) by (simp; blast)
  have S: "{p, g} \<union> set (nodes u) \<subseteq> S" using 4(7) by auto
  note st = insert_right_step [OF p c d S, of n]
  show ?case
  proof (cases "is_red u")
    case True
    then obtain h' where h': "insert_fix_loop n p h = insert_fix_loop g (up cx) h'"
      "rep h' (up cx) g (Br Red (paint Black u) g (Br Black s p t))" "repc h' cx g" "only S h h'" using st(1) by blast
    obtain h2 where "insert_fix_loop g (up cx) h' = Some (Ret h2)" "rep h2 0 (rb_root h2) (ins_fix (Br Red (paint Black u) g (Br Black s p t)) cx)" "only S h' h2"
      using 4(1) [OF True refl h'(2,3)] d top_black_up(2) [OF top_black_up(2) [OF 4(6)]] 4(7) by auto
    then show ?thesis using h' True by (auto intro: only_trans)
  next
    case False
    then show ?thesis using st(2) [OF False] insert_rotate_rep(4) [OF 4(3) [simplified 4(2) up.simps], where S = S] 4(2,4) d 4(7) by (auto simp: rotated_def)
  qed
next
  case (5 t)
  then show ?case
    by (subst insert_fix_loop.simps) (auto simp: rb_set_parent_color_def)
next
  case (6 t p s cx)
  then show ?case using insert_black_parent [of h "InL Black p s cx" n t] by auto
next
  case (7 t s p cx)
  then show ?case using insert_black_parent [of h "InR Black s p cx" n t] by auto
qed simp_all

section \<open>Finding the place of a new node\<close>

fun place :: "(u64 \<Rightarrow> u64 \<Rightarrow> bool) \<Rightarrow> u64 \<Rightarrow> rbt \<Rightarrow> ctx \<Rightarrow> ctx option" where
  "place lt n Tip cx = Some cx"
| "place lt n (Br c l a r) cx =
     (if lt n a then place lt n l (InL c a r cx) else if lt a n then place lt n r (InR c l a cx) else None)"

lemma place_zip: "place lt n t cx = Some cx' \<Longrightarrow> zip_up cx' Tip = zip_up cx t"
  by (induction lt n t cx rule: place.induct) (auto split: if_splits)

lemma place_nodes: "place lt n t cx = Some cx' \<Longrightarrow> before cx' @ after cx' = before cx @ nodes t @ after cx"
  using place_zip nodes_zip_up [of cx' Tip] nodes_zip_up [of cx t] by force

lemma place_None: "place lt n t cx = None \<Longrightarrow> \<exists>a\<in>set (nodes t). \<not> lt n a \<and> \<not> lt a n"
  by (induction lt n t cx rule: place.induct) (auto split: if_splits)

lemma place_order:
  assumes "place lt n t cx = Some cx'" "strict_order lt (insert n (set (before cx @ nodes t @ after cx)))"
    and "sorted_wrt lt (nodes t)" "\<forall>x\<in>set (before cx). lt x n" "\<forall>x\<in>set (after cx). lt n x"
  shows "(\<forall>x\<in>set (before cx'). lt x n) \<and> (\<forall>x\<in>set (after cx'). lt n x)"
  using assms
proof (induction lt n t cx rule: place.induct)
  case (2 lt n c l a r cx)
  have tr: "lt x z" if "lt x y" "lt y z" "{x, y, z} \<subseteq> insert n (set (before cx @ nodes (Br c l a r) @ after cx))" for x y z
    using 2(4) that unfolding strict_order_def by blast
  show ?case
  proof (cases "lt n a")
    case True
    then have "\<forall>x\<in>set (after (InL c a r cx)). lt n x" using 2(5,7) tr [of n a] by (auto simp: sorted_wrt_append)
    moreover have "strict_order lt (insert n (set (before (InL c a r cx) @ nodes l @ after (InL c a r cx))))"
      using 2(4) by (rule back_subst [of "strict_order lt"]) auto
    ultimately show ?thesis using 2(1) [OF True] 2(3,5,6) True by (simp add: sorted_wrt_append)
  next
    case False
    with 2(3) have a: "lt a n" by (auto split: if_splits)
    then have "\<forall>x\<in>set (before (InR c l a cx)). lt x n" using 2(5,6) tr [of _ a n] by (auto simp: sorted_wrt_append)
    moreover have "strict_order lt (insert n (set (before (InR c l a cx) @ nodes r @ after (InR c l a cx))))"
      using 2(4) by (rule back_subst [of "strict_order lt"]) auto
    ultimately show ?thesis using 2(2) [OF False a] 2(3,5,7) False a by (simp add: sorted_wrt_append)
  qed
qed simp

text \<open>The descent follows \<^const>\<open>place\<close> and hangs the node there.\<close>

lemma insert_descend_rep:
  assumes "place lt n t cx = Some cx'" "t \<noteq> Tip"
    and "rep h (up cx) q t" "repc h cx q" "distinct (nodes t @ cnodes cx)"
    and n: "n \<noteq> 0" "al n" "n \<notin> set (nodes t @ cnodes cx)" "parent_color h n = 0" "rb_left h n = 0" "rb_right h n = 0"
    and S: "set (n # nodes t @ cnodes cx) \<subseteq> S"
  shows "\<exists>h'. insert_descend lt n q h = Some (True, h') \<and> rep h' (up cx') n (Br Red Tip n Tip) \<and> repc h' cx' n \<and> only S h h'"
  using assms
proof (induction t arbitrary: cx q)
  case (Br c l a r)
  have q: "q = a" "a \<noteq> 0" "n \<noteq> a" "al a" using Br.prems(5,8) Br.prems(3) by auto
  note unf = insert_descend.simps [of lt n q h]
  show ?case
  proof (cases "lt n a")
    case True
    show ?thesis
    proof (cases l)
      case Tip
      then have "insert_descend lt n q h = Some (True, set_pc n a (set_left a n h))"
        using unf q True Br.prems(3) by (simp add: Let_def)
      moreover have "cx' = InL c a r cx" using Br.prems(1) True Tip by simp
      ultimately show ?thesis using Br.prems Tip q by auto
    next
      case (Br c' l' a' r')
      have "insert_descend lt n q h = insert_descend lt n (rb_left h a) h"
        using unf q True Br.prems(3) Br by (simp add: Let_def)
      moreover have "\<exists>h'. insert_descend lt n (rb_left h a) h = Some (True, h') \<and> rep h' (up cx') n (Br Red Tip n Tip) \<and>
          repc h' cx' n \<and> only S h h'"
        by (rule Br.IH(1) [where cx = "InL c a r cx"]) (use Br.prems True Br in auto)
      ultimately show ?thesis by simp
    qed
  next
    case False
    with Br.prems(1) have a: "lt a n" by (auto split: if_splits)
    show ?thesis
    proof (cases r)
      case Tip
      then have "insert_descend lt n q h = Some (True, set_pc n a (set_right a n h))"
        using unf q False a Br.prems(3) by (simp add: Let_def)
      moreover have "cx' = InR c l a cx" using Br.prems(1) False a Tip by simp
      ultimately show ?thesis using Br.prems Tip q by auto
    next
      case (Br c' l' a' r')
      have "insert_descend lt n q h = insert_descend lt n (rb_right h a) h"
        using unf q False a Br.prems(3) Br by (simp add: Let_def)
      moreover have "\<exists>h'. insert_descend lt n (rb_right h a) h = Some (True, h') \<and> rep h' (up cx') n (Br Red Tip n Tip) \<and>
          repc h' cx' n \<and> only S h h'"
        by (rule Br.IH(2) [where cx = "InR c l a cx"]) (use Br.prems False a Br in auto)
      ultimately show ?thesis by simp
    qed
  qed
qed simp

section \<open>Insertion\<close>

lemma insert_at_place:
  assumes c: "rep h (up cx) n (Br Red Tip n Tip)" "repc h cx n" and d: "distinct (n # cnodes cx)" and i: "rb_inv (zip_up cx Tip)"
    and S: "set (n # cnodes cx) \<subseteq> S"
  shows "\<exists>h' t. rb_insert_fix n h = Some (Ret h') \<and> rep h' 0 (rb_root h') t \<and> nodes t = before cx @ n # after cx \<and> rb_inv t \<and> only S h h'"
proof -
  have p: "rb_red_parent n h = up cx" using c(1) by (simp add: rb_red_parent_def)
  have t: "top_black cx" using i by (auto simp: zip_ctx split: if_splits)
  obtain h' where h': "insert_fix_loop n (up cx) h = Some (Ret h')" "rep h' 0 (rb_root h') (ins_fix (Br Red Tip n Tip) cx)" "only S h h'"
    using insert_fix_loop_rep [OF refl c, where S = S] d t S by auto
  moreover have "rb_inv (ins_fix (Br Red Tip n Tip) cx)"
    by (rule ins_fix_inv) (use i t in \<open>auto simp: zip_ctx\<close>)
  moreover have "nodes (ins_fix (Br Red Tip n Tip) cx) = before cx @ n # after cx" by (simp add: ins_fix_nodes)
  ultimately show ?thesis unfolding rb_insert_fix_def p by blast
qed

text \<open>Descent and rebalancing together, from a tree without the node.\<close>

lemma insert_into_tree:
  assumes t: "rep h 0 (rb_root h) t" "nodes t = xs" "rb_inv t" and d: "distinct xs" and n: "n \<noteq> 0" "al n" "n \<notin> set xs"
    and f: "parent_color h n = 0" "rb_left h n = 0" "rb_right h n = 0"
    and cx: "place lt n t Top = Some cx"
  shows "\<exists>h1 h' t'. insert_descend lt n (rb_root h) h = Some (True, h1) \<and> rb_insert_fix n h1 = Some (Ret h') \<and>
    rep h' 0 (rb_root h') t' \<and> nodes t' = before cx @ n # after cx \<and> rb_inv t' \<and> only (insert n (set xs)) h h'"
proof (cases "t = Tip")
  case True
  let ?h = "set_root n (rb_set_parent_color n 0 RB_BLACK h)"
  have r: "rb_root h = 0" "cx = Top" using True t(1) cx by auto
  then have "insert_descend lt n (rb_root h) h = Some (True, h)" by (subst insert_descend.simps) simp
  moreover have "rb_insert_fix n h = Some (Ret ?h)" by (simp add: rb_insert_fix_def rb_red_parent_def f(1) insert_fix_loop.simps)
  moreover have "rep ?h 0 (rb_root ?h) (Br Black Tip n Tip)" using n f by (simp add: rb_set_parent_color_def)
  ultimately show ?thesis using r
    by (intro exI [of _ h] exI [of _ ?h] exI [of _ "Br Black Tip n Tip"]) (simp add: rb_inv_def rb_set_parent_color_def)
next
  case False
  have nd: "before cx @ after cx = xs" and z: "zip_up cx Tip = t" using place_nodes [OF cx] place_zip [OF cx] t(2) by simp_all
  obtain h1 where h1: "insert_descend lt n (rb_root h) h = Some (True, h1)" "rep h1 (up cx) n (Br Red Tip n Tip)"
    "repc h1 cx n" "only (insert n (set xs)) h h1"
    using insert_descend_rep [OF cx False _ _ _ n(1,2) _ f, of "rb_root h" "insert n (set xs)"] t(1,2) d n(3) by auto
  have "distinct (n # cnodes cx)" "set (n # cnodes cx) \<subseteq> insert n (set xs)" using d n(3) unfolding nd by auto
  with insert_at_place [OF h1(2,3)] z t(3)
  obtain h' t' where "rb_insert_fix n h1 = Some (Ret h')" "rep h' 0 (rb_root h') t'" "nodes t' = before cx @ n # after cx"
    "rb_inv t'" "only (insert n (set xs)) h1 h'" by blast
  then show ?thesis using h1(1,4) only_trans by blast
qed

theorem rb_insert_tree:
  assumes tr: "rb_tree lt h xs" and n: "n \<noteq> 0" "al n" "n \<notin> set xs" and o: "strict_order lt (insert n (set xs))"
  shows "\<exists>h'. rb_insert lt n h = Some (Ret (0, h')) \<and> rb_tree lt h' (put lt n xs) \<and> only (insert n (set xs)) h h'"
proof -
  from tr obtain t where t: "rep h 0 (rb_root h) t" "nodes t = xs" "rb_inv t" and d: "distinct xs" and so: "sorted_wrt lt xs"
    by (auto simp: rb_tree_def)
  define h0 where "h0 = set_pc n 0 (set_left n 0 (set_right n 0 h))"
  have h0: "rep h0 0 (rb_root h0) t" "parent_color h0 n = 0" "rb_left h0 n = 0" "rb_right h0 n = 0" "only (insert n (set xs)) h h0"
    using t n by (simp_all add: h0_def)
  have "place lt n t Top \<noteq> None"
    using place_None [of lt n t Top] o n(3) t(2) unfolding strict_order_def by (metis insertCI option.exhaust)
  then obtain cx where cx: "place lt n t Top = Some cx" by blast
  have nd: "before cx @ after cx = xs" using place_nodes [OF cx] t(2) by simp
  obtain h1 h' t' where h': "insert_descend lt n (rb_root h0) h0 = Some (True, h1)" "rb_insert_fix n h1 = Some (Ret h')"
    "rep h' 0 (rb_root h') t'" "nodes t' = before cx @ n # after cx" "rb_inv t'" "only (insert n (set xs)) h0 h'"
    using insert_into_tree [OF h0(1) t(2,3) d n h0(2-4) cx] by blast
  have ord: "\<forall>x\<in>set (before cx). lt x n" "\<forall>x\<in>set (after cx). lt n x"
    using place_order [OF cx] o t(2) so by simp_all
  have p: "put lt n xs = before cx @ n # after cx"
    using put_split [of lt n "before cx" "after cx"] o ord n(3) nd by auto
  have "sorted_wrt lt (before cx @ after cx)" "distinct (before cx @ after cx)" "n \<notin> set (before cx @ after cx)"
    using so d n(3) nd by simp_all
  then have "sorted_wrt lt (put lt n xs)" "distinct (put lt n xs)" using ord unfolding p by (auto simp: sorted_wrt_append)
  then have "rb_tree lt h' (put lt n xs)" unfolding rb_tree_def using h'(3-5) p by auto
  moreover have "rb_insert lt n h = Some (Ret (0, h'))"
    using h'(1,2) by (simp add: rb_insert_def h0_def Let_def)
  ultimately show ?thesis using only_trans [OF h0(5) h'(6)] by blast
qed

end
