(* ===== verification/Rbtree_Erase.thy ===== *)
theory Rbtree_Erase
  imports Rbtree_Inv
begin

text \<open>
  The loop of \<^verbatim>\<open>__rb_erase_fix\<close> computes a function on trees that restores the black height of a
  place that lost one, and keeps the nodes and their order.
\<close>

section \<open>The cases of the loop on the heap\<close>

lemma rb_set_parent_alt: "rb_set_parent r p h = set_pc r (p OR rb_color r h) h"
  by (simp add: rb_set_parent_def or.commute)

text \<open>The common end of all rotations: a child \<^verbatim>\<open>s\<close> that already has its parent \<^verbatim>\<open>p\<close> below it takes over its place.\<close>

lemma rotate_rep:
  assumes p: "p \<noteq> 0" "al p" "parent_color h p = up cx OR cbit cp" "repc h cx p"
    and a: "rep h p (rb_left h p) a" and b: "rep h p (rb_right h p) b"
    and s: "s \<noteq> 0" "al s"
    and d: "distinct ((nodes a @ p # nodes b @ s # nodes x) @ cnodes cx)"
  shows "rb_left h s = p \<Longrightarrow> rep h s (rb_right h s) x \<Longrightarrow>
      rep (rb_rotate_set_parents p s (cbit e) h) (up cx) s (Br cp (Br e a p b) s x) \<and> repc (rb_rotate_set_parents p s (cbit e) h) cx s"
    and "rb_right h s = p \<Longrightarrow> rep h s (rb_left h s) x \<Longrightarrow>
      rep (rb_rotate_set_parents p s (cbit e) h) (up cx) s (Br cp x s (Br e a p b)) \<and> repc (rb_rotate_set_parents p s (cbit e) h) cx s"
proof -
  have u: "al (up cx)" using p(4) by (rule repc_al)
  have z: "0 \<notin> set (nodes a @ p # nodes b @ s # nodes x)" if "rep h s q x" for q using p a b s that by (auto dest: rep_0)
  note r = rotate_repc [OF p(4,1) _ _ _ p(3)] rotate_sel [OF p(3) u]
  show "rep (rb_rotate_set_parents p s (cbit e) h) (up cx) s (Br cp (Br e a p b) s x) \<and> repc (rb_rotate_set_parents p s (cbit e) h) cx s"
    if "rb_left h s = p" "rep h s (rb_right h s) x"
    using p(1,2) a b s that d [unfolded apart_simps] up_notin [OF d z [OF that(2)]] by (elim conjE) (simp add: r)
  show "rep (rb_rotate_set_parents p s (cbit e) h) (up cx) s (Br cp x s (Br e a p b)) \<and> repc (rb_rotate_set_parents p s (cbit e) h) cx s"
    if "rb_right h s = p" "rep h s (rb_left h s) x"
    using p(1,2) a b s that d [unfolded apart_simps] up_notin [OF d z [OF that(2)]] by (elim conjE) (simp add: r)
qed

text \<open>
  Case 4: the sibling \<^verbatim>\<open>s\<close> takes the place of the parent \<^verbatim>\<open>p\<close>. The word of the outer nephew \<^verbatim>\<open>x\<close> is
  overwritten and may have any value.
\<close>

lemma erase_rotate_left_rep:
  assumes p: "rep h p (rb_left h p) t" "p \<noteq> 0" "al p" "parent_color h p = up cx OR cbit cp" "repc h cx p"
    and s: "s \<noteq> 0" "al s" "rep h s (rb_left h s) l" "rb_right h s = x"
    and x: "x \<noteq> 0" "al x" "rep h x (rb_left h x) xl" "rep h x (rb_right h x) xr"
    and d: "distinct ((nodes t @ p # nodes l @ s # nodes xl @ x # nodes xr) @ cnodes cx)"
  shows "let h' = erase_rotate_left p s x h in rep h' (up cx) s (Br cp (Br Black t p l) s (Br Black xl x xr)) \<and> repc h' cx s"
proof -
  define h1 where "h1 = (let tmp2 = rb_left h s;
          h = set_right p tmp2 h;
          h = (if tmp2 \<noteq> 0 then rb_set_parent tmp2 p h else h);
          h = set_left s p h
      in rb_set_parent_color x s RB_BLACK h)"
  have 1: "parent_color h1 p = up cx OR cbit cp \<and> repc h1 cx p \<and> rep h1 p (rb_left h1 p) t \<and> rep h1 p (rb_right h1 p) l \<and>
    rb_left h1 s = p \<and> rep h1 s (rb_right h1 s) (Br Black xl x xr)"
    using p s x d [unfolded apart_simps]
    by (cases l; clarsimp simp: h1_def Let_def rb_set_parent_alt rb_color_def rb_set_parent_color_def)
  then have g: "parent_color h1 p = up cx OR cbit cp" "repc h1 cx p" "rep h1 p (rb_left h1 p) t"
    "rep h1 p (rb_right h1 p) l" "rb_left h1 s = p" "rep h1 s (rb_right h1 s) (Br Black xl x xr)" by blast+
  have "rep (rb_rotate_set_parents p s RB_BLACK h1) (up cx) s (Br cp (Br Black t p l) s (Br Black xl x xr)) \<and> repc (rb_rotate_set_parents p s RB_BLACK h1) cx s"
    by (rule rotate_rep(1) [OF p(2,3) g(1,2) g(3,4) s(1,2) _ g(5,6), where e = Black, unfolded cbit.simps]) (use d in auto)
  then show ?thesis unfolding erase_rotate_left_def h1_def Let_def .
qed

lemma erase_rotate_left_only:
  assumes "parent_color h p = up cx OR cbit cp" "al (up cx)" "up cx = 0 \<or> up cx \<in> S" "{p, s, x} \<subseteq> S"
    and "rb_left h s = 0 \<or> rb_left h s \<in> S" "p \<notin> {s, x, rb_left h s}"
  shows "only S h (erase_rotate_left p s x h)"
  using assms unfolding erase_rotate_left_def Let_def
  by (subst rotate_only [where cx = cx and c = cp])
    (auto simp: rb_set_parent_alt rb_color_def rb_set_parent_color_def)

text \<open>Case 3: the inner nephew \<^verbatim>\<open>y\<close> is red and is rotated above the sibling, whose new parent word comes later.\<close>

lemma erase_case3_left_rep:
  assumes p: "rep h p (rb_left h p) t" "p \<noteq> 0" "al p" "repc h cx p"
    and s: "s \<noteq> 0" "rb_left h s = y" "rep h s (rb_right h s) sr"
    and y: "y \<noteq> 0" "rep h y (rb_left h y) a" "rep h y (rb_right h y) b"
    and d: "distinct ((nodes t @ p # nodes a @ y # nodes b @ s # nodes sr) @ cnodes cx)" and S: "{p, s, y} \<union> set (nodes b) \<subseteq> S"
  shows "let h' = erase_case3_left p s y h in
    rep h' p (rb_left h' p) t \<and> parent_color h' p = parent_color h p \<and> repc h' cx p \<and> rep h' y (rb_left h' y) a \<and> rb_right h' y = s \<and>
    rep h' s (rb_left h' s) (paint Black b) \<and> rep h' s (rb_right h' s) sr \<and> only S h h'"
  using p s y d [unfolded apart_simps] S
  by (cases b; clarsimp simp: erase_case3_left_def Let_def set_parent_color_if_def rb_set_parent_color_def)

text \<open>Case 1: the sibling is red and is rotated above the parent.\<close>

lemma erase_sibling_left_rep:
  assumes t: "rep h p q t" and c: "repc h (InL cp p (Br Red (Br c bl b br) s sr) cx) q"
    and d: "distinct ((nodes t @ p # nodes bl @ b # nodes br @ s # nodes sr) @ cnodes cx)" and S: "{p, s, b} \<union> set (cnodes cx) \<subseteq> S"
  shows "\<exists>h'. erase_sibling_left p s h = Ret (b, h') \<and> rep h' p q t \<and> repc h' (InL Red p (Br Black bl b br) (InL cp s sr cx)) q \<and> only S h h'"
proof -
  define h1 where "h1 = set_left s p (rb_set_parent_color b p RB_BLACK (set_right p b h))"
  have f: "p \<noteq> 0" "al p" "s \<noteq> 0" "al s" "b \<noteq> 0" "rb_left h s = b" "rb_is_red s h" "al (up cx)"
    using c repc_al by (auto simp: rb_is_red_def)
  have u: "up cx = 0 \<or> up cx \<in> S" using up_in [of cx] S by auto
  have 1: "parent_color h1 p = up cx OR cbit cp \<and> repc h1 cx p \<and> rep h1 p (rb_left h1 p) t \<and> rb_left h1 p = q \<and>
    rep h1 p (rb_right h1 p) (Br Black bl b br) \<and> rb_left h1 s = p \<and> rep h1 s (rb_right h1 s) sr \<and> only S h h1"
    using t c d [unfolded apart_simps] S by (clarsimp simp: h1_def rb_set_parent_color_def)
  then have g: "parent_color h1 p = up cx OR cbit cp" "repc h1 cx p" "rep h1 p (rb_left h1 p) t"
    "rep h1 p (rb_right h1 p) (Br Black bl b br)" "rb_left h1 s = p" "rep h1 s (rb_right h1 s) sr" by blast+
  have 2: "rep (rb_rotate_set_parents p s RB_RED h1) (up cx) s (Br cp (Br Red t p (Br Black bl b br)) s sr) \<and>
      repc (rb_rotate_set_parents p s RB_RED h1) cx s"
    by (rule rotate_rep(1) [OF f(1,2) g(1,2) g(3,4) f(3,4) _ g(5,6), where e = Red, unfolded cbit.simps]) (use d in auto)
  have 3: "only S h (rb_rotate_set_parents p s RB_RED h1)" "rb_left (rb_rotate_set_parents p s RB_RED h1) p = q"
    using 1 rotate_only [of h1 p cx cp S s h RB_RED] rotate_sel(3) [of h1 p cx cp s p RB_RED] f u S d up_notin [of "[p, s]" cx] by auto
  have "erase_sibling_left p s h = Ret (b, rb_rotate_set_parents p s RB_RED h1)"
    using f by (simp add: erase_sibling_left_def h1_def Let_def)
  then show ?thesis using 2 3 by auto
qed

text \<open>Case 2: the sibling turns red, and so the tree below the parent has lost one black node, or the parent makes up for it.\<close>

lemma erase_case2_left_rep:
  assumes t: "rep h p q t" and c: "repc h (InL cp p (Br cs sl s sr) cx) q"
    and d: "distinct ((nodes t @ p # nodes sl @ s # nodes sr) @ cnodes cx)" and S: "{p, s} \<subseteq> S"
  shows "let r = erase_case2 p s h in fst r = (if cp = Red then 0 else up cx) \<and>
    rep (snd r) (up cx) p (Br Black t p (Br Red sl s sr)) \<and> repc (snd r) cx p \<and> only S h (snd r)"
proof -
  have a: "al (up cx)" using c repc_al by auto
  show ?thesis using t c a d [unfolded apart_simps] S
    by (cases cp; clarsimp simp: erase_case2_def Let_def rb_set_parent_color_def rb_is_red_def rb_set_black_def rb_parent_def)
qed

text \<open>The same with the short side on the right.\<close>

lemma erase_rotate_right_rep:
  assumes p: "rep h p (rb_right h p) t" "p \<noteq> 0" "al p" "parent_color h p = up cx OR cbit cp" "repc h cx p"
    and s: "s \<noteq> 0" "al s" "rep h s (rb_right h s) l" "rb_left h s = x"
    and x: "x \<noteq> 0" "al x" "rep h x (rb_right h x) xl" "rep h x (rb_left h x) xr"
    and d: "distinct ((nodes xr @ x # nodes xl @ s # nodes l @ p # nodes t) @ cnodes cx)"
  shows "let h' = erase_rotate_right p s x h in rep h' (up cx) s (Br cp (Br Black xr x xl) s (Br Black l p t)) \<and> repc h' cx s"
proof -
  define h1 where "h1 = (let tmp2 = rb_right h s;
          h = set_left p tmp2 h;
          h = (if tmp2 \<noteq> 0 then rb_set_parent tmp2 p h else h);
          h = set_right s p h
      in rb_set_parent_color x s RB_BLACK h)"
  have 1: "parent_color h1 p = up cx OR cbit cp \<and> repc h1 cx p \<and> rep h1 p (rb_right h1 p) t \<and> rep h1 p (rb_left h1 p) l \<and>
    rb_right h1 s = p \<and> rep h1 s (rb_left h1 s) (Br Black xr x xl)"
    using p s x d [unfolded apart_simps]
    by (cases l; clarsimp simp: h1_def Let_def rb_set_parent_alt rb_color_def rb_set_parent_color_def)
  then have g: "parent_color h1 p = up cx OR cbit cp" "repc h1 cx p" "rep h1 p (rb_right h1 p) t"
    "rep h1 p (rb_left h1 p) l" "rb_right h1 s = p" "rep h1 s (rb_left h1 s) (Br Black xr x xl)" by blast+
  have "rep (rb_rotate_set_parents p s RB_BLACK h1) (up cx) s (Br cp (Br Black xr x xl) s (Br Black l p t)) \<and> repc (rb_rotate_set_parents p s RB_BLACK h1) cx s"
    by (rule rotate_rep(2) [OF p(2,3) g(1,2) g(4,3) s(1,2) _ g(5,6), where e = Black, unfolded cbit.simps]) (use d in auto)
  then show ?thesis unfolding erase_rotate_right_def h1_def Let_def .
qed

lemma erase_rotate_right_only:
  assumes "parent_color h p = up cx OR cbit cp" "al (up cx)" "up cx = 0 \<or> up cx \<in> S" "{p, s, x} \<subseteq> S"
    and "rb_right h s = 0 \<or> rb_right h s \<in> S" "p \<notin> {s, x, rb_right h s}"
  shows "only S h (erase_rotate_right p s x h)"
  using assms unfolding erase_rotate_right_def Let_def
  by (subst rotate_only [where cx = cx and c = cp])
    (auto simp: rb_set_parent_alt rb_color_def rb_set_parent_color_def)

text \<open>Case 3: the inner nephew \<^verbatim>\<open>y\<close> is red and is rotated above the sibling, whose new parent word comes later.\<close>

lemma erase_case3_right_rep:
  assumes p: "rep h p (rb_right h p) t" "p \<noteq> 0" "al p" "repc h cx p"
    and s: "s \<noteq> 0" "rb_right h s = y" "rep h s (rb_left h s) sr"
    and y: "y \<noteq> 0" "rep h y (rb_right h y) a" "rep h y (rb_left h y) b"
    and d: "distinct ((nodes sr @ s # nodes b @ y # nodes a @ p # nodes t) @ cnodes cx)" and S: "{p, s, y} \<union> set (nodes b) \<subseteq> S"
  shows "let h' = erase_case3_right p s y h in
    rep h' p (rb_right h' p) t \<and> parent_color h' p = parent_color h p \<and> repc h' cx p \<and> rep h' y (rb_right h' y) a \<and> rb_left h' y = s \<and>
    rep h' s (rb_right h' s) (paint Black b) \<and> rep h' s (rb_left h' s) sr \<and> only S h h'"
  using p s y d [unfolded apart_simps] S
  by (cases b; clarsimp simp: erase_case3_right_def Let_def set_parent_color_if_def rb_set_parent_color_def)

text \<open>Case 1: the sibling is red and is rotated above the parent.\<close>

lemma erase_sibling_right_rep:
  assumes t: "rep h p q t" and c: "repc h (InR cp (Br Red sr s (Br c br b bl)) p cx) q"
    and d: "distinct ((nodes sr @ s # nodes br @ b # nodes bl @ p # nodes t) @ cnodes cx)" and S: "{p, s, b} \<union> set (cnodes cx) \<subseteq> S"
  shows "\<exists>h'. erase_sibling_right p s h = Ret (b, h') \<and> rep h' p q t \<and> repc h' (InR Red (Br Black br b bl) p (InR cp sr s cx)) q \<and> only S h h'"
proof -
  define h1 where "h1 = set_right s p (rb_set_parent_color b p RB_BLACK (set_left p b h))"
  have f: "p \<noteq> 0" "al p" "s \<noteq> 0" "al s" "b \<noteq> 0" "rb_right h s = b" "rb_is_red s h" "al (up cx)"
    using c repc_al by (auto simp: rb_is_red_def)
  have u: "up cx = 0 \<or> up cx \<in> S" using up_in [of cx] S by auto
  have 1: "parent_color h1 p = up cx OR cbit cp \<and> repc h1 cx p \<and> rep h1 p (rb_right h1 p) t \<and> rb_right h1 p = q \<and>
    rep h1 p (rb_left h1 p) (Br Black br b bl) \<and> rb_right h1 s = p \<and> rep h1 s (rb_left h1 s) sr \<and> only S h h1"
    using t c d [unfolded apart_simps] S by (clarsimp simp: h1_def rb_set_parent_color_def)
  then have g: "parent_color h1 p = up cx OR cbit cp" "repc h1 cx p" "rep h1 p (rb_right h1 p) t"
    "rep h1 p (rb_left h1 p) (Br Black br b bl)" "rb_right h1 s = p" "rep h1 s (rb_left h1 s) sr" by blast+
  have 2: "rep (rb_rotate_set_parents p s RB_RED h1) (up cx) s (Br cp sr s (Br Red (Br Black br b bl) p t)) \<and>
      repc (rb_rotate_set_parents p s RB_RED h1) cx s"
    by (rule rotate_rep(2) [OF f(1,2) g(1,2) g(4,3) f(3,4) _ g(5,6), where e = Red, unfolded cbit.simps]) (use d in auto)
  have 3: "only S h (rb_rotate_set_parents p s RB_RED h1)" "rb_right (rb_rotate_set_parents p s RB_RED h1) p = q"
    using 1 rotate_only [of h1 p cx cp S s h RB_RED] rotate_sel(4) [of h1 p cx cp s p RB_RED] f u S d up_notin [of "[p, s]" cx] by auto
  have "erase_sibling_right p s h = Ret (b, rb_rotate_set_parents p s RB_RED h1)"
    using f by (simp add: erase_sibling_right_def h1_def Let_def)
  then show ?thesis using 2 3 by auto
qed

text \<open>Case 2: the sibling turns red, and so the tree below the parent has lost one black node, or the parent makes up for it.\<close>

lemma erase_case2_right_rep:
  assumes t: "rep h p q t" and c: "repc h (InR cp (Br cs sr s sl) p cx) q"
    and d: "distinct ((nodes sr @ s # nodes sl @ p # nodes t) @ cnodes cx)" and S: "{p, s} \<subseteq> S"
  shows "let r = erase_case2 p s h in fst r = (if cp = Red then 0 else up cx) \<and>
    rep (snd r) (up cx) p (Br Black (Br Red sr s sl) p t) \<and> repc (snd r) cx p \<and> only S h (snd r)"
proof -
  have a: "al (up cx)" using c repc_al by auto
  show ?thesis using t c a d [unfolded apart_simps] S
    by (cases cp; clarsimp simp: erase_case2_def Let_def rb_set_parent_color_def rb_is_red_def rb_set_black_def rb_parent_def)
qed

end
