(* ===== verification/Rbtree_Delete.thy ===== *)
theory Rbtree_Delete
  imports Rbtree_Erase
begin

text \<open>
  The loop of \<^verbatim>\<open>__rb_erase_fix\<close> as a function on trees, the unlinking of a node by \<^verbatim>\<open>__rb_erase\<close>, and
  the correctness of \<^verbatim>\<open>_rb_erase\<close>.
\<close>

section \<open>The loop as a function\<close>

text \<open>Cases 3 and 4 on the left: \<^verbatim>\<open>t\<close> is the short side, \<^verbatim>\<open>s\<close> the black sibling with a red child.\<close>

definition grow_left :: "rbt \<Rightarrow> color \<Rightarrow> u64 \<Rightarrow> rbt \<Rightarrow> u64 \<Rightarrow> rbt \<Rightarrow> rbt" where
  "grow_left t cp p sl s sr =
     (if is_red sr then Br cp (Br Black t p sl) s (paint Black sr)
      else case sl of Tip \<Rightarrow> Tip | Br c a y b \<Rightarrow> Br cp (Br Black t p a) y (Br Black (paint Black b) s sr))"

definition grow_right :: "rbt \<Rightarrow> color \<Rightarrow> u64 \<Rightarrow> rbt \<Rightarrow> u64 \<Rightarrow> rbt \<Rightarrow> rbt" where
  "grow_right t cp p sl s sr =
     (if is_red sl then Br cp (paint Black sl) s (Br Black sr p t)
      else case sr of Tip \<Rightarrow> Tip | Br c b y a \<Rightarrow> Br cp (Br Black sl s (paint Black b)) y (Br Black a p t))"

fun del_fix :: "rbt \<Rightarrow> ctx \<Rightarrow> rbt" where
  "del_fix t Top = t"
| "del_fix t (InL cp p (Br Black sl s sr) cx) =
     (if is_red sl \<or> is_red sr then zip_up cx (grow_left t cp p sl s sr)
      else if cp = Red then zip_up cx (Br Black t p (Br Red sl s sr))
      else del_fix (Br Black t p (Br Red sl s sr)) cx)"
| "del_fix t (InR cp (Br Black sl s sr) p cx) =
     (if is_red sl \<or> is_red sr then zip_up cx (grow_right t cp p sl s sr)
      else if cp = Red then zip_up cx (Br Black (Br Red sl s sr) p t)
      else del_fix (Br Black (Br Red sl s sr) p t) cx)"
| "del_fix t (InL cp p (Br Red (Br c bl b br) s sr) cx) =
     zip_up (InL cp s sr cx)
       (if is_red bl \<or> is_red br then grow_left t Red p bl b br else Br Black t p (Br Red bl b br))"
| "del_fix t (InR cp (Br Red sl s (Br c bl b br)) p cx) =
     zip_up (InR cp sl s cx)
       (if is_red bl \<or> is_red br then grow_right t Red p bl b br else Br Black (Br Red bl b br) p t)"
| "del_fix t cx = Tip"

text \<open>
  The surroundings of a place whose subtree \<^verbatim>\<open>t\<close> has lost a black node: the sibling exists, and so do the
  children of a red sibling.
\<close>

definition short :: "rbt \<Rightarrow> ctx \<Rightarrow> bool" where
  "short t cx \<longleftrightarrow> inv_h t \<and> inv_c t \<and> \<not> is_red t \<and> cinv_h (Suc (bh t)) cx \<and> cinv_c cx \<and> top_black cx"

lemma bh_Tip: "bh t = Suc k \<Longrightarrow> t \<noteq> Tip" by auto

lemma short_sibling_left:
  assumes "short t (InL cp p s cx)"
  obtains (black) sl a sr where "s = Br Black sl a sr"
  | (red) c bl b br a sr where "s = Br Red (Br c bl b br) a sr" "c = Black" "cp = Black"
  using assms unfolding short_def by (cases s; cases "case s of Tip \<Rightarrow> Tip | Br c l a r \<Rightarrow> l") (auto split: if_splits)

lemma short_sibling_right:
  assumes "short t (InR cp s p cx)"
  obtains (black) sl a sr where "s = Br Black sl a sr"
  | (red) c bl b br a sl where "s = Br Red sl a (Br c bl b br)" "c = Black" "cp = Black"
  using assms unfolding short_def by (cases s; cases "case s of Tip \<Rightarrow> Tip | Br c l a r \<Rightarrow> r") (auto split: if_splits)

section \<open>A turn of the loop on the heap\<close>

text \<open>The body of the loop once the sibling is black.\<close>

definition erase_tail_left :: "u64 \<Rightarrow> u64 \<Rightarrow> rb_heap \<Rightarrow> rb_heap outcome option" where
  "erase_tail_left parent sibling h =
     (let tmp1 = rb_right h sibling; tmp2 = rb_left h sibling in
      if black_or_null tmp1 h then
        (if black_or_null tmp2 h then
           (let c = erase_case2 parent sibling h in
            if fst c \<noteq> 0 then erase_fix_loop parent (fst c) (snd c) else Some (Ret (snd c)))
         else Some (Ret (erase_rotate_left parent tmp2 sibling (erase_case3_left parent sibling tmp2 h))))
      else Some (Ret (erase_rotate_left parent sibling tmp1 h)))"

lemma erase_tail_left_case2:
  assumes t: "rep h p q t" and c: "repc h (InL cp p (Br cs sl s sr) cx) q" and d: "distinct ((nodes t @ p # nodes sl @ s # nodes sr) @ cnodes cx)"
    and S: "{p, s} \<subseteq> S" and n: "\<not> is_red sl" "\<not> is_red sr"
  shows "\<exists>h'. erase_tail_left p s h = (if cp = Red \<or> cx = Top then Some (Ret h') else erase_fix_loop p (up cx) h') \<and>
    rep h' (up cx) p (Br Black t p (Br Red sl s sr)) \<and> repc h' cx p \<and> only S h h'"
proof -
  have "black_or_null (rb_right h s) h" "black_or_null (rb_left h s) h"
    using c n rep_is_red by (auto simp: black_or_null_def rb_is_red_def rb_is_black_def)
  moreover have "up cx = 0 \<longleftrightarrow> cx = Top" using c by (cases cx) auto
  ultimately show ?thesis using erase_case2_left_rep [OF t c d S] by (auto simp: erase_tail_left_def Let_def)
qed

lemma erase_tail_left_case4:
  assumes t: "rep h p q t" and c: "repc h (InL cp p (Br cs sl s sr) cx) q" and d: "distinct ((nodes t @ p # nodes sl @ s # nodes sr) @ cnodes cx)"
    and S: "set ((nodes t @ p # nodes sl @ s # nodes sr) @ cnodes cx) \<subseteq> S" and n: "is_red sr"
  shows "\<exists>h'. erase_tail_left p s h = Some (Ret h') \<and> rotated cx (grow_left t cp p sl s sr) S h h'"
proof -
  from n obtain xl x xr where x: "sr = Br Red xl x xr" by (rule is_redE)
  have f: "p \<noteq> 0" "al p" "s \<noteq> 0" "al s" "rb_left h p = q" "rb_right h s = x" "parent_color h p = up cx OR cbit cp" "repc h cx p"
    "rep h s (rb_left h s) sl" "x \<noteq> 0" "al x" "rep h x (rb_left h x) xl" "rep h x (rb_right h x) xr" "al (up cx)" "up cx = 0 \<or> up cx \<in> S"
    using c x S up_in [of cx] repc_al by auto
  have sl: "rb_left h s = 0 \<or> rb_left h s \<in> set (nodes sl)" using f(9) by (cases sl) auto
  have "\<not> black_or_null x h" using c x n rep_is_red by (auto simp: black_or_null_def rb_is_black_def)
  then have eq: "erase_tail_left p s h = Some (Ret (erase_rotate_left p s x h))" using f by (simp add: erase_tail_left_def Let_def)
  have "let h' = erase_rotate_left p s x h in rep h' (up cx) s (Br cp (Br Black t p sl) s (Br Black xl x xr)) \<and> repc h' cx s"
    by (rule erase_rotate_left_rep) (use t f d x in auto)
  moreover have "only S h (erase_rotate_left p s x h)"
    by (rule erase_rotate_left_only [OF f(7,14,15)]) (use S d x sl f in auto)
  ultimately have "rotated cx (Br cp (Br Black t p sl) s (Br Black xl x xr)) S h (erase_rotate_left p s x h)" unfolding Let_def by (blast intro: rotatedI)
  then show ?thesis unfolding eq x grow_left_def by simp
qed

lemma erase_tail_left_case3:
  assumes t: "rep h p q t" and c: "repc h (InL cp p (Br cs sl s sr) cx) q" and d: "distinct ((nodes t @ p # nodes sl @ s # nodes sr) @ cnodes cx)"
    and S: "set ((nodes t @ p # nodes sl @ s # nodes sr) @ cnodes cx) \<subseteq> S" and n: "\<not> is_red sr" "is_red sl"
  shows "\<exists>h'. erase_tail_left p s h = Some (Ret h') \<and> rotated cx (grow_left t cp p sl s sr) S h h'"
proof -
  from n(2) obtain a y b where y: "sl = Br Red a y b" by (rule is_redE)
  define h1 where "h1 = erase_case3_left p s y h"
  have f: "p \<noteq> 0" "al p" "s \<noteq> 0" "al s" "rb_left h p = q" "rb_left h s = y" "parent_color h p = up cx OR cbit cp" "repc h cx p"
    "rep h s (rb_right h s) sr" "y \<noteq> 0" "al y" "rep h y (rb_left h y) a" "rep h y (rb_right h y) b" "al (up cx)" "up cx = 0 \<or> up cx \<in> S"
    using c y S up_in [of cx] repc_al by auto
  have "\<not> black_or_null y h" "black_or_null (rb_right h s) h"
    using c y n rep_is_red by (auto simp: black_or_null_def rb_is_black_def rb_is_red_def)
  then have eq: "erase_tail_left p s h = Some (Ret (erase_rotate_left p y s h1))" using f by (simp add: erase_tail_left_def Let_def h1_def)
  have t': "rep h p (rb_left h p) t" using t f by simp
  have 1: "rep h1 p (rb_left h1 p) t" "parent_color h1 p = up cx OR cbit cp" "repc h1 cx p" "rep h1 y (rb_left h1 y) a" "rb_right h1 y = s"
    "rep h1 s (rb_left h1 s) (paint Black b)" "rep h1 s (rb_right h1 s) sr" "only S h h1"
    using erase_case3_left_rep [OF t' f(1,2,8,3,6,9,10,12,13), of S] f(7) d S y unfolding h1_def Let_def by auto
  have a: "rb_left h1 y = 0 \<or> rb_left h1 y \<in> set (nodes a)" using 1(4) by (cases a) auto
  have "let h' = erase_rotate_left p y s h1 in rep h' (up cx) y (Br cp (Br Black t p a) y (Br Black (paint Black b) s sr)) \<and> repc h' cx y"
    by (rule erase_rotate_left_rep [OF 1(1) f(1,2) 1(2,3) f(10,11) 1(4,5) f(3,4) 1(6,7)]) (use d y in auto)
  moreover have "only S h (erase_rotate_left p y s h1)"
    by (rule only_trans [OF 1(8) erase_rotate_left_only [OF 1(2) f(14,15)]]) (use S d y a f in auto)
  ultimately have "rotated cx (Br cp (Br Black t p a) y (Br Black (paint Black b) s sr)) S h (erase_rotate_left p y s h1)" unfolding Let_def by (blast intro: rotatedI)
  then show ?thesis using n(1) unfolding eq y grow_left_def by simp
qed

text \<open>One turn of the loop.\<close>

lemma erase_loop_left:
  assumes t: "rep h p q t" and c: "repc h (InL cp p (Br cs sl s sr) cx) q" and d: "distinct ((nodes t @ p # nodes sl @ s # nodes sr) @ cnodes cx)"
  shows "cs = Black \<Longrightarrow> erase_fix_loop q p h = erase_tail_left p s h"
    and "cs = Red \<Longrightarrow> erase_fix_loop q p h = (case erase_sibling_left p s h of Ret r \<Rightarrow> erase_tail_left p (fst r) (snd r) | _ \<Rightarrow> Some Undef)"
proof -
  have f: "s \<noteq> 0" "rb_right h p = s" "rb_left h p = q" "al p" using c by auto
  have ne: "q \<noteq> s" using t d f(1) by (cases t) auto
  have r: "rb_is_red s h \<longleftrightarrow> cs = Red" using c by (cases cs) (auto simp: rb_is_red_def)
  show "erase_fix_loop q p h = erase_tail_left p s h" if "cs = Black"
    using r that f ne by (subst erase_fix_loop.simps) (simp add: Let_def erase_tail_left_def erase_sibling_left_def)
  show "erase_fix_loop q p h = (case erase_sibling_left p s h of Ret r \<Rightarrow> erase_tail_left p (fst r) (snd r) | _ \<Rightarrow> Some Undef)"
    if "cs = Red"
    using f ne by (subst erase_fix_loop.simps) (cases "erase_sibling_left p s h"; simp add: Let_def erase_tail_left_def)
qed

text \<open>The body of the loop once the sibling is black.\<close>

definition erase_tail_right :: "u64 \<Rightarrow> u64 \<Rightarrow> rb_heap \<Rightarrow> rb_heap outcome option" where
  "erase_tail_right parent sibling h =
     (let tmp1 = rb_left h sibling; tmp2 = rb_right h sibling in
      if black_or_null tmp1 h then
        (if black_or_null tmp2 h then
           (let c = erase_case2 parent sibling h in
            if fst c \<noteq> 0 then erase_fix_loop parent (fst c) (snd c) else Some (Ret (snd c)))
         else Some (Ret (erase_rotate_right parent tmp2 sibling (erase_case3_right parent sibling tmp2 h))))
      else Some (Ret (erase_rotate_right parent sibling tmp1 h)))"

lemma erase_tail_right_case2:
  assumes t: "rep h p q t" and c: "repc h (InR cp (Br cs sr s sl) p cx) q" and d: "distinct ((nodes sr @ s # nodes sl @ p # nodes t) @ cnodes cx)"
    and S: "{p, s} \<subseteq> S" and n: "\<not> is_red sl" "\<not> is_red sr"
  shows "\<exists>h'. erase_tail_right p s h = (if cp = Red \<or> cx = Top then Some (Ret h') else erase_fix_loop p (up cx) h') \<and>
    rep h' (up cx) p (Br Black (Br Red sr s sl) p t) \<and> repc h' cx p \<and> only S h h'"
proof -
  have "black_or_null (rb_left h s) h" "black_or_null (rb_right h s) h"
    using c n rep_is_red by (auto simp: black_or_null_def rb_is_red_def rb_is_black_def)
  moreover have "up cx = 0 \<longleftrightarrow> cx = Top" using c by (cases cx) auto
  ultimately show ?thesis using erase_case2_right_rep [OF t c d S] by (auto simp: erase_tail_right_def Let_def)
qed

lemma erase_tail_right_case4:
  assumes t: "rep h p q t" and c: "repc h (InR cp (Br cs sr s sl) p cx) q" and d: "distinct ((nodes sr @ s # nodes sl @ p # nodes t) @ cnodes cx)"
    and S: "set ((nodes sr @ s # nodes sl @ p # nodes t) @ cnodes cx) \<subseteq> S" and n: "is_red sr"
  shows "\<exists>h'. erase_tail_right p s h = Some (Ret h') \<and> rotated cx (grow_right t cp p sr s sl) S h h'"
proof -
  from n obtain xl x xr where x: "sr = Br Red xr x xl" by (rule is_redE)
  have f: "p \<noteq> 0" "al p" "s \<noteq> 0" "al s" "rb_right h p = q" "rb_left h s = x" "parent_color h p = up cx OR cbit cp" "repc h cx p"
    "rep h s (rb_right h s) sl" "x \<noteq> 0" "al x" "rep h x (rb_right h x) xl" "rep h x (rb_left h x) xr" "al (up cx)" "up cx = 0 \<or> up cx \<in> S"
    using c x S up_in [of cx] repc_al by auto
  have sl: "rb_right h s = 0 \<or> rb_right h s \<in> set (nodes sl)" using f(9) by (cases sl) auto
  have "\<not> black_or_null x h" using c x n rep_is_red by (auto simp: black_or_null_def rb_is_black_def)
  then have eq: "erase_tail_right p s h = Some (Ret (erase_rotate_right p s x h))" using f by (simp add: erase_tail_right_def Let_def)
  have "let h' = erase_rotate_right p s x h in rep h' (up cx) s (Br cp (Br Black xr x xl) s (Br Black sl p t)) \<and> repc h' cx s"
    by (rule erase_rotate_right_rep) (use t f d x in auto)
  moreover have "only S h (erase_rotate_right p s x h)"
    by (rule erase_rotate_right_only [OF f(7,14,15)]) (use S d x sl f in auto)
  ultimately have "rotated cx (Br cp (Br Black xr x xl) s (Br Black sl p t)) S h (erase_rotate_right p s x h)" unfolding Let_def by (blast intro: rotatedI)
  then show ?thesis unfolding eq x grow_right_def by simp
qed

lemma erase_tail_right_case3:
  assumes t: "rep h p q t" and c: "repc h (InR cp (Br cs sr s sl) p cx) q" and d: "distinct ((nodes sr @ s # nodes sl @ p # nodes t) @ cnodes cx)"
    and S: "set ((nodes sr @ s # nodes sl @ p # nodes t) @ cnodes cx) \<subseteq> S" and n: "\<not> is_red sr" "is_red sl"
  shows "\<exists>h'. erase_tail_right p s h = Some (Ret h') \<and> rotated cx (grow_right t cp p sr s sl) S h h'"
proof -
  from n(2) obtain a y b where y: "sl = Br Red b y a" by (rule is_redE)
  define h1 where "h1 = erase_case3_right p s y h"
  have f: "p \<noteq> 0" "al p" "s \<noteq> 0" "al s" "rb_right h p = q" "rb_right h s = y" "parent_color h p = up cx OR cbit cp" "repc h cx p"
    "rep h s (rb_left h s) sr" "y \<noteq> 0" "al y" "rep h y (rb_right h y) a" "rep h y (rb_left h y) b" "al (up cx)" "up cx = 0 \<or> up cx \<in> S"
    using c y S up_in [of cx] repc_al by auto
  have "\<not> black_or_null y h" "black_or_null (rb_left h s) h"
    using c y n rep_is_red by (auto simp: black_or_null_def rb_is_black_def rb_is_red_def)
  then have eq: "erase_tail_right p s h = Some (Ret (erase_rotate_right p y s h1))" using f by (simp add: erase_tail_right_def Let_def h1_def)
  have t': "rep h p (rb_right h p) t" using t f by simp
  have 1: "rep h1 p (rb_right h1 p) t" "parent_color h1 p = up cx OR cbit cp" "repc h1 cx p" "rep h1 y (rb_right h1 y) a" "rb_left h1 y = s"
    "rep h1 s (rb_right h1 s) (paint Black b)" "rep h1 s (rb_left h1 s) sr" "only S h h1"
    using erase_case3_right_rep [OF t' f(1,2,8,3,6,9,10,12,13), of S] f(7) d S y unfolding h1_def Let_def by auto
  have a: "rb_right h1 y = 0 \<or> rb_right h1 y \<in> set (nodes a)" using 1(4) by (cases a) auto
  have "let h' = erase_rotate_right p y s h1 in rep h' (up cx) y (Br cp (Br Black sr s (paint Black b)) y (Br Black a p t)) \<and> repc h' cx y"
    by (rule erase_rotate_right_rep [OF 1(1) f(1,2) 1(2,3) f(10,11) 1(4,5) f(3,4) 1(6,7)]) (use d y in auto)
  moreover have "only S h (erase_rotate_right p y s h1)"
    by (rule only_trans [OF 1(8) erase_rotate_right_only [OF 1(2) f(14,15)]]) (use S d y a f in auto)
  ultimately have "rotated cx (Br cp (Br Black sr s (paint Black b)) y (Br Black a p t)) S h (erase_rotate_right p y s h1)" unfolding Let_def by (blast intro: rotatedI)
  then show ?thesis using n(1) unfolding eq y grow_right_def by simp
qed

text \<open>One turn of the loop.\<close>

lemma erase_loop_right:
  assumes t: "rep h p q t" and c: "repc h (InR cp (Br cs sr s sl) p cx) q" and d: "distinct ((nodes sr @ s # nodes sl @ p # nodes t) @ cnodes cx)"
  shows "cs = Black \<Longrightarrow> erase_fix_loop q p h = erase_tail_right p s h"
    and "cs = Red \<Longrightarrow> erase_fix_loop q p h = (case erase_sibling_right p s h of Ret r \<Rightarrow> erase_tail_right p (fst r) (snd r) | _ \<Rightarrow> Some Undef)"
proof -
  have f: "s \<noteq> 0" "rb_left h p = s" "rb_right h p = q" "al p" using c by auto
  have ne: "q \<noteq> s" using t d f(1) by (cases t) auto
  have r: "rb_is_red s h \<longleftrightarrow> cs = Red" using c by (cases cs) (auto simp: rb_is_red_def)
  show "erase_fix_loop q p h = erase_tail_right p s h" if "cs = Black"
    using r that f ne by (subst erase_fix_loop.simps) (simp add: Let_def erase_tail_right_def erase_sibling_right_def)
  show "erase_fix_loop q p h = (case erase_sibling_right p s h of Ret r \<Rightarrow> erase_tail_right p (fst r) (snd r) | _ \<Rightarrow> Some Undef)"
    if "cs = Red"
    using f ne by (subst erase_fix_loop.simps) (cases "erase_sibling_right p s h"; simp add: Let_def erase_tail_right_def)
qed

section \<open>The loop computes the function\<close>

text \<open>A turn of the loop is the last one, or moves the short place one level up.\<close>

definition erase_done :: "rbt \<Rightarrow> ctx \<Rightarrow> u64 set \<Rightarrow> u64 \<Rightarrow> rb_heap \<Rightarrow> bool" where
  "erase_done t cx S q h \<longleftrightarrow>
     (\<exists>h'. erase_fix_loop q (up cx) h = Some (Ret h') \<and> rep h' 0 (rb_root h') (del_fix t cx) \<and> only S h h')"

definition erase_on :: "rbt \<Rightarrow> ctx \<Rightarrow> u64 set \<Rightarrow> u64 \<Rightarrow> rb_heap \<Rightarrow> bool" where
  "erase_on t cx S q h \<longleftrightarrow>
     (\<exists>h' t' p cx'. erase_fix_loop q (up cx) h = erase_fix_loop p (up cx') h' \<and> del_fix t cx = del_fix t' cx' \<and>
       short t' cx' \<and> cx' \<noteq> Top \<and> rep h' (up cx') p t' \<and> repc h' cx' p \<and> distinct (nodes t' @ cnodes cx') \<and>
       set (nodes t' @ cnodes cx') \<subseteq> S \<and> only S h h' \<and> (\<exists>c a s. cx = InL c a s cx' \<or> cx = InR c s a cx'))"

lemma erase_turn_left_black:
  assumes sh: "short t (InL cp p (Br Black sl a sr) cx)" and t: "rep h p q t" and c: "repc h (InL cp p (Br Black sl a sr) cx) q"
    and d: "distinct (nodes t @ cnodes (InL cp p (Br Black sl a sr) cx))" and S: "set (nodes t @ cnodes (InL cp p (Br Black sl a sr) cx)) \<subseteq> S"
  shows "erase_done t (InL cp p (Br Black sl a sr) cx) S q h \<or> erase_on t (InL cp p (Br Black sl a sr) cx) S q h"
proof -
  have d': "distinct ((nodes t @ p # nodes sl @ a # nodes sr) @ cnodes cx)" and S': "set ((nodes t @ p # nodes sl @ a # nodes sr) @ cnodes cx) \<subseteq> S" "{p, a} \<subseteq> S"
    using d S by auto
  note eq = erase_loop_left(1) [OF t c d' refl]
  show ?thesis
  proof (cases "is_red sl \<or> is_red sr")
    case True
    then show ?thesis using eq erase_tail_left_case4 [OF t c d' S'(1)] erase_tail_left_case3 [OF t c d' S'(1)]
      by (cases "is_red sr") (auto simp: erase_done_def rotated_def)
  next
    case False
    then obtain h' where h': "erase_tail_left p a h = (if cp = Red \<or> cx = Top then Some (Ret h') else erase_fix_loop p (up cx) h')"
      "rep h' (up cx) p (Br Black t p (Br Red sl a sr))" "repc h' cx p" "only S h h'"
      using erase_tail_left_case2 [OF t c d' S'(2)] by blast
    have z: "rep h' 0 (rb_root h') (zip_up cx (Br Black t p (Br Red sl a sr)))" using h'(2,3) rep_zip by blast
    show ?thesis
    proof (cases "cp = Red \<or> cx = Top")
      case True
      then have "del_fix t (InL cp p (Br Black sl a sr) cx) = zip_up cx (Br Black t p (Br Red sl a sr))" using False by auto
      then show ?thesis using eq h'(1,4) z True by (auto simp: erase_done_def)
    next
      case go: False
      have "short (Br Black t p (Br Red sl a sr)) cx" using sh False go unfolding short_def by (auto dest: top_black_up)
      then have "erase_on t (InL cp p (Br Black sl a sr) cx) S q h" unfolding erase_on_def
        using eq h' d' S'(1) go False by (intro exI [of _ h'] exI [of _ "Br Black t p (Br Red sl a sr)"] exI [of _ p] exI [of _ cx]) auto
      then show ?thesis ..
    qed
  qed
qed

lemma erase_turn_left_red:
  assumes t: "rep h p q t" and c: "repc h (InL cp p (Br Red (Br c bl b br) a sr) cx) q"
    and d: "distinct (nodes t @ cnodes (InL cp p (Br Red (Br c bl b br) a sr) cx))" and S: "set (nodes t @ cnodes (InL cp p (Br Red (Br c bl b br) a sr) cx)) \<subseteq> S"
  shows "erase_done t (InL cp p (Br Red (Br c bl b br) a sr) cx) S q h"
proof -
  have d': "distinct ((nodes t @ p # nodes bl @ b # nodes br @ a # nodes sr) @ cnodes cx)" and S': "{p, a, b} \<union> set (cnodes cx) \<subseteq> S" "set ((nodes t @ p # nodes bl @ b # nodes br @ a # nodes sr) @ cnodes cx) \<subseteq> S"
    using d S by auto
  obtain h1 where h1: "erase_sibling_left p a h = Ret (b, h1)" "rep h1 p q t"
    "repc h1 (InL Red p (Br Black bl b br) (InL cp a sr cx)) q" "only S h h1"
    using erase_sibling_left_rep [OF t c d' S'(1)] by blast
  have eq: "erase_fix_loop q p h = erase_tail_left p b h1"
    using erase_loop_left(2) [OF t c] d' h1(1) by auto
  have d2: "distinct ((nodes t @ p # nodes bl @ b # nodes br) @ cnodes (InL cp a sr cx))" and S2: "set ((nodes t @ p # nodes bl @ b # nodes br) @ cnodes (InL cp a sr cx)) \<subseteq> S" "{p, b} \<subseteq> S"
    using d' S'(2) by auto
  have "\<exists>h'. erase_tail_left p b h1 = Some (Ret h') \<and> rotated (InL cp a sr cx)
      (if is_red bl \<or> is_red br then grow_left t Red p bl b br else Br Black t p (Br Red bl b br)) S h1 h'"
  proof (cases "is_red bl \<or> is_red br")
    case True
    then show ?thesis using erase_tail_left_case4 [OF h1(2,3) d2 S2(1)] erase_tail_left_case3 [OF h1(2,3) d2 S2(1)]
      by (cases "is_red br") auto
  next
    case False
    then obtain h' where "erase_tail_left p b h1 = Some (Ret h')" "rep h' (up (InL cp a sr cx)) p (Br Black t p (Br Red bl b br))"
      "repc h' (InL cp a sr cx) p" "only S h1 h'"
      using erase_tail_left_case2 [OF h1(2,3) d2 S2(2)] by auto
    then show ?thesis using False by (auto intro!: rotatedI)
  qed
  then show ?thesis unfolding erase_done_def using eq h1(4) by (auto simp: rotated_def intro: only_trans)
qed

lemma erase_turn_right_black:
  assumes sh: "short t (InR cp (Br Black sl a sr) p cx)" and t: "rep h p q t" and c: "repc h (InR cp (Br Black sl a sr) p cx) q"
    and d: "distinct (nodes t @ cnodes (InR cp (Br Black sl a sr) p cx))" and S: "set (nodes t @ cnodes (InR cp (Br Black sl a sr) p cx)) \<subseteq> S"
  shows "erase_done t (InR cp (Br Black sl a sr) p cx) S q h \<or> erase_on t (InR cp (Br Black sl a sr) p cx) S q h"
proof -
  have d': "distinct ((nodes sl @ a # nodes sr @ p # nodes t) @ cnodes cx)" and S': "set ((nodes sl @ a # nodes sr @ p # nodes t) @ cnodes cx) \<subseteq> S" "{p, a} \<subseteq> S"
    using d S by auto
  note eq = erase_loop_right(1) [OF t c d' refl]
  show ?thesis
  proof (cases "is_red sl \<or> is_red sr")
    case True
    then show ?thesis using eq erase_tail_right_case4 [OF t c d' S'(1)] erase_tail_right_case3 [OF t c d' S'(1)]
      by (cases "is_red sl") (auto simp: erase_done_def rotated_def)
  next
    case False
    then obtain h' where h': "erase_tail_right p a h = (if cp = Red \<or> cx = Top then Some (Ret h') else erase_fix_loop p (up cx) h')"
      "rep h' (up cx) p (Br Black (Br Red sl a sr) p t)" "repc h' cx p" "only S h h'"
      using erase_tail_right_case2 [OF t c d' S'(2)] by blast
    have z: "rep h' 0 (rb_root h') (zip_up cx (Br Black (Br Red sl a sr) p t))" using h'(2,3) rep_zip by blast
    show ?thesis
    proof (cases "cp = Red \<or> cx = Top")
      case True
      then have "del_fix t (InR cp (Br Black sl a sr) p cx) = zip_up cx (Br Black (Br Red sl a sr) p t)" using False by auto
      then show ?thesis using eq h'(1,4) z True by (auto simp: erase_done_def)
    next
      case go: False
      have "short (Br Black (Br Red sl a sr) p t) cx" using sh False go unfolding short_def by (auto dest: top_black_up)
      then have "erase_on t (InR cp (Br Black sl a sr) p cx) S q h" unfolding erase_on_def
        using eq h' d' S'(1) go False by (intro exI [of _ h'] exI [of _ "Br Black (Br Red sl a sr) p t"] exI [of _ p] exI [of _ cx]) auto
      then show ?thesis ..
    qed
  qed
qed

lemma erase_turn_right_red:
  assumes t: "rep h p q t" and c: "repc h (InR cp (Br Red sl a (Br c bl b br)) p cx) q"
    and d: "distinct (nodes t @ cnodes (InR cp (Br Red sl a (Br c bl b br)) p cx))" and S: "set (nodes t @ cnodes (InR cp (Br Red sl a (Br c bl b br)) p cx)) \<subseteq> S"
  shows "erase_done t (InR cp (Br Red sl a (Br c bl b br)) p cx) S q h"
proof -
  have d': "distinct ((nodes sl @ a # nodes bl @ b # nodes br @ p # nodes t) @ cnodes cx)" and S': "{p, a, b} \<union> set (cnodes cx) \<subseteq> S" "set ((nodes sl @ a # nodes bl @ b # nodes br @ p # nodes t) @ cnodes cx) \<subseteq> S"
    using d S by auto
  obtain h1 where h1: "erase_sibling_right p a h = Ret (b, h1)" "rep h1 p q t"
    "repc h1 (InR Red (Br Black bl b br) p (InR cp sl a cx)) q" "only S h h1"
    using erase_sibling_right_rep [OF t c d' S'(1)] by blast
  have eq: "erase_fix_loop q p h = erase_tail_right p b h1"
    using erase_loop_right(2) [OF t c] d' h1(1) by auto
  have d2: "distinct ((nodes bl @ b # nodes br @ p # nodes t) @ cnodes (InR cp sl a cx))" and S2: "set ((nodes bl @ b # nodes br @ p # nodes t) @ cnodes (InR cp sl a cx)) \<subseteq> S" "{p, b} \<subseteq> S"
    using d' S'(2) by auto
  have "\<exists>h'. erase_tail_right p b h1 = Some (Ret h') \<and> rotated (InR cp sl a cx)
      (if is_red bl \<or> is_red br then grow_right t Red p bl b br else Br Black (Br Red bl b br) p t) S h1 h'"
  proof (cases "is_red bl \<or> is_red br")
    case True
    then show ?thesis using erase_tail_right_case4 [OF h1(2,3) d2 S2(1)] erase_tail_right_case3 [OF h1(2,3) d2 S2(1)]
      by (cases "is_red bl") auto
  next
    case False
    then obtain h' where "erase_tail_right p b h1 = Some (Ret h')" "rep h' (up (InR cp sl a cx)) p (Br Black (Br Red bl b br) p t)"
      "repc h' (InR cp sl a cx) p" "only S h1 h'"
      using erase_tail_right_case2 [OF h1(2,3) d2 S2(2)] by auto
    then show ?thesis using False by (auto intro!: rotatedI)
  qed
  then show ?thesis unfolding erase_done_def using eq h1(4) by (auto simp: rotated_def intro: only_trans)
qed

theorem erase_fix_loop_rep:
  "short t cx \<Longrightarrow> cx \<noteq> Top \<Longrightarrow> rep h (up cx) q t \<Longrightarrow> repc h cx q \<Longrightarrow> distinct (nodes t @ cnodes cx) \<Longrightarrow>
   set (nodes t @ cnodes cx) \<subseteq> S \<Longrightarrow> erase_done t cx S q h"
proof (induction cx arbitrary: t h q)
  case (InL cp p s cx)
  note pr = InL.prems
  have st: "rep h p q t" using pr(3) by simp
  from pr(1) have "erase_done t (InL cp p s cx) S q h \<or> erase_on t (InL cp p s cx) S q h"
  proof (cases rule: short_sibling_left)
    case black
    then show ?thesis using erase_turn_left_black [OF pr(1) [unfolded black] st pr(4-6) [unfolded black]] by simp
  next
    case red
    then show ?thesis using erase_turn_left_red [OF st pr(4-6) [unfolded red(1)]] by simp
  qed
  then show ?case
  proof
    assume "erase_on t (InL cp p s cx) S q h"
    then obtain h' t' p' where h': "erase_fix_loop q p h = erase_fix_loop p' (up cx) h'" "del_fix t (InL cp p s cx) = del_fix t' cx"
      "short t' cx" "cx \<noteq> Top" "rep h' (up cx) p' t'" "repc h' cx p'" "distinct (nodes t' @ cnodes cx)"
      "set (nodes t' @ cnodes cx) \<subseteq> S" "only S h h'"
      by (auto simp: erase_on_def)
    then obtain h2 where "erase_fix_loop p' (up cx) h' = Some (Ret h2)" "rep h2 0 (rb_root h2) (del_fix t' cx)" "only S h' h2"
      using InL.IH [OF h'(3-8)] by (auto simp: erase_done_def)
    then show ?case unfolding erase_done_def using h'(1,2,9) only_trans by force
  qed
next
  case (InR cp s p cx)
  note pr = InR.prems
  have st: "rep h p q t" using pr(3) by simp
  from pr(1) have "erase_done t (InR cp s p cx) S q h \<or> erase_on t (InR cp s p cx) S q h"
  proof (cases rule: short_sibling_right)
    case black
    then show ?thesis using erase_turn_right_black [OF pr(1) [unfolded black] st pr(4-6) [unfolded black]] by simp
  next
    case red
    then show ?thesis using erase_turn_right_red [OF st pr(4-6) [unfolded red(1)]] by simp
  qed
  then show ?case
  proof
    assume "erase_on t (InR cp s p cx) S q h"
    then obtain h' t' p' where h': "erase_fix_loop q p h = erase_fix_loop p' (up cx) h'" "del_fix t (InR cp s p cx) = del_fix t' cx"
      "short t' cx" "cx \<noteq> Top" "rep h' (up cx) p' t'" "repc h' cx p'" "distinct (nodes t' @ cnodes cx)"
      "set (nodes t' @ cnodes cx) \<subseteq> S" "only S h h'"
      by (auto simp: erase_on_def)
    then obtain h2 where "erase_fix_loop p' (up cx) h' = Some (Ret h2)" "rep h2 0 (rb_root h2) (del_fix t' cx)" "only S h' h2"
      using InR.IH [OF h'(3-8)] by (auto simp: erase_done_def)
    then show ?case unfolding erase_done_def using h'(1,2,9) only_trans by force
  qed
qed simp

end
