(* ===== verification/Rbtree_Unlink.thy ===== *)
theory Rbtree_Unlink
  imports Rbtree_Erase
begin

text \<open>
  Unlinking a node in \<^verbatim>\<open>__rb_erase\<close>. A node with two children is replaced by its successor, the node at
  the end of the left spine of its right subtree.
\<close>

section \<open>Left spines\<close>

type_synonym spine = "(color \<times> u64 \<times> rbt) list"

primrec lzip :: "spine \<Rightarrow> rbt \<Rightarrow> rbt" where
  "lzip [] t = t"
| "lzip (f # ps) t = Br (fst f) (lzip ps t) (fst (snd f)) (snd (snd f))"

primrec fctx :: "spine \<Rightarrow> ctx \<Rightarrow> ctx" where
  "fctx [] cx = cx"
| "fctx (f # ps) cx = fctx ps (InL (fst f) (fst (snd f)) (snd (snd f)) cx)"

primrec fnodes :: "spine \<Rightarrow> u64 list" where
  "fnodes [] = []"
| "fnodes (f # ps) = fnodes ps @ fst (snd f) # nodes (snd (snd f))"

text \<open>The node above the place at the end.\<close>

primrec lpar :: "u64 \<Rightarrow> spine \<Rightarrow> u64" where
  "lpar p [] = p"
| "lpar p (f # ps) = lpar (fst (snd f)) ps"

primrec lpath :: "rb_heap \<Rightarrow> u64 \<Rightarrow> u64 \<Rightarrow> spine \<Rightarrow> u64 \<Rightarrow> bool" where
  "lpath h p q [] x \<longleftrightarrow> q = x"
| "lpath h p q (f # ps) x \<longleftrightarrow> q = fst (snd f) \<and> q \<noteq> 0 \<and> al q \<and> parent_color h q = p OR cbit (fst f) \<and>
     rep h q (rb_right h q) (snd (snd f)) \<and> lpath h q (rb_left h q) ps x"

lemma nodes_lzip [simp]: "nodes (lzip ps t) = nodes t @ fnodes ps" by (induction ps) simp_all

lemma zip_fctx: "zip_up (fctx ps cx) t = zip_up cx (lzip ps t)" by (induction ps arbitrary: cx) simp_all

lemma up_fctx: "up (fctx ps cx) = lpar (up cx) ps" by (induction ps arbitrary: cx) simp_all

lemma cnodes_fctx: "before (fctx ps cx) = before cx" "after (fctx ps cx) = fnodes ps @ after cx"
  by (induction ps arbitrary: cx) simp_all

lemma rep_lzip: "rep h p q (lzip ps t) \<longleftrightarrow> (\<exists>x. lpath h p q ps x \<and> rep h (lpar p ps) x t)"
  by (induction ps arbitrary: p q) auto

lemma lpath_repc: "lpath h (up cx) q ps x \<Longrightarrow> repc h cx q \<Longrightarrow> repc h (fctx ps cx) x"
  by (induction ps arbitrary: cx q) auto

lemma leftmost: "t \<noteq> Tip \<Longrightarrow> \<exists>ps c s r. t = lzip ps (Br c Tip s r)"
proof (induction t)
  case (Br c l a r)
  show ?case
  proof (cases "l = Tip")
    case True then show ?thesis by (metis lzip.simps(1))
  next
    case False
    then obtain ps c' s r' where "l = lzip ps (Br c' Tip s r')" using Br.IH(1) by blast
    then have "Br c l a r = lzip ((c, a, r) # ps) (Br c' Tip s r')" by simp
    then show ?thesis by blast
  qed
qed simp

lemma lpath_set [simp]:
  "y \<notin> set (fnodes ps) \<Longrightarrow> lpath (set_pc y v h) p q ps x = lpath h p q ps x"
  "y \<notin> set (fnodes ps) \<Longrightarrow> lpath (set_left y v h) p q ps x = lpath h p q ps x"
  "y \<notin> set (fnodes ps) \<Longrightarrow> lpath (set_right y v h) p q ps x = lpath h p q ps x"
  "y \<notin> set (fnodes ps) \<Longrightarrow> lpath (rb_change_child old new y h) p q ps x = lpath h p q ps x"
  by (induction ps arbitrary: p q) (auto simp: rb_change_child_def)

lemma lpar_in: "ps \<noteq> [] \<Longrightarrow> lpar p ps \<in> set (fnodes ps)"
  by (induction ps arbitrary: p) (auto, metis list.exhaust lpar.simps(1))

lemma lpath_first: "ps \<noteq> [] \<Longrightarrow> lpath h p q ps x \<Longrightarrow> q \<in> set (fnodes ps) \<and> q \<noteq> 0" by (cases ps) auto

lemma lpath_relink:
  "lpath h p q ps x \<Longrightarrow> ps \<noteq> [] \<Longrightarrow> distinct (fnodes ps) \<Longrightarrow> lpath (set_left (lpar p ps) v h) p q ps v"
proof (induction ps arbitrary: p q)
  case (Cons f ps)
  show ?case
  proof (cases "ps = []")
    case True then show ?thesis using Cons.prems by auto
  next
    case False
    then have "lpath (set_left (lpar p (f # ps)) v h) q (rb_left h q) ps v" using Cons by auto
    moreover have "lpar p (f # ps) \<noteq> q" "lpar p (f # ps) \<notin> set (nodes (snd (snd f)))"
      using lpar_in [OF False, of "fst (snd f)"] Cons.prems(1,3) by auto
    ultimately show ?thesis using Cons.prems by auto
  qed
qed simp

lemma lpath_reparent:
  "lpath h p q ps x \<Longrightarrow> ps \<noteq> [] \<Longrightarrow> distinct (fnodes ps) \<Longrightarrow> al p \<Longrightarrow> lpath (rb_set_parent q p' h) p' q ps x"
  by (cases ps) (auto simp: rb_set_parent_alt rb_color_def)

lemma successor_loop_lpath:
  "lpath h a (rb_left h a) ps s \<Longrightarrow> s \<noteq> 0 \<Longrightarrow> rb_left h s = 0 \<Longrightarrow> successor_loop a (rb_left h a) h = Some (lpar a ps, s)"
proof (induction ps arbitrary: a)
  case Nil then show ?case by (subst successor_loop.simps) simp
next
  case (Cons f ps)
  have "rb_left h (rb_left h a) \<noteq> 0" using Cons.prems by (cases ps) auto
  then have "successor_loop a (rb_left h a) h = successor_loop (rb_left h a) (rb_left h (rb_left h a)) h"
    by (subst successor_loop.simps) (simp add: Let_def)
  then show ?case using Cons.IH [of "rb_left h a"] Cons.prems by auto
qed

section \<open>Replacing a node by its successor\<close>

text \<open>\<^verbatim>\<open>r\<close> is a subtree at \<^verbatim>\<open>x\<close> up to the word of its root.\<close>

definition below :: "rb_heap \<Rightarrow> u64 \<Rightarrow> rbt \<Rightarrow> bool" where
  "below h x r \<longleftrightarrow> (case r of Tip \<Rightarrow> x = 0 | Br c a y b \<Rightarrow> x = y \<and> x \<noteq> 0 \<and> al x \<and> rep h x (rb_left h x) a \<and> rep h x (rb_right h x) b)"

lemma lpath_0: "lpath h p q ps x \<Longrightarrow> 0 \<notin> set (fnodes ps)"
  by (induction ps arbitrary: p q) (auto dest: rep_0)

lemma below_0: "below h x r \<Longrightarrow> 0 \<notin> set (nodes r)" by (cases r) (auto simp: below_def dest: rep_0)

lemma below_set [simp]:
  "y \<notin> set (nodes r) \<Longrightarrow> below (set_pc y v h) x r = below h x r" "y \<notin> set (nodes r) \<Longrightarrow> below (set_left y v h) x r = below h x r"
  "y \<notin> set (nodes r) \<Longrightarrow> below (rb_change_child old new y h) x r = below h x r" "y \<notin> set (nodes r) \<Longrightarrow> below (set_right y v h) x r = below h x r"
  by (cases r; auto simp: below_def)+

lemma rep_below: "rep h p x r \<Longrightarrow> below h x r" by (cases r) (auto simp: below_def)

lemma replace_rep:
  assumes n: "n \<noteq> 0" "al n" "rep h n (rb_left h n) l" "l \<noteq> Tip" "parent_color h n = up cx OR cbit c" "repc h cx n"
    and s: "s \<noteq> 0" "al s" "lpath h s (rb_right h s) ps x" and x: "below h x r"
    and d: "distinct ((nodes l @ s # nodes r @ fnodes ps @ [n]) @ cnodes cx)"
    and S: "set ((nodes l @ s # nodes r @ fnodes ps @ [n]) @ cnodes cx) \<subseteq> S"
  shows "let (reb, h') = replace_by_successor n s (lpar s ps) x h in
    rep h' (lpar s ps) x (paint Black r) \<and> repc h' (fctx ps (InR c l s cx)) x \<and>
    reb = (if r = Tip \<and> pc_is_black (parent_color h s) then lpar s ps else 0) \<and> only S h h'"
proof -
  obtain cl ll la lr where l: "l = Br cl ll la lr" using n(4) by (cases l) auto
  define h1 where "h1 = rb_change_child n s (up cx) (rb_set_parent la s (set_left s la h))"
  have f: "rb_left h n = la" "al (up cx)" using n(3,6) l repc_al by auto
  have z: "0 \<notin> set (nodes l @ s # nodes r @ fnodes ps @ [n])"
    using n(1,3) s(1) rep_0 lpath_0 [OF s(3)] below_0 [OF x] by auto
  note u = up_notin [OF d z]
  have b: "up cx = 0 \<or> up cx \<in> S" using up_in [of cx] S by auto
  note D = d [unfolded apart_simps l nodes.simps]
  have r: "repc (rb_set_parent la s (set_left s la h)) cx n" using n(6) D by (simp add: rb_set_parent_alt)
  have 1: "repc h1 cx s" unfolding h1_def by (rule repc_change_child [OF r n(1)]) (use d in auto)
  have 2: "rep h1 s (rb_left h1 s) l" using n(2,3) s(2) f D u unfolding h1_def l
    by (clarsimp simp: rb_set_parent_alt rb_color_def)
  have 3: "parent_color h1 n = up cx OR cbit c" "parent_color h1 s = parent_color h s" using n(5) D unfolding h1_def
    by (auto simp: rb_set_parent_alt)
  have 4: "lpath h1 s (rb_right h1 s) ps x" "below h1 x r" using s x D u unfolding h1_def
    by (auto simp: rb_set_parent_alt)
  have 5: "only S h h1" using S b l unfolding h1_def by (simp add: rb_set_parent_alt)
  define h2 where "h2 = set_pc s (up cx OR cbit c) h1"
  have 6: "repc h2 (InR c l s cx) (rb_right h1 s)" "lpath h2 s (rb_right h1 s) ps x" "below h2 x r" "only S h h2"
    using 1 2 4 5 s(1,2) d S unfolding h2_def by auto
  then have 7: "repc h2 (fctx ps (InR c l s cx)) x" by (intro lpath_repc) auto
  show ?thesis
  proof (cases r)
    case Tip
    then have "replace_by_successor n s (lpar s ps) x h = (if pc_is_black (parent_color h s) then lpar s ps else 0, h2)"
      using x f n(5) 3 D unfolding replace_by_successor_def h2_def h1_def by (simp add: Let_def below_def rb_set_parent_alt l)
    then show ?thesis using 6 7 Tip x by (simp add: below_def)
  next
    case (Br c2 a y b)
    then have xy: "x = y" "x \<noteq> 0" using x by (auto simp: below_def)
    then have eq: "replace_by_successor n s (lpar s ps) x h = (0, rb_set_parent_color x (lpar s ps) RB_BLACK h2)"
      using f n(5) 3 D unfolding replace_by_successor_def h2_def h1_def by (simp add: Let_def rb_set_parent_alt l)
    have "x \<notin> set (cnodes (fctx ps (InR c l s cx)))" using d Br xy by (auto simp: cnodes_fctx)
    then have "repc (rb_set_parent_color x (lpar s ps) RB_BLACK h2) (fctx ps (InR c l s cx)) x" using 7 by (simp add: rb_set_parent_color_def)
    moreover have "rep (rb_set_parent_color x (lpar s ps) RB_BLACK h2) (lpar s ps) x (paint Black r)"
      using 6(3) d Br xy by (auto simp: rb_set_parent_color_def below_def)
    ultimately show ?thesis using eq 6(4) S Br xy by (simp add: rb_set_parent_color_def)
  qed
qed

section \<open>Unlinking a node\<close>

text \<open>
  The tree and the surroundings left by unlinking a node of colour \<^verbatim>\<open>c\<close> with subtrees \<^verbatim>\<open>l\<close> and \<^verbatim>\<open>r\<close>, and
  whether the place has lost a black node.
\<close>

definition unlinked :: "color \<Rightarrow> rbt \<Rightarrow> rbt \<Rightarrow> ctx \<Rightarrow> bool \<Rightarrow> rbt \<Rightarrow> ctx \<Rightarrow> bool" where
  "unlinked c l r cx need t' cx' \<longleftrightarrow>
     l = Tip \<and> t' = paint c r \<and> cx' = cx \<and> need = (r = Tip \<and> c = Black) \<or>
     l \<noteq> Tip \<and> r = Tip \<and> t' = paint c l \<and> cx' = cx \<and> \<not> need \<or>
     l \<noteq> Tip \<and> (\<exists>ps cs s r2. r = lzip ps (Br cs Tip s r2) \<and> t' = paint Black r2 \<and>
       cx' = fctx ps (InR c l s cx) \<and> need = (r2 = Tip \<and> cs = Black))"

definition unlinks :: "rbt \<Rightarrow> rbt \<Rightarrow> color \<Rightarrow> ctx \<Rightarrow> u64 set \<Rightarrow> u64 \<Rightarrow> rb_heap \<Rightarrow> bool" where
  "unlinks l r c cx S n h \<longleftrightarrow>
     (\<exists>h' t' cx' q need. rb_unlink n h = Some (if need then up cx' else 0, h') \<and> unlinked c l r cx need t' cx' \<and>
       rep h' (up cx') q t' \<and> repc h' cx' q \<and> only S h h')"

lemma unlinksI:
  "rb_unlink n h = Some (if need then up cx' else 0, h') \<Longrightarrow> unlinked c l r cx need t' cx' \<Longrightarrow> rep h' (up cx') q t' \<Longrightarrow>
   repc h' cx' q \<Longrightarrow> only S h h' \<Longrightarrow> unlinks l r c cx S n h"
  unfolding unlinks_def by blast

text \<open>A node with at most one child.\<close>

lemma unlink_one:
  assumes t: "rep h (up cx) n (Br c l n r)" and c: "repc h cx n"
    and d: "distinct (nodes l @ n # nodes r @ cnodes cx)" and S: "set (nodes l @ n # nodes r @ cnodes cx) \<subseteq> S"
    and e: "l = Tip \<or> r = Tip"
  shows "unlinks l r c cx S n h"
proof -
  have f: "al (up cx)" "n \<noteq> 0" "parent_color h n = up cx OR cbit c" "pc_parent (parent_color h n) = up cx"
    "pc_is_black (parent_color h n) \<longleftrightarrow> c = Black" using t c repc_al by auto
  have b: "up cx = 0 \<or> up cx \<in> S" using up_in [of cx] S by auto
  have k: "repc (rb_change_child n x (up cx) h') cx x" if "repc h' cx n" for x h'
    by (rule repc_change_child [OF that f(2)]) (use d in auto)
  have z: "up cx \<notin> set (nodes l @ n # nodes r)"
    by (rule up_notin) (use d t in \<open>auto dest: rep_0\<close>)
  show ?thesis
  proof (cases "l = Tip")
    case l: True
    show ?thesis
    proof (cases r)
      case Tip
      then have "rb_unlink n h = Some (if c = Black then up cx else 0, rb_change_child n 0 (up cx) h)"
        using t l f by (simp add: rb_unlink_def Let_def)
      then show ?thesis using k [OF c] b l Tip by (intro unlinksI [where cx' = cx and q = 0 and t' = Tip]) (auto simp: unlinked_def)
    next
      case (Br d' a y b')
      let ?h = "set_pc y (up cx OR cbit c) (rb_change_child n y (up cx) h)"
      have "rb_unlink n h = Some (0, ?h)" using t l f Br by (simp add: rb_unlink_def Let_def)
      moreover have "rep ?h (up cx) y (paint c r)" "repc ?h cx y" "only S h ?h"
        using t Br k [OF c, of y] z b d S by auto
      ultimately show ?thesis using l Br by (intro unlinksI [where cx' = cx and q = y and need = False]) (auto simp: unlinked_def)
    qed
  next
    case False
    then obtain d' a y b' where l: "l = Br d' a y b'" by (cases l) auto
    let ?h = "rb_change_child n y (up cx) (set_pc y (up cx OR cbit c) h)"
    have "rb_unlink n h = Some (0, ?h)" using t l f e by (simp add: rb_unlink_def Let_def)
    moreover have "rep ?h (up cx) y (paint c l)" "repc ?h cx y" "only S h ?h"
      using t l k [of "set_pc y (up cx OR cbit c) h" y] c z b d S by auto
    ultimately show ?thesis using l e by (intro unlinksI [where cx' = cx and q = y and need = False]) (auto simp: unlinked_def)
  qed
qed

text \<open>A node with two children.\<close>

lemma lpath_al: "lpath h p q ps x \<Longrightarrow> al p \<Longrightarrow> al (lpar p ps)" by (induction ps arbitrary: p q) auto

lemma unlink_two_finish:
  assumes n: "n \<noteq> 0" "al n" "rep h n (rb_left h n) l" "l \<noteq> Tip" "parent_color h n = up cx OR cbit c" "repc h cx n"
    and s: "s \<noteq> 0" "al s" "lpath h s (rb_right h s) ps x" "pc_is_black (parent_color h s) \<longleftrightarrow> cs = Black" and x: "below h x r2"
    and d: "distinct ((nodes l @ s # nodes r2 @ fnodes ps @ [n]) @ cnodes cx)"
    and S: "set ((nodes l @ s # nodes r2 @ fnodes ps @ [n]) @ cnodes cx) \<subseteq> S"
    and h0: "rb_unlink n h0 = Some (replace_by_successor n s (lpar s ps) x h)" "only S h0 h"
    and r: "r = lzip ps (Br cs Tip s r2)"
  shows "unlinks l r c cx S n h0"
proof -
  obtain reb h' where rp: "replace_by_successor n s (lpar s ps) x h = (reb, h')" by (cases "replace_by_successor n s (lpar s ps) x h") auto
  have "rep h' (lpar s ps) x (paint Black r2)" "repc h' (fctx ps (InR c l s cx)) x" "only S h h'"
    "reb = (if r2 = Tip \<and> cs = Black then lpar s ps else 0)"
    using replace_rep [OF n s(1-3) x d S] rp s(4) by auto
  moreover have "unlinked c l r cx (r2 = Tip \<and> cs = Black) (paint Black r2) (fctx ps (InR c l s cx))"
    unfolding unlinked_def using r n(4) by blast
  ultimately show ?thesis using h0(1) rp only_trans [OF h0(2)]
    by (intro unlinksI [where cx' = "fctx ps (InR c l s cx)" and need = "r2 = Tip \<and> cs = Black" and q = x]) (simp_all add: up_fctx)
qed

lemma unlink_two:
  assumes t: "rep h (up cx) n (Br c l n r)" and c: "repc h cx n"
    and d: "distinct (nodes l @ n # nodes r @ cnodes cx)" and S: "set (nodes l @ n # nodes r @ cnodes cx) \<subseteq> S"
    and l: "l \<noteq> Tip" and r: "r = lzip ps (Br cs Tip s r2)"
  shows "unlinks l r c cx S n h"
proof -
  have f: "n \<noteq> 0" "al n" "rep h n (rb_left h n) l" "parent_color h n = up cx OR cbit c" "rb_left h n \<noteq> 0"
    using t l by (auto dest: rep_null)
  from t r have "rep h n (rb_right h n) (lzip ps (Br cs Tip s r2))" by simp
  then have p: "lpath h n (rb_right h n) ps s" "s \<noteq> 0" "al s" "parent_color h s = lpar n ps OR cbit cs" "rb_left h s = 0"
    "rep h s (rb_right h s) r2" by (auto simp: rep_lzip)
  have bl: "pc_is_black (parent_color h s) \<longleftrightarrow> cs = Black" using p(4) lpath_al [OF p(1) f(2)] by simp
  have d': "distinct ((nodes l @ s # nodes r2 @ fnodes ps @ [n]) @ cnodes cx)"
    and S': "set ((nodes l @ s # nodes r2 @ fnodes ps @ [n]) @ cnodes cx) \<subseteq> S" using d S unfolding r by auto
  show ?thesis
  proof (cases ps)
    case Nil
    then have "rb_unlink n h = Some (replace_by_successor n s (lpar s ps) (rb_right h s) h)"
      using f(5) p(1,2,5) by (simp add: rb_unlink_def Let_def)
    then show ?thesis
      using unlink_two_finish [OF f(1-3) l f(4) c p(2,3) _ bl rep_below [OF p(6)] d' S' _ only_refl r] Nil by simp
  next
    case (Cons g ps')
    then have ne: "ps \<noteq> []" by simp
    define ch x h1 where "ch = rb_right h n" and "x = rb_right h s" and "h1 = rb_set_parent ch s (set_right s ch (set_left (lpar s ps) x h))"
    have ch: "ch \<noteq> 0" "ch \<in> set (fnodes ps)" "lpath h ch (rb_left h ch) ps' s" "lpar n ps = lpar ch ps'" "lpar s ps = lpar ch ps'"
      using p(1) Cons unfolding ch_def by auto
    have "rb_left h ch \<noteq> 0" using ch(3) p(2) by (cases ps') auto
    then have u: "rb_unlink n h = Some (replace_by_successor n s (lpar s ps) x h1)"
      using f(5) ch successor_loop_lpath [OF ch(3) p(2,5)] unfolding h1_def x_def
      by (simp add: rb_unlink_def Let_def ch_def [symmetric])
    have a: "lpar s ps \<in> set (fnodes ps)" by (rule lpar_in [OF ne])
    note D = d' [unfolded apart_simps]
    have notin: "y \<notin> set (nodes l)" "y \<noteq> s" "y \<notin> set (nodes r2)" "y \<noteq> n" "y \<notin> set (cnodes cx)" "y \<in> S" if "y \<in> set (fnodes ps)" for y
      using d' S' that by auto
    have "lpath (set_right s ch (set_left (lpar s ps) x h)) n ch ps x"
      using lpath_relink [OF p(1) ne, of x] D ch(4,5) unfolding ch_def by simp
    then have "lpath h1 s ch ps x" unfolding h1_def using D f(2) ne by (intro lpath_reparent) auto
    moreover have "rb_right h1 s = ch" unfolding h1_def by (simp add: rb_set_parent_alt)
    ultimately have 1: "lpath h1 s (rb_right h1 s) ps x" by simp
    have 2: "rep h1 n (rb_left h1 n) l" "parent_color h1 n = up cx OR cbit c" "repc h1 cx n" "below h1 x r2" "only S h h1"
      "parent_color h1 s = parent_color h s"
      using f c p rep_below [OF p(6)] D S' notin [OF a] notin [OF ch(2)] unfolding h1_def x_def by (auto simp: rb_set_parent_alt)
    show ?thesis
      by (rule unlink_two_finish [OF f(1,2) 2(1) l 2(2,3) p(2,3) 1 _ 2(4) d' S' u 2(5) r]) (use bl 2(6) in simp)
  qed
qed

theorem unlink_rep:
  assumes "rep h (up cx) n (Br c l n r)" "repc h cx n"
    and "distinct (nodes l @ n # nodes r @ cnodes cx)" "set (nodes l @ n # nodes r @ cnodes cx) \<subseteq> S"
  shows "unlinks l r c cx S n h"
proof (cases "l = Tip \<or> r = Tip")
  case True then show ?thesis by (rule unlink_one [OF assms])
next
  case False
  then obtain ps cs s r2 where "r = lzip ps (Br cs Tip s r2)" using leftmost by blast
  then show ?thesis using unlink_two [OF assms] False by blast
qed

end
