(* ===== verification/Rbtree_Props.thy ===== *)
theory Rbtree_Props
  imports Rbtree_Insert Rbtree_Delete Rbtree_Unlink
begin

text \<open>
  Correctness of the red-black tree: rebalancing after a removal restores the invariants, unlinking
  finds the successor, and insertion, removal, lookup and the search for the first node work on the
  ordered list of the nodes.
\<close>

section \<open>Rebalancing after a removal\<close>

lemma is_red_zip: "rb_inv (zip_up cx t) \<Longrightarrow> top_black cx" by (auto simp: zip_ctx split: if_splits)

lemma grow_left_inv:
  assumes "inv_h t" "inv_c t" "inv_h sl" "inv_c sl" "inv_h sr" "inv_c sr" "bh sl = bh t" "bh sr = bh t" "is_red sl \<or> is_red sr" "\<not> is_red t"
  shows "inv_h (grow_left t cp p sl a sr) \<and> inv_c (grow_left t cp p sl a sr) \<and>
    bh (grow_left t cp p sl a sr) = Suc (bh t) + (if cp = Black then 1 else 0) \<and>
    (is_red (grow_left t cp p sl a sr) \<longleftrightarrow> cp = Red) \<and> nodes (grow_left t cp p sl a sr) = nodes t @ p # nodes sl @ a # nodes sr"
proof (cases "is_red sr")
  case True
  then obtain l x r where "sr = Br Red l x r" by (rule is_redE)
  then show ?thesis using assms by (simp add: grow_left_def)
next
  case False
  with assms(9) obtain l x r where "sl = Br Red l x r" by (auto elim: is_redE)
  then show ?thesis using assms False by (simp add: grow_left_def)
qed

lemma grow_right_inv:
  assumes "inv_h t" "inv_c t" "inv_h sl" "inv_c sl" "inv_h sr" "inv_c sr" "bh sl = bh t" "bh sr = bh t" "is_red sl \<or> is_red sr" "\<not> is_red t"
  shows "inv_h (grow_right t cp p sl a sr) \<and> inv_c (grow_right t cp p sl a sr) \<and>
    bh (grow_right t cp p sl a sr) = Suc (bh t) + (if cp = Black then 1 else 0) \<and>
    (is_red (grow_right t cp p sl a sr) \<longleftrightarrow> cp = Red) \<and> nodes (grow_right t cp p sl a sr) = nodes sl @ a # nodes sr @ p # nodes t"
proof (cases "is_red sl")
  case True
  then obtain l x r where "sl = Br Red l x r" by (rule is_redE)
  then show ?thesis using assms by (simp add: grow_right_def)
next
  case False
  with assms(9) obtain l x r where "sr = Br Red l x r" by (auto elim: is_redE)
  then show ?thesis using assms False by (simp add: grow_right_def)
qed

text \<open>Putting a repaired subtree back.\<close>

lemma zip_repaired:
  assumes "inv_h g" "inv_c g" "cinv_h (bh g) cx" "cinv_c cx" "top_black cx" "is_red g \<Longrightarrow> cx \<noteq> Top \<and> \<not> cred cx" "nodes g = xs"
  shows "rb_inv (zip_up cx g) \<and> nodes (zip_up cx g) = before cx @ xs @ after cx"
  using assms by (auto simp: zip_ctx)

text \<open>One turn of the function.\<close>

lemma del_fix_left_black:
  assumes sh: "short t (InL cp p (Br Black sl a sr) cx)"
    and IH: "\<And>t. short t cx \<Longrightarrow> rb_inv (del_fix t cx) \<and> nodes (del_fix t cx) = before cx @ nodes t @ after cx"
  shows "rb_inv (del_fix t (InL cp p (Br Black sl a sr) cx)) \<and> nodes (del_fix t (InL cp p (Br Black sl a sr) cx)) = before cx @ (nodes t @ p # nodes sl @ a # nodes sr) @ after cx"
proof -
  note f = sh [unfolded short_def, simplified]
  have tb: "top_black cx" using sh unfolding short_def by (auto dest: top_black_up)
  have top: "cp = Red \<Longrightarrow> cx \<noteq> Top \<and> \<not> cred cx" using f by auto
  consider (grow) "is_red sl \<or> is_red sr" | (stop) "\<not> is_red sl" "\<not> is_red sr" "cp = Red"
    | (up) "\<not> is_red sl" "\<not> is_red sr" "cp = Black" by (cases cp) auto
  then show ?thesis
  proof cases
    case grow
    have "rb_inv (zip_up cx (grow_left t cp p sl a sr)) \<and> nodes (zip_up cx (grow_left t cp p sl a sr)) = before cx @ (nodes t @ p # nodes sl @ a # nodes sr) @ after cx"
      by (rule zip_repaired) (use grow_left_inv [of t sl sr cp p a] f top tb grow in auto)
    then show ?thesis using grow by simp
  next
    case stop
    have "rb_inv (zip_up cx (Br Black t p (Br Red sl a sr))) \<and> nodes (zip_up cx (Br Black t p (Br Red sl a sr))) = before cx @ (nodes t @ p # nodes sl @ a # nodes sr) @ after cx"
      by (rule zip_repaired) (use f tb stop in auto)
    then show ?thesis using stop by simp
  next
    case up
    then have "short (Br Black t p (Br Red sl a sr)) cx" using f tb unfolding short_def by auto
    then show ?thesis using IH up by auto
  qed
qed

lemma del_fix_left_red:
  assumes sh: "short t (InL cp p (Br Red (Br c bl b br) a sr) cx)" and c: "c = Black" "cp = Black"
  shows "rb_inv (del_fix t (InL cp p (Br Red (Br c bl b br) a sr) cx)) \<and> nodes (del_fix t (InL cp p (Br Red (Br c bl b br) a sr) cx)) = before cx @ (nodes t @ p # nodes bl @ b # nodes br @ a # nodes sr) @ after cx"
proof -
  note f = sh [unfolded short_def c, simplified]
  have tb: "top_black (InL cp a sr cx)" using sh c unfolding short_def by (cases cx) auto
  let ?g = "if is_red bl \<or> is_red br then grow_left t Red p bl b br else Br Black t p (Br Red bl b br)"
  have "rb_inv (zip_up (InL cp a sr cx) ?g) \<and> nodes (zip_up (InL cp a sr cx) ?g) = before (InL cp a sr cx) @ (nodes t @ p # nodes bl @ b # nodes br) @ after (InL cp a sr cx)"
  proof (cases "is_red bl \<or> is_red br")
    case True
    show ?thesis by (rule zip_repaired) (use grow_left_inv [of t bl br Red p b] f tb True c in \<open>auto split: if_splits\<close>)
  next
    case False
    show ?thesis by (rule zip_repaired) (use f tb False c in \<open>auto split: if_splits\<close>)
  qed
  then show ?thesis using c by simp
qed

lemma del_fix_right_black:
  assumes sh: "short t (InR cp (Br Black sl a sr) p cx)"
    and IH: "\<And>t. short t cx \<Longrightarrow> rb_inv (del_fix t cx) \<and> nodes (del_fix t cx) = before cx @ nodes t @ after cx"
  shows "rb_inv (del_fix t (InR cp (Br Black sl a sr) p cx)) \<and> nodes (del_fix t (InR cp (Br Black sl a sr) p cx)) = before cx @ (nodes sl @ a # nodes sr @ p # nodes t) @ after cx"
proof -
  note f = sh [unfolded short_def, simplified]
  have tb: "top_black cx" using sh unfolding short_def by (auto dest: top_black_up)
  have top: "cp = Red \<Longrightarrow> cx \<noteq> Top \<and> \<not> cred cx" using f by auto
  consider (grow) "is_red sl \<or> is_red sr" | (stop) "\<not> is_red sl" "\<not> is_red sr" "cp = Red"
    | (up) "\<not> is_red sl" "\<not> is_red sr" "cp = Black" by (cases cp) auto
  then show ?thesis
  proof cases
    case grow
    have "rb_inv (zip_up cx (grow_right t cp p sl a sr)) \<and> nodes (zip_up cx (grow_right t cp p sl a sr)) = before cx @ (nodes sl @ a # nodes sr @ p # nodes t) @ after cx"
      by (rule zip_repaired) (use grow_right_inv [of t sl sr cp p a] f top tb grow in auto)
    then show ?thesis using grow by simp
  next
    case stop
    have "rb_inv (zip_up cx (Br Black (Br Red sl a sr) p t)) \<and> nodes (zip_up cx (Br Black (Br Red sl a sr) p t)) = before cx @ (nodes sl @ a # nodes sr @ p # nodes t) @ after cx"
      by (rule zip_repaired) (use f tb stop in auto)
    then show ?thesis using stop by simp
  next
    case up
    then have "short (Br Black (Br Red sl a sr) p t) cx" using f tb unfolding short_def by auto
    then show ?thesis using IH up by auto
  qed
qed

lemma del_fix_right_red:
  assumes sh: "short t (InR cp (Br Red sl a (Br c bl b br)) p cx)" and c: "c = Black" "cp = Black"
  shows "rb_inv (del_fix t (InR cp (Br Red sl a (Br c bl b br)) p cx)) \<and> nodes (del_fix t (InR cp (Br Red sl a (Br c bl b br)) p cx)) = before cx @ (nodes sl @ a # nodes bl @ b # nodes br @ p # nodes t) @ after cx"
proof -
  note f = sh [unfolded short_def c, simplified]
  have tb: "top_black (InR cp sl a cx)" using sh c unfolding short_def by (cases cx) auto
  let ?g = "if is_red bl \<or> is_red br then grow_right t Red p bl b br else Br Black (Br Red bl b br) p t"
  have "rb_inv (zip_up (InR cp sl a cx) ?g) \<and> nodes (zip_up (InR cp sl a cx) ?g) = before (InR cp sl a cx) @ (nodes bl @ b # nodes br @ p # nodes t) @ after (InR cp sl a cx)"
  proof (cases "is_red bl \<or> is_red br")
    case True
    show ?thesis by (rule zip_repaired) (use grow_right_inv [of t bl br Red p b] f tb True c in \<open>auto split: if_splits\<close>)
  next
    case False
    show ?thesis by (rule zip_repaired) (use f tb False c in \<open>auto split: if_splits\<close>)
  qed
  then show ?thesis using c by simp
qed

theorem del_fix_inv: "short t cx \<Longrightarrow> rb_inv (del_fix t cx) \<and> nodes (del_fix t cx) = before cx @ nodes t @ after cx"
proof (induction cx arbitrary: t)
  case Top then show ?case by (simp add: short_def rb_inv_def)
next
  case (InL cp p s cx)
  from InL.prems show ?case
    by (cases rule: short_sibling_left) (use InL del_fix_left_black del_fix_left_red in \<open>fastforce simp del: del_fix.simps\<close>)+
next
  case (InR cp s p cx)
  from InR.prems show ?case
    by (cases rule: short_sibling_right) (use InR del_fix_right_black del_fix_right_red in \<open>fastforce simp del: del_fix.simps\<close>)+
qed

section \<open>Removal\<close>

lemma bh_0_red: "inv_c t \<Longrightarrow> inv_h t \<Longrightarrow> bh t = 0 \<Longrightarrow> t \<noteq> Tip \<Longrightarrow> \<exists>x. t = Br Red Tip x Tip"
  by (cases t; cases "case t of Tip \<Rightarrow> Tip | Br c l a r \<Rightarrow> l"; cases "case t of Tip \<Rightarrow> Tip | Br c l a r \<Rightarrow> r") (auto split: if_splits)

lemma rb_inv_rename: "rb_inv (zip_up cx (Br c l n r)) = rb_inv (zip_up cx (Br c l m r))"
  by (simp add: zip_ctx)

text \<open>What is left after unlinking satisfies the invariants, or is short of one black node.\<close>

lemma left_over:
  assumes i: "rb_inv (zip_up cx (Br c Tip n r))"
  shows "r = Tip \<and> c = Black \<Longrightarrow> short Tip cx" and "\<not> (r = Tip \<and> c = Black) \<Longrightarrow> rb_inv (zip_up cx (paint Black r))"
proof -
  show "short Tip cx" if "r = Tip \<and> c = Black" using i that by (auto simp: zip_ctx short_def split: if_splits)
  show "rb_inv (zip_up cx (paint Black r))" if a: "\<not> (r = Tip \<and> c = Black)"
  proof (cases "r = Tip")
    case True then show ?thesis using i a by (auto simp: zip_ctx split: if_splits)
  next
    case False
    then obtain x where "r = Br Red Tip x Tip" using bh_0_red [of r] i by (auto simp: zip_ctx)
    then show ?thesis using i by (auto simp: zip_ctx split: if_splits)
  qed
qed

lemma unlinked_inv:
  assumes i: "rb_inv (zip_up cx (Br c l n r))" and u: "unlinked c l r cx need t' cx'"
  shows "before cx' @ nodes t' @ after cx' = before cx @ nodes l @ nodes r @ after cx \<and>
    (if need then t' = Tip \<and> short Tip cx' else rb_inv (zip_up cx' t'))"
proof -
  consider (1) "l = Tip" "t' = paint c r" "cx' = cx" "need = (r = Tip \<and> c = Black)"
    | (2) "l \<noteq> Tip" "r = Tip" "t' = paint c l" "cx' = cx" "\<not> need"
    | (3) ps cs s r2 where "r = lzip ps (Br cs Tip s r2)" "t' = paint Black r2" "cx' = fctx ps (InR c l s cx)" "need = (r2 = Tip \<and> cs = Black)"
    using u unfolding unlinked_def by blast
  then show ?thesis
  proof cases
    case 1
    have "paint c r = paint Black r" if "r \<noteq> Tip"
      using bh_0_red [of r] i 1(1) that by (cases c) (auto simp: zip_ctx)
    then show ?thesis using left_over [of cx c n r] i 1 by (cases "r = Tip") auto
  next
    case 2
    then obtain x where x: "l = Br Red Tip x Tip" using bh_0_red [of l] i by (auto simp: zip_ctx)
    then show ?thesis using i 2 by (auto simp: zip_ctx split: if_splits)
  next
    case 3
    have "rb_inv (zip_up (fctx ps (InR c l s cx)) (Br cs Tip s r2))"
      using i rb_inv_rename [of cx c l n "lzip ps (Br cs Tip s r2)" s] unfolding 3(1) by (simp add: zip_fctx)
    from left_over [OF this] show ?thesis using 3 by (auto simp: cnodes_fctx)
  qed
qed

primrec comp_ctx :: "ctx \<Rightarrow> ctx \<Rightarrow> ctx" where
  "comp_ctx Top cx' = cx'"
| "comp_ctx (InL c a r cx) cx' = InL c a r (comp_ctx cx cx')"
| "comp_ctx (InR c l a cx) cx' = InR c l a (comp_ctx cx cx')"

lemma find_place: "n \<in> set (nodes t) \<Longrightarrow> \<exists>cx c l r. zip_up cx (Br c l n r) = t"
proof (induction t)
  case (Br c l a r)
  then consider "n = a" | "n \<in> set (nodes l)" | "n \<in> set (nodes r)" by auto
  then show ?case
  proof cases
    case 1 then show ?thesis by (metis zip_up.simps(1))
  next
    case 2
    then obtain cx c' l' r' where "zip_up cx (Br c' l' n r') = l" using Br.IH(1) by blast
    moreover have "zip_up (comp_ctx cx (InL c a r Top)) t = Br c (zip_up cx t) a r" for t
      by (induction cx arbitrary: t) simp_all
    ultimately show ?thesis by metis
  next
    case 3
    then obtain cx c' l' r' where "zip_up cx (Br c' l' n r') = r" using Br.IH(2) by blast
    moreover have "zip_up (comp_ctx cx (InR c l a Top)) t = Br c l a (zip_up cx t)" for t
      by (induction cx arbitrary: t) simp_all
    ultimately show ?thesis by metis
  qed
qed simp

theorem rb_erase_tree:
  assumes tr: "rb_tree lt h xs" and n: "n \<in> set xs"
  shows "\<exists>h'. rb_erase n h = Some (Ret h') \<and> rb_tree lt h' (remove1 n xs) \<and> only (set xs) h h'"
proof -
  from tr obtain t where t: "rep h 0 (rb_root h) t" "nodes t = xs" "rb_inv t" and d: "distinct xs" and so: "sorted_wrt lt xs"
    by (auto simp: rb_tree_def)
  obtain cx c l r where z: "zip_up cx (Br c l n r) = t" using find_place n t(2) by blast
  have xs: "xs = before cx @ nodes l @ n # nodes r @ after cx" using t(2) unfolding z [symmetric] by simp
  have st: "rep h (up cx) n (Br c l n r)" "repc h cx n" using zip_rep [of h cx "Br c l n r"] t(1) z by auto
  have d': "distinct (nodes l @ n # nodes r @ cnodes cx)" "set (nodes l @ n # nodes r @ cnodes cx) \<subseteq> set xs" using d unfolding xs by auto
  obtain h' t' cx' q need where u: "rb_unlink n h = Some (if need then up cx' else 0, h')" "unlinked c l r cx need t' cx'"
    "rep h' (up cx') q t'" "repc h' cx' q" "only (set xs) h h'"
    using unlink_rep [OF st d'] unfolding unlinks_def by blast
  have rem: "remove1 n xs = before cx @ nodes l @ nodes r @ after cx" using d unfolding xs by (simp add: remove1_append)
  have iv: "before cx' @ nodes t' @ after cx' = remove1 n xs" "if need then t' = Tip \<and> short Tip cx' else rb_inv (zip_up cx' t')"
    using unlinked_inv [of cx c l n r need t' cx'] t(3) u(2) z rem by auto
  have so': "sorted_wrt lt (remove1 n xs)" "distinct (remove1 n xs)" using so d unfolding rem by (auto simp: xs sorted_wrt_append)
  have "\<exists>h2 t2. rb_erase n h = Some (Ret h2) \<and> rep h2 0 (rb_root h2) t2 \<and> nodes t2 = remove1 n xs \<and> rb_inv t2 \<and> only (set xs) h h2"
  proof (cases "need \<and> cx' \<noteq> Top")
    case True
    then have tip: "t' = Tip" "short Tip cx'" "q = 0" using iv(2) u(3) by auto
    have "up cx' \<noteq> 0" using u(4) True by (cases cx') auto
    have sub: "set (remove1 n xs) \<subseteq> set xs" by (rule set_remove1_subset)
    have "erase_done Tip cx' (set xs) q h'"
      by (rule erase_fix_loop_rep [OF tip(2) _ u(3) [unfolded tip(1)] u(4)]) (use True iv(1) tip(1) so'(2) sub in auto)
    then obtain h2 where h2: "erase_fix_loop 0 (up cx') h' = Some (Ret h2)" "rep h2 0 (rb_root h2) (del_fix Tip cx')" "only (set xs) h' h2"
      using tip(3) by (auto simp: erase_done_def)
    then have "rb_erase n h = Some (Ret h2)" using u(1) True \<open>up cx' \<noteq> 0\<close> by (simp add: rb_erase_def rb_erase_fix_def)
    then show ?thesis using h2(2,3) del_fix_inv [OF tip(2)] iv(1) tip(1) only_trans [OF u(5)] by auto
  next
    case False
    then have "rb_erase n h = Some (Ret h')" using u(1) by (auto simp: rb_erase_def)
    moreover have "rep h' 0 (rb_root h') (zip_up cx' t')" using rep_zip u(3,4) by blast
    moreover have "rb_inv (zip_up cx' t')" using iv(2) False by (cases need) (auto simp: rb_inv_def)
    ultimately show ?thesis using iv(1) u(5) by (metis nodes_zip_up)
  qed
  then show ?thesis unfolding rb_tree_def using so' by blast
qed

section \<open>Searching\<close>

lemma strict_order_subset: "strict_order lt S \<Longrightarrow> T \<subseteq> S \<Longrightarrow> strict_order lt T"
  unfolding strict_order_def by blast

lemma strict_orderD:
  assumes "strict_order lt S" "x \<in> S" "y \<in> S"
  shows "\<not> lt x x" "lt x y \<Longrightarrow> \<not> lt y x" "x \<noteq> y \<Longrightarrow> lt x y \<or> lt y x"
  using assms unfolding strict_order_def by blast+

lemma lookup_loop_rep:
  assumes "rep h p q t" "sorted_wrt lt (nodes t)" "strict_order lt (insert k (set (nodes t)))"
  shows "lookup_loop lt k q h = Some (if k \<in> set (nodes t) then k else 0)"
  using assms
proof (induction t arbitrary: p q)
  case Tip then show ?case by (subst lookup_loop.simps) simp
next
  case (Br c l a r)
  have q: "q = a" "a \<noteq> 0" using Br.prems(1) by auto
  have so: "strict_order lt (insert k (set (nodes l)))" "strict_order lt (insert k (set (nodes r)))"
    by (rule strict_order_subset [OF Br.prems(3)]; auto)+
  have ord: "\<And>x. x \<in> set (nodes l) \<Longrightarrow> lt x a" "\<And>x. x \<in> set (nodes r) \<Longrightarrow> lt a x" using Br.prems(2) by (auto simp: sorted_wrt_append)
  have "a \<in> insert k (set (nodes (Br c l a r)))" "k \<in> insert k (set (nodes (Br c l a r)))" by simp_all
  then have so': "\<not> lt a a" "lt k a \<Longrightarrow> \<not> lt a k" "k \<noteq> a \<Longrightarrow> lt k a \<or> lt a k"
    using strict_orderD [OF Br.prems(3)] by blast+
  consider "lt k a" "\<not> lt a k" "k \<noteq> a" | "\<not> lt k a" "lt a k" "k \<noteq> a" | "\<not> lt k a" "\<not> lt a k" "k = a"
    using so' by blast
  then show ?case
  proof cases
    case 1
    then have "k \<notin> set (nodes r)" using ord(2) by blast
    moreover have "lookup_loop lt k (rb_left h a) h = Some (if k \<in> set (nodes l) then k else 0)"
      by (rule Br.IH(1) [OF _ _ so(1)]) (use Br.prems(1,2) in \<open>auto simp: sorted_wrt_append\<close>)
    ultimately show ?thesis using q 1 by (subst lookup_loop.simps) simp
  next
    case 2
    then have "k \<notin> set (nodes l)" using ord(1) by blast
    moreover have "lookup_loop lt k (rb_right h a) h = Some (if k \<in> set (nodes r) then k else 0)"
      by (rule Br.IH(2) [OF _ _ so(2)]) (use Br.prems(1,2) in \<open>auto simp: sorted_wrt_append\<close>)
    ultimately show ?thesis using q 2 by (subst lookup_loop.simps) simp
  next
    case 3 then show ?thesis using q by (subst lookup_loop.simps) simp
  qed
qed

lemma first_loop_rep: "rep h p q t \<Longrightarrow> t \<noteq> Tip \<Longrightarrow> first_loop q h = Some (hd (nodes t))"
proof (induction t arbitrary: p q)
  case (Br c l a r)
  show ?case
  proof (cases "l = Tip")
    case True then show ?thesis using Br.prems by (subst first_loop.simps) simp
  next
    case False
    then have "rb_left h a \<noteq> 0" "nodes l \<noteq> []" using Br.prems rep_null [of h a "rb_left h a" l] by (cases l; auto)+
    then show ?thesis using Br False by (subst first_loop.simps) auto
  qed
qed simp

theorem rb_lookup_tree:
  "rb_tree lt h xs \<Longrightarrow> strict_order lt (insert k (set xs)) \<Longrightarrow> rb_lookup lt k h = Some (if k \<in> set xs then k else 0)"
  by (auto simp: rb_tree_def rb_lookup_def lookup_loop_rep)

theorem rb_first_tree: "rb_tree lt h xs \<Longrightarrow> rb_first h = Some (if xs = [] then 0 else hd xs)"
proof -
  assume "rb_tree lt h xs"
  then obtain t where t: "rep h 0 (rb_root h) t" "nodes t = xs" by (auto simp: rb_tree_def)
  then show ?thesis using rep_null [OF t(1)] first_loop_rep [OF t(1)] by (cases t) (auto simp: rb_first_def)
qed

section \<open>Several trees in one heap\<close>

text \<open>The run queues and timers of all processors share the heap; an operation on one tree leaves the others alone.\<close>

lemma rep_root: "rep (h\<lparr>rb_root := q\<rparr>) p x t = rep h p x t" by (induction t arbitrary: p x) simp_all

lemma rb_tree_other:
  assumes "only S h h'" "set ys \<inter> S = {}" "rb_tree lt (h\<lparr>rb_root := q\<rparr>) ys"
  shows "rb_tree lt (h'\<lparr>rb_root := q\<rparr>) ys"
proof -
  from assms(3) obtain t where t: "rep h 0 q t" "nodes t = ys" "rb_inv t" "distinct ys" "sorted_wrt lt ys"
    by (auto simp: rb_tree_def rep_root)
  then have "rep h' 0 q t" using only_rep [OF assms(1)] assms(2) by simp
  then show ?thesis using t by (auto simp: rb_tree_def rep_root)
qed

lemma rb_tree_cong:
  assumes "rb_tree lt h xs" "\<And>x y. x \<in> set xs \<Longrightarrow> y \<in> set xs \<Longrightarrow> lt x y \<longleftrightarrow> lt' x y"
  shows "rb_tree lt' h xs"
proof -
  have "sorted_wrt lt' xs" using assms unfolding rb_tree_def by (auto simp: sorted_wrt_iff_nth_less)
  then show ?thesis using assms(1) by (auto simp: rb_tree_def)
qed

section \<open>The contract of an ordered set of nodes\<close>

text \<open>
  What the scheduler and the timers rely on. \<^verbatim>\<open>keeps lt h xs\<close> says that the heap holds exactly these nodes,
  in this order.
\<close>

locale ordered_nodes =
  fixes keeps :: "(u64 \<Rightarrow> u64 \<Rightarrow> bool) \<Rightarrow> 'h \<Rightarrow> u64 list \<Rightarrow> bool"
    and ins :: "(u64 \<Rightarrow> u64 \<Rightarrow> bool) \<Rightarrow> u64 \<Rightarrow> 'h \<Rightarrow> (int \<times> 'h) outcome option"
    and del :: "u64 \<Rightarrow> 'h \<Rightarrow> 'h outcome option"
    and least :: "'h \<Rightarrow> u64 option"
    and within :: "u64 set \<Rightarrow> 'h \<Rightarrow> 'h \<Rightarrow> bool"
  assumes ins_law: "keeps lt h xs \<Longrightarrow> n \<noteq> 0 \<Longrightarrow> al n \<Longrightarrow> n \<notin> set xs \<Longrightarrow> strict_order lt (insert n (set xs)) \<Longrightarrow>
      \<exists>h'. ins lt n h = Some (Ret (0, h')) \<and> keeps lt h' (put lt n xs) \<and> within (insert n (set xs)) h h'"
    and del_law: "keeps lt h xs \<Longrightarrow> n \<in> set xs \<Longrightarrow>
      \<exists>h'. del n h = Some (Ret h') \<and> keeps lt h' (remove1 n xs) \<and> within (set xs) h h'"
    and least_law: "keeps lt h xs \<Longrightarrow> least h = Some (if xs = [] then 0 else hd xs)"
    and keeps_sorted: "keeps lt h xs \<Longrightarrow> sorted_wrt lt xs \<and> distinct xs \<and> (\<forall>x\<in>set xs. x \<noteq> 0 \<and> al x)"
begin

text \<open>The first node is smaller than all others, and taking it away leaves the rest.\<close>

lemma least_least:
  assumes "keeps lt h xs" "xs \<noteq> []"
  shows "\<exists>x. least h = Some x \<and> x \<in> set xs \<and> (\<forall>y\<in>set xs - {x}. lt x y)"
  using assms keeps_sorted [OF assms(1)] least_law [OF assms(1)] by (cases xs) auto

lemma del_least:
  assumes "keeps lt h (x # xs)"
  shows "least h = Some x \<and> (\<exists>h'. del x h = Some (Ret h') \<and> keeps lt h' xs \<and> within (set (x # xs)) h h')"
  using least_law [OF assms] del_law [OF assms, of x] by simp

text \<open>A node that is added and taken away leaves the nodes as they were.\<close>

lemma ins_del:
  assumes "keeps lt h xs" "n \<noteq> 0" "al n" "n \<notin> set xs" "strict_order lt (insert n (set xs))"
  shows "\<exists>h' h2. ins lt n h = Some (Ret (0, h')) \<and> del n h' = Some (Ret h2) \<and> keeps lt h2 xs"
proof -
  obtain h' where h': "ins lt n h = Some (Ret (0, h'))" "keeps lt h' (put lt n xs)" using ins_law [OF assms] by blast
  obtain h2 where "del n h' = Some (Ret h2)" "keeps lt h2 (remove1 n (put lt n xs))" using del_law [OF h'(2), of n] by auto
  moreover have "remove1 n (put lt n xs) = xs"
  proof -
    have "n \<notin> set (takeWhile (\<lambda>x. lt x n) xs)" using assms(4) set_takeWhileD by fast
    then show ?thesis unfolding put_def by (simp add: remove1_append)
  qed
  ultimately show ?thesis using h'(1) by auto
qed

end

interpretation rbq: ordered_nodes rb_tree rbtree_insert rbtree_erase rbtree_first only
proof
  show "sorted_wrt lt xs \<and> distinct xs \<and> (\<forall>x\<in>set xs. x \<noteq> 0 \<and> al x)" if "rb_tree lt h xs" for lt h xs
    using that rep_nonnull unfolding rb_tree_def by blast
qed (simp_all add: rbtree_insert_def rbtree_erase_def rbtree_first_def rb_insert_tree rb_erase_tree rb_first_tree)

section \<open>Correctness\<close>

definition demo_heap :: rb_heap where
  "demo_heap = \<lparr>parent_color = (\<lambda>a. if a = 0x3000 then 0x2000 else if a = 0x2000 then 1 else 0), rb_right = (\<lambda>a. if a = 0x2000 then 0x3000 else 0),
     rb_left = (\<lambda>a. 0), rb_root = 0x2000\<rparr>"

lemma demo_heap_tree: "rb_tree (<) demo_heap [0x2000, 0x3000]"
proof -
  have "rep demo_heap 0 (rb_root demo_heap) (Br Black Tip 0x2000 (Br Red Tip 0x3000 Tip))"
    by (simp add: demo_heap_def al_def RB_BLACK_def take_bit_eq_mod)
  then show ?thesis unfolding rb_tree_def
    by (intro conjI exI [of _ "Br Black Tip 0x2000 (Br Red Tip 0x3000 Tip)"]) (simp_all add: rb_inv_def)
qed

lemma word_strict_order: "strict_order ((<) :: u64 \<Rightarrow> u64 \<Rightarrow> bool) S" by (auto simp: strict_order_def)

text \<open>
  C10: inserting a node that is not in the tree, with a comparison that orders the nodes strictly, always
  ends and returns 0. The result is again a red-black tree (black root, no red node with a red child, equally
  many black nodes on all paths) with consistent parent pointers, whose nodes in order are the old ones with
  the new one at its place, and no other node of the heap has changed.
\<close>

theorem rbtree_insert_correct:
  assumes "rb_tree cmp h xs" and "n \<noteq> 0" and "al n" and "n \<notin> set xs" and "strict_order cmp (insert n (set xs))"
  shows "\<exists>h'. rbtree_insert cmp n h = Some (Ret (0, h')) \<and> rb_tree cmp h' (put cmp n xs) \<and> only (insert n (set xs)) h h'"
  by (rule rbq.ins_law [OF assms])

theorem rbtree_insert_correct_witness:
  "\<exists>h'. rbtree_insert (<) 0x2800 demo_heap = Some (Ret (0, h')) \<and> rb_tree (<) h' [0x2000, 0x2800, 0x3000] \<and>
     only {0x2000, 0x2800, 0x3000} demo_heap h'"
  using rbtree_insert_correct [OF demo_heap_tree, of "0x2800"] word_strict_order
  by (auto simp: al_def take_bit_eq_mod put_def insert_commute)

text \<open>
  C11: removing a node of the tree always ends, and the result is again a red-black tree with the remaining
  nodes in the same order; no other node of the heap has changed.
\<close>

theorem rbtree_erase_correct:
  assumes "rb_tree cmp h xs" and "n \<in> set xs"
  shows "\<exists>h'. rbtree_erase n h = Some (Ret h') \<and> rb_tree cmp h' (remove1 n xs) \<and> only (set xs) h h'"
  by (rule rbq.del_law [OF assms])

theorem rbtree_erase_correct_witness:
  "\<exists>h'. rbtree_erase 0x2000 demo_heap = Some (Ret h') \<and> rb_tree (<) h' [0x3000] \<and> only {0x2000, 0x3000} demo_heap h'"
  using rbtree_erase_correct [OF demo_heap_tree, of "0x2000"] by simp



end
