(* ===== verification/Timer.thy ===== *)
theory Timer
  imports Rbtree_Props
begin

text \<open>
  The clock of \<^verbatim>\<open>src/src/driver/clock.c\<close> and the timers of one processor in \<^verbatim>\<open>src/src/kernel/cpu.c\<close>. A timer is
  known by the address of its tree node. The counter register is an input: the value of its \<open>n\<close>-th read.
  The handlers of the timers are parameters and act on the timers and on a further state of their own.
\<close>

section \<open>The clock\<close>

record timer =
  triggered :: bool
  elapse :: int
  tkey :: u64
  handler :: nat
  tdata :: u64

record clock =
  timers :: "u64 \<Rightarrow> timer"
  tnodes :: rb_heap
  one_ms :: u64
  tval :: u64
  counts :: nat

text \<open>\<open>counts\<close> is the number of reads of the counter so far, \<open>tval\<close> the countdown the hardware runs.\<close>

definition get_timestamp_ms :: "(nat \<Rightarrow> u64) \<Rightarrow> clock \<Rightarrow> (u64 \<times> clock) outcome" where
  "get_timestamp_ms counter c =
     (if one_ms c = 0 then Undef
      else Ret (counter (counts c) div one_ms c, c\<lparr>counts := counts c + 1\<rparr>))"

definition reset_clock :: "u64 \<Rightarrow> clock \<Rightarrow> clock outcome" where
  "reset_clock countdown_ms c =
     (let t = countdown_ms * one_ms c in
      andthen (ASSERT (t \<le> 0x7fffffff)) (\<lambda>_. Ret (c\<lparr>tval := t\<rparr>)))"

definition init_clock :: "u64 \<Rightarrow> clock \<Rightarrow> clock outcome" where
  "init_clock frequency c = reset_clock 1000 (c\<lparr>one_ms := frequency div 1000\<rparr>)"

section \<open>Timers\<close>

definition timer_cmp :: "(u64 \<Rightarrow> timer) \<Rightarrow> u64 \<Rightarrow> u64 \<Rightarrow> bool" where
  "timer_cmp tm lnode rnode =
     (let d = sint (tkey (tm lnode) - tkey (tm rnode)) in
      if d < 0 then True else if d = 0 then lnode < rnode else False)"

definition upd_timer :: "u64 \<Rightarrow> (timer \<Rightarrow> timer) \<Rightarrow> clock \<Rightarrow> clock" where
  "upd_timer a f c = c\<lparr>timers := (timers c)(a := f (timers c a))\<rparr>"

definition timer_set_clock :: "(nat \<Rightarrow> u64) \<Rightarrow> clock \<Rightarrow> clock outcome option" where
  "timer_set_clock counter c =
     (case rb_first (tnodes c) of
        None \<Rightarrow> None
      | Some node \<Rightarrow>
          Some (if node = 0 then reset_clock 1000 c
                else
                  let t1 = tkey (timers c node) in
                  andthen (get_timestamp_ms counter c) (\<lambda>(t0, c).
                    if t1 \<le> t0 then reset_clock 0 c else reset_clock (t1 - t0) c)))"

definition set_cpu_timer :: "(nat \<Rightarrow> u64) \<Rightarrow> u64 \<Rightarrow> clock \<Rightarrow> clock outcome option" where
  "set_cpu_timer counter a c =
     (let c = upd_timer a (\<lambda>t. t\<lparr>triggered := False\<rparr>) c in
      run_then (Some (get_timestamp_ms counter c)) (\<lambda>(t0, c).
        let c = upd_timer a (\<lambda>t. t\<lparr>tkey := t0 + of_int (elapse t)\<rparr>) c in
        run_then (rb_insert (timer_cmp (timers c)) a (tnodes c)) (\<lambda>(r, h).
          run_then (Some (ASSERT (r = 0))) (\<lambda>_. timer_set_clock counter (c\<lparr>tnodes := h\<rparr>)))))"

definition cancel_cpu_timer :: "(nat \<Rightarrow> u64) \<Rightarrow> u64 \<Rightarrow> clock \<Rightarrow> clock outcome option" where
  "cancel_cpu_timer counter a c =
     run_then (Some (ASSERT (\<not> triggered (timers c a)))) (\<lambda>_.
       run_then (rb_erase a (tnodes c)) (\<lambda>h. timer_set_clock counter (c\<lparr>tnodes := h\<rparr>)))"

text \<open>The loop of \<^verbatim>\<open>timer_clock_handler\<close>; \<open>call\<close> runs a handler.\<close>

partial_function (option) timer_clock_handler ::
  "(nat \<Rightarrow> u64) \<Rightarrow> (nat \<Rightarrow> u64 \<Rightarrow> clock \<times> 'w \<Rightarrow> (clock \<times> 'w) outcome option) \<Rightarrow> clock \<times> 'w \<Rightarrow> (clock \<times> 'w) outcome option" where
  "timer_clock_handler counter call s =
     (case rb_first (tnodes (fst s)) of
        None \<Rightarrow> None
      | Some node \<Rightarrow>
          if node = 0 then Some (Ret s)
          else
            run_then (Some (get_timestamp_ms counter (fst s))) (\<lambda>p.
              if fst p < tkey (timers (snd p) node) then Some (Ret (snd p, snd s))
              else
                run_then (cancel_cpu_timer counter node (snd p)) (\<lambda>c.
                  run_then (call (handler (timers c node)) node (upd_timer node (\<lambda>t. t\<lparr>triggered := True\<rparr>) c, snd s))
                    (timer_clock_handler counter call))))"

text \<open>The handler of the timer that counts the life of a processor.\<close>

definition hello :: "(nat \<Rightarrow> u64) \<Rightarrow> u64 \<Rightarrow> u64 \<Rightarrow> clock \<Rightarrow> clock outcome option" where
  "hello counter hello_timer t c = set_cpu_timer counter hello_timer (upd_timer t (\<lambda>t. t\<lparr>tdata := tdata t + 1\<rparr>) c)"

section \<open>The order of the timers\<close>

definition KEY_MAX :: u64 where "KEY_MAX = 0x8000000000000000"

lemma sint_small:
  assumes "a < KEY_MAX" shows "sint (a :: u64) = uint a"
proof -
  have "uint a < uint (0x8000000000000000 :: u64)" using assms unfolding KEY_MAX_def by (simp only: word_less_def)
  then have u: "uint a < 2 ^ 63" by simp
  have l: "LENGTH(64) - Suc 0 = 63" by simp
  have "sint a = signed_take_bit 63 (uint a)" unfolding sint_uint l by (rule refl)
  also have "\<dots> = uint a" by (rule signed_take_bit_int_eq_self) (use u uint_ge_0 [of a] in linarith)+
  finally show ?thesis .
qed

lemma sint_diff_small:
  assumes "a < KEY_MAX" "b < KEY_MAX"
  shows "sint (a - b :: u64) = uint a - uint b"
proof -
  have "uint a < uint (0x8000000000000000 :: u64)" "uint b < uint (0x8000000000000000 :: u64)"
    using assms unfolding KEY_MAX_def by (simp_all only: word_less_def)
  then have u: "uint a < 2 ^ 63" "uint b < 2 ^ 63" by simp_all
  have l: "LENGTH(64) - 1 = 63" by simp
  have "sint (a - b) = signed_take_bit 63 (sint a - sint b)" using sint_word_ariths(2) [of a b] unfolding l .
  also have "\<dots> = signed_take_bit 63 (uint a - uint b)" unfolding sint_small [OF assms(1)] sint_small [OF assms(2)] ..
  also have "\<dots> = uint a - uint b"
    by (rule signed_take_bit_int_eq_self) (use u uint_ge_0 [of a] uint_ge_0 [of b] in linarith)+
  finally show ?thesis .
qed

text \<open>As long as no deadline has the top bit, the signed difference orders timers by deadline and address.\<close>

lemma timer_cmp_iff:
  assumes "tkey (tm x) < KEY_MAX" "tkey (tm y) < KEY_MAX"
  shows "timer_cmp tm x y \<longleftrightarrow> tkey (tm x) < tkey (tm y) \<or> tkey (tm x) = tkey (tm y) \<and> x < y"
proof -
  have "sint (tkey (tm x) - tkey (tm y)) < 0 \<longleftrightarrow> tkey (tm x) < tkey (tm y)"
    "sint (tkey (tm x) - tkey (tm y)) = 0 \<longleftrightarrow> tkey (tm x) = tkey (tm y)"
    unfolding sint_diff_small [OF assms] word_less_def by (auto simp: word_uint_eq_iff)
  then show ?thesis unfolding timer_cmp_def Let_def by simp
qed

lemma timer_cmp_strict:
  assumes "\<forall>x\<in>S. tkey (tm x) < KEY_MAX"
  shows "strict_order (timer_cmp tm) S"
proof -
  have c: "timer_cmp tm x y \<longleftrightarrow> tkey (tm x) < tkey (tm y) \<or> tkey (tm x) = tkey (tm y) \<and> x < y" if "x \<in> S" "y \<in> S" for x y
    using timer_cmp_iff assms that by blast
  show ?thesis unfolding strict_order_def by (intro conjI ballI impI) (auto simp: c)
qed

section \<open>Timers in the tree\<close>

definition timer_tree :: "clock \<Rightarrow> u64 list \<Rightarrow> bool" where
  "timer_tree c xs \<longleftrightarrow> rb_tree (timer_cmp (timers c)) (tnodes c) xs \<and>
     (\<forall>x\<in>set xs. tkey (timers c x) < KEY_MAX \<and> \<not> triggered (timers c x))"

text \<open>The time in milliseconds at the \<open>n\<close>-th read of the counter.\<close>

definition now :: "(nat \<Rightarrow> u64) \<Rightarrow> clock \<Rightarrow> nat \<Rightarrow> nat" where
  "now counter c n = unat (counter n) div unat (one_ms c)"

text \<open>The countdown register holds 31 bits: every deadline is near enough, and so is a second.\<close>

definition in_reach :: "(nat \<Rightarrow> u64) \<Rightarrow> clock \<Rightarrow> nat \<Rightarrow> bool" where
  "in_reach counter c k \<longleftrightarrow> (\<forall>n\<ge>counts c. (k - now counter c n) * unat (one_ms c) \<le> 0x7fffffff)"

definition clock_ok :: "(nat \<Rightarrow> u64) \<Rightarrow> clock \<Rightarrow> u64 list \<Rightarrow> bool" where
  "clock_ok counter c xs \<longleftrightarrow> one_ms c \<noteq> 0 \<and> 1000 * unat (one_ms c) \<le> 0x7fffffff \<and>
     (\<forall>x\<in>set xs. in_reach counter c (unat (tkey (timers c x))))"

lemma get_timestamp_ok:
  assumes "one_ms c \<noteq> 0"
  obtains t where "get_timestamp_ms counter c = Ret (t, c\<lparr>counts := counts c + 1\<rparr>)" "unat t = now counter c (counts c)"
  using assms that by (auto simp: get_timestamp_ms_def now_def unat_div_distrib)

lemma reset_clock_ok:
  assumes "unat ms * unat (one_ms c) \<le> 0x7fffffff"
  shows "\<exists>v. reset_clock ms c = Ret (c\<lparr>tval := v\<rparr>) \<and> unat v = unat ms * unat (one_ms c)"
proof -
  have "unat (ms * one_ms c) = unat ms * unat (one_ms c)"
    using assms by (intro unat_mult_lem [THEN iffD1]) (auto intro: le_less_trans)
  then show ?thesis using assms by (auto simp: reset_clock_def Let_def word_le_nat_alt)
qed

text \<open>Programming the countdown: it is the time left until the first deadline.\<close>

definition countdown :: "(nat \<Rightarrow> u64) \<Rightarrow> clock \<Rightarrow> nat \<Rightarrow> u64 list \<Rightarrow> nat" where
  "countdown counter c n xs =
     (case xs of [] \<Rightarrow> 1000 | x # _ \<Rightarrow> unat (tkey (timers c x)) - now counter c n) * unat (one_ms c)"

lemma timer_set_clock_ok:
  assumes t: "timer_tree c xs" and ok: "clock_ok counter c xs"
  shows "\<exists>v. timer_set_clock counter c = Some (Ret (c\<lparr>counts := counts c + (if xs = [] then 0 else 1), tval := v\<rparr>)) \<and>
    unat v = countdown counter c (counts c) xs"
proof -
  have f: "rb_first (tnodes c) = Some (if xs = [] then 0 else hd xs)" using t rb_first_tree by (auto simp: timer_tree_def)
  have nz: "x \<noteq> 0" if "x \<in> set xs" for x using t rbq.keeps_sorted that by (auto simp: timer_tree_def)
  show ?thesis
  proof (cases xs)
    case Nil
    have "unat (1000 :: u64) * unat (one_ms c) \<le> 0x7fffffff" using ok by (simp add: clock_ok_def)
    from reset_clock_ok [OF this] show ?thesis using f Nil by (auto simp: timer_set_clock_def countdown_def)
  next
    case (Cons x ys)
    have x: "x \<noteq> 0" "rb_first (tnodes c) = Some x" using nz f Cons by auto
    obtain t where g: "get_timestamp_ms counter c = Ret (t, c\<lparr>counts := counts c + 1\<rparr>)" "unat t = now counter c (counts c)"
      using get_timestamp_ok ok by (auto simp: clock_ok_def)
    let ?m = "if tkey (timers c x) \<le> t then 0 else tkey (timers c x) - t"
    have m: "unat ?m = unat (tkey (timers c x)) - now counter c (counts c)"
      using g(2) by (auto simp: word_le_nat_alt unat_sub)
    moreover have "(unat (tkey (timers c x)) - now counter c (counts c)) * unat (one_ms c) \<le> 0x7fffffff"
      using ok Cons by (auto simp: clock_ok_def in_reach_def)
    ultimately have "unat ?m * unat (one_ms (c\<lparr>counts := counts c + 1\<rparr>)) \<le> 0x7fffffff" by simp
    from reset_clock_ok [OF this] obtain v where v: "reset_clock ?m (c\<lparr>counts := counts c + 1\<rparr>) = Ret (c\<lparr>counts := counts c + 1, tval := v\<rparr>)"
      "unat v = unat ?m * unat (one_ms c)" by auto
    have "timer_set_clock counter c = Some (reset_clock ?m (c\<lparr>counts := counts c + 1\<rparr>))"
      using x g by (simp add: timer_set_clock_def Let_def)
    then show ?thesis using v m Cons by (auto simp: countdown_def)
  qed
qed

text \<open>Changing what the order does not depend on.\<close>

lemma timer_tree_cong:
  assumes "timer_tree c xs" "tnodes c' = tnodes c" "\<And>x. x \<in> set xs \<Longrightarrow> timers c' x = timers c x"
  shows "timer_tree c' xs"
proof -
  have "rb_tree (timer_cmp (timers c')) (tnodes c') xs"
    using rb_tree_cong [of "timer_cmp (timers c)" "tnodes c" xs "timer_cmp (timers c')"] assms
    by (simp add: timer_tree_def timer_cmp_def)
  then show ?thesis using assms by (simp add: timer_tree_def)
qed

lemma clock_ok_mono:
  assumes "clock_ok counter c xs" "one_ms c' = one_ms c" "counts c \<le> counts c'" "set ys \<subseteq> set xs"
    "\<And>x. x \<in> set ys \<Longrightarrow> tkey (timers c' x) = tkey (timers c x)"
  shows "clock_ok counter c' ys"
  using assms by (auto simp: clock_ok_def in_reach_def now_def)

lemma cancel_cpu_timer_ok:
  assumes t: "timer_tree c xs" and ok: "clock_ok counter c xs" and a: "a \<in> set xs"
  shows "\<exists>h v. cancel_cpu_timer counter a c =
      Some (Ret (c\<lparr>tnodes := h, counts := counts c + (if remove1 a xs = [] then 0 else 1), tval := v\<rparr>)) \<and>
    timer_tree (c\<lparr>tnodes := h\<rparr>) (remove1 a xs) \<and> unat v = countdown counter c (counts c) (remove1 a xs)"
proof -
  have tr: "rb_tree (timer_cmp (timers c)) (tnodes c) xs" "\<not> triggered (timers c a)" using t a by (auto simp: timer_tree_def)
  obtain h where h: "rb_erase a (tnodes c) = Some (Ret h)" "rb_tree (timer_cmp (timers c)) h (remove1 a xs)"
    using rb_erase_tree [OF tr(1) a] by blast
  have "timer_tree (c\<lparr>tnodes := h\<rparr>) (remove1 a xs)"
    using t h(2) set_remove1_subset [of a xs] by (auto simp: timer_tree_def)
  moreover have "clock_ok counter (c\<lparr>tnodes := h\<rparr>) (remove1 a xs)"
    by (rule clock_ok_mono [OF ok]) (use set_remove1_subset [of a xs] in auto)
  moreover have "cancel_cpu_timer counter a c = timer_set_clock counter (c\<lparr>tnodes := h\<rparr>)"
    using h(1) tr(2) by (simp add: cancel_cpu_timer_def)
  ultimately show ?thesis using timer_set_clock_ok [of "c\<lparr>tnodes := h\<rparr>" "remove1 a xs" counter]
    by (fastforce simp: countdown_def now_def split: list.splits)
qed

lemma unat_KEY_MAX: "unat KEY_MAX = 2 ^ 63" by (simp add: KEY_MAX_def)

section \<open>Setting a timer\<close>

lemma set_cpu_timer_ok:
  assumes t: "timer_tree c xs" and ok: "clock_ok counter c xs"
    and a: "a \<noteq> 0" "al a" "a \<notin> set xs" and e: "0 \<le> elapse (timers c a)"
    and k: "now counter c (counts c) + nat (elapse (timers c a)) < 2 ^ 63"
    and r: "in_reach counter c (now counter c (counts c) + nat (elapse (timers c a)))"
  shows "\<exists>c'. set_cpu_timer counter a c = Some (Ret c') \<and>
    unat (tkey (timers c' a)) = now counter c (counts c) + nat (elapse (timers c a)) \<and>
    timer_tree c' (put (timer_cmp (timers c')) a xs) \<and> counts c' = counts c + 2 \<and>
    unat (tval c') = countdown counter c' (counts c + 1) (put (timer_cmp (timers c')) a xs) \<and>
    clock_ok counter c' (put (timer_cmp (timers c')) a xs) \<and> one_ms c' = one_ms c \<and>
    timers c' = (timers c)(a := (timers c a)\<lparr>triggered := False, tkey := tkey (timers c' a)\<rparr>)"
proof -
  let ?c0 = "upd_timer a (\<lambda>t. t\<lparr>triggered := False\<rparr>) c"
  have "one_ms ?c0 \<noteq> 0" using ok by (simp add: upd_timer_def clock_ok_def)
  then obtain t0 where g: "get_timestamp_ms counter ?c0 = Ret (t0, ?c0\<lparr>counts := counts c + 1\<rparr>)" "unat t0 = now counter c (counts c)"
    using get_timestamp_ok [of ?c0 counter] by (auto simp: upd_timer_def now_def)
  define key where "key = t0 + of_int (elapse (timers c a))"
  define c1 where "c1 = c\<lparr>counts := counts c + 1, timers := (timers c)(a := (timers c a)\<lparr>triggered := False, tkey := key\<rparr>)\<rparr>"
  have "of_int (elapse (timers c a)) = (of_nat (nat (elapse (timers c a))) :: u64)" using e by simp
  moreover have "nat (elapse (timers c a)) < 2 ^ 64" using k by simp
  ultimately have "unat (of_int (elapse (timers c a)) :: u64) = nat (elapse (timers c a))" by (simp add: unat_of_nat)
  then have key: "unat key = now counter c (counts c) + nat (elapse (timers c a))"
    using g(2) k unfolding key_def by (simp add: unat_word_ariths)
  then have key': "key < KEY_MAX" using k by (simp add: word_less_nat_alt unat_KEY_MAX)
  have c1: "timer_tree c1 xs" by (rule timer_tree_cong [OF t]) (use a(3) in \<open>auto simp: c1_def\<close>)
  then have keys: "\<forall>x\<in>insert a (set xs). tkey (timers c1 x) < KEY_MAX" using key' by (auto simp: timer_tree_def c1_def)
  have "rb_tree (timer_cmp (timers c1)) (tnodes c1) xs" using c1 by (simp add: timer_tree_def)
  from rb_insert_tree [OF this a timer_cmp_strict [OF keys]]
  obtain h where h: "rb_insert (timer_cmp (timers c1)) a (tnodes c1) = Some (Ret (0, h))"
    "rb_tree (timer_cmp (timers c1)) h (put (timer_cmp (timers c1)) a xs)" by blast
  define ys where "ys = put (timer_cmp (timers c1)) a xs"
  have ys: "set ys = insert a (set xs)" "ys \<noteq> []" unfolding ys_def by (simp, simp add: put_def)
  have t2: "timer_tree (c1\<lparr>tnodes := h\<rparr>) ys" using h(2) c1 key' unfolding timer_tree_def ys_def by (auto simp: c1_def)
  have "in_reach counter c1 (unat (tkey (timers c1 x)))" if "x \<in> insert a (set xs)" for x
    using that ok r key by (auto simp: clock_ok_def in_reach_def c1_def now_def)
  then have k2: "clock_ok counter (c1\<lparr>tnodes := h\<rparr>) ys" using ok ys by (auto simp: clock_ok_def c1_def in_reach_def now_def)
  from timer_set_clock_ok [OF t2 k2] ys obtain v where
    v: "timer_set_clock counter (c1\<lparr>tnodes := h\<rparr>) = Some (Ret (c1\<lparr>tnodes := h, counts := counts c1 + 1, tval := v\<rparr>))"
      "unat v = countdown counter (c1\<lparr>tnodes := h\<rparr>) (counts c1) ys" by auto
  have "set_cpu_timer counter a c = timer_set_clock counter (c1\<lparr>tnodes := h\<rparr>)"
    using g(1) h(1) by (simp add: set_cpu_timer_def Let_def upd_timer_def key_def c1_def)
  moreover have "timer_tree (c1\<lparr>tnodes := h, counts := counts c1 + 1, tval := v\<rparr>) ys" by (rule timer_tree_cong [OF t2]) auto
  moreover have "clock_ok counter (c1\<lparr>tnodes := h, counts := counts c1 + 1, tval := v\<rparr>) ys" by (rule clock_ok_mono [OF k2]) auto
  ultimately show ?thesis using v key
    by (auto simp: ys_def c1_def countdown_def now_def split: list.splits)
qed

text \<open>
  C24: setting a timer that is not pending puts it among the pending ones, ordered by deadline, with the
  deadline \<^verbatim>\<open>elapse\<close> milliseconds after the time read first, and programs the hardware countdown with
  exactly the time from the second read to the earliest deadline of all. This needs that the deadlines have
  no top bit and lie within the 31 bits of the countdown register.
\<close>

theorem set_cpu_timer_arms:
  assumes t: "timer_tree c xs" and ok: "clock_ok counter c xs"
    and a: "a \<noteq> 0" "al a" "a \<notin> set xs" and e: "0 \<le> elapse (timers c a)"
    and k: "now counter c (counts c) + nat (elapse (timers c a)) < 2 ^ 63"
    and r: "in_reach counter c (now counter c (counts c) + nat (elapse (timers c a)))"
  shows "\<exists>c'. set_cpu_timer counter a c = Some (Ret c') \<and>
    unat (tkey (timers c' a)) = now counter c (counts c) + nat (elapse (timers c a)) \<and>
    timer_tree c' (put (timer_cmp (timers c')) a xs) \<and> counts c' = counts c + 2 \<and>
    unat (tval c') = countdown counter c' (counts c + 1) (put (timer_cmp (timers c')) a xs)"
  using set_cpu_timer_ok [OF assms] by blast

section \<open>The clock interrupt\<close>

lemma now_mono: "mono counter \<Longrightarrow> m \<le> n \<Longrightarrow> now counter c m \<le> now counter c n"
  by (simp add: now_def mono_def div_le_mono word_le_nat_alt [symmetric])

text \<open>Handlers that leave the timers alone: \<open>act\<close> is what they do to the rest of the state.\<close>

definition quiet :: "(nat \<Rightarrow> u64 \<Rightarrow> 'w \<Rightarrow> 'w) \<Rightarrow> nat \<Rightarrow> u64 \<Rightarrow> clock \<times> 'w \<Rightarrow> (clock \<times> 'w) outcome option" where
  "quiet act f a s = Some (Ret (fst s, act f a (snd s)))"

text \<open>One turn of the loop.\<close>

lemma handler_turn:
  assumes t: "timer_tree c (a # xs)" and ok: "clock_ok counter c (a # xs)"
  shows "now counter c (counts c) < unat (tkey (timers c a)) \<Longrightarrow>
      timer_clock_handler counter (quiet act) (c, w) = Some (Ret (c\<lparr>counts := counts c + 1\<rparr>, w))"
    and "unat (tkey (timers c a)) \<le> now counter c (counts c) \<Longrightarrow>
      \<exists>c'. timer_clock_handler counter (quiet act) (c, w) = timer_clock_handler counter (quiet act) (c', act (handler (timers c a)) a w) \<and>
        timer_tree c' xs \<and> clock_ok counter c' xs \<and> one_ms c' = one_ms c \<and> counts c < counts c' \<and>
        timers c' = (timers c)(a := (timers c a)\<lparr>triggered := True\<rparr>) \<and> (xs = [] \<longrightarrow> counts c' = counts c + 1)"
proof -
  have f: "rb_first (tnodes c) = Some a" "a \<noteq> 0" "a \<notin> set xs"
    using t rb_first_tree [of _ "tnodes c" "a # xs"] rbq.keeps_sorted [of _ "tnodes c" "a # xs"] by (auto simp: timer_tree_def)
  obtain t0 where g: "get_timestamp_ms counter c = Ret (t0, c\<lparr>counts := counts c + 1\<rparr>)" "unat t0 = now counter c (counts c)"
    using get_timestamp_ok [of c counter] ok by (auto simp: clock_ok_def)
  note unf = timer_clock_handler.simps [of counter "quiet act" "(c, w)"]
  show "timer_clock_handler counter (quiet act) (c, w) = Some (Ret (c\<lparr>counts := counts c + 1\<rparr>, w))"
    if "now counter c (counts c) < unat (tkey (timers c a))"
    using that unf f g by (simp add: word_less_nat_alt)
  let ?c1 = "c\<lparr>counts := counts c + 1\<rparr>"
  have t1: "timer_tree ?c1 (a # xs)" by (rule timer_tree_cong [OF t]) auto
  have ok1: "clock_ok counter ?c1 (a # xs)" by (rule clock_ok_mono [OF ok]) auto
  obtain h v where h: "cancel_cpu_timer counter a ?c1 =
      Some (Ret (?c1\<lparr>tnodes := h, counts := counts ?c1 + (if xs = [] then 0 else 1), tval := v\<rparr>))" "timer_tree (?c1\<lparr>tnodes := h\<rparr>) xs"
    using cancel_cpu_timer_ok [OF t1 ok1, of a] by auto
  let ?c2 = "?c1\<lparr>tnodes := h, counts := counts ?c1 + (if xs = [] then 0 else 1), tval := v\<rparr>"
  let ?c3 = "upd_timer a (\<lambda>t. t\<lparr>triggered := True\<rparr>) ?c2"
  show "\<exists>c'. timer_clock_handler counter (quiet act) (c, w) = timer_clock_handler counter (quiet act) (c', act (handler (timers c a)) a w) \<and>
        timer_tree c' xs \<and> clock_ok counter c' xs \<and> one_ms c' = one_ms c \<and> counts c < counts c' \<and>
        timers c' = (timers c)(a := (timers c a)\<lparr>triggered := True\<rparr>) \<and> (xs = [] \<longrightarrow> counts c' = counts c + 1)"
    if due: "unat (tkey (timers c a)) \<le> now counter c (counts c)"
  proof (intro exI conjI)
    show "timer_clock_handler counter (quiet act) (c, w) = timer_clock_handler counter (quiet act) (?c3, act (handler (timers c a)) a w)"
      using unf f g due h(1) by (simp add: word_less_nat_alt quiet_def)
    show "timer_tree ?c3 xs" by (rule timer_tree_cong [OF h(2)]) (use f(3) in \<open>auto simp: upd_timer_def\<close>)
    show "clock_ok counter ?c3 xs" by (rule clock_ok_mono [OF ok]) (use f(3) in \<open>auto simp: upd_timer_def\<close>)
  qed (auto simp: upd_timer_def)
qed

lemma handler_loop:
  assumes "timer_tree c xs" and "clock_ok counter c xs" and m: "mono counter"
  shows "\<exists>due rest c'. xs = due @ rest \<and> counts c \<le> counts c' \<and> (\<forall>x. x \<notin> set due \<longrightarrow> timers c' x = timers c x) \<and>
    timer_clock_handler counter (quiet act) (c, w) = Some (Ret (c', fold (\<lambda>a. act (handler (timers c a)) a) due w)) \<and>
    timer_tree c' rest \<and> (\<forall>a\<in>set due. triggered (timers c' a) \<and> unat (tkey (timers c a)) \<le> now counter c (counts c' - 1)) \<and>
    (\<forall>a\<in>set rest. now counter c (counts c' - 1) < unat (tkey (timers c a)))"
  using assms(1,2)
proof (induction xs arbitrary: c w)
  case Nil
  then have "rb_first (tnodes c) = Some 0" using rb_first_tree by (fastforce simp: timer_tree_def)
  then have "timer_clock_handler counter (quiet act) (c, w) = Some (Ret (c, w))" by (subst timer_clock_handler.simps) simp
  then show ?case using Nil.prems by auto
next
  case (Cons a xs)
  note turn = handler_turn [OF Cons.prems, where act = act and w = w]
  have "rb_tree (timer_cmp (timers c)) (tnodes c) (a # xs)" using Cons.prems(1) by (simp add: timer_tree_def)
  note so = rbq.keeps_sorted [OF this]
  have ks: "\<forall>x\<in>set (a # xs). tkey (timers c x) < KEY_MAX" using Cons.prems(1) by (simp add: timer_tree_def)
  have first: "unat (tkey (timers c a)) \<le> unat (tkey (timers c x))" if "x \<in> set xs" for x
    using so ks that timer_cmp_iff [of "timers c" a x] by (auto simp: word_le_nat_alt [symmetric])
  show ?case
  proof (cases "unat (tkey (timers c a)) \<le> now counter c (counts c)")
    case False
    then have "\<forall>x\<in>set (a # xs). now counter c (counts c) < unat (tkey (timers c x))" using first by fastforce
    moreover have "timer_tree (c\<lparr>counts := counts c + 1\<rparr>) (a # xs)" by (rule timer_tree_cong [OF Cons.prems(1)]) auto
    ultimately show ?thesis using turn(1) False
      by (intro exI [of _ "[]"] exI [of _ "a # xs"] exI [of _ "c\<lparr>counts := counts c + 1\<rparr>"]) auto
  next
    case True
    then obtain c' where c': "timer_clock_handler counter (quiet act) (c, w) =
        timer_clock_handler counter (quiet act) (c', act (handler (timers c a)) a w)"
      "timer_tree c' xs" "clock_ok counter c' xs" "one_ms c' = one_ms c" "counts c < counts c'"
      "timers c' = (timers c)(a := (timers c a)\<lparr>triggered := True\<rparr>)" using turn(2) by blast
    have same: "timers c' x = timers c x" if "x \<in> set xs" for x using c'(6) so that by auto
    have n: "now counter c' = now counter c" using c'(4) by (simp add: now_def fun_eq_iff)
    obtain due rest c2 where r: "xs = due @ rest" "counts c' \<le> counts c2" "\<forall>x. x \<notin> set due \<longrightarrow> timers c2 x = timers c' x"
      "timer_clock_handler counter (quiet act) (c', act (handler (timers c a)) a w) =
        Some (Ret (c2, fold (\<lambda>a. act (handler (timers c' a)) a) due (act (handler (timers c a)) a w)))"
      "timer_tree c2 rest" "\<forall>a\<in>set due. triggered (timers c2 a) \<and> unat (tkey (timers c' a)) \<le> now counter c (counts c2 - 1)"
      "\<forall>a\<in>set rest. now counter c (counts c2 - 1) < unat (tkey (timers c' a))"
      using Cons.IH [OF c'(2,3), of "act (handler (timers c a)) a w"] unfolding n by blast
    have "now counter c (counts c) \<le> now counter c (counts c2 - 1)" using now_mono [OF m] c'(5) r(2) by simp
    moreover have "fold (\<lambda>a. act (handler (timers c' a)) a) due v = fold (\<lambda>a. act (handler (timers c a)) a) due v" for v
      by (rule fold_cong) (use same r(1) in auto)
    moreover have "triggered (timers c2 a)" using r(1,3) so c'(6) by simp
    ultimately show ?thesis using r c' True same so
      by (intro exI [of _ "a # due"] exI [of _ rest] exI [of _ c2]) auto
  qed
qed


section \<open>Example\<close>

text \<open>Two timers, due at 5 and at 20 milliseconds, with a counter that ticks once a millisecond.\<close>

definition demo_clock :: clock where
  "demo_clock =
     \<lparr>timers = (\<lambda>a. \<lparr>triggered = False, elapse = 7, tkey = (if a = 0x2000 then 5 else 20), handler = 0, tdata = 0\<rparr>),
      tnodes = demo_heap, one_ms = 1, tval = 0, counts = 0\<rparr>"

lemma demo_clock_tree: "timer_tree demo_clock [0x2000, 0x3000]"
proof -
  have "rb_tree (timer_cmp (timers demo_clock)) demo_heap [0x2000, 0x3000]"
    by (rule rb_tree_cong [OF demo_heap_tree]) (auto simp: timer_cmp_iff KEY_MAX_def demo_clock_def)
  then show ?thesis by (simp add: timer_tree_def demo_clock_def KEY_MAX_def)
qed

lemma demo_clock_ok: "clock_ok (\<lambda>n. 10) demo_clock [0x2000, 0x3000]"
  by (simp add: clock_ok_def in_reach_def now_def demo_clock_def)


theorem set_cpu_timer_arms_witness:
  "\<exists>c'. set_cpu_timer (\<lambda>n. 10) 0x2800 demo_clock = Some (Ret c') \<and> unat (tkey (timers c' 0x2800)) = 17 \<and> counts c' = 2"
  using set_cpu_timer_arms [OF demo_clock_tree demo_clock_ok, of "0x2800"]
  by (auto simp: demo_clock_def al_def take_bit_eq_mod now_def in_reach_def)

end
