(* ===== verification/Sched.thy ===== *)
theory Sched
  imports Timer Sem Clist
begin

text \<open>
  The scheduler of \<^verbatim>\<open>src/src/proc/sched.c\<close>: one run queue per processor, a red-black tree ordered by the
  time a process has run, and a timer per processor for the time slice. A process is known by the
  address of its node for the run queues. All queues share the nodes, and each has its own root. The
  switch of the page table and of the kernel stack is the change of \<open>running\<close>.
\<close>

section \<open>State\<close>

datatype procstate = UNUSED | RUNNABLE | RUNNING | SLEEPING | DEEPSLEEPING | ZOMBIE

record proc =
  killed :: bool
  idle :: bool
  pid :: int
  exitcode :: int
  kstack :: u64
  pstate :: procstate
  childexit :: semaphore
  children :: klist
  zombie_children :: klist
  parent :: u64
  runtime :: u64

record sched =
  procs :: "u64 \<Rightarrow> proc"
  rnodes :: rb_heap
  roots :: "nat \<Rightarrow> u64"
  running :: "nat \<Rightarrow> u64"
  idle_of :: "nat \<Rightarrow> u64"
  clocks :: "nat \<Rightarrow> clock"

definition NCPU :: nat where "NCPU = 4"
definition SLICE_LEN :: nat where "SLICE_LEN = 1"

text \<open>The number that stands for \<^verbatim>\<open>__sched_handler\<close> among the handlers of timers.\<close>

definition SCHED_HANDLER :: nat where "SCHED_HANDLER = 1"

definition upd_proc :: "u64 \<Rightarrow> (proc \<Rightarrow> proc) \<Rightarrow> sched \<Rightarrow> sched" where
  "upd_proc p f s = s\<lparr>procs := (procs s)(p := f (procs s p))\<rparr>"

section \<open>Run queues\<close>

definition cmp_runtime :: "(u64 \<Rightarrow> proc) \<Rightarrow> u64 \<Rightarrow> u64 \<Rightarrow> bool" where
  "cmp_runtime ps n1 n2 =
     (if runtime (ps n1) = runtime (ps n2) then pid (ps n1) < pid (ps n2) else runtime (ps n1) < runtime (ps n2))"

definition thisproc :: "nat \<Rightarrow> sched \<Rightarrow> u64" where
  "thisproc cpu s = running s cpu"

text \<open>The tree of a queue, and the state with a changed tree.\<close>

definition rq :: "nat \<Rightarrow> sched \<Rightarrow> rb_heap" where
  "rq i s = (rnodes s)\<lparr>rb_root := roots s i\<rparr>"

definition with_rq :: "nat \<Rightarrow> rb_heap \<Rightarrow> sched \<Rightarrow> sched" where
  "with_rq i h s = s\<lparr>rnodes := h, roots := (roots s)(i := rb_root h)\<rparr>"

definition rq_insert :: "nat \<Rightarrow> u64 \<Rightarrow> sched \<Rightarrow> sched outcome option" where
  "rq_insert i p s =
     run_then (rbtree_insert (cmp_runtime (procs s)) p (rq i s)) (\<lambda>r. Some (Ret (with_rq i (snd r) s)))"

definition rq_erase :: "nat \<Rightarrow> u64 \<Rightarrow> sched \<Rightarrow> sched outcome option" where
  "rq_erase i p s = run_then (rbtree_erase p (rq i s)) (\<lambda>h. Some (Ret (with_rq i h s)))"

section \<open>Operations\<close>

definition activate_proc :: "u64 \<Rightarrow> bool \<Rightarrow> sched \<Rightarrow> (bool \<times> sched) outcome option" where
  "activate_proc p onalert s =
     (let st = pstate (procs s p) in
      if onalert \<and> st = DEEPSLEEPING \<or> st = RUNNING \<or> st = RUNNABLE \<or> st = ZOMBIE then Some (Ret (False, s))
      else if st = SLEEPING \<or> st = UNUSED \<or> st = DEEPSLEEPING then
        let s = upd_proc p (\<lambda>r. r\<lparr>pstate := RUNNABLE\<rparr>) s in
        if \<not> idle (procs s p) then
          if pid (procs s p) < 0 then Some Undef
          else run_then (rq_insert (nat (pid (procs s p)) mod NCPU) p s) (\<lambda>s. Some (Ret (True, s)))
        else Some (Ret (True, s))
      else Some (Ret (False, s)))"

definition update_this_state :: "nat \<Rightarrow> procstate \<Rightarrow> sched \<Rightarrow> sched outcome option" where
  "update_this_state cpu new s =
     run_then (Some (ASSERT (new \<noteq> RUNNING))) (\<lambda>_.
       run_then (if new = RUNNABLE \<and> \<not> idle (procs s (thisproc cpu s)) then rq_insert cpu (thisproc cpu s) s else Some (Ret s)) (\<lambda>s.
         run_then (if (new = SLEEPING \<or> new = ZOMBIE) \<and> pstate (procs s (thisproc cpu s)) = RUNNABLE
                   then rq_erase cpu (thisproc cpu s) s else Some (Ret s)) (\<lambda>s.
           Some (Ret (upd_proc (thisproc cpu s) (\<lambda>r. r\<lparr>pstate := new\<rparr>) s)))))"

definition pick_next :: "nat \<Rightarrow> sched \<Rightarrow> u64 outcome option" where
  "pick_next cpu s =
     (case rbtree_first (rq cpu s) of
        None \<Rightarrow> None
      | Some next \<Rightarrow> Some (Ret (if next \<noteq> 0 then next else idle_of s cpu)))"

text \<open>Starting a time slice: the timer of the processor is cancelled if it is pending, and set anew.\<close>

definition arm_slice :: "(nat \<Rightarrow> u64) \<Rightarrow> u64 \<Rightarrow> clock \<Rightarrow> clock outcome option" where
  "arm_slice counter t c =
     run_then (if tdata (timers c t) = 1
               then run_then (cancel_cpu_timer counter t c) (\<lambda>c. Some (Ret (upd_timer t (\<lambda>r. r\<lparr>tdata := 0\<rparr>) c)))
               else Some (Ret c)) (\<lambda>c.
       run_then (set_cpu_timer counter t (upd_timer t (\<lambda>r. r\<lparr>elapse := int SLICE_LEN, handler := SCHED_HANDLER\<rparr>) c)) (\<lambda>c.
         Some (Ret (upd_timer t (\<lambda>r. r\<lparr>tdata := 1\<rparr>) c))))"

definition update_this_proc :: "(nat \<Rightarrow> u64) \<Rightarrow> (nat \<Rightarrow> u64) \<Rightarrow> nat \<Rightarrow> u64 \<Rightarrow> sched \<Rightarrow> sched outcome option" where
  "update_this_proc counter sched_timer cpu p s =
     run_then (arm_slice counter (sched_timer cpu) (clocks s cpu)) (\<lambda>c.
       let s = s\<lparr>clocks := (clocks s)(cpu := c), running := (running s)(cpu := p)\<rparr>;
           s = upd_proc p (\<lambda>r. r\<lparr>pstate := RUNNING\<rparr>) s
       in if \<not> idle (procs s p) then rq_erase cpu p s else Some (Ret s))"

text \<open>The result says whether the processor went over to another process.\<close>

definition schedule :: "(nat \<Rightarrow> u64) \<Rightarrow> (nat \<Rightarrow> u64) \<Rightarrow> nat \<Rightarrow> procstate \<Rightarrow> sched \<Rightarrow> (bool \<times> sched) outcome option" where
  "schedule counter sched_timer cpu new s =
     (let this = thisproc cpu s in
      run_then (Some (ASSERT (pstate (procs s this) = RUNNING))) (\<lambda>_.
        if killed (procs s this) \<and> new \<noteq> ZOMBIE then Some (Ret (False, s))
        else
          run_then (update_this_state cpu new s) (\<lambda>s.
            run_then (pick_next cpu s) (\<lambda>next.
              run_then (Some (ASSERT (pstate (procs s next) = RUNNABLE))) (\<lambda>_.
                run_then (update_this_proc counter sched_timer cpu next s) (\<lambda>s.
                  Some (Ret (next \<noteq> this, s))))))))"

definition sched_handler :: "(nat \<Rightarrow> u64) \<Rightarrow> (nat \<Rightarrow> u64) \<Rightarrow> nat \<Rightarrow> u64 \<Rightarrow> sched \<Rightarrow> (bool \<times> sched) outcome option" where
  "sched_handler counter sched_timer cpu t s =
     (let s = s\<lparr>clocks := (clocks s)(cpu := upd_timer t (\<lambda>r. r\<lparr>tdata := 0\<rparr>) (clocks s cpu))\<rparr>;
          s = upd_proc (thisproc cpu s) (\<lambda>r. r\<lparr>runtime := runtime r + of_nat SLICE_LEN\<rparr>) s
      in schedule counter sched_timer cpu RUNNABLE s)"

section \<open>Invariant\<close>

text \<open>The processes that belong to the queue of a processor.\<close>

definition ready :: "u64 set \<Rightarrow> sched \<Rightarrow> nat \<Rightarrow> u64 set" where
  "ready P s i = {p \<in> P. \<not> idle (procs s p) \<and> pstate (procs s p) = RUNNABLE \<and> nat (pid (procs s p)) mod NCPU = i}"

text \<open>What does not change: \<open>P\<close> are the processes, each with its number, and every processor has its own idle one.\<close>

definition proc_table :: "u64 set \<Rightarrow> sched \<Rightarrow> bool" where
  "proc_table P s \<longleftrightarrow> (\<forall>p\<in>P. p \<noteq> 0 \<and> al p \<and> 0 \<le> pid (procs s p)) \<and>
     inj_on (\<lambda>p. pid (procs s p)) {p \<in> P. \<not> idle (procs s p)} \<and>
     (\<forall>i<NCPU. idle_of s i \<in> P) \<and> inj_on (idle_of s) {..<NCPU} \<and>
     (\<forall>p\<in>P. idle (procs s p) \<longleftrightarrow> (\<exists>i<NCPU. p = idle_of s i))"

definition queues :: "u64 set \<Rightarrow> sched \<Rightarrow> (nat \<Rightarrow> u64 list) \<Rightarrow> bool" where
  "queues P s qs \<longleftrightarrow> (\<forall>i<NCPU. rb_tree (cmp_runtime (procs s)) (rq i s) (qs i) \<and> set (qs i) = ready P s i)"

text \<open>
  The processors of \<open>R\<close> run a process that is marked as running, of their own queue or their idle one, and
  nothing else is marked so.
\<close>

definition on_cpu :: "u64 set \<Rightarrow> nat set \<Rightarrow> sched \<Rightarrow> bool" where
  "on_cpu P R s \<longleftrightarrow>
     (\<forall>i\<in>R. running s i \<in> P \<and> pstate (procs s (running s i)) = RUNNING \<and>
        (if idle (procs s (running s i)) then running s i = idle_of s i else nat (pid (procs s (running s i))) mod NCPU = i)) \<and>
     (\<forall>p\<in>P. pstate (procs s p) = RUNNING \<longrightarrow> (\<exists>i\<in>R. running s i = p)) \<and>
     (\<forall>i<NCPU. pstate (procs s (idle_of s i)) \<in> {RUNNABLE, RUNNING})"

definition sched_inv :: "u64 set \<Rightarrow> nat set \<Rightarrow> sched \<Rightarrow> (nat \<Rightarrow> u64 list) \<Rightarrow> bool" where
  "sched_inv P R s qs \<longleftrightarrow> proc_table P s \<and> queues P s qs \<and> on_cpu P R s"

lemma cmp_runtime_strict:
  assumes "inj_on (\<lambda>p. pid (ps p)) S"
  shows "strict_order (cmp_runtime ps) S"
  unfolding strict_order_def
proof (intro conjI ballI impI)
  fix x y z assume "x \<in> S" "y \<in> S" "x \<noteq> y"
  then have "pid (ps x) \<noteq> pid (ps y)" using assms by (auto dest: inj_onD)
  then show "cmp_runtime ps x y \<or> cmp_runtime ps y x" by (auto simp: cmp_runtime_def)
qed (auto simp: cmp_runtime_def split: if_splits)

lemma with_rq_simps [simp]:
  "procs (with_rq i h s) = procs s" "running (with_rq i h s) = running s" "idle_of (with_rq i h s) = idle_of s"
  "clocks (with_rq i h s) = clocks s" "rq i (with_rq i h s) = h" "j \<noteq> i \<Longrightarrow> rq j (with_rq i h s) = h\<lparr>rb_root := roots s j\<rparr>"
  by (simp_all add: with_rq_def rq_def)

lemma upd_proc_simps [simp]:
  "procs (upd_proc p f s) = (procs s)(p := f (procs s p))" "running (upd_proc p f s) = running s" "idle_of (upd_proc p f s) = idle_of s"
  "clocks (upd_proc p f s) = clocks s" "rq i (upd_proc p f s) = rq i s" "rnodes (upd_proc p f s) = rnodes s"
  "roots (upd_proc p f s) = roots s"
  by (simp_all add: upd_proc_def rq_def)

text \<open>An operation on one queue that stays within nodes of no other queue keeps the other trees.\<close>

lemma other_queue:
  assumes "only S (rq i s) h" "j \<noteq> i" "rb_tree lt (rq j s) ys" "set ys \<inter> S = {}"
  shows "rb_tree lt (rq j (with_rq i h s)) ys"
proof -
  have "only S (rnodes s) h" using assms(1) by (simp add: only_def rq_def)
  then show ?thesis using rb_tree_other [of S "rnodes s" h ys lt "roots s j"] assms(2-4) by (simp add: rq_def with_rq_def)
qed

lemma ready_disjoint: "i \<noteq> j \<Longrightarrow> ready P s i \<inter> ready P s j = {}" by (auto simp: ready_def)

definition trees :: "sched \<Rightarrow> (nat \<Rightarrow> u64 list) \<Rightarrow> bool" where
  "trees s qs \<longleftrightarrow> (\<forall>i<NCPU. rb_tree (cmp_runtime (procs s)) (rq i s) (qs i))"

lemma rq_insert_ok:
  assumes t: "trees s qs" and i: "i < NCPU" and p: "p \<noteq> 0" "al p" "\<forall>j<NCPU. p \<notin> set (qs j)"
    and d: "\<forall>j<NCPU. j \<noteq> i \<longrightarrow> set (qs j) \<inter> set (qs i) = {}" and o: "strict_order (cmp_runtime (procs s)) (insert p (set (qs i)))"
  shows "\<exists>h. rq_insert i p s = Some (Ret (with_rq i h s)) \<and> trees (with_rq i h s) (qs(i := put (cmp_runtime (procs s)) p (qs i)))"
proof -
  have ti: "rb_tree (cmp_runtime (procs s)) (rq i s) (qs i)" using t i by (simp add: trees_def)
  obtain h where h: "rbtree_insert (cmp_runtime (procs s)) p (rq i s) = Some (Ret (0, h))"
    "rb_tree (cmp_runtime (procs s)) h (put (cmp_runtime (procs s)) p (qs i))" "only (insert p (set (qs i))) (rq i s) h"
    using rbq.ins_law [OF ti p(1,2) _ o] p(3) i by blast
  have "rb_tree (cmp_runtime (procs s)) (rq j (with_rq i h s)) (qs j)" if "j < NCPU" "j \<noteq> i" for j
    by (rule other_queue [OF h(3)]) (use that t d p(3) in \<open>auto simp: trees_def\<close>)
  then show ?thesis using h i by (auto simp: rq_insert_def trees_def)
qed

lemma rq_erase_ok:
  assumes t: "trees s qs" and i: "i < NCPU" and p: "p \<in> set (qs i)" and d: "\<forall>j<NCPU. j \<noteq> i \<longrightarrow> set (qs j) \<inter> set (qs i) = {}"
  shows "\<exists>h. rq_erase i p s = Some (Ret (with_rq i h s)) \<and> trees (with_rq i h s) (qs(i := remove1 p (qs i)))"
proof -
  have ti: "rb_tree (cmp_runtime (procs s)) (rq i s) (qs i)" using t i by (simp add: trees_def)
  obtain h where h: "rbtree_erase p (rq i s) = Some (Ret h)" "rb_tree (cmp_runtime (procs s)) h (remove1 p (qs i))"
    "only (set (qs i)) (rq i s) h"
    using rbq.del_law [OF ti p] by blast
  have "rb_tree (cmp_runtime (procs s)) (rq j (with_rq i h s)) (qs j)" if "j < NCPU" "j \<noteq> i" for j
    by (rule other_queue [OF h(3)]) (use that t d in \<open>auto simp: trees_def\<close>)
  then show ?thesis using h i by (auto simp: rq_erase_def trees_def)
qed

lemma trees_upd [simp]:
  assumes "runtime (f (procs s p)) = runtime (procs s p)" "pid (f (procs s p)) = pid (procs s p)"
  shows "trees (upd_proc p f s) qs = trees s qs"
proof -
  have "cmp_runtime (procs (upd_proc p f s)) = cmp_runtime (procs s)" using assms by (auto simp: cmp_runtime_def fun_eq_iff)
  then show ?thesis by (simp add: trees_def)
qed

lemma queues_alt: "queues P s qs \<longleftrightarrow> trees s qs \<and> (\<forall>i<NCPU. set (qs i) = ready P s i)"
  by (auto simp: queues_def trees_def)

lemma inv_strict:
  assumes "proc_table P s" "S \<subseteq> {p \<in> P. \<not> idle (procs s p)}"
  shows "strict_order (cmp_runtime (procs s)) S"
  by (rule cmp_runtime_strict, rule inj_on_subset) (use assms in \<open>auto simp: proc_table_def\<close>)

text \<open>The process table only depends on numbers and on which processes are idle ones.\<close>

lemma proc_table_cong:
  assumes "proc_table P s" "idle_of s' = idle_of s" "\<And>p. p \<in> P \<Longrightarrow> pid (procs s' p) = pid (procs s p) \<and> idle (procs s' p) = idle (procs s p)"
  shows "proc_table P s'"
proof -
  have "{p \<in> P. \<not> idle (procs s' p)} = {p \<in> P. \<not> idle (procs s p)}" using assms(3) by auto
  moreover have "inj_on (\<lambda>p. pid (procs s' p)) {p \<in> P. \<not> idle (procs s p)} \<longleftrightarrow> inj_on (\<lambda>p. pid (procs s p)) {p \<in> P. \<not> idle (procs s p)}"
    using assms(3) by (intro inj_on_cong) auto
  ultimately show ?thesis using assms unfolding proc_table_def by simp
qed

section \<open>Waking up\<close>

text \<open>Waking a process that sleeps or is new makes it ready; the others are left as they are.\<close>

lemma activate_ok:
  assumes inv: "sched_inv P R s qs" and p: "p \<in> P"
    and st: "pstate (procs s p) = SLEEPING \<or> pstate (procs s p) = UNUSED \<or> \<not> onalert \<and> pstate (procs s p) = DEEPSLEEPING"
  shows "\<exists>s' qs'. activate_proc p onalert s = Some (Ret (True, s')) \<and> sched_inv P R s' qs' \<and> running s' = running s \<and>
    procs s' = (procs s)(p := (procs s p)\<lparr>pstate := RUNNABLE\<rparr>) \<and> clocks s' = clocks s \<and> idle_of s' = idle_of s"
proof -
  have pt: "proc_table P s" and q: "trees s qs" "\<forall>i<NCPU. set (qs i) = ready P s i" and cp: "on_cpu P R s"
    using inv by (auto simp: sched_inv_def queues_alt)
  have ni: "\<not> idle (procs s p)"
  proof
    assume "idle (procs s p)"
    then obtain i where "i < NCPU" "p = idle_of s i" using pt p by (auto simp: proc_table_def)
    then show False using cp st by (auto simp: on_cpu_def)
  qed
  let ?s = "upd_proc p (\<lambda>r. r\<lparr>pstate := RUNNABLE\<rparr>) s" and ?i = "nat (pid (procs s p)) mod NCPU"
  have i: "?i < NCPU" by (simp add: NCPU_def)
  have pz: "p \<noteq> 0" "al p" "0 \<le> pid (procs s p)" using pt p by (auto simp: proc_table_def)
  have pt': "proc_table P ?s" by (rule proc_table_cong [OF pt]) auto
  have d: "\<forall>j<NCPU. j \<noteq> ?i \<longrightarrow> set (qs j) \<inter> set (qs ?i) = {}" using q(2) i ready_disjoint [of _ ?i P s] by simp
  have o: "strict_order (cmp_runtime (procs ?s)) (insert p (set (qs ?i)))"
    by (rule inv_strict [OF pt']) (use q(2) i p ni in \<open>auto simp: ready_def\<close>)
  have np: "\<forall>j<NCPU. p \<notin> set (qs j)" using q(2) st by (auto simp: ready_def)
  have "trees ?s qs" using q(1) by simp
  from rq_insert_ok [OF this i pz(1,2) np d o]
  obtain h where h: "rq_insert ?i p ?s = Some (Ret (with_rq ?i h ?s))"
    "trees (with_rq ?i h ?s) (qs(?i := put (cmp_runtime (procs ?s)) p (qs ?i)))" by blast
  have "queues P (with_rq ?i h ?s) (qs(?i := put (cmp_runtime (procs ?s)) p (qs ?i)))"
    using h(2) q(2) p ni unfolding queues_alt by (auto simp: ready_def)
  moreover have "proc_table P (with_rq ?i h ?s)" by (rule proc_table_cong [OF pt]) auto
  moreover have "on_cpu P R (with_rq ?i h ?s)" using cp st unfolding on_cpu_def by (auto split: if_splits)
  moreover have "activate_proc p onalert s = Some (Ret (True, with_rq ?i h ?s))"
    using st h(1) ni pz(3) by (auto simp: activate_proc_def Let_def)
  ultimately show ?thesis by (auto simp: sched_inv_def)
qed

section \<open>The time slice\<close>

text \<open>The timer of the slice is pending exactly if its mark is set; the counter does not run backwards or reach the top bit.\<close>

definition slice_ok :: "(nat \<Rightarrow> u64) \<Rightarrow> u64 \<Rightarrow> clock \<Rightarrow> u64 list \<Rightarrow> bool" where
  "slice_ok counter t c xs \<longleftrightarrow> timer_tree c xs \<and> clock_ok counter c xs \<and> t \<noteq> 0 \<and> al t \<and>
     (t \<in> set xs \<longleftrightarrow> tdata (timers c t) = 1) \<and> mono counter \<and> (\<forall>n. now counter c n + SLICE_LEN < 2 ^ 63)"

lemma upd_timer_simps [simp]:
  "timers (upd_timer t f c) = (timers c)(t := f (timers c t))" "tnodes (upd_timer t f c) = tnodes c" "one_ms (upd_timer t f c) = one_ms c"
  "counts (upd_timer t f c) = counts c" "tval (upd_timer t f c) = tval c"
  by (simp_all add: upd_timer_def)

lemma stop_slice_ok:
  assumes "slice_ok counter t c xs"
  shows "\<exists>c1. (if tdata (timers c t) = 1
      then run_then (cancel_cpu_timer counter t c) (\<lambda>c. Some (Ret (upd_timer t (\<lambda>r. r\<lparr>tdata := 0\<rparr>) c))) else Some (Ret c)) = Some (Ret c1) \<and>
    timer_tree c1 (remove1 t xs) \<and> clock_ok counter c1 (remove1 t xs) \<and> one_ms c1 = one_ms c \<and> counts c \<le> counts c1 \<and>
    (\<forall>x. x \<noteq> t \<longrightarrow> timers c1 x = timers c x)"
proof (cases "tdata (timers c t) = 1")
  case False
  then have "t \<notin> set xs" using assms by (simp add: slice_ok_def)
  then show ?thesis using assms False by (auto simp: slice_ok_def remove1_idem)
next
  case True
  have t: "timer_tree c xs" "clock_ok counter c xs" "t \<in> set xs" using assms True by (auto simp: slice_ok_def)
  then have di: "distinct xs" using rbq.keeps_sorted by (auto simp: timer_tree_def)
  obtain h v where h: "cancel_cpu_timer counter t c =
      Some (Ret (c\<lparr>tnodes := h, counts := counts c + (if remove1 t xs = [] then 0 else 1), tval := v\<rparr>))"
    "timer_tree (c\<lparr>tnodes := h\<rparr>) (remove1 t xs)" using cancel_cpu_timer_ok [OF t] by blast
  let ?c = "upd_timer t (\<lambda>r. r\<lparr>tdata := 0\<rparr>) (c\<lparr>tnodes := h, counts := counts c + (if remove1 t xs = [] then 0 else 1), tval := v\<rparr>)"
  have "timer_tree ?c (remove1 t xs)" by (rule timer_tree_cong [OF h(2)]) (use di in auto)
  moreover have "clock_ok counter ?c (remove1 t xs)"
    by (rule clock_ok_mono [OF t(2)]) (use di set_remove1_subset [of t xs] in auto)
  ultimately show ?thesis using h(1) True by auto
qed

lemma arm_slice_ok:
  assumes s: "slice_ok counter t c xs"
  shows "\<exists>c' xs' n. arm_slice counter t c = Some (Ret c') \<and> slice_ok counter t c' xs' \<and> set xs' = insert t (set xs) \<and>
    handler (timers c' t) = SCHED_HANDLER \<and> counts c \<le> n \<and> unat (tkey (timers c' t)) = now counter c n + SLICE_LEN \<and>
    (\<forall>x. x \<noteq> t \<longrightarrow> timers c' x = timers c x)"
proof -
  have t: "t \<noteq> 0" "al t" "mono counter" "\<forall>n. now counter c n + SLICE_LEN < 2 ^ 63" using s by (auto simp: slice_ok_def)
  obtain c1 where c1: "(if tdata (timers c t) = 1
      then run_then (cancel_cpu_timer counter t c) (\<lambda>c. Some (Ret (upd_timer t (\<lambda>r. r\<lparr>tdata := 0\<rparr>) c))) else Some (Ret c)) = Some (Ret c1)"
    "timer_tree c1 (remove1 t xs)" "clock_ok counter c1 (remove1 t xs)" "one_ms c1 = one_ms c" "counts c \<le> counts c1"
    "\<forall>x. x \<noteq> t \<longrightarrow> timers c1 x = timers c x" using stop_slice_ok [OF s] by blast
  let ?c = "upd_timer t (\<lambda>r. r\<lparr>elapse := int SLICE_LEN, handler := SCHED_HANDLER\<rparr>) c1" and ?ys = "remove1 t xs"
  have "distinct xs" using s rbq.keeps_sorted by (auto simp: slice_ok_def timer_tree_def)
  then have nt: "t \<notin> set ?ys" "insert t (set ?ys) = insert t (set xs)" by auto
  have n: "now counter ?c = now counter c" using c1(4) by (simp add: now_def fun_eq_iff)
  have tt: "timer_tree ?c ?ys" by (rule timer_tree_cong [OF c1(2)]) (use nt in auto)
  have ok: "clock_ok counter ?c ?ys" by (rule clock_ok_mono [OF c1(3)]) (use nt in auto)
  have "now counter c (counts c1) + SLICE_LEN - now counter c m \<le> 1000" if "m \<ge> counts c1" for m
    using now_mono [OF t(3) that, of c] by (simp add: SLICE_LEN_def)
  then have "in_reach counter ?c (now counter ?c (counts ?c) + nat (elapse (timers ?c t)))"
    using ok mult_le_mono1 unfolding in_reach_def n clock_ok_def by (simp; blast intro: order_trans)
  then obtain c2 where c2: "set_cpu_timer counter t ?c = Some (Ret c2)" "unat (tkey (timers c2 t)) = now counter c (counts c1) + SLICE_LEN"
    "timer_tree c2 (put (timer_cmp (timers c2)) t ?ys)" "clock_ok counter c2 (put (timer_cmp (timers c2)) t ?ys)" "one_ms c2 = one_ms c1"
    "timers c2 = (timers ?c)(t := (timers ?c t)\<lparr>triggered := False, tkey := tkey (timers c2 t)\<rparr>)"
    using set_cpu_timer_ok [OF tt ok t(1,2) nt(1)] t(4) unfolding n by auto
  let ?zs = "put (timer_cmp (timers c2)) t ?ys" and ?c3 = "upd_timer t (\<lambda>r. r\<lparr>tdata := 1\<rparr>) c2"
  have same: "timer_cmp (timers ?c3) = timer_cmp (timers c2)" by (auto simp: timer_cmp_def fun_eq_iff)
  have "timer_tree ?c3 ?zs" using c2(3) unfolding timer_tree_def same by auto
  moreover have "clock_ok counter ?c3 ?zs" by (rule clock_ok_mono [OF c2(4)]) auto
  moreover have "now counter ?c3 = now counter c" using c1(4) c2(5) by (simp add: now_def fun_eq_iff)
  ultimately have "slice_ok counter t ?c3 ?zs" using t by (simp add: slice_ok_def)
  moreover have "arm_slice counter t c = Some (Ret ?c3)" using c1(1) c2(1) by (simp add: arm_slice_def)
  moreover have "handler (timers ?c3 t) = SCHED_HANDLER" using arg_cong [OF fun_cong [OF c2(6), of t], of handler] by simp
  moreover have "timers ?c3 x = timers c x" if "x \<noteq> t" for x using fun_cong [OF c2(6), of x] c1(6) that by simp
  moreover have "tkey (timers ?c3 t) = tkey (timers c2 t)" by simp
  ultimately show ?thesis using c1(5) c2(2) nt(2) by (intro exI [of _ ?c3] exI [of _ ?zs] exI [of _ "counts c1"]) auto
qed

section \<open>Leaving and entering a processor\<close>

lemma on_cpuD:
  assumes "on_cpu P R s" "i \<in> R"
  shows "running s i \<in> P" "pstate (procs s (running s i)) = RUNNING" "idle (procs s (running s i)) \<Longrightarrow> running s i = idle_of s i"
    "\<not> idle (procs s (running s i)) \<Longrightarrow> nat (pid (procs s (running s i))) mod NCPU = i"
  using assms unfolding on_cpu_def by (auto split: if_splits)

lemma on_cpuI:
  assumes "\<And>i. i \<in> R \<Longrightarrow> running s i \<in> P \<and> pstate (procs s (running s i)) = RUNNING"
    and "\<And>i. i \<in> R \<Longrightarrow> idle (procs s (running s i)) \<Longrightarrow> running s i = idle_of s i"
    and "\<And>i. i \<in> R \<Longrightarrow> \<not> idle (procs s (running s i)) \<Longrightarrow> nat (pid (procs s (running s i))) mod NCPU = i"
    and "\<And>p. p \<in> P \<Longrightarrow> pstate (procs s p) = RUNNING \<Longrightarrow> \<exists>i\<in>R. running s i = p"
    and "\<And>i. i < NCPU \<Longrightarrow> pstate (procs s (idle_of s i)) = RUNNABLE \<or> pstate (procs s (idle_of s i)) = RUNNING"
  shows "on_cpu P R s"
  using assms unfolding on_cpu_def by simp

lemma running_inj:
  assumes "proc_table P s" "on_cpu P R s" "R \<subseteq> {..<NCPU}" "i \<in> R" "j \<in> R" "running s i = running s j"
  shows "i = j"
proof (cases "idle (procs s (running s i))")
  case True
  then have "idle (procs s (running s j))" unfolding assms(6) .
  then have "running s j = idle_of s j" by (rule on_cpuD(3) [OF assms(2,5)])
  then have "idle_of s i = idle_of s j" using on_cpuD(3) [OF assms(2,4) True] assms(6) by argo
  moreover have "inj_on (idle_of s) {..<NCPU}" using assms(1) unfolding proc_table_def by blast
  ultimately show ?thesis using assms(3,4,5) by (blast dest: inj_onD)
next
  case False
  then have "\<not> idle (procs s (running s j))" unfolding assms(6) .
  from on_cpuD(4) [OF assms(2,5) this] have "nat (pid (procs s (running s i))) mod NCPU = j" unfolding assms(6) .
  then show ?thesis using on_cpuD(4) [OF assms(2,4) False] by argo
qed

lemma update_this_state_ok:
  assumes inv: "sched_inv P (insert i R) s qs" and i: "i \<notin> R" "i < NCPU" "R \<subseteq> {..<NCPU}"
    and new: "new \<noteq> RUNNING" "idle (procs s (running s i)) \<Longrightarrow> new = RUNNABLE"
  shows "\<exists>s' qs'. update_this_state i new s = Some (Ret s') \<and> sched_inv P R s' qs' \<and> running s' = running s \<and> idle_of s' = idle_of s \<and>
    clocks s' = clocks s \<and> procs s' = (procs s)(running s i := (procs s (running s i))\<lparr>pstate := new\<rparr>)"
proof -
  let ?p = "running s i"
  have pt: "proc_table P s" and q: "trees s qs" "\<forall>j<NCPU. set (qs j) = ready P s j" and cp: "on_cpu P (insert i R) s"
    using inv by (auto simp: sched_inv_def queues_alt)
  have p: "?p \<in> P" "pstate (procs s ?p) = RUNNING" "\<not> idle (procs s ?p) \<Longrightarrow> nat (pid (procs s ?p)) mod NCPU = i" "?p \<noteq> 0" "al ?p"
    using on_cpuD [OF cp, of i] pt by (auto simp: proc_table_def)
  have d: "\<forall>j<NCPU. j \<noteq> i \<longrightarrow> set (qs j) \<inter> set (qs i) = {}" using q(2) i(2) ready_disjoint [of _ i P s] by simp
  have np: "\<forall>j<NCPU. ?p \<notin> set (qs j)" using q(2) p(2) by (auto simp: ready_def)
  have on: "on_cpu P R s'" if "running s' = running s" "idle_of s' = idle_of s" "procs s' = (procs s)(?p := (procs s ?p)\<lparr>pstate := new\<rparr>)" for s'
  proof -
    have ne: "running s j \<noteq> ?p" if "j \<in> R" for j using running_inj [OF pt cp, of j i] i that by auto
    show ?thesis
    proof (rule on_cpuI; unfold that)
      show "\<exists>j\<in>R. running s j = p" if "p \<in> P" "pstate (((procs s)(?p := (procs s ?p)\<lparr>pstate := new\<rparr>)) p) = RUNNING" for p
        using cp new(1) that unfolding on_cpu_def by (auto split: if_splits)
      show "pstate (((procs s)(?p := (procs s ?p)\<lparr>pstate := new\<rparr>)) (idle_of s j)) = RUNNABLE \<or>
          pstate (((procs s)(?p := (procs s ?p)\<lparr>pstate := new\<rparr>)) (idle_of s j)) = RUNNING" if "j < NCPU" for j
      proof (cases "idle_of s j = ?p")
        case True
        then have "idle (procs s ?p)" using pt p(1) that unfolding proc_table_def by metis
        then show ?thesis using new(2) True by simp
      next
        case False
        then show ?thesis using cp that unfolding on_cpu_def by auto
      qed
    qed (use ne on_cpuD [OF cp] in auto)
  qed
  show ?thesis
  proof (cases "new = RUNNABLE \<and> \<not> idle (procs s ?p)")
    case True
    have o: "strict_order (cmp_runtime (procs s)) (insert ?p (set (qs i)))"
      by (rule inv_strict [OF pt]) (use q(2) i p True in \<open>auto simp: ready_def\<close>)
    from rq_insert_ok [OF q(1) i(2) p(4,5) np d o]
    obtain h where h: "rq_insert i ?p s = Some (Ret (with_rq i h s))"
      "trees (with_rq i h s) (qs(i := put (cmp_runtime (procs s)) ?p (qs i)))" by blast
    let ?s = "upd_proc ?p (\<lambda>r. r\<lparr>pstate := new\<rparr>) (with_rq i h s)"
    have "queues P ?s (qs(i := put (cmp_runtime (procs s)) ?p (qs i)))"
      using h(2) q(2) p True unfolding queues_alt by (auto simp: ready_def)
    moreover have "proc_table P ?s" by (rule proc_table_cong [OF pt]) auto
    moreover have "update_this_state i new s = Some (Ret ?s)"
      using h(1) True new p(2) by (simp add: update_this_state_def thisproc_def)
    ultimately show ?thesis using on [of ?s] unfolding sched_inv_def by fastforce
  next
    case False
    let ?s = "upd_proc ?p (\<lambda>r. r\<lparr>pstate := new\<rparr>) s"
    have "queues P ?s qs" using q p False unfolding queues_alt by (auto simp: ready_def)
    moreover have "proc_table P ?s" by (rule proc_table_cong [OF pt]) auto
    moreover have "update_this_state i new s = Some (Ret ?s)"
      using False new p(2) by (auto simp: update_this_state_def thisproc_def)
    ultimately show ?thesis using on [of ?s] unfolding sched_inv_def by fastforce
  qed
qed

text \<open>The choice: the process that has run least among the ready ones of the processor, or the idle one.\<close>

definition chosen :: "u64 set \<Rightarrow> nat \<Rightarrow> sched \<Rightarrow> u64 \<Rightarrow> bool" where
  "chosen P i s p \<longleftrightarrow> (if ready P s i = {} then p = idle_of s i
     else p \<in> ready P s i \<and> (\<forall>r\<in>ready P s i. runtime (procs s p) \<le> runtime (procs s r)))"

lemma pick_next_ok:
  assumes inv: "sched_inv P R s qs" and i: "i < NCPU"
  shows "\<exists>p. pick_next i s = Some (Ret p) \<and> chosen P i s p \<and> (if ready P s i = {} then qs i = [] else p \<in> set (qs i))"
proof -
  have t: "rb_tree (cmp_runtime (procs s)) (rq i s) (qs i)" "set (qs i) = ready P s i" using inv i by (auto simp: sched_inv_def queues_def)
  show ?thesis
  proof (cases "qs i = []")
    case True
    then show ?thesis using rbq.least_law [OF t(1)] t(2) by (auto simp: pick_next_def chosen_def)
  next
    case False
    obtain x where x: "rbtree_first (rq i s) = Some x" "x \<in> set (qs i)" "\<forall>y\<in>set (qs i) - {x}. cmp_runtime (procs s) x y"
      using rbq.least_least [OF t(1) False] by blast
    have "x \<noteq> 0" using rbq.keeps_sorted [OF t(1)] x(2) by blast
    moreover have "runtime (procs s x) \<le> runtime (procs s r)" if "r \<in> set (qs i)" for r
    proof (cases "r = x")
      case False
      then have "cmp_runtime (procs s) x r" using x(3) that by blast
      then show ?thesis by (simp add: cmp_runtime_def split: if_splits)
    qed simp
    ultimately show ?thesis using x t(2) False by (auto simp: pick_next_def chosen_def)
  qed
qed

lemma update_this_proc_ok:
  assumes inv: "sched_inv P R s qs" and i: "i \<notin> R" "i < NCPU" "R \<subseteq> {..<NCPU}"
    and p: "chosen P i s p" "pstate (procs s p) = RUNNABLE" and sl: "slice_ok counter (st i) (clocks s i) xs"
  shows "\<exists>s' qs' xs'. update_this_proc counter st i p s = Some (Ret s') \<and> sched_inv P (insert i R) s' qs' \<and>
    running s' = (running s)(i := p) \<and> idle_of s' = idle_of s \<and> procs s' = (procs s)(p := (procs s p)\<lparr>pstate := RUNNING\<rparr>) \<and>
    slice_ok counter (st i) (clocks s' i) xs' \<and> (\<forall>j. j \<noteq> i \<longrightarrow> clocks s' j = clocks s j)"
proof -
  have pt: "proc_table P s" and q: "trees s qs" "\<forall>j<NCPU. set (qs j) = ready P s j" and cp: "on_cpu P R s"
    using inv by (auto simp: sched_inv_def queues_alt)
  have pP: "p \<in> P" and pi: "if idle (procs s p) then p = idle_of s i else p \<in> ready P s i"
    using p pt i unfolding chosen_def proc_table_def by (auto simp: ready_def split: if_splits)
  obtain c xs' where c: "arm_slice counter (st i) (clocks s i) = Some (Ret c)" "slice_ok counter (st i) c xs'"
    using arm_slice_ok [OF sl] by blast
  let ?s = "upd_proc p (\<lambda>r. r\<lparr>pstate := RUNNING\<rparr>) (s\<lparr>clocks := (clocks s)(i := c), running := (running s)(i := p)\<rparr>)"
  have ps: "procs ?s = (procs s)(p := (procs s p)\<lparr>pstate := RUNNING\<rparr>)" "running ?s = (running s)(i := p)" "idle_of ?s = idle_of s"
    "clocks ?s = (clocks s)(i := c)" "\<And>j. rq j ?s = rq j s" by (simp_all add: upd_proc_def rq_def)
  have "trees (s\<lparr>clocks := (clocks s)(i := c), running := (running s)(i := p)\<rparr>) qs" using q(1) by (simp add: trees_def rq_def)
  then have tr: "trees ?s qs" by simp
  have on: "on_cpu P (insert i R) s'" if "running s' = running ?s" "idle_of s' = idle_of s" "procs s' = procs ?s" for s'
  proof -
    have ne: "running s j \<noteq> p" if "j \<in> R" for j using on_cpuD(2) [OF cp that] p(2) by auto
    show ?thesis
    proof (rule on_cpuI; unfold that ps)
      show "\<exists>j\<in>insert i R. ((running s)(i := p)) j = r" if "r \<in> P" "pstate (((procs s)(p := (procs s p)\<lparr>pstate := RUNNING\<rparr>)) r) = RUNNING" for r
        using cp i(1) that unfolding on_cpu_def by (cases "r = p") fastforce+
      show "pstate (((procs s)(p := (procs s p)\<lparr>pstate := RUNNING\<rparr>)) (idle_of s j)) = RUNNABLE \<or>
          pstate (((procs s)(p := (procs s p)\<lparr>pstate := RUNNING\<rparr>)) (idle_of s j)) = RUNNING" if "j < NCPU" for j
        using cp that unfolding on_cpu_def by auto
    qed (use ne on_cpuD [OF cp] pP pi i(1) in \<open>auto simp: ready_def split: if_splits\<close>)
  qed
  have pt': "proc_table P s'" if "idle_of s' = idle_of s" "procs s' = procs ?s" for s'
    by (rule proc_table_cong [OF pt]) (use that ps in auto)
  show ?thesis
  proof (cases "idle (procs s p)")
    case True
    have "queues P ?s qs" using tr q(2) True unfolding queues_alt by (auto simp: ready_def ps)
    moreover have "update_this_proc counter st i p s = Some (Ret ?s)" using c True by (simp add: update_this_proc_def Let_def)
    ultimately show ?thesis using on [of ?s] pt' [of ?s] c ps unfolding sched_inv_def by fastforce
  next
    case False
    have d: "\<forall>j<NCPU. j \<noteq> i \<longrightarrow> set (qs j) \<inter> set (qs i) = {}" using q(2) i(2) ready_disjoint [of _ i P s] by simp
    have pq: "p \<in> set (qs i)" using q(2) i(2) pi False by auto
    obtain h where h: "rq_erase i p ?s = Some (Ret (with_rq i h ?s))" "trees (with_rq i h ?s) (qs(i := remove1 p (qs i)))"
      using rq_erase_ok [OF tr i(2) pq d] by blast
    have "rb_tree (cmp_runtime (procs s)) (rq i s) (qs i)" using q(1) i(2) by (simp add: trees_def)
    then have "distinct (qs i)" using rbq.keeps_sorted by blast
    then have "queues P (with_rq i h ?s) (qs(i := remove1 p (qs i)))"
      using h(2) q(2) p(2) pi False unfolding queues_alt by (auto simp: ready_def ps)
    moreover have "update_this_proc counter st i p s = Some (Ret (with_rq i h ?s))" using c h(1) False by (simp add: update_this_proc_def Let_def)
    ultimately show ?thesis using on [of "with_rq i h ?s"] pt' [of "with_rq i h ?s"] c ps unfolding sched_inv_def by fastforce
  qed
qed

section \<open>Scheduling\<close>

text \<open>The clocks of the processors; each reads its own counter.\<close>

definition slices :: "(nat \<Rightarrow> nat \<Rightarrow> u64) \<Rightarrow> (nat \<Rightarrow> u64) \<Rightarrow> sched \<Rightarrow> bool" where
  "slices counter st s \<longleftrightarrow> (\<forall>i<NCPU. \<exists>xs. slice_ok (counter i) (st i) (clocks s i) xs)"

abbreviation all_cpus :: "nat set" where "all_cpus \<equiv> {..<NCPU}"

lemma idle_ready:
  assumes "sched_inv P R s qs" "i \<notin> R" "i < NCPU" "R \<subseteq> all_cpus"
  shows "pstate (procs s (idle_of s i)) = RUNNABLE"
proof (rule ccontr)
  assume a: "pstate (procs s (idle_of s i)) \<noteq> RUNNABLE"
  have pt: "proc_table P s" and cp: "on_cpu P R s" using assms(1) by (auto simp: sched_inv_def)
  have ii: "idle_of s i \<in> P" "idle (procs s (idle_of s i))" "inj_on (idle_of s) all_cpus" using pt assms(3) by (auto simp: proc_table_def)
  have "pstate (procs s (idle_of s i)) = RUNNING" using cp assms(3) a by (auto simp: on_cpu_def)
  then obtain j where j: "j \<in> R" "running s j = idle_of s i" using cp ii(1) by (auto simp: on_cpu_def)
  then have "running s j = idle_of s j" using on_cpuD(3) [OF cp j(1)] ii(2) by metis
  then show False using j ii(3) assms(2,3,4) by (auto dest: inj_onD)
qed

lemma schedule_ok:
  assumes inv: "sched_inv P all_cpus s qs" and sl: "slices counter st s" and i: "i < NCPU"
    and new: "new \<noteq> RUNNING" "idle (procs s (running s i)) \<Longrightarrow> new = RUNNABLE" and k: "killed (procs s (running s i)) \<Longrightarrow> new = ZOMBIE"
  shows "\<exists>s1 s' qs'. schedule (counter i) st i new s = Some (Ret (running s' i \<noteq> running s i, s')) \<and> sched_inv P all_cpus s' qs' \<and>
    slices counter st s' \<and> procs s1 = (procs s)(running s i := (procs s (running s i))\<lparr>pstate := new\<rparr>) \<and> idle_of s1 = idle_of s \<and>
    chosen P i s1 (running s' i) \<and> (\<forall>j. j \<noteq> i \<longrightarrow> running s' j = running s j) \<and>
    procs s' = (procs s1)(running s' i := (procs s1 (running s' i))\<lparr>pstate := RUNNING\<rparr>)"
proof -
  let ?R = "all_cpus - {i}"
  have R: "insert i ?R = all_cpus" "i \<notin> ?R" "?R \<subseteq> all_cpus" using i by auto
  obtain s1 qs1 where s1: "update_this_state i new s = Some (Ret s1)" "sched_inv P ?R s1 qs1" "running s1 = running s" "idle_of s1 = idle_of s"
    "clocks s1 = clocks s" "procs s1 = (procs s)(running s i := (procs s (running s i))\<lparr>pstate := new\<rparr>)"
    using update_this_state_ok [of P i ?R s qs new] inv R i new by auto
  obtain p where p: "pick_next i s1 = Some (Ret p)" "chosen P i s1 p" using pick_next_ok [OF s1(2) i] by blast
  have pr: "pstate (procs s1 p) = RUNNABLE"
    using p(2) idle_ready [OF s1(2) R(2) i R(3)] by (auto simp: chosen_def ready_def split: if_splits)
  obtain xs where "slice_ok (counter i) (st i) (clocks s1 i) xs" using sl i s1(5) by (auto simp: slices_def)
  from update_this_proc_ok [where st = st, OF s1(2) R(2) i R(3) p(2) pr this]
  obtain s2 qs2 xs2 where s2: "update_this_proc (counter i) st i p s1 = Some (Ret s2)" "sched_inv P all_cpus s2 qs2"
    "running s2 = (running s1)(i := p)" "procs s2 = (procs s1)(p := (procs s1 p)\<lparr>pstate := RUNNING\<rparr>)"
    "slice_ok (counter i) (st i) (clocks s2 i) xs2" "\<forall>j. j \<noteq> i \<longrightarrow> clocks s2 j = clocks s1 j" unfolding R(1) by blast
  have "pstate (procs s (running s i)) = RUNNING" using inv i on_cpuD(2) [of P all_cpus s i] by (simp add: sched_inv_def)
  then have "schedule (counter i) st i new s = Some (Ret (p \<noteq> running s i, s2))"
    using s1(1) p(1) pr s2(1) k by (auto simp: schedule_def thisproc_def Let_def)
  moreover have "slices counter st s2" unfolding slices_def
  proof (intro allI impI)
    fix j assume "j < NCPU"
    then show "\<exists>xs. slice_ok (counter j) (st j) (clocks s2 j) xs" using s2(5,6) s1(5) sl by (cases "j = i") (auto simp: slices_def)
  qed
  ultimately show ?thesis using s1 s2 p(2) by (intro exI [of _ s1] exI [of _ s2] exI [of _ qs2]) auto
qed

lemma schedule_killed:
  assumes "sched_inv P all_cpus s qs" "i < NCPU" "killed (procs s (running s i))" "new \<noteq> ZOMBIE"
  shows "schedule counter st i new s = Some (Ret (False, s))"
  using assms on_cpuD(2) [of P all_cpus s i] by (simp add: sched_inv_def schedule_def thisproc_def Let_def)

text \<open>The running time of a running process, and the mark of a killed one, change nothing in the queues.\<close>

lemma sched_inv_upd:
  assumes inv: "sched_inv P all_cpus s qs" and run: "pstate (procs s p) = RUNNING \<or> (\<forall>r. runtime (f r) = runtime r)"
    and f: "\<And>r. pid (f r) = pid r \<and> idle (f r) = idle r \<and> pstate (f r) = pstate r"
  shows "sched_inv P all_cpus (upd_proc p f s) qs"
proof -
  have pt: "proc_table P s" and q: "queues P s qs" and cp: "on_cpu P all_cpus s" using inv by (auto simp: sched_inv_def)
  let ?s = "upd_proc p f s"
  have same: "pid (procs ?s x) = pid (procs s x)" "idle (procs ?s x) = idle (procs s x)" "pstate (procs ?s x) = pstate (procs s x)" for x
    by (auto simp: f)
  have r: "ready P ?s j = ready P s j" for j unfolding ready_def same ..
  have "queues P ?s qs" unfolding queues_def
  proof (intro allI impI conjI)
    fix j assume j: "j < NCPU"
    have t: "rb_tree (cmp_runtime (procs s)) (rq j s) (qs j)" "set (qs j) = ready P s j" using q j by (auto simp: queues_def)
    have "runtime (procs ?s x) = runtime (procs s x)" if "x \<in> set (qs j)" for x using that run t(2) by (auto simp: ready_def)
    then have "cmp_runtime (procs ?s) x y = cmp_runtime (procs s) x y" if "x \<in> set (qs j)" "y \<in> set (qs j)" for x y
      using that unfolding cmp_runtime_def same by metis
    then have "rb_tree (cmp_runtime (procs ?s)) (rq j s) (qs j)" using rb_tree_cong [OF t(1)] by blast
    then show "rb_tree (cmp_runtime (procs ?s)) (rq j ?s) (qs j)" by (simp add: rq_def)
    show "set (qs j) = ready P ?s j" using t(2) r by simp
  qed
  moreover have "proc_table P ?s" by (rule proc_table_cong [OF pt]) (auto simp: f)
  moreover have "on_cpu P all_cpus ?s" using cp unfolding on_cpu_def same by simp
  ultimately show ?thesis by (simp add: sched_inv_def)
qed

lemma sched_inv_clocks: "sched_inv P R (s\<lparr>clocks := f\<rparr>) qs \<longleftrightarrow> sched_inv P R s qs"
  by (simp add: sched_inv_def proc_table_def queues_def on_cpu_def ready_def rq_def)

text \<open>The end of a time slice: the clock takes the timer out of its tree before it calls the handler.\<close>

lemma slice_ends:
  assumes s: "slice_ok counter t c xs" and d: "tdata (timers c t) = 1"
  shows "\<exists>c1. cancel_cpu_timer counter t c = Some (Ret c1) \<and>
    slice_ok counter t (upd_timer t (\<lambda>r. r\<lparr>tdata := 0\<rparr>) (upd_timer t (\<lambda>r. r\<lparr>triggered := True\<rparr>) c1)) (remove1 t xs)"
proof -
  have t: "timer_tree c xs" "clock_ok counter c xs" "t \<in> set xs" using s d by (auto simp: slice_ok_def)
  then have di: "distinct xs" using rbq.keeps_sorted by (auto simp: timer_tree_def)
  obtain h v where h: "cancel_cpu_timer counter t c =
      Some (Ret (c\<lparr>tnodes := h, counts := counts c + (if remove1 t xs = [] then 0 else 1), tval := v\<rparr>))"
    "timer_tree (c\<lparr>tnodes := h\<rparr>) (remove1 t xs)" using cancel_cpu_timer_ok [OF t] by blast
  let ?c1 = "c\<lparr>tnodes := h, counts := counts c + (if remove1 t xs = [] then 0 else 1), tval := v\<rparr>"
  let ?c = "upd_timer t (\<lambda>r. r\<lparr>tdata := 0\<rparr>) (upd_timer t (\<lambda>r. r\<lparr>triggered := True\<rparr>) ?c1)"
  have "timer_tree ?c (remove1 t xs)" by (rule timer_tree_cong [OF h(2)]) (use di in auto)
  moreover have "clock_ok counter ?c (remove1 t xs)"
    by (rule clock_ok_mono [OF t(2)]) (use di set_remove1_subset [of t xs] in auto)
  moreover have "now counter ?c = now counter c" by (simp add: now_def fun_eq_iff)
  ultimately show ?thesis using h(1) s di by (auto simp: slice_ok_def)
qed

section \<open>Steps of the scheduler\<close>

text \<open>
  What the processors do to the scheduler: a process is woken, a process gives its processor up, a time
  slice ends, and a process is marked as killed. An idle process never waits.
\<close>

inductive sched_step :: "u64 set \<Rightarrow> (nat \<Rightarrow> nat \<Rightarrow> u64) \<Rightarrow> (nat \<Rightarrow> u64) \<Rightarrow> sched \<Rightarrow> sched \<Rightarrow> bool"
  for P counter st where
  wake: "p \<in> P \<Longrightarrow> activate_proc p onalert s = Some (Ret (b, s')) \<Longrightarrow> sched_step P counter st s s'"
| give_up: "i < NCPU \<Longrightarrow> new \<noteq> RUNNING \<Longrightarrow> (idle (procs s (running s i)) \<longrightarrow> new = RUNNABLE) \<Longrightarrow>
    schedule (counter i) st i new s = Some (Ret (b, s')) \<Longrightarrow> sched_step P counter st s s'"
| slice_end: "i < NCPU \<Longrightarrow> tdata (timers (clocks s i) (st i)) = 1 \<Longrightarrow>
    cancel_cpu_timer (counter i) (st i) (clocks s i) = Some (Ret c) \<Longrightarrow>
    sched_handler (counter i) st i (st i) (s\<lparr>clocks := (clocks s)(i := upd_timer (st i) (\<lambda>r. r\<lparr>triggered := True\<rparr>) c)\<rparr>) =
      Some (Ret (b, s')) \<Longrightarrow> sched_step P counter st s s'"
| kill: "sched_step P counter st s (upd_proc p (\<lambda>r. r\<lparr>killed := True\<rparr>) s)"

inductive_cases sched_stepE: "sched_step P counter st s s'"

definition sched_good :: "u64 set \<Rightarrow> (nat \<Rightarrow> nat \<Rightarrow> u64) \<Rightarrow> (nat \<Rightarrow> u64) \<Rightarrow> sched \<Rightarrow> bool" where
  "sched_good P counter st s \<longleftrightarrow> (\<exists>qs. sched_inv P all_cpus s qs) \<and> slices counter st s"

lemma schedule_good:
  assumes "sched_good P counter st s" "i < NCPU" "new \<noteq> RUNNING" "idle (procs s (running s i)) \<Longrightarrow> new = RUNNABLE"
  shows "\<exists>b s'. schedule (counter i) st i new s = Some (Ret (b, s')) \<and> sched_good P counter st s'"
proof (cases "killed (procs s (running s i)) \<and> new \<noteq> ZOMBIE")
  case True
  then show ?thesis using assms schedule_killed by (fastforce simp: sched_good_def)
next
  case False
  obtain qs where "sched_inv P all_cpus s qs" "slices counter st s" using assms(1) by (auto simp: sched_good_def)
  from schedule_ok [OF this assms(2-4)] False show ?thesis unfolding sched_good_def by blast
qed

lemma slice_end_good:
  assumes g: "sched_good P counter st s" and i: "i < NCPU" and d: "tdata (timers (clocks s i) (st i)) = 1"
  shows "\<exists>c b s'. cancel_cpu_timer (counter i) (st i) (clocks s i) = Some (Ret c) \<and>
    sched_handler (counter i) st i (st i) (s\<lparr>clocks := (clocks s)(i := upd_timer (st i) (\<lambda>r. r\<lparr>triggered := True\<rparr>) c)\<rparr>) =
      Some (Ret (b, s')) \<and> sched_good P counter st s'"
proof -
  obtain qs xs where inv: "sched_inv P all_cpus s qs" and sl: "slices counter st s" and x: "slice_ok (counter i) (st i) (clocks s i) xs"
    using g i by (auto simp: sched_good_def slices_def)
  obtain c where c: "cancel_cpu_timer (counter i) (st i) (clocks s i) = Some (Ret c)"
    "slice_ok (counter i) (st i) (upd_timer (st i) (\<lambda>r. r\<lparr>tdata := 0\<rparr>) (upd_timer (st i) (\<lambda>r. r\<lparr>triggered := True\<rparr>) c)) (remove1 (st i) xs)"
    using slice_ends [OF x d] by blast
  let ?c = "upd_timer (st i) (\<lambda>r. r\<lparr>tdata := 0\<rparr>) (upd_timer (st i) (\<lambda>r. r\<lparr>triggered := True\<rparr>) c)"
  let ?s = "upd_proc (running s i) (\<lambda>r. r\<lparr>runtime := runtime r + of_nat SLICE_LEN\<rparr>) (s\<lparr>clocks := (clocks s)(i := ?c)\<rparr>)"
  have "pstate (procs s (running s i)) = RUNNING" using inv i on_cpuD(2) [of P all_cpus s i] by (simp add: sched_inv_def)
  then have "sched_inv P all_cpus ?s qs" by (intro sched_inv_upd) (use inv in \<open>auto simp: sched_inv_clocks\<close>)
  moreover have "slices counter st ?s" using sl c(2) unfolding slices_def by fastforce
  ultimately have g: "sched_good P counter st ?s" by (auto simp: sched_good_def)
  obtain b s' where "schedule (counter i) st i RUNNABLE ?s = Some (Ret (b, s'))" "sched_good P counter st s'"
    using schedule_good [OF g i, of RUNNABLE] by auto
  then show ?thesis using c(1) by (simp add: sched_handler_def thisproc_def)
qed

lemma activate_cases:
  assumes "sched_inv P R s qs" "p \<in> P"
  shows "\<exists>b s' qs'. activate_proc p onalert s = Some (Ret (b, s')) \<and> sched_inv P R s' qs' \<and> clocks s' = clocks s \<and> running s' = running s \<and>
    procs s' = (procs s)(p := (procs s p)\<lparr>pstate := if b then RUNNABLE else pstate (procs s p)\<rparr>) \<and>
    (b \<longleftrightarrow> pstate (procs s p) = SLEEPING \<or> pstate (procs s p) = UNUSED \<or> \<not> onalert \<and> pstate (procs s p) = DEEPSLEEPING)"
proof (cases "pstate (procs s p) = SLEEPING \<or> pstate (procs s p) = UNUSED \<or> \<not> onalert \<and> pstate (procs s p) = DEEPSLEEPING")
  case True
  from activate_ok [OF assms True] True show ?thesis by auto
next
  case False
  then have "activate_proc p onalert s = Some (Ret (False, s))" by (cases "pstate (procs s p)") (auto simp: activate_proc_def)
  then show ?thesis using False assms(1) by (intro exI [of _ False] exI [of _ s] exI [of _ qs]) simp
qed

lemma sched_step_good: "sched_step P counter st s s' \<Longrightarrow> sched_good P counter st s \<Longrightarrow> sched_good P counter st s'"
proof (induction rule: sched_step.induct)
  case (wake p onalert s b s')
  then obtain qs where "sched_inv P all_cpus s qs" "slices counter st s" by (auto simp: sched_good_def)
  with activate_cases [OF this(1) wake(1), of onalert] wake(2) show ?case by (auto simp: sched_good_def slices_def)
next
  case (give_up i new s b s')
  with schedule_good [of P counter st s i new] show ?case by auto
next
  case (slice_end i s c b s')
  with slice_end_good [of P counter st s i] show ?case by auto
next
  case (kill s p)
  then show ?case using sched_inv_upd [where f = "\<lambda>r. r\<lparr>killed := True\<rparr>"] by (fastforce simp: sched_good_def slices_def)
qed

section \<open>Properties\<close>

text \<open>
  C13: when the running process of a processor gives it up, \<open>schedule\<close> always returns, with no assertion
  failing. The processor then runs a ready process of its own queue that has run no longer than any other
  ready process of the queue, the giving one included where it stays ready, or its idle process where none
  is ready. The process that left has its new state, the other processors run what they ran, and the
  queues, the marks of the running processes and the slice timers are consistent again.
\<close>

theorem schedule_runs_least:
  assumes "sched_inv P all_cpus s qs" "slices counter st s" "i < NCPU" "new \<noteq> RUNNING"
    and "\<not> idle (procs s (running s i)) \<or> new = RUNNABLE" "\<not> killed (procs s (running s i)) \<or> new = ZOMBIE"
  shows "\<exists>s'. schedule (counter i) st i new s = Some (Ret (running s' i \<noteq> running s i, s')) \<and>
    chosen P i (upd_proc (running s i) (\<lambda>r. r\<lparr>pstate := new\<rparr>) s) (running s' i) \<and>
    pstate (procs s' (running s' i)) = RUNNING \<and> (running s' i = running s i \<or> pstate (procs s' (running s i)) = new) \<and>
    (\<forall>j. j = i \<or> running s' j = running s j) \<and> sched_good P counter st s'"
proof -
  obtain s1 s' qs' where r: "schedule (counter i) st i new s = Some (Ret (running s' i \<noteq> running s i, s'))" "sched_inv P all_cpus s' qs'"
    "slices counter st s'" "procs s1 = (procs s)(running s i := (procs s (running s i))\<lparr>pstate := new\<rparr>)" "idle_of s1 = idle_of s"
    "chosen P i s1 (running s' i)" "\<forall>j. j \<noteq> i \<longrightarrow> running s' j = running s j"
    "procs s' = (procs s1)(running s' i := (procs s1 (running s' i))\<lparr>pstate := RUNNING\<rparr>)"
    using schedule_ok [OF assms(1-4)] assms(5,6) by blast
  have "chosen P i (upd_proc (running s i) (\<lambda>r. r\<lparr>pstate := new\<rparr>) s) (running s' i)"
    using r(6) unfolding chosen_def ready_def r(4,5) upd_proc_simps .
  then show ?thesis using r by (intro exI [of _ s']) (auto simp: sched_good_def)
qed


text \<open>Four processors that idle, and two ready processes of the first queue.\<close>

definition demo_proc :: proc where
  "demo_proc = \<lparr>killed = False, idle = True, pid = 0, exitcode = 0, kstack = 0, pstate = RUNNING, childexit = init_sem 0,
     children = list_init, zombie_children = list_init, parent = 0, runtime = 0\<rparr>"

definition demo_sched :: sched where
  "demo_sched =
     \<lparr>procs = (\<lambda>p. if p = 0x2000 then demo_proc\<lparr>idle := False, pid := 4, pstate := RUNNABLE\<rparr>
               else if p = 0x3000 then demo_proc\<lparr>idle := False, pid := 8, pstate := RUNNABLE\<rparr> else demo_proc),
      rnodes = demo_heap, roots = (\<lambda>i. if i = 0 then 0x2000 else 0), running = (!) [0x100, 0x200, 0x300, 0x400],
      idle_of = (!) [0x100, 0x200, 0x300, 0x400],
      clocks = (\<lambda>i. demo_clock\<lparr>tnodes := demo_heap\<lparr>rb_root := 0\<rparr>\<rparr>)\<rparr>"

abbreviation demo_procs :: "u64 set" where "demo_procs \<equiv> {0x100, 0x200, 0x300, 0x400, 0x2000, 0x3000}"

lemma less_NCPU:
  "(\<exists>i<NCPU. Q i) \<longleftrightarrow> Q 0 \<or> Q 1 \<or> Q 2 \<or> Q 3" "(\<forall>i<NCPU. Q i) \<longleftrightarrow> Q 0 \<and> Q 1 \<and> Q 2 \<and> Q 3"
  by (auto simp: NCPU_def less_Suc_eq numeral_eq_Suc)

lemmas demo_eval = demo_sched_def demo_proc_def

lemma demo_empty: "rb_tree lt (demo_heap\<lparr>rb_root := 0\<rparr>) []"
  unfolding rb_tree_def by (intro conjI exI [of _ Tip]) (simp_all add: rb_inv_def)

lemma demo_ready: "ready demo_procs demo_sched i = (if i = 0 then {0x2000, 0x3000} else {})"
  unfolding ready_def by (cases "i = 0") (auto simp: demo_eval NCPU_def)

lemma demo_queues: "queues demo_procs demo_sched (\<lambda>i. if i = 0 then [0x2000, 0x3000] else [])"
proof -
  have "rb_tree (cmp_runtime (procs demo_sched)) demo_heap [0x2000, 0x3000]"
    by (rule rb_tree_cong [OF demo_heap_tree]) (auto simp: cmp_runtime_def demo_eval)
  moreover have "rq i demo_sched = (if i = 0 then demo_heap else demo_heap\<lparr>rb_root := 0\<rparr>)" for i
    by (simp add: rq_def demo_sched_def demo_heap_def)
  ultimately show ?thesis by (auto simp: queues_def demo_ready demo_empty)
qed

lemma demo_sched_inv: "sched_inv demo_procs all_cpus demo_sched (\<lambda>i. if i = 0 then [0x2000, 0x3000] else [])"
proof -
  have c: "all_cpus = {0, 1, 2, 3}" by (auto simp: NCPU_def)
  have a: "al 0x100" "al 0x200" "al 0x300" "al 0x400" "al 0x2000" "al 0x3000" by (simp_all add: al_def take_bit_eq_mod)
  have "inj_on (idle_of demo_sched) all_cpus" unfolding c by (simp add: demo_sched_def)
  moreover have "inj_on (\<lambda>p. pid (procs demo_sched p)) {p \<in> demo_procs. \<not> idle (procs demo_sched p)}"
    by (rule inj_on_subset [of _ "{0x2000, 0x3000}"]) (auto simp: demo_eval)
  ultimately have "proc_table demo_procs demo_sched" using a unfolding proc_table_def less_NCPU by (simp add: demo_eval)
  moreover have "on_cpu demo_procs all_cpus demo_sched" unfolding on_cpu_def c less_NCPU by (simp add: demo_eval)
  ultimately show ?thesis using demo_queues by (simp add: sched_inv_def)
qed

lemma demo_slices: "slices (\<lambda>i n. 10) (\<lambda>i. 0x5000) demo_sched"
proof -
  have "slice_ok (\<lambda>n. 10) 0x5000 (clocks demo_sched i) []" for i using demo_empty
    by (simp add: slice_ok_def timer_tree_def demo_sched_def demo_clock_def clock_ok_def now_def SLICE_LEN_def al_def take_bit_eq_mod mono_def)
  then show ?thesis by (auto simp: slices_def)
qed

theorem schedule_runs_least_witness:
  "\<exists>s'. schedule (\<lambda>n. 10) (\<lambda>i. 0x5000) 0 RUNNABLE demo_sched = Some (Ret (True, s')) \<and> running s' 0 \<in> {0x2000, 0x3000}"
proof -
  have r: "running demo_sched 0 = 0x100" by (simp add: demo_sched_def)
  have p: "idle (procs demo_sched 0x100)" "\<not> killed (procs demo_sched 0x100)" by (simp_all add: demo_eval)
  have "ready demo_procs (upd_proc 0x100 (\<lambda>r. r\<lparr>pstate := RUNNABLE\<rparr>) demo_sched) 0 = ready demo_procs demo_sched 0"
    using p by (auto simp: ready_def)
  moreover obtain s' where "schedule (\<lambda>n. 10) (\<lambda>i. 0x5000) 0 RUNNABLE demo_sched = Some (Ret (running s' 0 \<noteq> 0x100, s'))"
    "chosen demo_procs 0 (upd_proc 0x100 (\<lambda>r. r\<lparr>pstate := RUNNABLE\<rparr>) demo_sched) (running s' 0)"
    using schedule_runs_least [OF demo_sched_inv demo_slices, of 0 RUNNABLE] p unfolding r by (auto simp: NCPU_def)
  ultimately show ?thesis by (auto simp: chosen_def demo_ready)
qed


end
