(* ===== verification/File.thy ===== *)
theory File
  imports Inode_Props Pipe Vmregion
begin

text \<open>
  The table of open files (\<^verbatim>\<open>fs/file.c\<close>, \<^verbatim>\<open>fs/file.h\<close>) and the allocation of a pipe
  (\<^verbatim>\<open>pipe_alloc\<close> of \<^verbatim>\<open>fs/pipe.c\<close>). A \<^verbatim>\<open>struct file *\<close> is the index of the file in the table.
  The files stand on pipes and on the inode layer; the pipes live at addresses, and a freed
  one is gone. Each function runs under the lock of the table or of the inode it works on; a
  call that has to wait in a pipe says so in its result and leaves the pipe with the thread
  among the waiting ones, and one that has to wait in the inode layer or for a commit is \<open>Sleep\<close>.
\<close>

section \<open>State\<close>

definition NFILE :: nat where "NFILE = 65536"
definition NOFILE :: nat where "NOFILE = 128"

datatype fdtype = FD_NONE | FD_PIPE | FD_INODE

text \<open>\<open>fobj\<close> is the union of the pointers to the pipe and to the inode.\<close>

record kfile =
  ftype :: fdtype
  fref :: int
  readable :: bool
  writable :: bool
  fobj :: nat
  off :: nat

record 'c files =
  ftable :: "nat \<Rightarrow> kfile"
  pipes :: "nat \<Rightarrow> pipe option"
  fresh_pipe :: nat
  kfs :: "'c fs"

text \<open>
  What a call runs with: the layers below, the root inode, the thread and its \<^verbatim>\<open>killed\<close> flag. Local
  variables without initial value are what the stack holds: \<open>e_ctx\<close> for an operation context and
  \<open>e_name\<close> for a name buffer. \<open>e_rodata\<close> are the bytes behind a string literal, and \<open>e_rs\<close> and \<open>e_um\<close> the
  regions and the contents of the memory of the process.
\<close>

record 'c env =
  e_dev :: "'c dev_ops"
  e_bc :: "'c block_cache"
  e_sb :: super_block
  e_root :: nat
  e_th :: nat
  e_killed :: bool
  e_ctx :: op_ctx
  e_name :: "u8 list"
  e_rodata :: "u8 list"
  e_rs :: "vmregion list"
  e_um :: "u64 \<Rightarrow> u8"

definition upd_file :: "nat \<Rightarrow> (kfile \<Rightarrow> kfile) \<Rightarrow> 'c files \<Rightarrow> 'c files" where
  "upd_file f g s = s\<lparr>ftable := (ftable s)(f := g (ftable s f))\<rparr>"

definition init_oftable :: "nat option list" where
  "init_oftable = replicate NOFILE None"

section \<open>Operations of the inode layer on this state\<close>

definition begin_op :: "'c env \<Rightarrow> 'c files \<Rightarrow> op_ctx option \<times> 'c files" where
  "begin_op e s =
     (let (ctx, c) = bc_begin_op (e_bc e) (e_ctx e) (world (kfs s)) in (Some ctx, s\<lparr>kfs := (kfs s)\<lparr>world := c\<rparr>\<rparr>))"

definition end_op :: "'c env \<Rightarrow> 'c files \<Rightarrow> 'c files outcome" where
  "end_op e s =
     andthen (bc_end_op (e_bc e) (e_th e) (world (kfs s))) (\<lambda>(go, c).
     if go then Ret (s\<lparr>kfs := (kfs s)\<lparr>world := c\<rparr>\<rparr>) else Sleep)"

definition lock_ip :: "'c env \<Rightarrow> nat \<Rightarrow> 'c files \<Rightarrow> 'c files outcome" where
  "lock_ip e p s = andthen (inode_lock (e_th e) p (kfs s)) (\<lambda>k. Ret (s\<lparr>kfs := k\<rparr>))"

definition unlock_ip :: "nat \<Rightarrow> 'c files \<Rightarrow> 'c files outcome" where
  "unlock_ip p s = andthen (inode_unlock p (kfs s)) (\<lambda>k. Ret (s\<lparr>kfs := k\<rparr>))"

definition put_ip :: "'c env \<Rightarrow> op_ctx option \<Rightarrow> nat \<Rightarrow> 'c files \<Rightarrow> (op_ctx option \<times> 'c files) outcome" where
  "put_ip e octx p s =
     andthen (inode_put (e_bc e) (e_sb e) (e_th e) octx p (kfs s)) (\<lambda>(octx, k). Ret (octx, s\<lparr>kfs := k\<rparr>))"

section \<open>Files\<close>

definition file_alloc :: "'c files \<Rightarrow> nat option \<times> 'c files" where
  "file_alloc s =
     (case find (\<lambda>f. fref (ftable s f) = 0) [0..<NFILE] of
        Some f \<Rightarrow> (Some f, upd_file f (\<lambda>r. r\<lparr>fref := 1\<rparr>) s)
      | None \<Rightarrow> (None, s))"

definition file_dup :: "nat \<Rightarrow> 'c files \<Rightarrow> (nat \<times> 'c files) outcome" where
  "file_dup f s =
     andthen (ASSERT (1 \<le> fref (ftable s f))) (\<lambda>_. Ret (f, upd_file f (\<lambda>r. r\<lparr>fref := fref r + 1\<rparr>) s))"

text \<open>Using a pipe that has been freed is undefined.\<close>

definition close_pipe :: "nat \<Rightarrow> bool \<Rightarrow> 'c files \<Rightarrow> 'c files outcome" where
  "close_pipe p w s =
     (case pipes s p of
        None \<Rightarrow> Undef
      | Some pi \<Rightarrow>
          andthen (pipe_close w pi) (\<lambda>(freed, pi).
          Ret (s\<lparr>pipes := (pipes s)(p := if freed then None else Some pi)\<rparr>)))"

definition file_close :: "'c env \<Rightarrow> nat \<Rightarrow> 'c files \<Rightarrow> 'c files outcome" where
  "file_close e f s =
     andthen (ASSERT (1 \<le> fref (ftable s f))) (\<lambda>_.
     let s = upd_file f (\<lambda>r. r\<lparr>fref := fref r - 1\<rparr>) s in
     if 0 < fref (ftable s f) then Ret s
     else
       let ff = ftable s f; s = upd_file f (\<lambda>r. r\<lparr>fref := 0, ftype := FD_NONE\<rparr>) s in
       case ftype ff of
         FD_PIPE \<Rightarrow> close_pipe (fobj ff) (writable ff) s
       | FD_INODE \<Rightarrow>
           let (octx, s) = begin_op e s in
           andthen (put_ip e octx (fobj ff) s) (\<lambda>(_, s). end_op e s)
       | FD_NONE \<Rightarrow> Ret s)"

definition file_stat :: "'c env \<Rightarrow> nat \<Rightarrow> 'c files \<Rightarrow> (int \<times> stat option \<times> 'c files) outcome" where
  "file_stat e f s =
     (let r = ftable s f in
      if ftype r = FD_INODE then
        andthen (lock_ip e (fobj r) s) (\<lambda>s.
        andthen (stati (icells (kfs s) (fobj r))) (\<lambda>st.
        andthen (unlock_ip (fobj r) s) (\<lambda>s. Ret (0, Some st, s))))
      else Ret (- 1, None, s))"

text \<open>A successful transfer moves the offset.\<close>

definition advance :: "nat \<Rightarrow> nat \<Rightarrow> 'c files \<Rightarrow> 'c files" where
  "advance f n s = (if 0 < n then upd_file f (\<lambda>r. r\<lparr>off := (off r + n) mod 2 ^ 64\<rparr>) s else s)"

text \<open>The bytes read are the result; \<open>Failed\<close> is the value -1. A pipe takes the count as an \<^verbatim>\<open>int\<close>.\<close>

definition file_read :: "'c env \<Rightarrow> nat \<Rightarrow> int \<Rightarrow> 'c files \<Rightarrow> (u8 list transfer \<times> 'c files) outcome" where
  "file_read e f n s =
     (let r = ftable s f in
      if \<not> readable r then Ret (Failed, s)
      else case ftype r of
        FD_PIPE \<Rightarrow>
          (case pipes s (fobj r) of
             None \<Rightarrow> Undef
           | Some pi \<Rightarrow>
               andthen (pipe_read (e_th e) (e_killed e) (nat (signed_take_bit 31 n)) pi) (\<lambda>(t, pi).
               Ret (t, s\<lparr>pipes := (pipes s)(fobj r \<mapsto> pi)\<rparr>)))
      | FD_INODE \<Rightarrow>
          andthen (lock_ip e (fobj r) s) (\<lambda>s.
          andthen (inode_read (e_dev e) (e_bc e) (entry (icells (kfs s) (fobj r))) (off r) (nat (n mod 2 ^ 64)) (world (kfs s))) (\<lambda>(bs, c).
          let s = s\<lparr>kfs := (kfs s)\<lparr>world := c\<rparr>\<rparr>; s = advance f (length bs) s in
          andthen (unlock_ip (fobj r) s) (\<lambda>s. Ret (Finished bs, s))))
      | FD_NONE \<Rightarrow> Panic)"

text \<open>The source has as many bytes as are to be written.\<close>

definition file_write :: "'c env \<Rightarrow> nat \<Rightarrow> u8 list \<Rightarrow> 'c files \<Rightarrow> (nat transfer \<times> 'c files) outcome" where
  "file_write e f src s =
     (let r = ftable s f in
      if \<not> writable r then Ret (Failed, s)
      else case ftype r of
        FD_PIPE \<Rightarrow>
          (case pipes s (fobj r) of
             None \<Rightarrow> Undef
           | Some pi \<Rightarrow>
               andthen (pipe_write (e_th e) (e_killed e) (take (nat (signed_take_bit 31 (int (length src)))) src) pi) (\<lambda>(t, _, pi).
               Ret (t, s\<lparr>pipes := (pipes s)(fobj r \<mapsto> pi)\<rparr>)))
      | FD_INODE \<Rightarrow>
          let (octx, s) = begin_op e s in
          andthen (lock_ip e (fobj r) s) (\<lambda>s.
          andthen (inode_write (e_dev e) (e_bc e) (e_sb e) octx (icells (kfs s) (fobj r)) src (off r) (world (kfs s))) (\<lambda>(n, _, ip, c).
          let s = s\<lparr>kfs := upd_inode (fobj r) (\<lambda>_. ip) (kfs s)\<lparr>world := c\<rparr>\<rparr>;
              s = advance f n s in
          andthen (unlock_ip (fobj r) s) (\<lambda>s.
          andthen (end_op e s) (\<lambda>s. Ret (Finished n, s)))))
      | FD_NONE \<Rightarrow> Panic)"

section \<open>Pipes\<close>

definition pipe_alloc :: "'c files \<Rightarrow> (nat \<times> nat \<times> 'c files) outcome" where
  "pipe_alloc s =
     (case file_alloc s of
        (None, _) \<Rightarrow> Panic
      | (Some f0, s) \<Rightarrow>
          case file_alloc s of
            (None, _) \<Rightarrow> Panic
          | (Some f1, s) \<Rightarrow>
              let p = fresh_pipe s;
                  s = s\<lparr>pipes := (pipes s)(p \<mapsto> new_pipe), fresh_pipe := p + 1\<rparr>;
                  s = upd_file f0 (\<lambda>r. r\<lparr>ftype := FD_PIPE, readable := True, writable := False, fobj := p\<rparr>) s;
                  s = upd_file f1 (\<lambda>r. r\<lparr>ftype := FD_PIPE, readable := False, writable := True, fobj := p\<rparr>) s
              in Ret (f0, f1, s))"

section \<open>Well-formed tables\<close>

text \<open>The operations of the inode layer leave the tables alone.\<close>

definition tabs :: "'c files \<Rightarrow> (nat \<Rightarrow> kfile) \<times> (nat \<Rightarrow> pipe option) \<times> nat" where
  "tabs s = (ftable s, pipes s, fresh_pipe s)"

named_theorems frames

lemma tabs_kfs [simp]: "tabs (s\<lparr>kfs := k\<rparr>) = tabs s" by (simp add: tabs_def)

lemma begin_op_tabs [frames]: "begin_op e s = (octx, s') \<Longrightarrow> tabs s' = tabs s"
  by (auto simp: begin_op_def split: prod.splits)

lemma end_op_tabs [frames]: "end_op e s = Ret s' \<Longrightarrow> tabs s' = tabs s"
  by (auto simp: end_op_def andthen_eq_Ret split: if_splits)

lemma lock_ip_tabs [frames]: "lock_ip e p s = Ret s' \<Longrightarrow> tabs s' = tabs s"
  by (auto simp: lock_ip_def andthen_eq_Ret)

lemma unlock_ip_tabs [frames]: "unlock_ip p s = Ret s' \<Longrightarrow> tabs s' = tabs s"
  by (auto simp: unlock_ip_def andthen_eq_Ret)

lemma put_ip_tabs [frames]: "put_ip e octx p s = Ret (octx', s') \<Longrightarrow> tabs s' = tabs s"
  by (auto simp: put_ip_def andthen_eq_Ret)

text \<open>An open file that is end \<open>w\<close> of the pipe at \<open>p\<close>.\<close>

definition pipe_end :: "(nat \<Rightarrow> kfile) \<Rightarrow> nat \<Rightarrow> bool \<Rightarrow> nat \<Rightarrow> bool" where
  "pipe_end ft p w f \<longleftrightarrow> 0 < fref (ft f) \<and> ftype (ft f) = FD_PIPE \<and> fobj (ft f) = p \<and> writable (ft f) = w"

text \<open>
  A file has a type exactly while it is referenced; a pipe is in memory exactly while one of its ends
  is open, and an end is one file at most.
\<close>

definition ft_wf :: "(nat \<Rightarrow> kfile) \<Rightarrow> bool" where
  "ft_wf ft \<longleftrightarrow>
     (\<forall>f. 0 \<le> fref (ft f) \<and> (fref (ft f) = 0 \<longleftrightarrow> ftype (ft f) = FD_NONE)) \<and>
     (\<forall>f. ftype (ft f) = FD_PIPE \<longrightarrow> readable (ft f) = (\<not> writable (ft f))) \<and>
     (\<forall>p w f g. pipe_end ft p w f \<longrightarrow> pipe_end ft p w g \<longrightarrow> f = g)"

definition pipe_wf :: "(nat \<Rightarrow> kfile) \<Rightarrow> nat \<Rightarrow> pipe option \<Rightarrow> bool" where
  "pipe_wf ft p po \<longleftrightarrow>
     (case po of
        None \<Rightarrow> \<forall>w f. \<not> pipe_end ft p w f
      | Some pi \<Rightarrow> pipe_ok pi \<and> readopen pi = (\<exists>f. pipe_end ft p False f) \<and> writeopen pi = (\<exists>f. pipe_end ft p True f) \<and>
          (readopen pi \<or> writeopen pi))"

definition files_wf :: "'c files \<Rightarrow> bool" where
  "files_wf s \<longleftrightarrow> ft_wf (ftable s) \<and> (\<forall>p. pipe_wf (ftable s) p (pipes s p)) \<and> (\<forall>p\<ge>fresh_pipe s. pipes s p = None)"

lemma files_wf_tabs: "tabs s' = tabs s \<Longrightarrow> files_wf s' \<longleftrightarrow> files_wf s"
  by (simp add: tabs_def files_wf_def)

text \<open>A change of a file that keeps what the tables depend on.\<close>

lemma files_wf_upd:
  assumes w: "files_wf s" and g: "ftype (g (ftable s f)) = ftype (ftable s f)" "fobj (g (ftable s f)) = fobj (ftable s f)"
    "writable (g (ftable s f)) = writable (ftable s f)" "readable (g (ftable s f)) = readable (ftable s f)"
    "0 \<le> fref (g (ftable s f))" "fref (g (ftable s f)) = 0 \<longleftrightarrow> fref (ftable s f) = 0"
  shows "files_wf (upd_file f g s)"
proof -
  let ?s = "upd_file f g s"
  have k: "ftype (ftable ?s h) = ftype (ftable s h)" "writable (ftable ?s h) = writable (ftable s h)" "fobj (ftable ?s h) = fobj (ftable s h)"
    "readable (ftable ?s h) = readable (ftable s h)" "pipes ?s = pipes s" "fresh_pipe ?s = fresh_pipe s"
    "fref (ftable ?s h) = 0 \<longleftrightarrow> fref (ftable s h) = 0" for h using g by (simp_all add: upd_file_def)
  have z: "0 \<le> fref (ftable ?s h) \<longleftrightarrow> 0 \<le> fref (ftable s h)" "0 < fref (ftable ?s h) \<longleftrightarrow> 0 < fref (ftable s h)" for h
    using g(5,6) w by (auto simp: upd_file_def files_wf_def ft_wf_def order.strict_iff_order)
  have e: "pipe_end (ftable ?s) = pipe_end (ftable s)" by (intro ext) (simp only: pipe_end_def k z)
  show ?thesis using w unfolding files_wf_def ft_wf_def pipe_wf_def e k z .
qed

text \<open>An operation on a pipe that keeps its ends.\<close>

lemma files_wf_pipe:
  assumes "files_wf s" "pipes s p = Some pi" "pipe_ok pi'" "readopen pi' = readopen pi" "writeopen pi' = writeopen pi"
  shows "files_wf (s\<lparr>pipes := (pipes s)(p \<mapsto> pi')\<rparr>)"
proof -
  have "pipe_wf (ftable s) p (pipes s p)" using assms(1) by (auto simp: files_wf_def)
  then have "pipe_wf (ftable s) p (Some pi')" using assms(2-5) by (auto simp: pipe_wf_def)
  moreover have "\<not> fresh_pipe s \<le> p" using assms(1,2) by (auto simp: files_wf_def)
  ultimately show ?thesis using assms(1) by (auto simp: files_wf_def)
qed

lemma fref_nonneg: "files_wf s \<Longrightarrow> 0 \<le> fref (ftable s f)"
  by (simp add: files_wf_def ft_wf_def)

lemma open_typed: "files_wf s \<Longrightarrow> ftype (ftable s f) = FD_NONE \<longleftrightarrow> fref (ftable s f) = 0"
  unfolding files_wf_def ft_wf_def by blast

lemma files_wf_advance: "files_wf s \<Longrightarrow> files_wf (advance f n s)"
  using files_wf_upd [of s "\<lambda>r. r\<lparr>off := (off r + n) mod 2 ^ 64\<rparr>" f] fref_nonneg [of s f] by (simp add: advance_def)

section \<open>Files stay well-formed\<close>

lemma file_alloc_cases:
  obtains f where "file_alloc s = (Some f, upd_file f (\<lambda>r. r\<lparr>fref := 1\<rparr>) s)" "fref (ftable s f) = 0" "f < NFILE"
  | "file_alloc s = (None, s)"
  by (cases "find (\<lambda>f. fref (ftable s f) = 0) [0..<NFILE]") (auto simp: file_alloc_def find_Some_iff)

lemma file_dup_wf:
  assumes "files_wf s" "0 < fref (ftable s f)"
  shows "\<exists>s'. file_dup f s = Ret (f, s') \<and> files_wf s' \<and> (\<forall>g. fref (ftable s' g) = fref (ftable s g) + (if g = f then 1 else 0))"
  using files_wf_upd [OF assms(1), of "\<lambda>r. r\<lparr>fref := fref r + 1\<rparr>" f] assms(2) by (auto simp: file_dup_def upd_file_def)

text \<open>The file loses its last reference: it is none, and an end of a pipe that it was is closed.\<close>

lemma ft_wf_free: "ft_wf ft \<Longrightarrow> ft_wf (ft(f := (ft f)\<lparr>fref := 0, ftype := FD_NONE\<rparr>))"
  by (auto simp: ft_wf_def pipe_end_def)

lemma pipe_end_free:
  "pipe_end (ft(f := (ft f)\<lparr>fref := 0, ftype := FD_NONE\<rparr>)) p w g \<longleftrightarrow> pipe_end ft p w g \<and> g \<noteq> f"
  by (auto simp: pipe_end_def)

lemma close_pipe_wf:
  assumes w: "files_wf s" and f: "0 < fref (ftable s f)" "ftype (ftable s f) = FD_PIPE"
  shows "\<exists>s'. close_pipe (fobj (ftable s f)) (writable (ftable s f)) (upd_file f (\<lambda>r. r\<lparr>fref := 0, ftype := FD_NONE\<rparr>) s) = Ret s' \<and>
    files_wf s' \<and> ftable s' = (ftable s)(f := (ftable s f)\<lparr>fref := 0, ftype := FD_NONE\<rparr>)"
proof -
  let ?p = "fobj (ftable s f)" and ?w = "writable (ftable s f)" and ?ft = "(ftable s)(f := (ftable s f)\<lparr>fref := 0, ftype := FD_NONE\<rparr>)"
  have ft: "ft_wf (ftable s)" and pw: "\<And>p. pipe_wf (ftable s) p (pipes s p)" using w by (auto simp: files_wf_def)
  have en: "pipe_end (ftable s) ?p ?w f" using f by (simp add: pipe_end_def)
  then obtain pi where pi: "pipes s ?p = Some pi" "pipe_ok pi" using pw [of ?p] by (auto simp: pipe_wf_def split: option.splits)
  then have o: "readopen pi = (\<exists>f. pipe_end (ftable s) ?p False f)" "writeopen pi = (\<exists>f. pipe_end (ftable s) ?p True f)"
    using pw [of ?p] by (auto simp: pipe_wf_def)
  obtain fr pi' where c: "pipe_close ?w pi = Ret (fr, pi')" "pipe_ok pi'" "readopen pi' = (readopen pi \<and> ?w)"
    "writeopen pi' = (writeopen pi \<and> \<not> ?w)" "fr \<longleftrightarrow> \<not> readopen pi' \<and> \<not> writeopen pi'" using close_result [OF pi(2)] by blast
  have gone: "\<not> pipe_end ?ft ?p ?w g" for g using ft en unfolding pipe_end_free ft_wf_def by blast
  have others: "pipe_end ?ft p w g = pipe_end (ftable s) p w g" if "p \<noteq> ?p \<or> w \<noteq> ?w" for p w g
    using that f unfolding pipe_end_free by (auto simp: pipe_end_def)
  have o': "readopen pi' = (\<exists>f. pipe_end ?ft ?p False f)" "writeopen pi' = (\<exists>f. pipe_end ?ft ?p True f)"
    using c(3,4) o gone others [of ?p] by (cases ?w; auto)+
  then have "pipe_wf ?ft ?p (if fr then None else Some pi')" using c(2,5) by (auto simp: pipe_wf_def) (metis (full_types))+
  moreover have "pipe_wf ?ft p (pipes s p)" if "p \<noteq> ?p" for p using pw [of p] others [of p] that
    by (auto simp: pipe_wf_def split: option.splits)
  moreover have "\<not> fresh_pipe s \<le> ?p" using w pi(1) by (auto simp: files_wf_def)
  ultimately have "files_wf (upd_file f (\<lambda>r. r\<lparr>fref := 0, ftype := FD_NONE\<rparr>) s\<lparr>pipes := (pipes s)(?p := if fr then None else Some pi')\<rparr>)"
    using w ft_wf_free [OF ft] by (auto simp: files_wf_def upd_file_def)
  then show ?thesis using pi(1) c(1) by (auto simp: close_pipe_def upd_file_def)
qed

definition unref :: "nat \<Rightarrow> (nat \<Rightarrow> kfile) \<Rightarrow> nat \<Rightarrow> int" where
  "unref f ft g = fref (ft g) - (if g = f then 1 else 0)"

lemma file_close_last:
  assumes "files_wf s" "fref (ftable s f) = 1"
  shows "file_close e f s =
    (let ff = ftable s f; s = upd_file f (\<lambda>r. r\<lparr>fref := 0, ftype := FD_NONE\<rparr>) s in
     case ftype ff of
       FD_PIPE \<Rightarrow> close_pipe (fobj ff) (writable ff) s
     | FD_INODE \<Rightarrow> let (octx, s) = begin_op e s in andthen (put_ip e octx (fobj ff) s) (\<lambda>(_, s). end_op e s)
     | FD_NONE \<Rightarrow> Ret s)"
  using assms by (cases "ftype (ftable s f)") (simp_all add: file_close_def upd_file_def Let_def)

lemma file_close_wf:
  assumes w: "files_wf s" and f: "0 < fref (ftable s f)" and r: "file_close e f s = Ret s'"
  shows "files_wf s' \<and> (\<forall>g. fref (ftable s' g) = unref f (ftable s) g)"
proof (cases "fref (ftable s f) = 1")
  case False
  then have "file_close e f s = Ret (upd_file f (\<lambda>r. r\<lparr>fref := fref r - 1\<rparr>) s)" using f by (simp add: file_close_def upd_file_def)
  then show ?thesis using files_wf_upd [OF w, of "\<lambda>r. r\<lparr>fref := fref r - 1\<rparr>" f] f r False by (auto simp: upd_file_def unref_def)
next
  case True
  let ?s = "upd_file f (\<lambda>r. r\<lparr>fref := 0, ftype := FD_NONE\<rparr>) s"
  have n: "fref (ftable ?s g) = unref f (ftable s) g" for g using True by (simp add: upd_file_def unref_def)
  show ?thesis
  proof (cases "ftype (ftable s f)")
    case FD_PIPE
    then show ?thesis using close_pipe_wf [OF w f FD_PIPE] r n True
      by (auto simp: file_close_last [OF w True] Let_def upd_file_def)
  next
    case FD_INODE
    have "files_wf ?s"
    proof -
      have e: "pipe_end (ftable ?s) = pipe_end (ftable s)" using FD_INODE by (auto simp: pipe_end_def upd_file_def fun_eq_iff)
      have "ft_wf (ftable ?s)" "pipes ?s = pipes s" "fresh_pipe ?s = fresh_pipe s"
        using w ft_wf_free [of "ftable s" f] by (auto simp: upd_file_def files_wf_def)
      then show ?thesis using w unfolding files_wf_def pipe_wf_def e by simp
    qed
    moreover have "tabs s' = tabs ?s" using r FD_INODE
      by (auto simp: file_close_last [OF w True] Let_def andthen_eq_Ret split: prod.splits dest!: frames)
    ultimately show ?thesis using files_wf_tabs [of s' ?s] n by (simp add: tabs_def)
  next
    case FD_NONE
    then show ?thesis using open_typed [OF w] True by simp
  qed
qed

text \<open>A file that is no inode is closed without a panic or a use of freed memory.\<close>

lemma file_close_ends:
  assumes "files_wf s" "0 < fref (ftable s f)" "ftype (ftable s f) \<noteq> FD_INODE"
  shows "\<exists>s'. file_close e f s = Ret s'"
proof (cases "fref (ftable s f) = 1")
  case True
  have "ftype (ftable s f) \<noteq> FD_NONE" using open_typed [OF assms(1)] True by simp
  then have "ftype (ftable s f) = FD_PIPE" using assms(3) by (cases "ftype (ftable s f)") auto
  then show ?thesis using close_pipe_wf [OF assms(1,2)] by (auto simp: file_close_last [OF assms(1) True] Let_def)
qed (use assms in \<open>simp add: file_close_def upd_file_def\<close>)

text \<open>Closing a file that was only allocated gives the table back.\<close>

lemma file_close_fresh:
  assumes "files_wf s" "fref (ftable s f) = 0"
  shows "file_close e f (upd_file f (\<lambda>r. r\<lparr>fref := 1\<rparr>) s) = Ret s"
proof -
  have "ftype (ftable s f) = FD_NONE" using assms open_typed by blast
  then have "(ftable s)(f := (ftable s f)\<lparr>fref := 0, ftype := FD_NONE\<rparr>) = ftable s" using assms(2) by (auto simp: fun_eq_iff)
  then show ?thesis using \<open>ftype (ftable s f) = FD_NONE\<close> by (simp add: file_close_def upd_file_def)
qed

text \<open>The thread is not waiting in a pipe.\<close>

definition awake :: "nat \<Rightarrow> 'c files \<Rightarrow> bool" where
  "awake th s \<longleftrightarrow> (\<forall>p pi. pipes s p = Some pi \<longrightarrow> \<not> waits th (rlock pi) \<and> \<not> waits th (wlock pi))"

lemma open_pipe:
  assumes "files_wf s" "0 < fref (ftable s f)" "ftype (ftable s f) = FD_PIPE"
  obtains pi where "pipes s (fobj (ftable s f)) = Some pi" "pipe_ok pi"
proof -
  have "pipe_end (ftable s) (fobj (ftable s f)) (writable (ftable s f)) f" using assms by (simp add: pipe_end_def)
  moreover have "pipe_wf (ftable s) (fobj (ftable s f)) (pipes s (fobj (ftable s f)))" using assms(1) by (simp add: files_wf_def)
  ultimately show ?thesis using that by (auto simp: pipe_wf_def split: option.splits)
qed

definition same_refs :: "'c files \<Rightarrow> 'c files \<Rightarrow> bool" where
  "same_refs s s' \<longleftrightarrow> (\<forall>g. fref (ftable s' g) = fref (ftable s g))"

lemma advance_refs [simp]: "fref (ftable (advance f n s) g) = fref (ftable s g)"
  by (simp add: advance_def upd_file_def)

lemma tabs_advance: "tabs s' = tabs s \<Longrightarrow> tabs (advance f n s') = tabs (advance f n s)"
  by (simp add: tabs_def advance_def upd_file_def)

lemma tabs_same: "tabs s' = tabs s \<Longrightarrow> files_wf s \<Longrightarrow> files_wf s' \<and> (\<forall>g. fref (ftable s' g) = fref (ftable s g))"
  using files_wf_tabs [of s' s] by (simp add: tabs_def)

lemma file_read_pipe:
  assumes w: "files_wf s" and a: "awake (e_th e) s" and f: "0 < fref (ftable s f)" "ftype (ftable s f) = FD_PIPE" "readable (ftable s f)"
  obtains pi t pi' where "pipes s (fobj (ftable s f)) = Some pi" "pipe_ok pi"
    "file_read e f n s = Ret (t, s\<lparr>pipes := (pipes s)(fobj (ftable s f) \<mapsto> pi')\<rparr>)"
    "read_effect (e_th e) (e_killed e) (nat (signed_take_bit 31 n)) pi t pi'"
proof -
  obtain pi where pi: "pipes s (fobj (ftable s f)) = Some pi" "pipe_ok pi" using open_pipe [OF w f(1,2)] .
  have "\<not> waits (e_th e) (rlock pi)" using a pi(1) by (auto simp: awake_def)
  then obtain t pi' where "pipe_read (e_th e) (e_killed e) (nat (signed_take_bit 31 n)) pi = Ret (t, pi')"
    "read_effect (e_th e) (e_killed e) (nat (signed_take_bit 31 n)) pi t pi'" using read_run_result [OF pi(2)] unfolding pipe_read_def by blast
  then show ?thesis using that pi f by (simp add: file_read_def Let_def)
qed

lemma file_write_pipe:
  assumes w: "files_wf s" and a: "awake (e_th e) s" and f: "0 < fref (ftable s f)" "ftype (ftable s f) = FD_PIPE" "writable (ftable s f)"
  obtains pi t j pi' where "pipes s (fobj (ftable s f)) = Some pi" "pipe_ok pi"
    "file_write e f src s = Ret (t, s\<lparr>pipes := (pipes s)(fobj (ftable s f) \<mapsto> pi')\<rparr>)"
    "write_effect (e_th e) (e_killed e) (take (nat (signed_take_bit 31 (int (length src)))) src) 0 pi t j pi'"
proof -
  let ?src = "take (nat (signed_take_bit 31 (int (length src)))) src"
  obtain pi where pi: "pipes s (fobj (ftable s f)) = Some pi" "pipe_ok pi" using open_pipe [OF w f(1,2)] .
  have "\<not> waits (e_th e) (wlock pi)" using a pi(1) by (auto simp: awake_def)
  then obtain t j pi' where "pipe_write (e_th e) (e_killed e) ?src pi = Ret (t, j, pi')"
    "write_effect (e_th e) (e_killed e) ?src 0 pi t j pi'" using write_run_result [OF pi(2)] unfolding pipe_write_def by blast
  then show ?thesis using that pi f by (simp add: file_write_def Let_def)
qed

lemma file_read_wf:
  assumes w: "files_wf s" and a: "awake (e_th e) s" and f: "0 < fref (ftable s f)" and r: "file_read e f n s = Ret (t, s')"
  shows "files_wf s' \<and> same_refs s s'"
proof (cases "readable (ftable s f)")
  case True
  show ?thesis
  proof (cases "ftype (ftable s f)")
    case FD_PIPE
    obtain pi t pi' where p: "pipes s (fobj (ftable s f)) = Some pi" "file_read e f n s = Ret (t, s\<lparr>pipes := (pipes s)(fobj (ftable s f) \<mapsto> pi')\<rparr>)"
      "read_effect (e_th e) (e_killed e) (nat (signed_take_bit 31 n)) pi t pi'" using file_read_pipe [OF w a f FD_PIPE True] by metis
    then show ?thesis using r files_wf_pipe [OF w p(1), of pi'] by (simp add: same_refs_def read_effect_def)
  next
    case FD_INODE
    obtain s1 m k where "lock_ip e (fobj (ftable s f)) s = Ret s1"
      "unlock_ip (fobj (ftable s f)) (advance f m (s1\<lparr>kfs := k\<rparr>)) = Ret s'"
      using r True FD_INODE by (fastforce simp: file_read_def Let_def andthen_eq_Ret)
    then have "tabs s' = tabs (advance f m s)" using lock_ip_tabs unlock_ip_tabs tabs_advance tabs_kfs by metis
    from tabs_same [OF this files_wf_advance [OF w]] show ?thesis by (simp add: same_refs_def)
  next
    case FD_NONE
    then show ?thesis using open_typed [OF w] f by simp
  qed
qed (use r w in \<open>simp add: file_read_def same_refs_def\<close>)

lemma file_write_wf:
  assumes w: "files_wf s" and a: "awake (e_th e) s" and f: "0 < fref (ftable s f)" and r: "file_write e f src s = Ret (t, s')"
  shows "files_wf s' \<and> same_refs s s'"
proof (cases "writable (ftable s f)")
  case True
  show ?thesis
  proof (cases "ftype (ftable s f)")
    case FD_PIPE
    obtain pi t j pi' where p: "pipes s (fobj (ftable s f)) = Some pi" "file_write e f src s = Ret (t, s\<lparr>pipes := (pipes s)(fobj (ftable s f) \<mapsto> pi')\<rparr>)"
      "write_effect (e_th e) (e_killed e) (take (nat (signed_take_bit 31 (int (length src)))) src) 0 pi t j pi'"
      using file_write_pipe [OF w a f FD_PIPE True] by metis
    then show ?thesis using r files_wf_pipe [OF w p(1), of pi'] by (simp add: same_refs_def write_effect_def)
  next
    case FD_INODE
    obtain octx s0 s1 n k s2 where "begin_op e s = (octx, s0)" "lock_ip e (fobj (ftable s f)) s0 = Ret s1"
      "unlock_ip (fobj (ftable s f)) (advance f n (s1\<lparr>kfs := k\<rparr>)) = Ret s2" "end_op e s2 = Ret s'"
      using r True FD_INODE by (fastforce simp: file_write_def Let_def andthen_eq_Ret split: prod.splits)
    then have "tabs s' = tabs (advance f n s)" using begin_op_tabs lock_ip_tabs unlock_ip_tabs end_op_tabs tabs_advance tabs_kfs by metis
    from tabs_same [OF this files_wf_advance [OF w]] show ?thesis by (simp add: same_refs_def)
  next
    case FD_NONE
    then show ?thesis using open_typed [OF w] f by simp
  qed
qed (use r w in \<open>simp add: file_write_def same_refs_def\<close>)

text \<open>A new pipe has two new files, one for each end.\<close>

definition piped :: "nat \<Rightarrow> nat \<Rightarrow> 'c files \<Rightarrow> 'c files \<Rightarrow> bool" where
  "piped f0 f1 s s' \<longleftrightarrow>
     f0 \<noteq> f1 \<and> fref (ftable s f0) = 0 \<and> fref (ftable s f1) = 0 \<and> pipes s' = (pipes s)(fresh_pipe s \<mapsto> new_pipe) \<and>
     fresh_pipe s' = fresh_pipe s + 1 \<and> kfs s' = kfs s \<and>
     ftable s' = (ftable s)
       (f0 := (ftable s f0)\<lparr>fref := 1, ftype := FD_PIPE, readable := True, writable := False, fobj := fresh_pipe s\<rparr>,
        f1 := (ftable s f1)\<lparr>fref := 1, ftype := FD_PIPE, readable := False, writable := True, fobj := fresh_pipe s\<rparr>)"

lemma pipe_alloc_cases:
  obtains f0 f1 s' where "pipe_alloc s = Ret (f0, f1, s')" "piped f0 f1 s s'" | "pipe_alloc s = Panic"
proof (cases rule: file_alloc_cases [of s])
  case (1 f0)
  let ?s = "upd_file f0 (\<lambda>r. r\<lparr>fref := 1\<rparr>) s"
  show ?thesis
  proof (cases rule: file_alloc_cases [of ?s])
    case (1 f1)
    then have "f1 \<noteq> f0" by (auto simp: upd_file_def)
    let ?S = "s\<lparr>ftable := (ftable s)
       (f0 := (ftable s f0)\<lparr>fref := 1, ftype := FD_PIPE, readable := True, writable := False, fobj := fresh_pipe s\<rparr>,
        f1 := (ftable s f1)\<lparr>fref := 1, ftype := FD_PIPE, readable := False, writable := True, fobj := fresh_pipe s\<rparr>),
       pipes := (pipes s)(fresh_pipe s \<mapsto> new_pipe), fresh_pipe := fresh_pipe s + 1\<rparr>"
    have "pipe_alloc s = Ret (f0, f1, ?S)" using \<open>f1 \<noteq> f0\<close> \<open>file_alloc s = _\<close> 1(1)
      by (simp add: pipe_alloc_def upd_file_def Let_def fun_upd_twist [of f1 f0])
    moreover have "piped f0 f1 s ?S" using \<open>f1 \<noteq> f0\<close> \<open>fref (ftable s f0) = 0\<close> 1(2) by (simp add: piped_def upd_file_def)
    ultimately show ?thesis by (rule that(1))
  next
    case 2
    then show ?thesis using that(2) \<open>file_alloc s = _\<close> by (simp add: pipe_alloc_def)
  qed
next
  case 2
  then show ?thesis using that(2) by (simp add: pipe_alloc_def)
qed

lemma piped_end:
  assumes "piped f0 f1 s s'" "files_wf s"
  shows "pipe_end (ftable s') p w g \<longleftrightarrow>
    (if p = fresh_pipe s then g = (if w then f1 else f0) else pipe_end (ftable s) p w g)"
proof -
  have "pipes s (fresh_pipe s) = None" using assms(2) by (auto simp: files_wf_def)
  moreover have "pipe_wf (ftable s) (fresh_pipe s) (pipes s (fresh_pipe s))" using assms(2) unfolding files_wf_def by blast
  ultimately have "\<not> pipe_end (ftable s) (fresh_pipe s) w g" by (simp add: pipe_wf_def)
  then show ?thesis using assms(1) by (auto simp: piped_def pipe_end_def)
qed

lemma piped_wf:
  assumes p: "piped f0 f1 s s'" and w: "files_wf s"
  shows "files_wf s'"
proof -
  have ft: "ft_wf (ftable s)" "\<And>p. pipe_wf (ftable s) p (pipes s p)" using w by (auto simp: files_wf_def)
  have "ft_wf (ftable s')" unfolding ft_wf_def piped_end [OF p w]
  proof (intro conjI allI)
    fix f
    show "0 \<le> fref (ftable s' f)" "(fref (ftable s' f) = 0) = (ftype (ftable s' f) = FD_NONE)"
      "ftype (ftable s' f) = FD_PIPE \<longrightarrow> readable (ftable s' f) = (\<not> writable (ftable s' f))"
      using p ft(1) by (auto simp: piped_def ft_wf_def)
  next
    fix p w f g
    show "(if p = fresh_pipe s then f = (if w then f1 else f0) else pipe_end (ftable s) p w f) \<longrightarrow>
      (if p = fresh_pipe s then g = (if w then f1 else f0) else pipe_end (ftable s) p w g) \<longrightarrow> f = g"
      using ft(1) unfolding ft_wf_def by auto
  qed
  moreover have "pipe_wf (ftable s') q (pipes s' q)" for q
  proof (cases "q = fresh_pipe s")
    case True
    then show ?thesis using p new_pipe_ok(1) unfolding pipe_wf_def piped_end [OF p w] by (auto simp: piped_def new_pipe_def)
  next
    case False
    then have "pipe_end (ftable s') q = pipe_end (ftable s) q" by (intro ext) (simp add: piped_end [OF p w])
    moreover have "pipes s' q = pipes s q" using p False by (simp add: piped_def)
    ultimately show ?thesis using ft(2) [of q] by (cases "pipes s q") (auto simp: pipe_wf_def)
  qed
  ultimately show ?thesis using p w by (auto simp: files_wf_def piped_def)
qed

end
