(* ===== verification/Sysfile.thy ===== *)
theory Sysfile
  imports File
begin

text \<open>
  The system calls on files (\<^verbatim>\<open>kernel/sysfile.c\<close>), with the descriptor table and the working
  directory of the calling process. Pointers into user memory are checked as in the code and
  then read in \<open>e_um\<close>; what a call writes there is part of its result. A path that passed
  \<^verbatim>\<open>user_strlen\<close> is the string at its address.
\<close>

section \<open>State and descriptors\<close>

record 'c sys =
  fl :: "'c files"
  ofiles :: "nat option list"
  cwd :: nat

definition AT_FDCWD :: int where "AT_FDCWD = - 100"
definition O_WRONLY :: int where "O_WRONLY = 1"
definition O_RDWR :: int where "O_RDWR = 2"
definition O_CREAT :: int where "O_CREAT = 64"

definition fd2file :: "int \<Rightarrow> 'c sys \<Rightarrow> nat option" where
  "fd2file fd t = (if 0 \<le> fd \<and> fd < int NOFILE then ofiles t ! nat fd else None)"

definition fdalloc :: "nat \<Rightarrow> 'c sys \<Rightarrow> int \<times> 'c sys" where
  "fdalloc f t =
     (case find (\<lambda>i. ofiles t ! i = None) [0..<NOFILE] of
        Some i \<Rightarrow> (int i, t\<lparr>ofiles := (ofiles t)[i := Some f]\<rparr>)
      | None \<Rightarrow> (- 1, t))"

text \<open>An operation on the files, run in the system call.\<close>

definition on_files :: "'c files outcome \<Rightarrow> 'c sys \<Rightarrow> 'c sys outcome" where
  "on_files r t = andthen r (\<lambda>s. Ret (t\<lparr>fl := s\<rparr>))"

definition bytes_at :: "(u64 \<Rightarrow> u8) \<Rightarrow> u64 \<Rightarrow> nat \<Rightarrow> u8 list" where
  "bytes_at um a n = map (\<lambda>i. um (a + of_nat i)) [0..<n]"

definition path_at :: "'c env \<Rightarrow> u64 \<Rightarrow> u8 list" where
  "path_at e a = bytes_at (e_um e) a (user_strlen (e_rs e) (e_um e) a 256 - 1)"

section \<open>Transfer\<close>

definition sys_ioctl :: "int \<Rightarrow> u64 \<Rightarrow> int outcome" where
  "sys_ioctl fd request = andthen (ASSERT (request = 0x5413)) (\<lambda>_. Ret 0)"

definition sys_dup :: "int \<Rightarrow> 'c sys \<Rightarrow> (int \<times> 'c sys) outcome" where
  "sys_dup fd t =
     (case fd2file fd t of
        None \<Rightarrow> Ret (- 1, t)
      | Some f \<Rightarrow>
          let (fd, t) = fdalloc f t in
          if fd < 0 then Ret (- 1, t)
          else andthen (file_dup f (fl t)) (\<lambda>(_, s). Ret (fd, t\<lparr>fl := s\<rparr>)))"

definition sys_read :: "'c env \<Rightarrow> int \<Rightarrow> u64 \<Rightarrow> int \<Rightarrow> 'c sys \<Rightarrow> (u8 list transfer \<times> 'c sys) outcome" where
  "sys_read e fd buffer sz t =
     (case fd2file fd t of
        None \<Rightarrow> Ret (Failed, t)
      | Some f \<Rightarrow>
          if sz \<le> 0 \<or> \<not> user_writeable (e_rs e) buffer (of_int sz) then Ret (Failed, t)
          else andthen (file_read e f sz (fl t)) (\<lambda>(r, s). Ret (r, t\<lparr>fl := s\<rparr>)))"

definition sys_write :: "'c env \<Rightarrow> int \<Rightarrow> u64 \<Rightarrow> int \<Rightarrow> 'c sys \<Rightarrow> (nat transfer \<times> 'c sys) outcome" where
  "sys_write e fd buffer sz t =
     (case fd2file fd t of
        None \<Rightarrow> Ret (Failed, t)
      | Some f \<Rightarrow>
          if sz \<le> 0 \<or> \<not> user_readable (e_rs e) buffer (of_int sz) then Ret (Failed, t)
          else andthen (file_write e f (bytes_at (e_um e) buffer (nat sz)) (fl t)) (\<lambda>(r, s). Ret (r, t\<lparr>fl := s\<rparr>)))"

text \<open>The loop over \<open>n\<close> vectors from address \<open>p\<close> on; a failed write adds -1 to the total.\<close>

primrec writev_loop :: "'c env \<Rightarrow> nat \<Rightarrow> nat \<Rightarrow> u64 \<Rightarrow> nat \<Rightarrow> 'c files \<Rightarrow> (int \<times> 'c files) outcome" where
  "writev_loop e f 0 p tot s = Ret (int tot, s)"
| "writev_loop e f (Suc n) p tot s =
     (let base = of_nat (get_le 8 0 (bytes_at (e_um e) p 8)); len = get_le 8 0 (bytes_at (e_um e) (p + 8) 8) in
      if \<not> user_readable (e_rs e) base (of_nat len) then Ret (- 1, s)
      else
        andthen (file_write e f (bytes_at (e_um e) base len) s) (\<lambda>(r, s).
        case r of
          Asleep \<Rightarrow> Sleep
        | Failed \<Rightarrow> writev_loop e f n (p + 16) ((tot + (2 ^ 64 - 1)) mod 2 ^ 64) s
        | Finished k \<Rightarrow> writev_loop e f n (p + 16) ((tot + k) mod 2 ^ 64) s))"

definition sys_writev :: "'c env \<Rightarrow> int \<Rightarrow> u64 \<Rightarrow> int \<Rightarrow> 'c sys \<Rightarrow> (int \<times> 'c sys) outcome" where
  "sys_writev e fd iov iovcnt t =
     (case fd2file fd t of
        None \<Rightarrow> Ret (- 1, t)
      | Some f \<Rightarrow>
          if iovcnt \<le> 0 \<or> \<not> user_readable (e_rs e) iov (of_int (16 * iovcnt)) then Ret (- 1, t)
          else andthen (writev_loop e f (nat iovcnt) iov 0 (fl t)) (\<lambda>(r, s). Ret (r, t\<lparr>fl := s\<rparr>)))"

text \<open>The descriptor is not checked before it indexes the table.\<close>

definition sys_close :: "'c env \<Rightarrow> int \<Rightarrow> 'c sys \<Rightarrow> (int \<times> 'c sys) outcome" where
  "sys_close e fd t =
     (if fd < 0 \<or> int NOFILE \<le> fd then Undef
      else case ofiles t ! nat fd of
        None \<Rightarrow> Ret (- 1, t)
      | Some f \<Rightarrow>
          let t = t\<lparr>ofiles := (ofiles t)[nat fd := None]\<rparr> in
          andthen (on_files (file_close e f (fl t)) t) (\<lambda>t. Ret (0, t)))"

definition STAT_SIZE :: nat where "STAT_SIZE = 128"

definition sys_fstat :: "'c env \<Rightarrow> int \<Rightarrow> u64 \<Rightarrow> 'c sys \<Rightarrow> (int \<times> stat option \<times> 'c sys) outcome" where
  "sys_fstat e fd st t =
     (case fd2file fd t of
        None \<Rightarrow> Ret (- 1, None, t)
      | Some f \<Rightarrow>
          if \<not> user_writeable (e_rs e) st (of_nat STAT_SIZE) then Ret (- 1, None, t)
          else andthen (file_stat e f (fl t)) (\<lambda>(r, x, s). Ret (r, x, t\<lparr>fl := s\<rparr>)))"

section \<open>Paths\<close>

definition namei_sys :: "'c env \<Rightarrow> op_ctx option \<Rightarrow> u8 list \<Rightarrow> 'c sys \<Rightarrow> (nat option \<times> op_ctx option \<times> 'c files) outcome" where
  "namei_sys e octx path t =
     andthen (namei (e_dev e) (e_bc e) (e_sb e) (e_th e) octx (e_root e) (cwd t) path (kfs (fl t))) (\<lambda>(r, octx, k).
     Ret (r, octx, (fl t)\<lparr>kfs := k\<rparr>))"

definition nameiparent_sys ::
  "'c env \<Rightarrow> op_ctx option \<Rightarrow> u8 list \<Rightarrow> 'c sys \<Rightarrow> (nat option \<times> u8 list \<times> op_ctx option \<times> 'c files) outcome" where
  "nameiparent_sys e octx path t =
     andthen (nameiparent (e_dev e) (e_bc e) (e_sb e) (e_th e) octx (e_root e) (cwd t) path (e_name e) (kfs (fl t))) (\<lambda>(r, name, octx, k).
     Ret (r, name, octx, (fl t)\<lparr>kfs := k\<rparr>))"

definition sys_newfstatat :: "'c env \<Rightarrow> int \<Rightarrow> u64 \<Rightarrow> u64 \<Rightarrow> int \<Rightarrow> 'c sys \<Rightarrow> (int \<times> stat option \<times> 'c sys) outcome" where
  "sys_newfstatat e dirfd path st flg t =
     (if user_strlen (e_rs e) (e_um e) path 256 = 0 \<or> \<not> user_writeable (e_rs e) st (of_nat STAT_SIZE) then Ret (- 1, None, t)
      else if dirfd \<noteq> AT_FDCWD then Ret (- 1, None, t)
      else if flg \<noteq> 0 then Ret (- 1, None, t)
      else
        let (octx, s) = begin_op e (fl t) in
        andthen (namei_sys e octx (path_at e path) (t\<lparr>fl := s\<rparr>)) (\<lambda>(r, octx, s).
        case r of
          None \<Rightarrow> andthen (end_op e s) (\<lambda>s. Ret (- 1, None, t\<lparr>fl := s\<rparr>))
        | Some ip \<Rightarrow>
            andthen (lock_ip e ip s) (\<lambda>s.
            andthen (stati (icells (kfs s) ip)) (\<lambda>x.
            andthen (unlock_ip ip s) (\<lambda>s.
            andthen (put_ip e octx ip s) (\<lambda>(_, s).
            andthen (end_op e s) (\<lambda>s. Ret (0, Some x, t\<lparr>fl := s\<rparr>))))))))"

section \<open>Directories\<close>

text \<open>The operations of \<^verbatim>\<open>inodes\<close> on this state.\<close>

definition lookup_ip :: "'c env \<Rightarrow> nat \<Rightarrow> u8 list \<Rightarrow> 'c files \<Rightarrow> (nat \<times> nat option \<times> 'c files) outcome" where
  "lookup_ip e p name s =
     andthen (inode_lookup (e_dev e) (e_bc e) (entry (icells (kfs s) p)) name (world (kfs s))) (\<lambda>(no, i, c).
     Ret (no, i, s\<lparr>kfs := (kfs s)\<lparr>world := c\<rparr>\<rparr>))"

definition get_ip :: "'c env \<Rightarrow> nat \<Rightarrow> 'c files \<Rightarrow> (nat \<times> 'c files) outcome" where
  "get_ip e no s = andthen (inode_get (e_bc e) (e_sb e) (e_th e) no (kfs s)) (\<lambda>(p, k). Ret (p, s\<lparr>kfs := k\<rparr>))"

definition alloc_ip :: "'c env \<Rightarrow> op_ctx option \<Rightarrow> nat \<Rightarrow> 'c files \<Rightarrow> (nat \<times> op_ctx option \<times> 'c files) outcome" where
  "alloc_ip e octx ty s =
     (case octx of
        None \<Rightarrow> Undef
      | Some ctx \<Rightarrow>
          andthen (inode_alloc (e_bc e) (e_sb e) ctx ty (world (kfs s))) (\<lambda>(no, ctx, c).
          Ret (no, Some ctx, s\<lparr>kfs := (kfs s)\<lparr>world := c\<rparr>\<rparr>)))"

definition sync_ip :: "'c env \<Rightarrow> op_ctx option \<Rightarrow> nat \<Rightarrow> 'c files \<Rightarrow> (op_ctx option \<times> 'c files) outcome" where
  "sync_ip e octx p s = andthen (sync_at (e_bc e) (e_sb e) octx p True (kfs s)) (\<lambda>(octx, k). Ret (octx, s\<lparr>kfs := k\<rparr>))"

definition set_entry :: "nat \<Rightarrow> (dinode \<Rightarrow> dinode) \<Rightarrow> 'c files \<Rightarrow> 'c files" where
  "set_entry p g s = s\<lparr>kfs := upd_inode p (\<lambda>ip. ip\<lparr>entry := g (entry ip)\<rparr>) (kfs s)\<rparr>"

definition write_ip ::
  "'c env \<Rightarrow> op_ctx option \<Rightarrow> nat \<Rightarrow> u8 list \<Rightarrow> nat \<Rightarrow> 'c files \<Rightarrow> (nat \<times> op_ctx option \<times> 'c files) outcome" where
  "write_ip e octx p src i s =
     andthen (inode_write (e_dev e) (e_bc e) (e_sb e) octx (icells (kfs s) p) src i (world (kfs s))) (\<lambda>(n, octx, ip, c).
     Ret (n, octx, s\<lparr>kfs := upd_inode p (\<lambda>_. ip) (kfs s)\<lparr>world := c\<rparr>\<rparr>))"

definition insert_ip :: "'c env \<Rightarrow> op_ctx option \<Rightarrow> nat \<Rightarrow> u8 list \<Rightarrow> nat \<Rightarrow> 'c files \<Rightarrow> (op_ctx option \<times> 'c files) outcome" where
  "insert_ip e octx p name no s =
     andthen (inode_insert (e_dev e) (e_bc e) (e_sb e) octx (icells (kfs s) p) name no (world (kfs s))) (\<lambda>(_, octx, ip, c).
     Ret (octx, s\<lparr>kfs := upd_inode p (\<lambda>_. ip) (kfs s)\<lparr>world := c\<rparr>\<rparr>))"

text \<open>The literals \<^verbatim>\<open>"."\<close> and \<^verbatim>\<open>".."\<close>, with as many bytes as a name has.\<close>

definition dot :: "'c env \<Rightarrow> u8 list" where
  "dot e = take FILE_NAME_MAX_LENGTH ([46, 0] @ e_rodata e)"

definition dotdot :: "'c env \<Rightarrow> u8 list" where
  "dotdot e = take FILE_NAME_MAX_LENGTH ([46, 46, 0] @ e_rodata e)"

function isdirempty :: "'c env \<Rightarrow> dinode \<Rightarrow> nat \<Rightarrow> 'c \<Rightarrow> (bool \<times> 'c) outcome" where
  "isdirempty e d i c =
     (if i < num_bytes d then
        andthen (inode_read (e_dev e) (e_bc e) d i DIRENT_SIZE c) (\<lambda>(x, c).
        if length x \<noteq> DIRENT_SIZE then Panic
        else if d_inode_no (bytes_dirent x) \<noteq> 0 then Ret (False, c)
        else isdirempty e d (i + DIRENT_SIZE) c)
      else Ret (True, c))"
  by pat_completeness auto
termination by (relation "measure (\<lambda>(_, d, i, _). num_bytes d - i)") (auto simp: DIRENT_SIZE_def)

declare isdirempty.simps [simp del]

definition empty_dir :: "'c env \<Rightarrow> nat \<Rightarrow> 'c files \<Rightarrow> (bool \<times> 'c files) outcome" where
  "empty_dir e p s =
     andthen (isdirempty e (entry (icells (kfs s) p)) (2 * DIRENT_SIZE) (world (kfs s))) (\<lambda>(b, c).
     Ret (b, s\<lparr>kfs := (kfs s)\<lparr>world := c\<rparr>\<rparr>))"

definition links_down :: "dinode \<Rightarrow> dinode" where
  "links_down d = d\<lparr>num_links := (num_links d + (2 ^ 16 - 1)) mod 2 ^ 16\<rparr>"

text \<open>The end of \<^verbatim>\<open>unlinkat\<close> on a directory that keeps its entry.\<close>

definition unlink_bad :: "'c env \<Rightarrow> op_ctx option \<Rightarrow> nat \<Rightarrow> 'c files \<Rightarrow> (int \<times> 'c files) outcome" where
  "unlink_bad e octx dp s =
     andthen (unlock_ip dp s) (\<lambda>s.
     andthen (put_ip e octx dp s) (\<lambda>(_, s).
     andthen (end_op e s) (\<lambda>s. Ret (- 1, s))))"

definition unlink_entry :: "'c env \<Rightarrow> op_ctx option \<Rightarrow> nat \<Rightarrow> nat \<Rightarrow> nat \<Rightarrow> 'c files \<Rightarrow> (int \<times> 'c files) outcome" where
  "unlink_entry e octx dp ip i s =
     andthen (write_ip e octx dp (replicate DIRENT_SIZE 0) i s) (\<lambda>(n, octx, s).
     if n \<noteq> DIRENT_SIZE then Panic
     else
       andthen (if dtype (entry (icells (kfs s) ip)) = INODE_DIRECTORY then sync_ip e octx dp (set_entry dp links_down s)
                else Ret (octx, s)) (\<lambda>(octx, s).
       andthen (unlock_ip dp s) (\<lambda>s.
       andthen (put_ip e octx dp s) (\<lambda>(octx, s).
       andthen (sync_ip e octx ip (set_entry ip links_down s)) (\<lambda>(octx, s).
       andthen (unlock_ip ip s) (\<lambda>s.
       andthen (put_ip e octx ip s) (\<lambda>(_, s).
       andthen (end_op e s) (\<lambda>s. Ret (0, s)))))))))"

definition unlink_at :: "'c env \<Rightarrow> op_ctx option \<Rightarrow> nat \<Rightarrow> u8 list \<Rightarrow> 'c files \<Rightarrow> (int \<times> 'c files) outcome" where
  "unlink_at e octx dp name s =
     andthen (lock_ip e dp s) (\<lambda>s.
     if same_name name (dot e) \<or> same_name name (dotdot e) then unlink_bad e octx dp s
     else
       andthen (lookup_ip e dp name s) (\<lambda>(no, i, s).
       if no = 0 then unlink_bad e octx dp s
       else
         andthen (get_ip e no s) (\<lambda>(ip, s).
         andthen (lock_ip e ip s) (\<lambda>s.
         if num_links (entry (icells (kfs s) ip)) < 1 then Panic
         else
           andthen (if dtype (entry (icells (kfs s) ip)) = INODE_DIRECTORY then empty_dir e ip s else Ret (True, s)) (\<lambda>(ok, s).
           if \<not> ok then
             andthen (unlock_ip ip s) (\<lambda>s.
             andthen (put_ip e octx ip s) (\<lambda>(octx, s). unlink_bad e octx dp s))
           else unlink_entry e octx dp ip (the i) s)))))"

definition sys_unlinkat :: "'c env \<Rightarrow> int \<Rightarrow> u64 \<Rightarrow> int \<Rightarrow> 'c sys \<Rightarrow> (int \<times> 'c sys) outcome" where
  "sys_unlinkat e fd path flag t =
     andthen (ASSERT (fd = AT_FDCWD \<and> flag = 0)) (\<lambda>_.
     if user_strlen (e_rs e) (e_um e) path 256 = 0 then Ret (- 1, t)
     else
       let (octx, s) = begin_op e (fl t) in
       andthen (nameiparent_sys e octx (path_at e path) (t\<lparr>fl := s\<rparr>)) (\<lambda>(r, name, octx, s).
       case r of
         None \<Rightarrow> andthen (end_op e s) (\<lambda>s. Ret (- 1, t\<lparr>fl := s\<rparr>))
       | Some dp \<Rightarrow> andthen (unlink_at e octx dp name s) (\<lambda>(x, s). Ret (x, t\<lparr>fl := s\<rparr>))))"

section \<open>Creation\<close>

definition create_found ::
  "'c env \<Rightarrow> nat \<Rightarrow> op_ctx option \<Rightarrow> nat \<Rightarrow> nat \<Rightarrow> 'c files \<Rightarrow> (nat option \<times> op_ctx option \<times> 'c files) outcome" where
  "create_found e ty octx dp no s =
     andthen (get_ip e no s) (\<lambda>(ip, s).
     andthen (unlock_ip dp s) (\<lambda>s.
     andthen (put_ip e octx dp s) (\<lambda>(octx, s).
     andthen (lock_ip e ip s) (\<lambda>s.
     if ty = INODE_REGULAR \<and> (dtype (entry (icells (kfs s) ip)) = INODE_REGULAR \<or> dtype (entry (icells (kfs s) ip)) = INODE_DEVICE)
     then andthen (unlock_ip ip s) (\<lambda>s. Ret (Some ip, octx, s))
     else
       andthen (unlock_ip ip s) (\<lambda>s.
       andthen (put_ip e octx ip s) (\<lambda>(octx, s). Ret (None, octx, s)))))))"

text \<open>\<^verbatim>\<open>inodes.get\<close> never returns NULL, so that the branch of a failed allocation is not taken.\<close>

definition create_new ::
  "'c env \<Rightarrow> nat \<Rightarrow> int \<Rightarrow> int \<Rightarrow> op_ctx option \<Rightarrow> nat \<Rightarrow> u8 list \<Rightarrow> 'c files \<Rightarrow> (nat option \<times> op_ctx option \<times> 'c files) outcome" where
  "create_new e ty major minor octx dp name s =
     andthen (alloc_ip e octx ty s) (\<lambda>(no, octx, s).
     andthen (get_ip e no s) (\<lambda>(ip, s).
     andthen (lock_ip e ip s) (\<lambda>s.
     let s = set_entry ip (\<lambda>d. d\<lparr>dmajor := nat (major mod 2 ^ 16), dminor := nat (minor mod 2 ^ 16), num_links := 1\<rparr>) s in
     andthen (sync_ip e octx ip s) (\<lambda>(octx, s).
     andthen
       (if ty = INODE_DIRECTORY then
          let s = set_entry dp (\<lambda>d. d\<lparr>num_links := (num_links d + 1) mod 2 ^ 16\<rparr>) s in
          andthen (sync_ip e octx ip s) (\<lambda>(octx, s).
          andthen (insert_ip e octx ip (dot e) (inode_no (icells (kfs s) ip)) s) (\<lambda>(octx, s).
          insert_ip e octx ip (dotdot e) (inode_no (icells (kfs s) dp)) s))
        else Ret (octx, s)) (\<lambda>(octx, s).
     andthen (insert_ip e octx dp name (inode_no (icells (kfs s) ip)) s) (\<lambda>(octx, s).
     andthen (unlock_ip ip s) (\<lambda>s.
     andthen (unlock_ip dp s) (\<lambda>s.
     andthen (put_ip e octx dp s) (\<lambda>(octx, s). Ret (Some ip, octx, s))))))))))"

definition create ::
  "'c env \<Rightarrow> u8 list \<Rightarrow> nat \<Rightarrow> int \<Rightarrow> int \<Rightarrow> op_ctx option \<Rightarrow> 'c sys \<Rightarrow> (nat option \<times> op_ctx option \<times> 'c files) outcome" where
  "create e path ty major minor octx t =
     andthen (nameiparent_sys e octx path t) (\<lambda>(r, name, octx, s).
     case r of
       None \<Rightarrow> Ret (None, octx, s)
     | Some dp \<Rightarrow>
         andthen (ASSERT (dtype (entry (icells (kfs s) dp)) = INODE_DIRECTORY)) (\<lambda>_.
         andthen (lock_ip e dp s) (\<lambda>s.
         andthen (lookup_ip e dp name s) (\<lambda>(no, _, s).
         if 0 < no then create_found e ty octx dp no s
         else create_new e ty major minor octx dp name s))))"

section \<open>Opening\<close>

text \<open>The inode \<^verbatim>\<open>openat\<close> opens.\<close>

definition open_inode :: "'c env \<Rightarrow> u8 list \<Rightarrow> int \<Rightarrow> op_ctx option \<Rightarrow> 'c sys \<Rightarrow> (nat option \<times> op_ctx option \<times> 'c files) outcome" where
  "open_inode e path omode octx t =
     (if omode AND O_CREAT \<noteq> 0 then create e path INODE_REGULAR 0 0 octx t
      else
        andthen (namei_sys e octx path t) (\<lambda>(r, octx, s).
        case r of
          None \<Rightarrow> Ret (None, octx, s)
        | Some ip \<Rightarrow> andthen (lock_ip e ip s) (\<lambda>s. Ret (Some ip, octx, s))))"

definition open_fails :: "'c env \<Rightarrow> op_ctx option \<Rightarrow> nat \<Rightarrow> 'c sys \<Rightarrow> (int \<times> 'c sys) outcome" where
  "open_fails e octx ip t =
     andthen (unlock_ip ip (fl t)) (\<lambda>s.
     andthen (put_ip e octx ip s) (\<lambda>(_, s).
     andthen (end_op e s) (\<lambda>s. Ret (- 1, t\<lparr>fl := s\<rparr>))))"

definition sys_openat :: "'c env \<Rightarrow> int \<Rightarrow> u64 \<Rightarrow> int \<Rightarrow> 'c sys \<Rightarrow> (int \<times> 'c sys) outcome" where
  "sys_openat e dirfd path omode t =
     (if user_strlen (e_rs e) (e_um e) path 256 = 0 then Ret (- 1, t)
      else if dirfd \<noteq> AT_FDCWD then Ret (- 1, t)
      else
        let (octx, s) = begin_op e (fl t) in
        andthen (open_inode e (path_at e path) omode octx (t\<lparr>fl := s\<rparr>)) (\<lambda>(r, octx, s).
        case r of
          None \<Rightarrow> andthen (end_op e s) (\<lambda>s. Ret (- 1, t\<lparr>fl := s\<rparr>))
        | Some ip \<Rightarrow>
            let (fo, s) = file_alloc s in
            case fo of
              None \<Rightarrow> open_fails e octx ip (t\<lparr>fl := s\<rparr>)
            | Some f \<Rightarrow>
                let (fd, t) = fdalloc f (t\<lparr>fl := s\<rparr>) in
                if fd < 0 then
                  andthen (on_files (file_close e f (fl t)) t) (\<lambda>t. open_fails e octx ip t)
                else
                  andthen (unlock_ip ip (fl t)) (\<lambda>s.
                  andthen (end_op e s) (\<lambda>s.
                  Ret (fd, t\<lparr>fl := upd_file f (\<lambda>r. r\<lparr>ftype := FD_INODE, fobj := ip, off := 0,
                    readable := (omode AND O_WRONLY = 0),
                    writable := (omode AND O_WRONLY \<noteq> 0 \<or> omode AND O_RDWR \<noteq> 0)\<rparr>) s\<rparr>)))))"

text \<open>The end of \<^verbatim>\<open>mkdirat\<close> and \<^verbatim>\<open>mknodat\<close>; \<open>failed\<close> is the result where nothing was created.\<close>

definition make_at :: "'c env \<Rightarrow> u64 \<Rightarrow> nat \<Rightarrow> int \<Rightarrow> int \<Rightarrow> int \<Rightarrow> 'c sys \<Rightarrow> (int \<times> 'c sys) outcome" where
  "make_at e path ty major minor failed t =
     (let (octx, s) = begin_op e (fl t) in
      andthen (create e (path_at e path) ty major minor octx (t\<lparr>fl := s\<rparr>)) (\<lambda>(r, octx, s).
      case r of
        None \<Rightarrow> andthen (end_op e s) (\<lambda>s. Ret (failed, t\<lparr>fl := s\<rparr>))
      | Some ip \<Rightarrow>
          andthen (unlock_ip ip s) (\<lambda>s.
          andthen (put_ip e octx ip s) (\<lambda>(_, s).
          andthen (end_op e s) (\<lambda>s. Ret (0, t\<lparr>fl := s\<rparr>))))))"

definition sys_mkdirat :: "'c env \<Rightarrow> int \<Rightarrow> u64 \<Rightarrow> int \<Rightarrow> 'c sys \<Rightarrow> (int \<times> 'c sys) outcome" where
  "sys_mkdirat e dirfd path mode t =
     (if user_strlen (e_rs e) (e_um e) path 256 = 0 then Ret (- 1, t)
      else if dirfd \<noteq> AT_FDCWD then Ret (- 1, t)
      else if mode \<noteq> 0 then Ret (- 1, t)
      else make_at e path INODE_DIRECTORY 0 0 0 t)"

definition sys_mknodat :: "'c env \<Rightarrow> int \<Rightarrow> u64 \<Rightarrow> int \<Rightarrow> int \<Rightarrow> 'c sys \<Rightarrow> (int \<times> 'c sys) outcome" where
  "sys_mknodat e dirfd path major minor t =
     (if user_strlen (e_rs e) (e_um e) path 256 = 0 then Ret (- 1, t)
      else if dirfd \<noteq> AT_FDCWD then Ret (- 1, t)
      else make_at e path INODE_DEVICE major minor (- 1) t)"

text \<open>The path is the string at the unchecked address.\<close>

definition sys_chdir :: "'c env \<Rightarrow> u8 list \<Rightarrow> 'c sys \<Rightarrow> (int \<times> 'c sys) outcome" where
  "sys_chdir e path t =
     (let (octx, s) = begin_op e (fl t) in
      andthen (namei_sys e octx path (t\<lparr>fl := s\<rparr>)) (\<lambda>(r, octx, s).
      case r of
        None \<Rightarrow> andthen (end_op e s) (\<lambda>s. Ret (- 1, t\<lparr>fl := s\<rparr>))
      | Some ip \<Rightarrow>
          andthen (lock_ip e ip s) (\<lambda>s.
          if dtype (entry (icells (kfs s) ip)) \<noteq> INODE_DIRECTORY then
            andthen (unlock_ip ip s) (\<lambda>s.
            andthen (put_ip e octx ip s) (\<lambda>(_, s).
            andthen (end_op e s) (\<lambda>s. Ret (- 1, t\<lparr>fl := s\<rparr>))))
          else
            andthen (unlock_ip ip s) (\<lambda>s.
            andthen (put_ip e octx (cwd t) s) (\<lambda>(_, s).
            andthen (end_op e s) (\<lambda>s. Ret (0, t\<lparr>fl := s, cwd := ip\<rparr>)))))))"

text \<open>The result has the two values written to user memory.\<close>

definition sys_pipe2 :: "'c env \<Rightarrow> 'c sys \<Rightarrow> (int \<times> (int \<times> int) \<times> 'c sys) outcome" where
  "sys_pipe2 e t =
     andthen (pipe_alloc (fl t)) (\<lambda>(f0, f1, s).
     let t = t\<lparr>fl := s\<rparr>; (fd0, t) = fdalloc f0 t; (fd1, t) = fdalloc f1 t in
     if fd0 < 0 \<or> fd1 < 0 then
       let t = (if 0 \<le> fd0 then t\<lparr>ofiles := (ofiles t)[nat fd0 := None]\<rparr> else t) in
       andthen (on_files (file_close e f0 (fl t)) t) (\<lambda>t.
       andthen (on_files (file_close e f1 (fl t)) t) (\<lambda>t. Ret (- 1, (fd0, fd1), t)))
     else Ret (0, (fd0, fd1), t))"

section \<open>What the calls leave alone\<close>

lemma set_entry_tabs [simp]: "tabs (set_entry p g s) = tabs s" by (simp add: set_entry_def)

lemma ip_tabs [frames]:
  "lookup_ip e p name s = Ret (no, io, s') \<Longrightarrow> tabs s' = tabs s"
  "get_ip e no s = Ret (p, s') \<Longrightarrow> tabs s' = tabs s"
  "alloc_ip e octx ty s = Ret (n, octx', s') \<Longrightarrow> tabs s' = tabs s"
  "sync_ip e octx p s = Ret (octx', s') \<Longrightarrow> tabs s' = tabs s"
  "write_ip e octx p src i s = Ret (n, octx', s') \<Longrightarrow> tabs s' = tabs s"
  "insert_ip e octx p name no s = Ret (octx', s') \<Longrightarrow> tabs s' = tabs s"
  "empty_dir e p s = Ret (b, s') \<Longrightarrow> tabs s' = tabs s"
  "namei_sys e octx path t = Ret (r, octx', s') \<Longrightarrow> tabs s' = tabs (fl t)"
  "nameiparent_sys e octx path t = Ret (r, name, octx', s') \<Longrightarrow> tabs s' = tabs (fl t)"
  by (auto simp: lookup_ip_def get_ip_def alloc_ip_def sync_ip_def write_ip_def insert_ip_def empty_dir_def namei_sys_def
      nameiparent_sys_def andthen_eq_Ret split: option.splits)

lemma unlink_tabs [frames]:
  "unlink_bad e octx dp s = Ret (r, s') \<Longrightarrow> tabs s' = tabs s"
  "unlink_entry e octx dp ip i s = Ret (r, s') \<Longrightarrow> tabs s' = tabs s"
  by (auto simp: unlink_bad_def unlink_entry_def andthen_eq_Ret split: if_splits dest!: frames)

lemma unlink_at_tabs [frames]: "unlink_at e octx dp name s = Ret (r, s') \<Longrightarrow> tabs s' = tabs s"
  by (auto simp: unlink_at_def andthen_eq_Ret split: if_splits dest!: frames)

lemma create_found_tabs [frames]: "create_found e ty octx dp no s = Ret (r, octx', s') \<Longrightarrow> tabs s' = tabs s"
  by (auto simp: create_found_def andthen_eq_Ret split: if_splits dest!: frames)

lemma create_new_tabs [frames]: "create_new e ty major minor octx dp name s = Ret (r, octx', s') \<Longrightarrow> tabs s' = tabs s"
  by (auto simp: create_new_def Let_def andthen_eq_Ret split: if_splits dest!: frames)

lemma create_tabs [frames]: "create e path ty major minor octx t = Ret (r, octx', s') \<Longrightarrow> tabs s' = tabs (fl t)"
  by (auto simp: create_def andthen_eq_Ret split: option.splits if_splits dest!: frames)

lemma open_inode_tabs [frames]: "open_inode e path omode octx t = Ret (r, octx', s') \<Longrightarrow> tabs s' = tabs (fl t)"
  by (auto simp: open_inode_def andthen_eq_Ret split: option.splits if_splits dest!: frames)

definition same_tables :: "'c sys \<Rightarrow> 'c sys \<Rightarrow> bool" where
  "same_tables t t' \<longleftrightarrow> tabs (fl t') = tabs (fl t) \<and> ofiles t' = ofiles t"

lemma fs_calls_tables:
  "sys_unlinkat e fd path flag t = Ret (r, t') \<Longrightarrow> same_tables t t'"
  "make_at e path ty major minor failed t = Ret (r, t') \<Longrightarrow> same_tables t t'"
  "sys_chdir e cpath t = Ret (r, t') \<Longrightarrow> same_tables t t'"
  "sys_newfstatat e dirfd path st flg t = Ret (r, x, t') \<Longrightarrow> same_tables t t'"
  by (auto simp: same_tables_def sys_unlinkat_def make_at_def sys_chdir_def sys_newfstatat_def Let_def andthen_eq_Ret
      split: option.splits if_splits prod.splits dest!: frames)

section \<open>Descriptors and references\<close>

text \<open>
  The tables of files and pipes are well-formed, and the references to each file are the descriptors
  of this process and those the other processes have, given by \<open>others\<close>.
\<close>

definition sys_wf :: "(nat \<Rightarrow> nat) \<Rightarrow> 'c sys \<Rightarrow> bool" where
  "sys_wf others t \<longleftrightarrow> files_wf (fl t) \<and> length (ofiles t) = NOFILE \<and>
     (\<forall>f. fref (ftable (fl t) f) = int (others f + count_list (ofiles t) (Some f)))"

lemma count_list_update:
  "i < length xs \<Longrightarrow> int (count_list (xs[i := y]) x) = int (count_list xs x) - (if xs ! i = x then 1 else 0) + (if y = x then 1 else 0)"
  by (subst (2) id_take_nth_drop [of i xs]) (simp_all add: upd_conv_take_nth_drop)

lemma same_tables_wf: "same_tables t t' \<Longrightarrow> sys_wf others t \<Longrightarrow> sys_wf others t'"
  using files_wf_tabs [of "fl t'" "fl t"] by (simp add: same_tables_def sys_wf_def tabs_def)

lemma descriptor_open:
  assumes "sys_wf others t" "i < NOFILE" "ofiles t ! i = Some f"
  shows "0 < fref (ftable (fl t) f)"
proof -
  have "Some f \<in> set (ofiles t)" using assms by (metis nth_mem sys_wf_def)
  then have "0 < count_list (ofiles t) (Some f)" using count_list_0_iff [of "ofiles t" "Some f"] by simp
  then show ?thesis using assms(1) by (simp add: sys_wf_def)
qed

lemma fd2file_open: "sys_wf others t \<Longrightarrow> fd2file fd t = Some f \<Longrightarrow> 0 < fref (ftable (fl t) f)"
  using descriptor_open [of others t "nat fd" f] by (auto simp: fd2file_def split: if_splits)

lemma fdalloc_cases:
  obtains i where "fdalloc f t = (int i, t\<lparr>ofiles := (ofiles t)[i := Some f]\<rparr>)" "i < NOFILE" "ofiles t ! i = None"
  | "fdalloc f t = (- 1, t)"
  by (cases "find (\<lambda>i. ofiles t ! i = None) [0..<NOFILE]") (auto simp: fdalloc_def find_Some_iff)

lemma sys_wf_files:
  assumes "sys_wf others t" "files_wf s \<and> same_refs (fl t) s"
  shows "sys_wf others (t\<lparr>fl := s\<rparr>)"
  using assms by (simp add: sys_wf_def same_refs_def)

lemma dup_wf:
  assumes w: "sys_wf others t" and r: "sys_dup fd t = Ret (x, t')"
  shows "sys_wf others t'"
proof (cases "fd2file fd t")
  case None
  then show ?thesis using r w by (simp add: sys_dup_def)
next
  case (Some f)
  show ?thesis
  proof (cases rule: fdalloc_cases [of f t])
    case (1 i)
    obtain s where s: "file_dup f (fl t) = Ret (f, s)" "files_wf s" "\<forall>g. fref (ftable s g) = fref (ftable (fl t) g) + (if g = f then 1 else 0)"
      using file_dup_wf [of "fl t" f] w fd2file_open [OF w Some] by (auto simp: sys_wf_def)
    then have "t' = t\<lparr>ofiles := (ofiles t)[i := Some f], fl := s\<rparr>" using r Some 1 by (simp add: sys_dup_def)
    then show ?thesis using w s(2,3) 1(2,3) by (auto simp: sys_wf_def count_list_update)
  next
    case 2
    then show ?thesis using r w Some by (simp add: sys_dup_def)
  qed
qed

lemma close_wf:
  assumes w: "sys_wf others t" and r: "sys_close e fd t = Ret (x, t')"
  shows "sys_wf others t'"
proof -
  have fd: "0 \<le> fd" "nat fd < NOFILE" using r by (auto simp: sys_close_def split: if_splits)
  show ?thesis
  proof (cases "ofiles t ! nat fd")
    case None
    then show ?thesis using r w fd by (simp add: sys_close_def split: if_splits)
  next
    case (Some f)
    obtain s where s: "file_close e f (fl t) = Ret s" "t' = t\<lparr>ofiles := (ofiles t)[nat fd := None], fl := s\<rparr>"
      using r Some by (auto simp: sys_close_def on_files_def andthen_eq_Ret split: if_splits)
    have "files_wf s \<and> (\<forall>g. fref (ftable s g) = unref f (ftable (fl t)) g)"
      using file_close_wf [OF _ descriptor_open [OF w fd(2) Some] s(1)] w by (simp add: sys_wf_def)
    then show ?thesis using w s(2) fd Some by (auto simp: sys_wf_def unref_def count_list_update)
  qed
qed

lemma read_wf:
  assumes w: "sys_wf others t" and a: "awake (e_th e) (fl t)" and r: "sys_read e fd b sz t = Ret (x, t')"
  shows "sys_wf others t'"
proof (cases "fd2file fd t")
  case (Some f)
  have "t' = t \<or> (\<exists>s. file_read e f sz (fl t) = Ret (x, s) \<and> t' = t\<lparr>fl := s\<rparr>)"
    using r unfolding sys_read_def Some by (simp add: andthen_eq_Ret split: if_splits) blast+
  then show ?thesis using file_read_wf [OF _ a fd2file_open [OF w Some]] sys_wf_files [OF w] w unfolding sys_wf_def by blast
qed (use r w in \<open>simp add: sys_read_def\<close>)

lemma write_wf:
  assumes w: "sys_wf others t" and a: "awake (e_th e) (fl t)" and r: "sys_write e fd b sz t = Ret (x, t')"
  shows "sys_wf others t'"
proof (cases "fd2file fd t")
  case (Some f)
  have "t' = t \<or> (\<exists>src s. file_write e f src (fl t) = Ret (x, s) \<and> t' = t\<lparr>fl := s\<rparr>)"
    using r unfolding sys_write_def Some by (simp add: andthen_eq_Ret split: if_splits) blast+
  then show ?thesis using file_write_wf [OF _ a fd2file_open [OF w Some]] sys_wf_files [OF w] w unfolding sys_wf_def by blast
qed (use r w in \<open>simp add: sys_write_def\<close>)

lemma unused_file:
  assumes "sys_wf others t" "fref (ftable (fl t) f) = 0"
  shows "others f = 0" "count_list (ofiles t) (Some f) = 0"
  using assms unfolding sys_wf_def by (metis add_is_0 of_nat_eq_0_iff)+

text \<open>The two files of a new pipe are closed again.\<close>

lemma close_both:
  assumes p: "piped f0 f1 (fl t) s" and w: "sys_wf others t"
    and c: "file_close e f0 s = Ret s1" "file_close e f1 s1 = Ret s2"
  shows "sys_wf others (t\<lparr>fl := s2\<rparr>)"
proof -
  have fw: "files_wf s" using piped_wf [OF p] w by (simp add: sys_wf_def)
  have f: "f0 \<noteq> f1" "fref (ftable s f0) = 1" "fref (ftable s f1) = 1" "fref (ftable (fl t) f0) = 0" "fref (ftable (fl t) f1) = 0"
    using p by (auto simp: piped_def)
  have s1: "files_wf s1 \<and> (\<forall>g. fref (ftable s1 g) = unref f0 (ftable s) g)" using file_close_wf [OF fw _ c(1)] f(2) by simp
  then have "files_wf s2 \<and> (\<forall>g. fref (ftable s2 g) = unref f1 (ftable s1) g)" using file_close_wf [OF _ _ c(2)] f by (simp add: unref_def)
  moreover have "unref f1 (ftable s1) g = fref (ftable (fl t) g)" for g using s1 f p by (simp add: unref_def piped_def)
  ultimately show ?thesis using sys_wf_files [OF w, of s2] by (simp add: same_refs_def)
qed

lemma pipe2_wf:
  assumes w: "sys_wf others t" and r: "sys_pipe2 e t = Ret (x, fds, t')"
  shows "sys_wf others t'"
proof (cases rule: pipe_alloc_cases [of "fl t"])
  case (1 f0 f1 s)
  have fw: "files_wf s" using piped_wf [OF 1(2)] w by (simp add: sys_wf_def)
  have f: "f0 \<noteq> f1" "fref (ftable (fl t) f0) = 0" "fref (ftable (fl t) f1) = 0" using 1(2) by (auto simp: piped_def)
  let ?t = "t\<lparr>fl := s\<rparr>"
  have len: "length (ofiles t) = NOFILE" using w by (simp add: sys_wf_def)
  show ?thesis
  proof (cases rule: fdalloc_cases [of f0 ?t])
    case i: (1 i)
    let ?t1 = "?t\<lparr>ofiles := (ofiles t)[i := Some f0]\<rparr>"
    have i': "i < NOFILE" "ofiles t ! i = None" "fdalloc f0 ?t = (int i, ?t1)" using i by simp_all
    show ?thesis
    proof (cases rule: fdalloc_cases [of f1 ?t1])
      case j: (1 j)
      then have "j \<noteq> i" using i' len by auto
      then have j': "j < NOFILE" "ofiles t ! j = None" using j by simp_all
      have "t' = ?t\<lparr>ofiles := (ofiles t)[i := Some f0, j := Some f1]\<rparr>" using r 1(1) i'(3) j(1) by (simp add: sys_pipe2_def Let_def)
      moreover have "fref (ftable s g) = fref (ftable (fl t) g) + (if g = f0 then 1 else 0) + (if g = f1 then 1 else 0)" for g
        using 1(2) f by (simp add: piped_def)
      ultimately show ?thesis using w fw i' j' len \<open>j \<noteq> i\<close> f(1) by (simp add: sys_wf_def count_list_update)
    next
      case 2
      have "(ofiles t)[i := None] = ofiles t" using i'(2) by (metis list_update_id)
      then obtain s1 s2 where "file_close e f0 s = Ret s1" "file_close e f1 s1 = Ret s2" "t' = t\<lparr>fl := s2\<rparr>"
        using r 1(1) i'(3) 2 by (auto simp: sys_pipe2_def Let_def on_files_def andthen_eq_Ret)
      then show ?thesis using close_both [OF 1(2) w] by simp
    qed
  next
    case 2
    then have "fdalloc f1 ?t = (- 1, ?t)" by (simp add: fdalloc_def split: option.splits)
    then obtain s1 s2 where "file_close e f0 s = Ret s1" "file_close e f1 s1 = Ret s2" "t' = t\<lparr>fl := s2\<rparr>"
      using r 1(1) 2 by (auto simp: sys_pipe2_def Let_def on_files_def andthen_eq_Ret)
    then show ?thesis using close_both [OF 1(2) w] by simp
  qed
qed (use r in \<open>simp add: sys_pipe2_def\<close>)

lemma files_wf_inode:
  assumes w: "files_wf s" and f: "fref (ftable s f) = 0" and x: "fref x = 1" "ftype x = FD_INODE"
    and s': "ftable s' = (ftable s)(f := x)" "pipes s' = pipes s" "fresh_pipe s' = fresh_pipe s"
  shows "files_wf s'"
proof -
  have e: "pipe_end (ftable s') = pipe_end (ftable s)" using f x s'(1) by (auto simp: pipe_end_def fun_eq_iff)
  have "ft_wf (ftable s')" using w x s'(1) unfolding files_wf_def ft_wf_def e by auto
  then show ?thesis using w s' unfolding files_wf_def pipe_wf_def e by simp
qed

lemma open_fails_tables: "open_fails e octx ip t = Ret (x, t') \<Longrightarrow> same_tables t t'"
  by (auto simp: open_fails_def same_tables_def andthen_eq_Ret dest!: frames)

lemma openat_wf:
  assumes w: "sys_wf others t" and r: "sys_openat e dirfd path omode t = Ret (x, t')"
  shows "sys_wf others t'"
proof (cases "user_strlen (e_rs e) (e_um e) path 256 = 0 \<or> dirfd \<noteq> AT_FDCWD")
  case True
  then show ?thesis using r w by (auto simp: sys_openat_def split: if_splits)
next
  case ok: False
  obtain octx0 s0 where b: "begin_op e (fl t) = (octx0, s0)" by fastforce
  obtain r1 octx s where o: "open_inode e (path_at e path) omode octx0 (t\<lparr>fl := s0\<rparr>) = Ret (r1, octx, s)"
    using r ok b by (auto simp: sys_openat_def andthen_eq_Ret)
  have tb: "tabs s = tabs (fl t)" using open_inode_tabs [OF o] begin_op_tabs [OF b] by simp
  then have w1: "sys_wf others (t\<lparr>fl := s\<rparr>)" using same_tables_wf [OF _ w] by (simp add: same_tables_def)
  show ?thesis
  proof (cases r1)
    case None
    then obtain s2 where "end_op e s = Ret s2" "t' = t\<lparr>fl := s2\<rparr>" using r ok b o by (auto simp: sys_openat_def andthen_eq_Ret)
    then show ?thesis using same_tables_wf [OF _ w1, of t'] end_op_tabs [of e s s2] by (simp add: same_tables_def)
  next
    case (Some ip)
    show ?thesis
    proof (cases rule: file_alloc_cases [of s])
      case (1 f)
      let ?s = "upd_file f (\<lambda>r. r\<lparr>fref := 1\<rparr>) s" and ?t = "t\<lparr>fl := upd_file f (\<lambda>r. r\<lparr>fref := 1\<rparr>) s\<rparr>"
      have fw: "files_wf s" using w1 by (simp add: sys_wf_def)
      show ?thesis
      proof (cases rule: fdalloc_cases [of f ?t])
        case i: (1 i)
        then obtain s1 s2 where u: "unlock_ip ip ?s = Ret s1" "end_op e s1 = Ret s2"
          "t' = t\<lparr>ofiles := (ofiles t)[i := Some f], fl := upd_file f (\<lambda>r. r\<lparr>ftype := FD_INODE, fobj := ip, off := 0,
             readable := (omode AND O_WRONLY = 0), writable := (omode AND O_WRONLY \<noteq> 0 \<or> omode AND O_RDWR \<noteq> 0)\<rparr>) s2\<rparr>"
          using r ok b o Some 1(1) by (auto simp: sys_openat_def Let_def andthen_eq_Ret)
        have t2: "tabs s2 = tabs ?s" using u unlock_ip_tabs end_op_tabs by metis
        let ?x = "(ftable s f)\<lparr>fref := 1, ftype := FD_INODE, fobj := ip, off := 0,
             readable := (omode AND O_WRONLY = 0), writable := (omode AND O_WRONLY \<noteq> 0 \<or> omode AND O_RDWR \<noteq> 0)\<rparr>"
        have tt: "ftable (fl t') = (ftable s)(f := ?x)" "pipes (fl t') = pipes s" "fresh_pipe (fl t') = fresh_pipe s"
          using t2 u(3) by (simp_all add: tabs_def upd_file_def)
        have "files_wf (fl t')" by (rule files_wf_inode [OF fw 1(2) _ _ tt]) simp_all
        moreover have "ofiles t' = (ofiles t)[i := Some f]" using u(3) by simp
        ultimately show ?thesis using w1 i(2,3) 1(2) unfolding sys_wf_def tt by (auto simp: count_list_update)
      next
        case 2
        then have "open_fails e octx ip (t\<lparr>fl := s\<rparr>) = Ret (x, t')"
          using r ok b o Some 1(1) file_close_fresh [OF fw 1(2), of e] by (simp add: sys_openat_def Let_def on_files_def)
        then show ?thesis using open_fails_tables same_tables_wf w1 by blast
      qed
    next
      case 2
      then have "open_fails e octx ip (t\<lparr>fl := s\<rparr>) = Ret (x, t')" using r ok b o Some by (simp add: sys_openat_def Let_def)
      then show ?thesis using open_fails_tables same_tables_wf w1 by blast
    qed
  qed
qed

section \<open>A pipe between two descriptors\<close>

text \<open>With room for all bytes a write does not wait.\<close>

lemma write_room:
  assumes "pipe_ok pi" "readopen pi" "\<not> killed" "i \<le> length src" "in_pipe pi + (length src - i) \<le> PIPE_SIZE"
  shows "\<exists>pi'. pipe_write_run p killed src i pi = Ret (Finished (length src), length src, pi') \<and> pipe_ok pi' \<and>
    contents pi' = contents pi @ drop i src \<and> wlock pi' = wlock pi \<and> up (rlock pi') = up (rlock pi) \<union> set (sleeplist (rlock pi)) \<and>
    sleeplist (rlock pi') = [] \<and> readopen pi' = readopen pi \<and> writeopen pi' = writeopen pi"
  using assms
proof (induction p killed src i pi rule: pipe_write_run.induct)
  case (1 p killed src i pi)
  show ?case
  proof (cases "i < length src")
    case True
    then have room: "\<not> pipe_full pi" using "1.prems" pipe_full [of pi] by (simp add: pipe_ok_def)
    note put = pipe_put_ok [OF "1.prems"(1) room, of "src ! i"]
    have p: "readopen (pipe_put b pi) = readopen pi" "writeopen (pipe_put b pi) = writeopen pi" "rlock (pipe_put b pi) = rlock pi"
      "wlock (pipe_put b pi) = wlock pi" for b by (simp_all add: pipe_put_def)
    have "in_pipe (pipe_put (src ! i) pi) = Suc (in_pipe pi)" using put(2) by (metis length_append_singleton length_contents)
    then show ?thesis using 1(2) [OF True _ room] put "1.prems" True room
      by (subst pipe_write_run.simps) (auto simp: p Cons_nth_drop_Suc [symmetric])
  next
    case False
    then have "i = length src" using "1.prems"(4) by simp
    moreover obtain r where "cond_broadcast (rlock pi) = Ret (sleeplist (rlock pi), r)" "sem_ok r" "sleeplist r = []"
      "up r = up (rlock pi) \<union> set (sleeplist (rlock pi))" using broadcast_result [of "rlock pi"] "1.prems"(1) by (auto simp: pipe_ok_def)
    ultimately show ?thesis using "1.prems"(1) pipe_ok_sems(7,8) by (subst pipe_write_run.simps) simp
  qed
qed

lemma pipe2_result:
  assumes w: "sys_wf others t" and r: "sys_pipe2 e t = Ret (0, (fd0, fd1), t1)"
  shows "\<exists>f0 f1. piped f0 f1 (fl t) (fl t1) \<and> fd2file fd0 t1 = Some f0 \<and> fd2file fd1 t1 = Some f1 \<and> fd0 \<noteq> fd1"
proof (cases rule: pipe_alloc_cases [of "fl t"])
  case (1 f0 f1 s)
  let ?t = "t\<lparr>fl := s\<rparr>"
  have len: "length (ofiles t) = NOFILE" using w by (simp add: sys_wf_def)
  show ?thesis
  proof (cases rule: fdalloc_cases [of f0 ?t])
    case i: (1 i)
    let ?t1 = "?t\<lparr>ofiles := (ofiles t)[i := Some f0]\<rparr>"
    have i': "i < NOFILE" "fdalloc f0 ?t = (int i, ?t1)" using i by simp_all
    show ?thesis
    proof (cases rule: fdalloc_cases [of f1 ?t1])
      case j: (1 j)
      then have "j \<noteq> i" using i' len by auto
      moreover have "t1 = ?t\<lparr>ofiles := (ofiles t)[i := Some f0, j := Some f1]\<rparr>" "fd0 = int i" "fd1 = int j"
        using r 1(1) i'(2) j(1) by (simp_all add: sys_pipe2_def Let_def)
      ultimately show ?thesis using i'(1) j(2) len 1(2) by (auto simp: fd2file_def)
    next
      case 2
      then show ?thesis using r 1(1) i'(2) by (simp add: sys_pipe2_def Let_def andthen_eq_Ret)
    qed
  next
    case 2
    then show ?thesis using r 1(1) by (cases "fdalloc f1 ?t") (simp add: sys_pipe2_def Let_def andthen_eq_Ret)
  qed
qed (use r in \<open>simp add: sys_pipe2_def\<close>)

lemma int_small: "0 \<le> n \<Longrightarrow> n \<le> 512 \<Longrightarrow> signed_take_bit 31 n = (n :: int)"
  by (rule signed_take_bit_int_eq_self) simp_all

text \<open>
  C17: what a process writes to the second descriptor of a new pipe it reads back from the first one: for up
  to \<^verbatim>\<open>PIPE_SIZE\<close> bytes neither call waits, and the bytes read are those at the address given to the write.
\<close>

theorem pipe2_write_read:
  assumes "sys_wf others t" "sys_pipe2 e t = Ret (0, (fd0, fd1), t1)" "\<not> e_killed e" "0 < n" "n \<le> int PIPE_SIZE"
    and "user_readable (e_rs e) src (of_int n)" "user_writeable (e_rs e) dst (of_int n)"
  shows "\<exists>t2 t3. sys_write e fd1 src n t1 = Ret (Finished (nat n), t2) \<and>
    sys_read e fd0 dst n t2 = Ret (Finished (bytes_at (e_um e) src (nat n)), t3)"
proof -
  obtain f0 f1 where p: "piped f0 f1 (fl t) (fl t1)" "fd2file fd0 t1 = Some f0" "fd2file fd1 t1 = Some f1"
    using pipe2_result [OF assms(1,2)] by blast
  let ?p = "fresh_pipe (fl t)" and ?bs = "bytes_at (e_um e) src (nat n)"
  have f: "f0 \<noteq> f1" "pipes (fl t1) ?p = Some new_pipe" "ftype (ftable (fl t1) f1) = FD_PIPE" "writable (ftable (fl t1) f1)" "fobj (ftable (fl t1) f1) = ?p"
    "ftype (ftable (fl t1) f0) = FD_PIPE" "readable (ftable (fl t1) f0)" "fobj (ftable (fl t1) f0) = ?p"
    using p(1) by (auto simp: piped_def)
  have n: "length ?bs = nat n" "nat n \<le> PIPE_SIZE" "signed_take_bit 31 n = n" "0 \<le> n"
    using assms(4,5) int_small by (auto simp: bytes_at_def PIPE_SIZE_def)
  obtain pi where pi: "pipe_write_run (e_th e) (e_killed e) ?bs 0 new_pipe = Ret (Finished (nat n), nat n, pi)" "pipe_ok pi" "contents pi = ?bs"
    "up (rlock pi) = {}" "sleeplist (rlock pi) = []"
    using write_room [of new_pipe "e_killed e" 0 ?bs "e_th e"] new_pipe_ok assms(3) n
    by (auto simp: new_pipe_def init_sem_def in_pipe_def)
  let ?t2 = "t1\<lparr>fl := (fl t1)\<lparr>pipes := (pipes (fl t1))(?p \<mapsto> pi)\<rparr>\<rparr>"
  have w: "sys_write e fd1 src n t1 = Ret (Finished (nat n), ?t2)"
    using p(3) f(2-5) assms(4,6) n pi(1) by (simp add: sys_write_def file_write_def pipe_write_def Let_def)
  obtain tr pi' where rd: "pipe_read_run (e_th e) (e_killed e) (nat n) pi = Ret (tr, pi')" "read_effect (e_th e) (e_killed e) (nat n) pi tr pi'"
    using read_run_result [OF pi(2), of "e_th e" "e_killed e" "nat n"] pi(4,5) by auto
  have "tr = Finished ?bs"
    using rd(2) pi(3) n(1) assms(3,4) length_contents [of pi] by (auto simp: read_effect_def split: transfer.splits)
  moreover have "fd2file fd0 ?t2 = Some f0" using p(2) by (simp add: fd2file_def split: if_splits)
  ultimately have "sys_read e fd0 dst n ?t2 = Ret (Finished ?bs, ?t2\<lparr>fl := (fl ?t2)\<lparr>pipes := (pipes (fl ?t2))(?p \<mapsto> pi')\<rparr>\<rparr>)"
    using f(6-8) assms(4,7) n(3) rd(1) by (simp add: sys_read_def file_read_def pipe_read_def Let_def)
  then show ?thesis using w by blast
qed

section \<open>Locks of opened inodes\<close>

text \<open>The value of the lock of the inode at \<open>q\<close>: 1 if it is free, at most 0 while it is held.\<close>

definition lock_val :: "'c files \<Rightarrow> nat \<Rightarrow> int" where
  "lock_val s q = val (ilock (icells (kfs s) q))"

named_theorems lock_frames

lemma lock_val_simps [simp]:
  "lock_val (s\<lparr>kfs := (kfs s)\<lparr>world := c\<rparr>\<rparr>) = lock_val s" "lock_val (set_entry p g s) = lock_val s"
  "lock_val (upd_file f h s) = lock_val s"
  by (simp_all add: lock_val_def fun_eq_iff set_entry_def upd_inode_def upd_file_def)

lemma lock_ip_val: "lock_ip e p s = Ret s' \<Longrightarrow> lock_val s' = (lock_val s)(p := lock_val s p - 1) \<and> 0 \<le> lock_val s' p"
  by (auto simp: lock_ip_def inode_lock_def wait_sem_enter_def Let_def andthen_eq_Ret lock_val_def upd_inode_def fun_eq_iff split: if_splits)

lemma unlock_ip_val: "unlock_ip p s = Ret s' \<Longrightarrow> lock_val s' = (lock_val s)(p := lock_val s p + 1)"
  by (auto simp: unlock_ip_def inode_unlock_def andthen_eq_Ret lock_val_def upd_inode_def fun_eq_iff dest: post_sem_val)

lemma inode_sync_ilock: "inode_sync bc sb octx ip w c = Ret (ip', octx', c') \<Longrightarrow> ilock ip' = ilock ip"
  by (auto simp: inode_sync_def Let_def andthen_eq_Ret split: if_splits)

lemma inode_write_ilock: "inode_write dev bc sb octx ip src i c = Ret (n, octx', ip', c') \<Longrightarrow> ilock ip' = ilock ip"
  by (auto simp: inode_write_def Let_def andthen_eq_Ret split: if_splits dest: inode_sync_ilock)

lemma inode_insert_ilock: "inode_insert dev bc sb octx ip name no c = Ret (n, octx', ip', c') \<Longrightarrow> ilock ip' = ilock ip"
  by (auto simp: inode_insert_def andthen_eq_Ret split: if_splits dest: inode_write_ilock)

lemma inode_clear_ilock: "inode_clear bc sb octx ip c = Ret (ip', octx', c') \<Longrightarrow> ilock ip' = ilock ip"
  by (auto simp: inode_clear_def Let_def andthen_eq_Ret split: if_splits dest: inode_sync_ilock)

lemma sync_ip_val [lock_frames]: "sync_ip e octx p s = Ret (octx', s') \<Longrightarrow> lock_val s' = lock_val s"
  by (auto simp: sync_ip_def sync_at_def andthen_eq_Ret lock_val_def upd_inode_def fun_eq_iff dest: inode_sync_ilock)

lemma insert_ip_val [lock_frames]: "insert_ip e octx p name no s = Ret (octx', s') \<Longrightarrow> lock_val s' = lock_val s"
  by (auto simp: insert_ip_def andthen_eq_Ret lock_val_def upd_inode_def fun_eq_iff dest: inode_insert_ilock)

lemma end_op_val [lock_frames]: "end_op e s = Ret s' \<Longrightarrow> lock_val s' = lock_val s"
  by (auto simp: end_op_def andthen_eq_Ret split: if_splits)

lemma put_ip_val [lock_frames]: "put_ip e octx p s = Ret (octx', s') \<Longrightarrow> lock_val s' = lock_val s"
  by (auto simp: put_ip_def inode_put_def inode_lock_def inode_unlock_def clear_at_def sync_at_def wait_sem_enter_def decrement_rc_def
      Let_def andthen_eq_Ret lock_val_def upd_inode_def fun_eq_iff split: if_splits
      dest!: inode_sync_ilock inode_clear_ilock post_sem_val)

lemma create_unlocked:
  assumes "create e path ty major minor octx t = Ret (Some ip, octx', s)"
  shows "1 \<le> lock_val s ip"
proof -
  have found: "1 \<le> lock_val s' ip" if "create_found e ty octx dp no s = Ret (Some ip, octx', s')" for octx dp no s s'
    using that by (auto simp: create_found_def andthen_eq_Ret split: if_splits dest!: lock_frames lock_ip_val unlock_ip_val)
  have new: "1 \<le> lock_val s' ip" if "create_new e ty major minor octx dp name s = Ret (Some ip, octx', s')" for octx dp name s s'
    using that by (auto simp: create_new_def Let_def andthen_eq_Ret split: if_splits dest!: lock_frames lock_ip_val unlock_ip_val)
  show ?thesis using assms found new by (auto simp: create_def andthen_eq_Ret split: option.splits if_splits)
qed

text \<open>
  C31: opening a file with \<^verbatim>\<open>O_CREAT\<close> breaks its lock. \<open>create\<close> returns the inode unlocked, and \<open>openat\<close> unlocks
  it once more: after a successful call the semaphore that is to be the mutex of the inode has a value of at
  least 2, so that two threads can hold the lock of the opened file at once.
\<close>

theorem openat_create_breaks_lock:
  assumes "sys_openat e dirfd path omode t = Ret (fd, t')" "0 \<le> fd" "omode AND O_CREAT \<noteq> 0" "length (ofiles t) = NOFILE"
  shows "\<exists>f ip. fd2file fd t' = Some f \<and> ftype (ftable (fl t') f) = FD_INODE \<and> fobj (ftable (fl t') f) = ip \<and>
    2 \<le> val (ilock (icells (kfs (fl t')) ip))"
proof -
  obtain octx0 s0 where b: "begin_op e (fl t) = (octx0, s0)" by fastforce
  have ok: "user_strlen (e_rs e) (e_um e) path 256 \<noteq> 0" "dirfd = AT_FDCWD" using assms(1,2) by (auto simp: sys_openat_def split: if_splits)
  obtain r1 octx s where o: "open_inode e (path_at e path) omode octx0 (t\<lparr>fl := s0\<rparr>) = Ret (r1, octx, s)"
    using assms(1) ok b by (auto simp: sys_openat_def andthen_eq_Ret)
  obtain ip where ip: "r1 = Some ip" using assms(1,2) ok b o by (cases r1) (auto simp: sys_openat_def andthen_eq_Ret)
  have l: "1 \<le> lock_val s ip" using create_unlocked o assms(3) ip by (auto simp: open_inode_def)
  obtain f where f: "file_alloc s = (Some f, upd_file f (\<lambda>r. r\<lparr>fref := 1\<rparr>) s)"
    using assms(1,2) ok b o ip by (cases rule: file_alloc_cases [of s]) (auto simp: sys_openat_def open_fails_def andthen_eq_Ret)
  let ?s = "upd_file f (\<lambda>r. r\<lparr>fref := 1\<rparr>) s"
  show ?thesis
  proof (cases rule: fdalloc_cases [of f "t\<lparr>fl := ?s\<rparr>"])
    case (1 i)
    then obtain s1 s2 where u: "unlock_ip ip ?s = Ret s1" "end_op e s1 = Ret s2" "fd = int i"
      "t' = t\<lparr>ofiles := (ofiles t)[i := Some f], fl := upd_file f (\<lambda>r. r\<lparr>ftype := FD_INODE, fobj := ip, off := 0,
         readable := (omode AND O_WRONLY = 0), writable := (omode AND O_WRONLY \<noteq> 0 \<or> omode AND O_RDWR \<noteq> 0)\<rparr>) s2\<rparr>"
      using assms(1) ok b o ip f by (auto simp: sys_openat_def Let_def andthen_eq_Ret)
    have "lock_val s2 ip = lock_val s ip + 1" using unlock_ip_val [OF u(1)] end_op_val [OF u(2)] by simp
    then have "2 \<le> lock_val (fl t') ip" using l u(4) by simp
    moreover have "fd2file fd t' = Some f" "ftype (ftable (fl t') f) = FD_INODE" "fobj (ftable (fl t') f) = ip"
      using u(3,4) 1(2) assms(4) by (simp_all add: fd2file_def upd_file_def)
    ultimately show ?thesis unfolding lock_val_def by blast
  next
    case 2
    then show ?thesis using assms(1,2) ok b o ip f by (auto simp: sys_openat_def Let_def open_fails_def andthen_eq_Ret)
  qed
qed

section \<open>Sequences of calls\<close>

text \<open>The calls of a process that return, made by threads that are not waiting in a pipe.\<close>

inductive sys_step :: "'c sys \<Rightarrow> 'c sys \<Rightarrow> bool" where
  dup: "sys_dup fd t = Ret (r, t') \<Longrightarrow> sys_step t t'"
| close: "sys_close e fd t = Ret (r, t') \<Longrightarrow> sys_step t t'"
| get: "awake (e_th e) (fl t) \<Longrightarrow> sys_read e fd buffer sz t = Ret (x, t') \<Longrightarrow> sys_step t t'"
| put: "awake (e_th e) (fl t) \<Longrightarrow> sys_write e fd buffer sz t = Ret (y, t') \<Longrightarrow> sys_step t t'"
| fstat: "sys_fstat e fd buffer t = Ret (r, x, t') \<Longrightarrow> sys_step t t'"
| newfstatat: "sys_newfstatat e dirfd path buffer flg t = Ret (r, x, t') \<Longrightarrow> sys_step t t'"
| pipe2: "sys_pipe2 e t = Ret (r, fds, t') \<Longrightarrow> sys_step t t'"
| openat: "sys_openat e dirfd path omode t = Ret (r, t') \<Longrightarrow> sys_step t t'"
| unlinkat: "sys_unlinkat e dirfd path flg t = Ret (r, t') \<Longrightarrow> sys_step t t'"
| mkdirat: "sys_mkdirat e dirfd path mode t = Ret (r, t') \<Longrightarrow> sys_step t t'"
| mknodat: "sys_mknodat e dirfd path major minor t = Ret (r, t') \<Longrightarrow> sys_step t t'"
| chdir: "sys_chdir e cpath t = Ret (r, t') \<Longrightarrow> sys_step t t'"

lemma fstat_tables: "sys_fstat e fd buffer t = Ret (r, x, t') \<Longrightarrow> same_tables t t'"
  by (auto simp: sys_fstat_def file_stat_def Let_def andthen_eq_Ret same_tables_def split: option.splits if_splits dest!: frames)

lemma sys_step_wf: "sys_step t t' \<Longrightarrow> sys_wf others t \<Longrightarrow> sys_wf others t'"
proof (induction rule: sys_step.induct)
  case (mkdirat e dirfd path mode t r t')
  then show ?case using fs_calls_tables(2) same_tables_wf by (fastforce simp: sys_mkdirat_def split: if_splits)
next
  case (mknodat e dirfd path major minor t r t')
  then show ?case using fs_calls_tables(2) same_tables_wf by (fastforce simp: sys_mknodat_def split: if_splits)
qed (blast intro: dup_wf close_wf read_wf write_wf pipe2_wf openat_wf same_tables_wf fs_calls_tables fstat_tables)+

lemma transfer_ends:
  assumes "files_wf s" "awake (e_th e) s" "0 < fref (ftable s f)" "ftype (ftable s f) = FD_PIPE"
  shows "\<exists>x s'. file_read e f n s = Ret (x, s')" "\<exists>y s'. file_write e f src s = Ret (y, s')"
proof -
  show "\<exists>x s'. file_read e f n s = Ret (x, s')"
  proof (cases "readable (ftable s f)")
    case True
    from file_read_pipe [OF assms True, where n = n] show ?thesis by metis
  qed (simp add: file_read_def)
  show "\<exists>y s'. file_write e f src s = Ret (y, s')"
  proof (cases "writable (ftable s f)")
    case True
    from file_write_pipe [OF assms True, where src = src] show ?thesis by metis
  qed (simp add: file_write_def)
qed


section \<open>A small file system\<close>

text \<open>
  A disk all of whose blocks hold one directory entry, for inode 2 under the name \<^verbatim>\<open>a\<close>; inode 1 is a directory
  of one such block, inode 2 an empty file, and the process has no descriptors yet.
\<close>

definition demo_block :: "u8 list" where
  "demo_block = dirent_bytes \<lparr>d_inode_no = 2, d_name = 97 # replicate 13 0\<rparr>"

definition demo_bc :: "unit block_cache" where
  "demo_bc = \<lparr>bc_acquire = (\<lambda>n c. Ret c), bc_release = (\<lambda>n c. Ret c), bc_begin_op = (\<lambda>ctx c. (ctx, c)), bc_sync = (\<lambda>octx n c. Ret (octx, c)),
     bc_end_op = (\<lambda>p c. Ret (True, c)), bc_alloc = (\<lambda>ctx c. Ret (9, ctx, c)), bc_free = (\<lambda>octx n c. Ret (octx, c)),
     bc_get = (\<lambda>n c. Ret demo_block), bc_put = (\<lambda>n x c. Ret c)\<rparr>"

definition small_sb :: super_block where
  "small_sb = \<lparr>num_blocks = 100, num_data_blocks = 50, num_inodes = 8, num_log_blocks = 4, log_start = 2, inode_start = 6, bitmap_start = 7\<rparr>"

definition demo_env :: "unit env" where
  "demo_env = \<lparr>e_dev = \<lparr>console_in = (\<lambda>n c. Ret ([], c)), console_out = (\<lambda>x c. Ret (length x, c))\<rparr>, e_bc = demo_bc, e_sb = small_sb, e_root = 1,
     e_th = 5, e_killed = False, e_ctx = \<lparr>rm = 0, ts = 0\<rparr>, e_name = replicate 14 0, e_rodata = replicate 14 0, e_rs = [demo_region],
     e_um = (\<lambda>a. if a = 0x400000 then 97 else 0)\<rparr>"

definition demo_dir :: inode where
  "demo_dir = init_inode\<lparr>irc := 1, inode_no := 1, ivalid := True,
     entry := empty_dinode\<lparr>dtype := 1, num_links := 1, num_bytes := 16, addrs := 5 # replicate 11 0\<rparr>\<rparr>"

definition demo_file :: inode where
  "demo_file = init_inode\<lparr>irc := 1, inode_no := 2, ivalid := True, entry := empty_dinode\<lparr>dtype := 2, num_links := 1\<rparr>\<rparr>"

definition demo_sys :: "unit sys" where
  "demo_sys =
     \<lparr>fl = \<lparr>ftable = (\<lambda>f. \<lparr>ftype = FD_NONE, fref = 0, readable = False, writable = False, fobj = 0, off = 0\<rparr>), pipes = (\<lambda>p. None), fresh_pipe = 1,
        kfs = \<lparr>icells = (\<lambda>p. if p = 1 then demo_dir else demo_file), cached = [1, 2], fresh = 3, world = ()\<rparr>\<rparr>,
      ofiles = init_oftable, cwd = 1\<rparr>"

lemma find_zero: "P 0 \<Longrightarrow> 0 < n \<Longrightarrow> find P [0..<n] = Some 0"
  by (simp add: upt_conv_Cons)

lemma find_one: "\<not> P 0 \<Longrightarrow> P (Suc 0) \<Longrightarrow> Suc 0 < n \<Longrightarrow> find P [0..<n] = Some (Suc 0)"
  by (simp add: upt_conv_Cons)

lemma demo_strlen: "user_strlen (e_rs demo_env) (e_um demo_env) 0x400000 256 = 2"
  unfolding user_strlen_def
  by (subst user_strlen_loop.simps, subst user_strlen_loop.simps)
    (simp add: demo_env_def user_readable_def demo_region_def)

lemma demo_path: "path_at demo_env 0x400000 = [97]"
  unfolding path_at_def demo_strlen by (simp add: bytes_at_def demo_env_def)

lemma demo_parent: "nameiparent_sys demo_env octx [97] demo_sys =
   Ret (Some 1, 97 # 0 # replicate 12 0, octx, (fl demo_sys)\<lparr>kfs := upd_inode 1 (\<lambda>_. demo_dir\<lparr>irc := 2\<rparr>) (kfs (fl demo_sys))\<rparr>)"
  by (simp add: nameiparent_sys_def nameiparent_def namex_def inode_share_def namex_loop.simps [where path = "[97]"]
    skipelem_def patch_def demo_env_def demo_sys_def upd_inode_def increment_rc_def inode_lock_def inode_unlock_def wait_sem_enter_def
    post_sem_def demo_dir_def init_inode_def init_sem_def INODE_DIRECTORY_def fun_eq_iff)

lemma demo_read: "inode_read dev demo_bc (entry demo_dir) 0 16 c = Ret (demo_block, c)"
proof -
  have l: "length demo_block = 16" by (simp add: demo_block_def dirent_bytes_def)
  have "read_loop demo_bc (entry demo_dir) 0 16 0 [] c = Ret (demo_block, c)"
    by (simp add: read_loop.simps [where i = 0] read_loop.simps [where i = 16] inode_map_def demo_bc_def demo_dir_def chunk_len_def chunk_off_def cMIN_def BLOCK_SIZE_def slice_def l)
  then show ?thesis by (simp add: inode_read_def demo_dir_def INODE_DEVICE_def)
qed

lemma demo_lookup:
  assumes "entry (icells (kfs s) 1) = entry demo_dir"
  shows "lookup_ip demo_env 1 (97 # 0 # replicate 12 0) s = Ret (2, Some 0, s)"
proof -
  have "bytes_dirent demo_block = \<lparr>d_inode_no = 2, d_name = 97 # replicate 13 0\<rparr>"
    unfolding demo_block_def by (rule bytes_dirent_bytes) (simp add: dirent_ok_def)
  moreover have "same_name (97 # replicate 13 0) (97 # 0 # replicate 12 0)"
    by (simp add: same_name_iff cname_def)
  ultimately have "lookup_loop dev demo_bc (entry demo_dir) (97 # 0 # replicate 12 0) 0 c = Ret (2, Some 0, c)" for dev c
    using demo_read [of dev c] by (subst lookup_loop.simps) (simp add: DIRENT_SIZE_def demo_dir_def)
  then show ?thesis using assms by (simp add: lookup_ip_def inode_lookup_def demo_env_def demo_dir_def INODE_DIRECTORY_def)
qed

lemma demo_create:
  "\<exists>s. open_inode demo_env [97] O_CREAT octx demo_sys = Ret (Some 2, octx, s) \<and> irc (icells (kfs s) 2) = 2 \<and> ilock (icells (kfs s) 2) = init_sem 1"
proof -
  note defs = lock_ip_def unlock_ip_def inode_lock_def inode_unlock_def wait_sem_enter_def post_sem_def upd_inode_def init_sem_def Let_def
  let ?s = "(fl demo_sys)\<lparr>kfs := upd_inode 1 (\<lambda>_. demo_dir\<lparr>irc := 2\<rparr>) (kfs (fl demo_sys))\<rparr>"
  let ?s1 = "(fl demo_sys)\<lparr>kfs := upd_inode 1 (\<lambda>_. demo_dir\<lparr>irc := 2, ilock := init_sem 0\<rparr>) (kfs (fl demo_sys))\<rparr>"
  have l: "lock_ip demo_env 1 ?s = Ret ?s1" by (simp add: defs demo_dir_def init_inode_def)
  have "lookup_ip demo_env 1 (97 # 0 # replicate 12 0) ?s1 = Ret (2, Some 0, ?s1)" by (rule demo_lookup) (simp add: upd_inode_def)
  moreover have "\<exists>s. create_found demo_env 2 octx 1 2 ?s1 = Ret (Some 2, octx, s) \<and> irc (icells (kfs s) 2) = 2 \<and> ilock (icells (kfs s) 2) = init_sem 1"
    by (simp add: create_found_def get_ip_def inode_get_def put_ip_def inode_put_def decrement_rc_def increment_rc_def defs
      demo_sys_def demo_env_def small_sb_def demo_dir_def demo_file_def init_inode_def INODE_REGULAR_def)
  ultimately show ?thesis using l demo_parent [of octx]
    by (simp add: open_inode_def O_CREAT_def create_def upd_inode_def demo_dir_def INODE_DIRECTORY_def INODE_REGULAR_def)
qed

lemma demo_end_op: "end_op demo_env s = Ret s" by (simp add: end_op_def demo_env_def demo_bc_def)

theorem openat_create_breaks_lock_witness:
  "\<exists>t'. sys_openat demo_env (- 100) 0x400000 64 demo_sys = Ret (0, t') \<and> fobj (ftable (fl t') 0) = 2 \<and> 2 \<le> val (ilock (icells (kfs (fl t')) 2))"
proof -
  let ?ctx = "Some (e_ctx demo_env)"
  have b: "begin_op demo_env (fl demo_sys) = (?ctx, fl demo_sys)" by (simp add: begin_op_def demo_env_def demo_bc_def demo_sys_def)
  obtain s where s: "open_inode demo_env [97] O_CREAT ?ctx demo_sys = Ret (Some 2, ?ctx, s)" "irc (icells (kfs s) 2) = 2"
    "ilock (icells (kfs s) 2) = init_sem 1" using demo_create by blast
  have ft: "ftable s = ftable (fl demo_sys)" using open_inode_tabs [OF s(1)] by (simp add: tabs_def)
  have "file_alloc s = (Some 0, upd_file 0 (\<lambda>r. r\<lparr>fref := 1\<rparr>) s)"
    unfolding file_alloc_def by (subst find_zero) (simp_all add: ft demo_sys_def NFILE_def)
  moreover have "fdalloc 0 (demo_sys\<lparr>fl := s'\<rparr>) = (0, demo_sys\<lparr>fl := s', ofiles := init_oftable[0 := Some 0]\<rparr>)" for s'
    unfolding fdalloc_def by (subst find_zero) (simp_all add: demo_sys_def NOFILE_def init_oftable_def)
  moreover have "unlock_ip 2 (upd_file 0 (\<lambda>r. r\<lparr>fref := 1\<rparr>) s) =
      Ret (upd_file 0 (\<lambda>r. r\<lparr>fref := 1\<rparr>) s\<lparr>kfs := upd_inode 2 (\<lambda>ip. ip\<lparr>ilock := (init_sem 1)\<lparr>val := 2\<rparr>\<rparr>) (kfs s)\<rparr>)"
    using s by (simp add: unlock_ip_def inode_unlock_def post_sem_def init_sem_def upd_file_def)
  ultimately obtain t' where t': "sys_openat demo_env (- 100) 0x400000 64 demo_sys = Ret (0, t')" "fobj (ftable (fl t') 0) = 2"
    "ofiles t' = init_oftable[0 := Some 0]"
    using s(1) by (auto simp: sys_openat_def demo_strlen demo_path b AT_FDCWD_def O_CREAT_def demo_end_op upd_file_def)
  have "fd2file 0 t' = Some 0" using t'(3) by (simp add: fd2file_def NOFILE_def init_oftable_def)
  then have "2 \<le> val (ilock (icells (kfs (fl t')) 2))"
    using openat_create_breaks_lock [OF t'(1)] t'(2) by (auto simp: O_CREAT_def demo_sys_def init_oftable_def)
  then show ?thesis using t' by blast
qed

lemma demo_wf: "sys_wf (\<lambda>f. 0) demo_sys"
proof -
  have "ftable (fl demo_sys) f = \<lparr>ftype = FD_NONE, fref = 0, readable = False, writable = False, fobj = 0, off = 0\<rparr>" "pipes (fl demo_sys) p = None" for f p
    by (simp_all add: demo_sys_def)
  then have "files_wf (fl demo_sys)" by (simp add: files_wf_def ft_wf_def pipe_wf_def pipe_end_def)
  moreover have "count_list (replicate n None) (Some f) = 0" for n :: nat and f :: nat by (induction n) auto
  ultimately show ?thesis by (simp add: sys_wf_def demo_sys_def init_oftable_def)
qed

lemma demo_pipe: "\<exists>t1. sys_pipe2 demo_env demo_sys = Ret (0, (0, 1), t1)"
proof -
  let ?s = "upd_file 0 (\<lambda>r. r\<lparr>fref := 1\<rparr>) (fl demo_sys)" and ?t = "\<lambda>s. demo_sys\<lparr>fl := s, ofiles := init_oftable[0 := Some 0]\<rparr>"
  have "file_alloc (fl demo_sys) = (Some 0, ?s)" unfolding file_alloc_def by (subst find_zero) (simp_all add: demo_sys_def NFILE_def)
  moreover have "file_alloc ?s = (Some 1, upd_file 1 (\<lambda>r. r\<lparr>fref := 1\<rparr>) ?s)"
    unfolding file_alloc_def by (subst find_one) (simp_all add: demo_sys_def upd_file_def NFILE_def)
  moreover have "fdalloc 0 (demo_sys\<lparr>fl := s\<rparr>) = (0, ?t s)" for s
    unfolding fdalloc_def by (subst find_zero) (simp_all add: demo_sys_def NOFILE_def init_oftable_def)
  moreover have "fdalloc 1 (?t s) = (1, (?t s)\<lparr>ofiles := (ofiles (?t s))[1 := Some 1]\<rparr>)" for s
    unfolding fdalloc_def by (subst find_one) (simp_all add: demo_sys_def NOFILE_def init_oftable_def)
  ultimately show ?thesis by (simp add: sys_pipe2_def pipe_alloc_def Let_def)
qed

theorem pipe2_write_read_witness:
  "\<exists>t1 t2 t3. sys_pipe2 demo_env demo_sys = Ret (0, (0, 1), t1) \<and> sys_write demo_env 1 0x400000 3 t1 = Ret (Finished 3, t2) \<and>
     sys_read demo_env 0 0x400800 3 t2 = Ret (Finished [97, 0, 0], t3)"
proof -
  obtain t1 where t1: "sys_pipe2 demo_env demo_sys = Ret (0, (0, 1), t1)" using demo_pipe by blast
  have "bytes_at (e_um demo_env) 0x400000 3 = [97, 0, 0]" by (simp add: bytes_at_def demo_env_def numeral_eq_Suc)
  moreover have "user_readable (e_rs demo_env) 0x400000 3" "user_writeable (e_rs demo_env) 0x400800 3" "\<not> e_killed demo_env"
    by (simp_all add: demo_env_def user_readable_def user_writeable_def demo_region_def has_flag_def)
  ultimately show ?thesis using pipe2_write_read [OF demo_wf t1, of 3 "0x400000" "0x400800"] t1 by (auto simp: PIPE_SIZE_def)
qed

end
