(* ===== verification/Proc.thy ===== *)
theory Proc
  imports Sched Sysfile Pid
begin

text \<open>
  The processes of \<^verbatim>\<open>proc/proc.c\<close>: creation, the tree of parents and children, \<^verbatim>\<open>exit\<close>, \<^verbatim>\<open>wait\<close>, \<^verbatim>\<open>kill\<close>
  and \<^verbatim>\<open>fork\<close>, on the scheduler, the allocator, the address spaces and the open files. The node
  \<^verbatim>\<open>ptnode\<close> of a process in the lists of its parent has the address of the process as its name.
  \<^verbatim>\<open>proc_lock\<close> is held over each part that changes the tree, so that a part is one step. A
  \<^verbatim>\<open>wait\<close> that has to sleep is cut there: \<open>wait_enter\<close> is the part before, \<open>wait_leave\<close> the part after.
\<close>

section \<open>State\<close>

record uctx =
  q0 :: "u64 list"
  elr :: u64
  tpidr0 :: u64
  sp :: u64
  spsr :: u64
  uregs :: "u64 list"

record kctx =
  x0 :: u64
  x1 :: u64
  kregs :: "u64 list"

record 'c kernel =
  sc :: sched
  ptnodes :: lheap
  pids :: pid_pool
  kheap :: kmem
  vms :: "u64 \<Rightarrow> vmspace"
  ucontext :: "u64 \<Rightarrow> uctx"
  kcontext :: "u64 \<Rightarrow> kctx"
  kfiles :: "'c files"
  oftable :: "u64 \<Rightarrow> nat option list"
  cwd_of :: "u64 \<Rightarrow> nat"

text \<open>
  What a processor runs with: its number, the counter of its clock, the timers of the time slices, the
  process \<^verbatim>\<open>root_proc\<close>, the entry points, the size of \<^verbatim>\<open>struct proc\<close> and the offsets of the node and of the
  address space in it. \<open>kp_env\<close> is the environment of the file system.
\<close>

record 'c kparam =
  kp_cpu :: nat
  kp_counter :: "nat \<Rightarrow> u64"
  kp_timer :: "nat \<Rightarrow> u64"
  kp_root :: u64
  kp_proc_entry :: u64
  kp_kernel_entry :: u64
  kp_idle_entry :: u64
  kp_trap_return :: u64
  kp_size :: int
  kp_node :: u64
  kp_vms :: u64
  kp_env :: "'c env"

definition me :: "'c kparam \<Rightarrow> 'c kernel \<Rightarrow> u64" where
  "me e k = thisproc (kp_cpu e) (sc k)"

definition proc_of :: "'c kernel \<Rightarrow> u64 \<Rightarrow> proc" where
  "proc_of k p = procs (sc k) p"

definition set_proc :: "u64 \<Rightarrow> (proc \<Rightarrow> proc) \<Rightarrow> 'c kernel \<Rightarrow> 'c kernel" where
  "set_proc p f k = k\<lparr>sc := upd_proc p f (sc k)\<rparr>"

section \<open>The process tree\<close>

definition push_child :: "u64 \<Rightarrow> nat \<Rightarrow> 'c kernel \<Rightarrow> 'c kernel outcome" where
  "push_child q n k =
     andthen (list_push_back (children (proc_of k q)) n (ptnodes k)) (\<lambda>(l, h).
     Ret (set_proc q (\<lambda>r. r\<lparr>children := l\<rparr>) k\<lparr>ptnodes := h\<rparr>))"

definition push_zombie :: "u64 \<Rightarrow> nat \<Rightarrow> 'c kernel \<Rightarrow> 'c kernel outcome" where
  "push_zombie q n k =
     andthen (list_push_back (zombie_children (proc_of k q)) n (ptnodes k)) (\<lambda>(l, h).
     Ret (set_proc q (\<lambda>r. r\<lparr>zombie_children := l\<rparr>) k\<lparr>ptnodes := h\<rparr>))"

definition remove_child :: "u64 \<Rightarrow> nat \<Rightarrow> 'c kernel \<Rightarrow> 'c kernel outcome" where
  "remove_child q n k =
     andthen (list_remove (children (proc_of k q)) n (ptnodes k)) (\<lambda>(l, h).
     Ret (set_proc q (\<lambda>r. r\<lparr>children := l\<rparr>) k\<lparr>ptnodes := h\<rparr>))"

definition remove_zombie :: "u64 \<Rightarrow> nat \<Rightarrow> 'c kernel \<Rightarrow> 'c kernel outcome" where
  "remove_zombie q n k =
     andthen (list_remove (zombie_children (proc_of k q)) n (ptnodes k)) (\<lambda>(l, h).
     Ret (set_proc q (\<lambda>r. r\<lparr>zombie_children := l\<rparr>) k\<lparr>ptnodes := h\<rparr>))"

definition set_parent_to_this :: "'c kparam \<Rightarrow> u64 \<Rightarrow> 'c kernel \<Rightarrow> 'c kernel outcome" where
  "set_parent_to_this e p k =
     andthen (ASSERT (parent (proc_of k p) = 0)) (\<lambda>_.
     push_child (me e k) (unat p) (set_proc p (\<lambda>r. r\<lparr>parent := me e k\<rparr>) k))"

text \<open>\<^verbatim>\<open>post_sem\<close> on the semaphore of a process, with the process it wakes.\<close>

definition post_childexit :: "u64 \<Rightarrow> 'c kernel \<Rightarrow> 'c kernel outcome option" where
  "post_childexit q k =
     run_then (Some (post_sem (childexit (proc_of k q)))) (\<lambda>(w, s).
       let k = set_proc q (\<lambda>r. r\<lparr>childexit := s\<rparr>) k in
       case w of
         None \<Rightarrow> Some (Ret k)
       | Some n \<Rightarrow> run_then (activate_proc (of_nat n) False (sc k)) (\<lambda>(_, s). Some (Ret (k\<lparr>sc := s\<rparr>))))"

text \<open>
  The first node \<^verbatim>\<open>list_forall\<close> visits, and the one after \<open>n\<close>: the successor is read after the body of
  the loop has run.
\<close>

definition first_visit :: "klist \<Rightarrow> lheap \<Rightarrow> nat outcome" where
  "first_visit l h = (if head l = NULL then Ret NULL else get_nxt (head l) h)"

definition next_visit :: "nat \<Rightarrow> nat \<Rightarrow> lheap \<Rightarrow> nat outcome" where
  "next_visit flag n h = (if n = flag then Ret NULL else get_nxt n h)"

partial_function (option) transfer_alive :: "u64 \<Rightarrow> u64 \<Rightarrow> nat \<Rightarrow> nat \<Rightarrow> 'c kernel \<Rightarrow> 'c kernel outcome option" where
  "transfer_alive dst src flag n k =
     (if n = NULL then Some (Ret k)
      else
        run_then (Some (remove_child src n k)) (\<lambda>k.
        run_then (Some (push_child dst n k)) (\<lambda>k.
        let k = set_proc (of_nat n) (\<lambda>r. r\<lparr>parent := dst\<rparr>) k in
        run_then (Some (next_visit flag n (ptnodes k))) (\<lambda>m.
        transfer_alive dst src flag m k))))"

partial_function (option) transfer_zombies :: "u64 \<Rightarrow> u64 \<Rightarrow> nat \<Rightarrow> nat \<Rightarrow> 'c kernel \<Rightarrow> 'c kernel outcome option" where
  "transfer_zombies dst src flag n k =
     (if n = NULL then Some (Ret k)
      else
        run_then (Some (remove_zombie src n k)) (\<lambda>k.
        run_then (Some (push_zombie dst n k)) (\<lambda>k.
        let k = set_proc (of_nat n) (\<lambda>r. r\<lparr>parent := dst\<rparr>) k in
        run_then (post_childexit dst k) (\<lambda>k.
        run_then (Some (next_visit flag n (ptnodes k))) (\<lambda>m.
        transfer_zombies dst src flag m k)))))"

definition transfer_children :: "u64 \<Rightarrow> u64 \<Rightarrow> 'c kernel \<Rightarrow> 'c kernel outcome option" where
  "transfer_children dst src k =
     run_then (Some (first_visit (children (proc_of k src)) (ptnodes k))) (\<lambda>n.
     run_then (transfer_alive dst src (head (children (proc_of k src))) n k) (\<lambda>k.
     run_then (Some (first_visit (zombie_children (proc_of k src)) (ptnodes k))) (\<lambda>n.
     transfer_zombies dst src (head (zombie_children (proc_of k src))) n k)))"

section \<open>Exit and wait\<close>

primrec close_all :: "'c env \<Rightarrow> nat option list \<Rightarrow> 'c files \<Rightarrow> 'c files outcome" where
  "close_all e [] s = Ret s"
| "close_all e (d # ds) s =
     (case d of
        None \<Rightarrow> close_all e ds s
      | Some f \<Rightarrow> andthen (file_close e f s) (\<lambda>s. close_all e ds s))"

text \<open>The open files are closed and the inode of the working directory is given back.\<close>

definition exit_files :: "'c env \<Rightarrow> nat option list \<Rightarrow> nat \<Rightarrow> 'c files \<Rightarrow> 'c files outcome" where
  "exit_files e fds dir s =
     andthen (close_all e fds s) (\<lambda>s.
     let (octx, s) = begin_op e s in
     andthen (put_ip e octx dir s) (\<lambda>(_, s). end_op e s))"

text \<open>The call ends when the processor has gone over to another process.\<close>

definition exit_proc :: "'c kparam \<Rightarrow> int \<Rightarrow> 'c kernel \<Rightarrow> 'c kernel outcome option" where
  "exit_proc e code k =
     (let p = me e k; k = set_proc p (\<lambda>r. r\<lparr>exitcode := code\<rparr>) k in
      run_then (transfer_children (kp_root e) p k) (\<lambda>k.
      let q = parent (proc_of k p) in
      run_then (Some (remove_child q (unat p) k)) (\<lambda>k.
      run_then (Some (push_zombie q (unat p) k)) (\<lambda>k.
      run_then (Some (exit_files (kp_env e) (oftable k p) (cwd_of k p) (kfiles k))) (\<lambda>s.
      let k = k\<lparr>kfiles := s, oftable := (oftable k)(p := init_oftable), cwd_of := (cwd_of k)(p := 0)\<rparr> in
      run_then (post_childexit (parent (proc_of k p)) k) (\<lambda>k.
      run_then (schedule (kp_counter e) (kp_timer e) (kp_cpu e) ZOMBIE (sc k)) (\<lambda>(switched, s).
      if switched then Some (Ret (k\<lparr>sc := s\<rparr>)) else Some Panic)))))))"

text \<open>The zombie at the head of the list is taken out and freed; the result is its number and exit code.\<close>

definition reap :: "'c kparam \<Rightarrow> u64 \<Rightarrow> 'c kernel \<Rightarrow> ((int \<times> int) \<times> 'c kernel) outcome option" where
  "reap e p k =
     (let n = head (zombie_children (proc_of k p)); z = of_nat n in
      run_then (Some (list_pop_head (zombie_children (proc_of k p)) (ptnodes k))) (\<lambda>(l, h).
      let k = set_proc p (\<lambda>r. r\<lparr>zombie_children := l\<rparr>) k\<lparr>ptnodes := h\<rparr>; r = proc_of k z in
      run_then (Some (free_pid (pids k) (pid r))) (\<lambda>pp.
      run_then (Some (kfree_page (kstack r) (kheap k))) (\<lambda>m.
      run_then (destroy_vmspace (z - kp_node e + kp_vms e) (vms k z) m) (\<lambda>(vs, m).
      run_then (Some (kfree (z - kp_node e) m)) (\<lambda>m.
      Some (Ret ((pid r, exitcode r), k\<lparr>pids := pp, kheap := m, vms := (vms k)(z := vs)\<rparr>))))))))"

text \<open>The call returns a value, or the process sleeps until a child exits.\<close>

datatype 'r waited = Asleep_in_wait | Returned 'r

definition wait_enter :: "'c kparam \<Rightarrow> 'c kernel \<Rightarrow> ((int \<times> int option) waited \<times> 'c kernel) outcome option" where
  "wait_enter e k =
     (let p = me e k; r = proc_of k p in
      if lsize (children r) = 0 \<and> lsize (zombie_children r) = 0 then Some (Ret (Returned (- 1, None), k))
      else
        let (got, s) = wait_sem_enter (unat p) (childexit r); k = set_proc p (\<lambda>r. r\<lparr>childexit := s\<rparr>) k in
        if got then run_then (reap e p k) (\<lambda>((i, c), k). Some (Ret (Returned (i, Some c), k)))
        else Some (Ret (Asleep_in_wait, k)))"

definition wait_leave :: "'c kparam \<Rightarrow> 'c kernel \<Rightarrow> ((int \<times> int) \<times> 'c kernel) outcome option" where
  "wait_leave e k =
     (let p = me e k in
      run_then (Some (wait_sem_leave (unat p) (childexit (proc_of k p)))) (\<lambda>(ok, s).
      run_then (Some (ASSERT ok)) (\<lambda>_.
      reap e p (set_proc p (\<lambda>r. r\<lparr>childexit := s\<rparr>) k))))"

section \<open>Kill\<close>

partial_function (option) kill_loop :: "int \<Rightarrow> nat \<Rightarrow> nat \<Rightarrow> 'c kernel \<Rightarrow> (int \<times> 'c kernel) outcome option" where
  "kill_loop i flag n k =
     (if n = NULL then Some (Ret (- 1, k))
      else
        let c = of_nat n in
        if pid (proc_of k c) = i \<and> \<not> proc.idle (proc_of k c) then
          let k = set_proc c (\<lambda>r. r\<lparr>killed := True\<rparr>) k in
          run_then (activate_proc c True (sc k)) (\<lambda>(_, s). Some (Ret (0, k\<lparr>sc := s\<rparr>)))
        else run_then (Some (next_visit flag n (ptnodes k))) (\<lambda>m. kill_loop i flag m k))"

definition kill :: "'c kparam \<Rightarrow> int \<Rightarrow> 'c kernel \<Rightarrow> (int \<times> 'c kernel) outcome option" where
  "kill e i k =
     (let l = children (proc_of k (me e k)) in
      run_then (Some (first_visit l (ptnodes k))) (\<lambda>n. kill_loop i (head l) n k))"

section \<open>Creation\<close>

definition start_proc :: "'c kparam \<Rightarrow> u64 \<Rightarrow> u64 \<Rightarrow> u64 \<Rightarrow> 'c kernel \<Rightarrow> (int \<times> 'c kernel) outcome option" where
  "start_proc e p entry_point arg k =
     run_then
       (Some (if parent (proc_of k p) = 0
              then push_child (kp_root e) (unat p) (set_proc p (\<lambda>r. r\<lparr>parent := kp_root e\<rparr>) k)
              else Ret k)) (\<lambda>k.
     run_then (Some (ASSERT (kstack (proc_of k p) \<noteq> 0))) (\<lambda>_.
     let c = kcontext k p;
         k = k\<lparr>kcontext := (kcontext k)(p := c\<lparr>kregs := (kregs c)[11 := kp_proc_entry e], x0 := entry_point, x1 := arg\<rparr>)\<rparr>;
         i = pid (proc_of k p) in
     run_then (activate_proc p False (sc k)) (\<lambda>(_, s). Some (Ret (i, k\<lparr>sc := s\<rparr>)))))"

definition zero_uctx :: uctx where
  "zero_uctx = \<lparr>q0 = [0, 0], elr = 0, tpidr0 = 0, sp = 0, spsr = 0, uregs = replicate 32 0\<rparr>"

definition zero_kctx :: kctx where
  "zero_kctx = \<lparr>x0 = 0, x1 = 0, kregs = replicate 12 0\<rparr>"

definition init_proc :: "'c kparam \<Rightarrow> u64 \<Rightarrow> bool \<Rightarrow> 'c kernel \<Rightarrow> 'c kernel outcome" where
  "init_proc e p is_idle k =
     andthen (if is_idle then Ret (0, pids k) else alloc_pid (pids k)) (\<lambda>(i, pp).
     andthen (init_list_node (unat p) (ptnodes k)) (\<lambda>h.
     andthen (init_vmspace (kheap k)) (\<lambda>(vs, m).
     andthen (kalloc_page m) (\<lambda>(stk, m).
     Ret (set_proc p (\<lambda>_. \<lparr>killed = False, idle = is_idle, pid = i, exitcode = 0, kstack = stk, pstate = UNUSED, childexit = init_sem 0,
            children = list_init, zombie_children = list_init, parent = (if is_idle then p else 0), runtime = 0\<rparr>)
          (k\<lparr>pids := pp, ptnodes := h, kheap := m\<lparr>kwords := fill_zero stk (kwords m)\<rparr>, vms := (vms k)(p := vs),
             ucontext := (ucontext k)(p := zero_uctx), kcontext := (kcontext k)(p := zero_kctx),
             oftable := (oftable k)(p := init_oftable), cwd_of := (cwd_of k)(p := 0)\<rparr>))))))"

definition create_proc :: "'c kparam \<Rightarrow> 'c kernel \<Rightarrow> (u64 \<times> 'c kernel) outcome" where
  "create_proc e k = andthen (kalloc (kp_size e) (kheap k)) (\<lambda>(a, m). Ret (a + kp_node e, k\<lparr>kheap := m\<rparr>))"

definition create_idle :: "'c kparam \<Rightarrow> 'c kernel \<Rightarrow> (u64 \<times> 'c kernel) outcome option" where
  "create_idle e k =
     run_then (Some (create_proc e k)) (\<lambda>(p, k).
     run_then (Some (init_proc e p True k)) (\<lambda>k.
     run_then (start_proc e p (kp_idle_entry e) 0 k) (\<lambda>(_, k). Some (Ret (p, k)))))"

text \<open>Start-up: the root process, and an idle process for each processor.\<close>

definition init_root_proc :: "'c kparam \<Rightarrow> 'c kernel \<Rightarrow> 'c kernel outcome option" where
  "init_root_proc e k =
     run_then (Some (init_proc e (kp_root e) False k)) (\<lambda>k.
     let k = set_proc (kp_root e) (\<lambda>r. r\<lparr>parent := kp_root e\<rparr>) k in
     run_then (start_proc e (kp_root e) (kp_kernel_entry e) 0 k) (\<lambda>(_, k). Some (Ret k)))"

primrec init_idles :: "'c kparam \<Rightarrow> nat list \<Rightarrow> 'c kernel \<Rightarrow> 'c kernel outcome option" where
  "init_idles e [] k = Some (Ret k)"
| "init_idles e (i # is) k =
     run_then (Some (ASSERT (running (sc k) i = 0))) (\<lambda>_.
     run_then (create_idle e k) (\<lambda>(p, k).
     let s = (sc k)\<lparr>idle_of := (idle_of (sc k))(i := p), running := (running (sc k))(i := p)\<rparr> in
     init_idles e is (set_proc p (\<lambda>r. r\<lparr>pstate := RUNNING\<rparr>) (k\<lparr>sc := s\<rparr>))))"

definition idles :: "'c kparam \<Rightarrow> 'c kernel \<Rightarrow> 'c kernel outcome option" where
  "idles e k = init_idles e [0..<NCPU] k"

section \<open>Fork\<close>

text \<open>The descriptors of the parent, each with one more reference.\<close>

primrec dup_all :: "nat option list \<Rightarrow> 'c files \<Rightarrow> (nat option list \<times> 'c files) outcome" where
  "dup_all [] s = Ret ([], s)"
| "dup_all (d # ds) s =
     andthen (case d of None \<Rightarrow> Ret (None, s) | Some f \<Rightarrow> andthen (file_dup f s) (\<lambda>(f, s). Ret (Some f, s))) (\<lambda>(d, s).
     andthen (dup_all ds s) (\<lambda>(ds, s). Ret (d # ds, s)))"

definition fork :: "'c kparam \<Rightarrow> 'c kernel \<Rightarrow> (int \<times> 'c kernel) outcome option" where
  "fork e k =
     (let this = me e k in
      run_then (Some (create_proc e k)) (\<lambda>(c, k).
      run_then (Some (init_proc e c False k)) (\<lambda>k.
      run_then (Some (set_parent_to_this e c k)) (\<lambda>k.
      run_then (copy_vmspace (vms k this) (vms k c) True (kheap k)) (\<lambda>(vs, m).
      let u = ucontext k this;
          k = k\<lparr>vms := (vms k)(c := vs), kheap := m, ucontext := (ucontext k)(c := u\<lparr>uregs := (uregs u)[0 := 0]\<rparr>)\<rparr> in
      run_then (Some (dup_all (oftable k this) (kfiles k))) (\<lambda>(ds, s).
      let (dir, f) = inode_share (cwd_of k this) (kfs s);
          k = k\<lparr>oftable := (oftable k)(c := ds), kfiles := s\<lparr>kfs := f\<rparr>, cwd_of := (cwd_of k)(c := dir)\<rparr> in
      run_then (start_proc e c (kp_trap_return e) 0 k) (\<lambda>(_, k). Some (Ret (pid (proc_of k c), k)))))))))"

end
