(* ===== verification/Proc_Props.thy ===== *)
theory Proc_Props
  imports Proc
begin

text \<open>
  Properties of the process tree. A process that exits with two live children never gets out of the
  loop that hands them to the root process; with at most one it becomes a zombie of its parent, its child
  goes to the root process, and the parent is woken. \<^verbatim>\<open>kill\<close> marks the child with the number given, or
  returns -1 where there is none.
\<close>

section \<open>Handing over children\<close>

lemma kernel_simps [simp]:
  "ptnodes (set_proc p f k) = ptnodes k" "sc (set_proc p f k) = upd_proc p f (sc k)"
  "proc_of (set_proc p f k) q = (if q = p then f (proc_of k p) else proc_of k q)"
  "proc_of (k\<lparr>ptnodes := h\<rparr>) = proc_of k"
  by (simp_all add: set_proc_def proc_of_def fun_eq_iff)

text \<open>
  The loop is at the head of the list it appends to. Its body takes the node out of that list and puts it
  back before itself, so that the node is its own successor.
\<close>

definition stuck :: "u64 \<Rightarrow> u64 \<Rightarrow> nat \<Rightarrow> nat \<Rightarrow> 'c kernel \<Rightarrow> bool" where
  "stuck dst src flag d k \<longleftrightarrow> dst \<noteq> src \<and> d \<noteq> NULL \<and> d \<noteq> flag \<and>
     head (children (proc_of k src)) = flag \<and> 1 \<le> lsize (children (proc_of k src)) \<and>
     head (children (proc_of k dst)) = d \<and> 1 \<le> lsize (children (proc_of k dst)) \<and> nxt (ptnodes k) d \<noteq> NULL \<and> prv (ptnodes k) d \<noteq> NULL"

lemma remove_foreign:
  assumes "d \<noteq> NULL" "d \<noteq> head l" "1 \<le> lsize l" "nxt h d \<noteq> NULL" "prv h d \<noteq> NULL"
  shows "\<exists>l' h'. list_remove l d h = Ret (l', h') \<and> head l' = head l \<and> 1 \<le> lsize l'"
  using assms by (auto simp: list_remove_def detach_from_list_def node_simps size_dec_def)

lemma push_own_head:
  assumes "d \<noteq> NULL" "head l = d" "1 \<le> lsize l"
  shows "\<exists>h'. list_push_back l d h = Ret (l\<lparr>lsize := lsize l + 1\<rparr>, h') \<and> nxt h' d = d \<and> prv h' d = d"
  using assms by (simp add: list_push_back_def list_insert_def node_simps)

lemma stuck_step:
  assumes "stuck dst src flag d k"
  shows "\<exists>k1 k2. remove_child src d k = Ret k1 \<and> push_child dst d k1 = Ret k2 \<and> next_visit flag d (ptnodes k2) = Ret d \<and>
    stuck dst src flag d (set_proc (of_nat d) (\<lambda>r. r\<lparr>parent := dst\<rparr>) k2)"
proof -
  have a: "dst \<noteq> src" "d \<noteq> NULL" "d \<noteq> flag" "head (children (proc_of k src)) = flag" "1 \<le> lsize (children (proc_of k src))"
    "head (children (proc_of k dst)) = d" "1 \<le> lsize (children (proc_of k dst))" "nxt (ptnodes k) d \<noteq> NULL" "prv (ptnodes k) d \<noteq> NULL"
    using assms by (auto simp: stuck_def)
  obtain l h where r: "list_remove (children (proc_of k src)) d (ptnodes k) = Ret (l, h)" "head l = flag" "1 \<le> lsize l"
    using remove_foreign [of d "children (proc_of k src)" "ptnodes k"] a by auto
  obtain h' where p: "list_push_back (children (proc_of k dst)) d h =
      Ret ((children (proc_of k dst))\<lparr>lsize := lsize (children (proc_of k dst)) + 1\<rparr>, h')" "nxt h' d = d" "prv h' d = d"
    using push_own_head [of d "children (proc_of k dst)" h] a by auto
  let ?k1 = "set_proc src (\<lambda>r. r\<lparr>children := l\<rparr>) k\<lparr>ptnodes := h\<rparr>"
  let ?k2 = "set_proc dst (\<lambda>r. r\<lparr>children := (children (proc_of k dst))\<lparr>lsize := lsize (children (proc_of k dst)) + 1\<rparr>\<rparr>) ?k1\<lparr>ptnodes := h'\<rparr>"
  have "remove_child src d k = Ret ?k1" using r(1) by (simp add: remove_child_def)
  moreover have "push_child dst d ?k1 = Ret ?k2" using p(1) a(1) by (simp add: push_child_def)
  moreover have "next_visit flag d (ptnodes ?k2) = Ret d" using p(2) a(2,3) by (simp add: next_visit_def node_simps)
  moreover have "stuck dst src flag d (set_proc (of_nat d) (\<lambda>r. r\<lparr>parent := dst\<rparr>) ?k2)"
    using a r(2,3) p(2,3) by (auto simp: stuck_def)
  ultimately show ?thesis by blast
qed

lemma transfer_stuck:
  assumes "stuck dst src flag d k"
  shows "transfer_alive dst src flag d k = None"
proof -
  have "transfer_alive dst src flag d k = Some y \<Longrightarrow> \<not> stuck dst src flag d k" for y
  proof (erule transfer_alive.raw_induct [rotated])
    fix rec dst src flag n y and k :: "'a kernel"
    assume IH: "\<And>dst src flag n k y. rec dst src flag n k = Some y \<Longrightarrow> \<not> stuck dst src flag n k"
      and r: "(if n = NULL then Some (Ret k)
        else run_then (Some (remove_child src n k)) (\<lambda>k. run_then (Some (push_child dst n k)) (\<lambda>k.
          let k = set_proc (of_nat n) (\<lambda>r. r\<lparr>parent := dst\<rparr>) k
          in run_then (Some (next_visit flag n (ptnodes k))) (\<lambda>m. rec dst src flag m k)))) = Some y"
    show "\<not> stuck dst src flag n k"
    proof
      assume st: "stuck dst src flag n k"
      then have "n \<noteq> NULL" by (simp add: stuck_def)
      with stuck_step [OF st] r IH show False by auto
    qed
  qed
  then show ?thesis using assms by (cases "transfer_alive dst src flag d k") auto
qed

text \<open>Two live children: the first step leads to the head of the list of the root process.\<close>

lemma transfer_two:
  assumes ne: "dst \<noteq> src" and xs: "lrep (ptnodes k) (children (proc_of k src)) (c0 # c1 # cs)"
    and ys: "lrep (ptnodes k) (children (proc_of k dst)) ys" and di: "set (c0 # c1 # cs) \<inter> set ys = {}"
  shows "transfer_alive dst src c0 c1 k = None"
proof -
  let ?l = "children (proc_of k src)" and ?m = "children (proc_of k dst)"
  have c: "c1 \<noteq> NULL" "c0 \<noteq> NULL" "c0 \<noteq> c1" "c0 \<notin> set ys" "c1 \<notin> set ys" using lrep_nonnull [OF xs] lrep_distinct [OF xs] di by auto
  obtain l h where r: "list_remove ?l c1 (ptnodes k) = Ret (l, h)" "lrep h l (c0 # cs)" "circ h [c1]" "same_off (set (c0 # c1 # cs)) (ptnodes k) h"
    using list_remove_rep [OF xs, of c1] c(3) by auto
  have "lrep h ?m ys" using same_off_lrep [OF r(4), of ys] ys di by blast
  then obtain m h' where p: "list_push_back ?m c1 h = Ret (m, h')" "lrep h' m (ys @ [c1])" "same_off (set (c1 # ys)) h h'"
    using list_push_back_rep [of h ?m ys c1] c by blast
  let ?d = "hd (ys @ [c1])"
  have ci: "circ h' (ys @ [c1])" "head m = ?d" "1 \<le> lsize m" using p(2) by (auto simp: lrep_def)
  have d: "?d \<in> set (ys @ [c1])" by (metis hd_in_set snoc_eq_iff_butlast)
  have nx: "nxt h' c1 = ?d" using circ_neighbours [of h' ys c1 "[]"] ci(1) by simp
  have links: "nxt h' x \<noteq> NULL \<and> prv h' x \<noteq> NULL" if x: "x \<in> set (ys @ [c1])" for x
  proof -
    obtain as bs where s: "ys @ [c1] = as @ x # bs" using split_list [OF x] by blast
    have "hd (bs @ as @ [x]) \<in> set (bs @ as @ [x])" "last (x # bs @ as) \<in> set (x # bs @ as)" by (rule hd_in_set last_in_set, simp)+
    then have "nxt h' x \<in> set (ys @ [c1])" "prv h' x \<in> set (ys @ [c1])" using circ_neighbours [of h' as x bs] ci(1) unfolding s by auto
    then show ?thesis using circ_nonnull [OF ci(1)] by blast
  qed
  let ?k1 = "set_proc src (\<lambda>r. r\<lparr>children := l\<rparr>) k\<lparr>ptnodes := h\<rparr>"
  let ?k2 = "set_proc dst (\<lambda>r. r\<lparr>children := m\<rparr>) ?k1\<lparr>ptnodes := h'\<rparr>"
  let ?k3 = "set_proc (of_nat c1) (\<lambda>r. r\<lparr>parent := dst\<rparr>) ?k2"
  have "remove_child src c1 k = Ret ?k1" "push_child dst c1 ?k1 = Ret ?k2" "next_visit c0 c1 (ptnodes ?k3) = Ret ?d"
    using r(1) p(1) ne nx c by (simp_all add: remove_child_def push_child_def next_visit_def node_simps)
  moreover have "stuck dst src c0 ?d ?k3"
    using ne c d ci(2,3) links [OF d] r(2) circ_nonnull [OF ci(1) d] by (auto simp: stuck_def lrep_def)
  ultimately show ?thesis using transfer_stuck [of dst src c0 ?d ?k3] c(1) by (subst transfer_alive.simps) simp
qed

section \<open>The lists of the tree\<close>

text \<open>Every process has two lists; \<open>(q, True)\<close> stands for the zombies of \<open>q\<close>, \<open>(q, False)\<close> for its live children.\<close>

definition list_of :: "'c kernel \<Rightarrow> u64 \<times> bool \<Rightarrow> klist" where
  "list_of k i = (if snd i then zombie_children (proc_of k (fst i)) else children (proc_of k (fst i)))"

definition lists :: "u64 set \<Rightarrow> 'c kernel \<Rightarrow> (u64 \<times> bool \<Rightarrow> nat list) \<Rightarrow> bool" where
  "lists P k L \<longleftrightarrow> (\<forall>i. fst i \<in> P \<longrightarrow> lrep (ptnodes k) (list_of k i) (L i)) \<and>
     (\<forall>i j. fst i \<in> P \<longrightarrow> fst j \<in> P \<longrightarrow> i \<noteq> j \<longrightarrow> set (L i) \<inter> set (L j) = {})"

lemma lists_change:
  assumes l: "lists P k L" and i: "fst i \<in> P" and r: "lrep (ptnodes k') (list_of k' i) xs" and so: "same_off S (ptnodes k) (ptnodes k')"
    and S: "S \<subseteq> insert n (set (L i))" "set xs \<subseteq> insert n (set (L i))" and n: "\<And>j. fst j \<in> P \<Longrightarrow> j \<noteq> i \<Longrightarrow> n \<notin> set (L j)"
    and oth: "\<And>j. j \<noteq> i \<Longrightarrow> list_of k' j = list_of k j"
  shows "lists P k' (L(i := xs))"
proof -
  have dj: "set (L j) \<inter> S = {}" "set (L j) \<inter> set xs = {}" if "fst j \<in> P" "j \<noteq> i" for j
  proof -
    have "set (L j) \<inter> set (L i) = {}" using l i that unfolding lists_def by blast
    then show "set (L j) \<inter> S = {}" "set (L j) \<inter> set xs = {}" using S n [OF that] by blast+
  qed
  have "lrep (ptnodes k') (list_of k' j) ((L(i := xs)) j)" if "fst j \<in> P" for j
  proof (cases "j = i")
    case False
    have "lrep (ptnodes k) (list_of k j) (L j)" using l that unfolding lists_def by blast
    then show ?thesis using same_off_lrep [OF so dj(1) [OF that False]] oth [OF False] False by simp
  qed (use r in simp)
  moreover have "set ((L(i := xs)) j) \<inter> set ((L(i := xs)) m) = {}" if "fst j \<in> P" "fst m \<in> P" "j \<noteq> m" for j m
  proof -
    have "set (L j) \<inter> set (L m) = {}" using l that unfolding lists_def by blast
    moreover have "m \<noteq> i \<Longrightarrow> set xs \<inter> set (L m) = {}" "j \<noteq> i \<Longrightarrow> set (L j) \<inter> set xs = {}" using dj(2) that(1,2) by blast+
    ultimately show ?thesis using that(3) by (cases "j = i"; cases "m = i") simp_all
  qed
  ultimately show ?thesis unfolding lists_def by blast
qed

definition with_list :: "u64 \<times> bool \<Rightarrow> klist \<Rightarrow> lheap \<Rightarrow> 'c kernel \<Rightarrow> 'c kernel" where
  "with_list i l h k = set_proc (fst i) (\<lambda>r. if snd i then r\<lparr>zombie_children := l\<rparr> else r\<lparr>children := l\<rparr>) k\<lparr>ptnodes := h\<rparr>"

lemma list_of_with [simp]: "list_of (with_list i l h k) j = (if j = i then l else list_of k j)" "ptnodes (with_list i l h k) = h"
  by (cases i; cases j; simp add: list_of_def with_list_def) (simp add: with_list_def)

lemma remove_ok:
  assumes l: "lists P k L" and q: "q \<in> P" and n: "n \<in> set (L (q, b))"
  shows "\<exists>l h. (if b then remove_zombie q n k else remove_child q n k) = Ret (with_list (q, b) l h k) \<and>
    lists P (with_list (q, b) l h k) (L((q, b) := remove1 n (L (q, b))))"
proof -
  have i: "fst (q, b) \<in> P" using q by simp
  have "lrep (ptnodes k) (list_of k (q, b)) (L (q, b))" using l i unfolding lists_def by blast
  then obtain l' h where r: "list_remove (list_of k (q, b)) n (ptnodes k) = Ret (l', h)" "lrep h l' (remove1 n (L (q, b)))"
    "same_off (set (L (q, b))) (ptnodes k) h" using list_remove_rep n by blast
  have nj: "n \<notin> set (L j)" if "fst j \<in> P" "j \<noteq> (q, b)" for j using l i that n unfolding lists_def by blast
  have "lists P (with_list (q, b) l' h k) (L((q, b) := remove1 n (L (q, b))))"
    by (rule lists_change [where S = "set (L (q, b))" and n = n, OF l i])
      (use r nj set_remove1_subset [of n "L (q, b)"] in auto)
  then show ?thesis using r(1) by (cases b) (auto simp: remove_zombie_def remove_child_def list_of_def with_list_def)
qed

lemma push_ok:
  assumes l: "lists P k L" and q: "q \<in> P" and n: "n \<noteq> NULL" "\<And>i. fst i \<in> P \<Longrightarrow> n \<notin> set (L i)"
  shows "\<exists>l h. (if b then push_zombie q n k else push_child q n k) = Ret (with_list (q, b) l h k) \<and>
    lists P (with_list (q, b) l h k) (L((q, b) := L (q, b) @ [n]))"
proof -
  have i: "fst (q, b) \<in> P" using q by simp
  have "lrep (ptnodes k) (list_of k (q, b)) (L (q, b))" using l i unfolding lists_def by blast
  then obtain l' h where r: "list_push_back (list_of k (q, b)) n (ptnodes k) = Ret (l', h)" "lrep h l' (L (q, b) @ [n])"
    "same_off (set (n # L (q, b))) (ptnodes k) h" using list_push_back_rep n(2) [OF i] n(1) by blast
  have "lists P (with_list (q, b) l' h k) (L((q, b) := L (q, b) @ [n]))"
    by (rule lists_change [where S = "set (n # L (q, b))" and n = n, OF l i]) (use r n in auto)
  then show ?thesis using r(1) by (cases b) (auto simp: push_zombie_def push_child_def list_of_def with_list_def)
qed

lemma lists_set_proc:
  assumes "lists P k L" "\<And>r. children (f r) = children r \<and> zombie_children (f r) = zombie_children r"
  shows "lists P (set_proc p f k) L"
proof -
  have "list_of (set_proc p f k) i = list_of k i" for i using assms(2) by (simp add: list_of_def)
  then show ?thesis using assms(1) by (simp add: lists_def)
qed

lemma removed_everywhere:
  assumes "lists P k L" "fst i \<in> P" "n \<in> set (L i)" "fst j \<in> P"
  shows "n \<notin> set ((L(i := remove1 n (L i))) j)"
proof (cases "j = i")
  case True
  have "distinct (L i)" using assms(1,2) lrep_distinct unfolding lists_def by blast
  then show ?thesis using True by simp
next
  case False
  then have "set (L i) \<inter> set (L j) = {}" using assms(1,2,4) unfolding lists_def by blast
  then show ?thesis using assms(3) False by auto
qed

section \<open>What changes in the tree leave alone\<close>

definition core :: "proc \<Rightarrow> bool \<times> bool \<times> int \<times> int \<times> u64 \<times> procstate \<times> semaphore \<times> u64" where
  "core r = (killed r, proc.idle r, pid r, exitcode r, kstack r, pstate r, childexit r, runtime r)"

definition tree_frame :: "'c kernel \<Rightarrow> 'c kernel \<Rightarrow> bool" where
  "tree_frame k k' \<longleftrightarrow> (\<exists>ps h. k' = k\<lparr>sc := (sc k)\<lparr>procs := ps\<rparr>, ptnodes := h\<rparr>) \<and> (\<forall>r. core (proc_of k' r) = core (proc_of k r))"

lemma tree_frame_refl: "tree_frame k k"
  unfolding tree_frame_def by (intro conjI exI [of _ "procs (sc k)"] exI [of _ "ptnodes k"]) simp_all

lemma tree_frame_trans: "tree_frame k k' \<Longrightarrow> tree_frame k' k'' \<Longrightarrow> tree_frame k k''"
  unfolding tree_frame_def by (elim conjE exE) auto

lemma tree_frame_with: "tree_frame k (with_list i l h k)"
  unfolding tree_frame_def
proof
  show "\<exists>ps h'. with_list i l h k = k\<lparr>sc := (sc k)\<lparr>procs := ps\<rparr>, ptnodes := h'\<rparr>"
    by (auto simp: with_list_def set_proc_def upd_proc_def)
  show "\<forall>r. core (proc_of (with_list i l h k) r) = core (proc_of k r)" by (simp add: with_list_def core_def)
qed

lemma tree_frame_parent: "tree_frame k (set_proc p (\<lambda>r. r\<lparr>parent := q\<rparr>) k)"
  unfolding tree_frame_def
proof
  show "\<exists>ps h. set_proc p (\<lambda>r. r\<lparr>parent := q\<rparr>) k = k\<lparr>sc := (sc k)\<lparr>procs := ps\<rparr>, ptnodes := h\<rparr>"
    by (intro exI [of _ "(procs (sc k))(p := (procs (sc k) p)\<lparr>parent := q\<rparr>)"] exI [of _ "ptnodes k"]) (simp add: set_proc_def upd_proc_def)
qed (simp add: core_def)

lemma sched_inv_procs:
  assumes inv: "sched_inv P R s qs"
    and c: "\<And>r. pid (ps r) = pid (procs s r)" "\<And>r. proc.idle (ps r) = proc.idle (procs s r)" "\<And>r. pstate (ps r) = pstate (procs s r)"
      "\<And>r. runtime (ps r) = runtime (procs s r)"
  shows "sched_inv P R (s\<lparr>procs := ps\<rparr>) qs"
proof -
  have "cmp_runtime ps = cmp_runtime (procs s)" by (intro ext) (simp add: cmp_runtime_def c)
  then show ?thesis using inv by (simp add: sched_inv_def proc_table_def queues_def on_cpu_def Sched.ready_def rq_def c)
qed

lemma tree_frame_inv:
  assumes "tree_frame k k'" "sched_inv P R (sc k) qs"
  shows "sched_inv P R (sc k') qs" "running (sc k') = running (sc k)" "clocks (sc k') = clocks (sc k)"
proof -
  obtain ps h where k': "k' = k\<lparr>sc := (sc k)\<lparr>procs := ps\<rparr>, ptnodes := h\<rparr>" using assms(1) unfolding tree_frame_def by blast
  have "core (ps r) = core (procs (sc k) r)" for r using assms(1) k' unfolding tree_frame_def by (simp add: proc_of_def)
  then have "sched_inv P R ((sc k)\<lparr>procs := ps\<rparr>) qs" by (intro sched_inv_procs [OF assms(2)]) (simp_all add: core_def)
  then show "sched_inv P R (sc k') qs" "running (sc k') = running (sc k)" "clocks (sc k') = clocks (sc k)" using k' by simp_all
qed

section \<open>A process with at most one child\<close>

lemma transfer_one:
  assumes l: "lists P k L" and P: "src \<in> P" "dst \<in> P" "dst \<noteq> src" and c: "L (src, False) = [c]"
  shows "\<exists>k'. run_then (Some (first_visit (children (proc_of k src)) (ptnodes k))) (\<lambda>n. transfer_alive dst src (head (children (proc_of k src))) n k) =
      Some (Ret k') \<and> lists P k' (L((src, False) := [], (dst, False) := L (dst, False) @ [c])) \<and> tree_frame k k' \<and>
      (\<forall>r. parent (proc_of k' r) = (if r = of_nat c then dst else parent (proc_of k r)))"
proof -
  have "lrep (ptnodes k) (list_of k (src, False)) (L (src, False))" using l P unfolding lists_def by simp
  then have h: "head (children (proc_of k src)) = c" "nxt (ptnodes k) c = c" "c \<noteq> NULL"
    using c by (auto simp: list_of_def lrep_def circ_single)
  let ?L1 = "L((src, False) := remove1 c (L (src, False)))"
  obtain l1 h1 where r: "remove_child src c k = Ret (with_list (src, False) l1 h1 k)" "lists P (with_list (src, False) l1 h1 k) ?L1"
    using remove_ok [where b = False, OF l P(1), of c] unfolding c by auto
  let ?k1 = "with_list (src, False) l1 h1 k"
  have "c \<notin> set (?L1 i)" if "fst i \<in> P" for i
    using removed_everywhere [where i = "(src, False)", OF l _ _ that] P c by simp
  from push_ok [where b = False, unfolded if_False, OF r(2) P(2) h(3) this]
  obtain l2 h2 where p0: "push_child dst c ?k1 = Ret (with_list (dst, False) l2 h2 ?k1)"
    "lists P (with_list (dst, False) l2 h2 ?k1) (?L1((dst, False) := ?L1 (dst, False) @ [c]))" by blast
  have "?L1((dst, False) := ?L1 (dst, False) @ [c]) = L((src, False) := [], (dst, False) := L (dst, False) @ [c])" using P(3) c by simp
  note p = p0(1) p0(2) [unfolded this]
  let ?k2 = "with_list (dst, False) l2 h2 ?k1" and ?f = "\<lambda>r. r\<lparr>parent := dst\<rparr>"
  have "transfer_alive dst src c c k = Some (Ret (set_proc (of_nat c) ?f ?k2))"
    using r(1) p(1) h by (subst transfer_alive.simps) (simp add: next_visit_def transfer_alive.simps [of _ _ _ 0])
  moreover have "lists P (set_proc (of_nat c) ?f ?k2) (L((src, False) := [], (dst, False) := L (dst, False) @ [c]))"
    by (rule lists_set_proc [OF p(2)]) simp
  moreover have "tree_frame k (set_proc (of_nat c) ?f ?k2)"
    by (rule tree_frame_trans [OF tree_frame_trans [OF tree_frame_with tree_frame_with] tree_frame_parent])
  moreover have "\<forall>r. parent (proc_of (set_proc (of_nat c) ?f ?k2) r) = (if r = of_nat c then dst else parent (proc_of k r))"
    by (auto simp: with_list_def)
  moreover have "first_visit (children (proc_of k src)) (ptnodes k) = Ret c" using h by (simp add: first_visit_def node_simps)
  ultimately show ?thesis unfolding h(1) by (intro exI [of _ "set_proc (of_nat c) ?f ?k2"]) simp
qed

lemma first_visit_none: "lists P k L \<Longrightarrow> q \<in> P \<Longrightarrow> L (q, b) = [] \<Longrightarrow> head (list_of k (q, b)) = NULL"
  unfolding lists_def lrep_def by (metis fst_conv)

lemma transfer_ok:
  assumes l: "lists P k L" and P: "src \<in> P" "dst \<in> P" "dst \<noteq> src" and c: "length (L (src, False)) \<le> 1" "L (src, True) = []"
  shows "\<exists>k'. transfer_children dst src k = Some (Ret k') \<and> lists P k' (L((src, False) := [], (dst, False) := L (dst, False) @ L (src, False))) \<and>
    tree_frame k k' \<and> (\<forall>r. r \<notin> of_nat ` set (L (src, False)) \<longrightarrow> parent (proc_of k' r) = parent (proc_of k r))"
proof -
  let ?L = "L((src, False) := [], (dst, False) := L (dst, False) @ L (src, False))"
  have "\<exists>k'. run_then (Some (first_visit (children (proc_of k src)) (ptnodes k))) (\<lambda>n. transfer_alive dst src (head (children (proc_of k src))) n k) =
      Some (Ret k') \<and> lists P k' ?L \<and> tree_frame k k' \<and> (\<forall>r. r \<notin> of_nat ` set (L (src, False)) \<longrightarrow> parent (proc_of k' r) = parent (proc_of k r))"
  proof (cases "L (src, False)")
    case Nil
    then have "first_visit (children (proc_of k src)) (ptnodes k) = Ret NULL"
      using first_visit_none [OF l P(1), of False] by (simp add: first_visit_def list_of_def)
    moreover have "?L = L" using Nil by (auto simp: fun_eq_iff)
    ultimately show ?thesis using l tree_frame_refl by (simp add: transfer_alive.simps [of _ _ _ NULL])
  next
    case (Cons x xs)
    then have "L (src, False) = [x]" using c(1) by simp
    from transfer_one [OF l P this] this show ?thesis by auto
  qed
  then obtain k' where k': "run_then (Some (first_visit (children (proc_of k src)) (ptnodes k))) (\<lambda>n. transfer_alive dst src (head (children (proc_of k src))) n k) =
      Some (Ret k')" "lists P k' ?L" "tree_frame k k'" "\<forall>r. r \<notin> of_nat ` set (L (src, False)) \<longrightarrow> parent (proc_of k' r) = parent (proc_of k r)" by blast
  have "first_visit (zombie_children (proc_of k' src)) (ptnodes k') = Ret NULL"
    using first_visit_none [OF k'(2) P(1), of True] c(2) by (simp add: first_visit_def list_of_def)
  then have "transfer_children dst src k = Some (Ret k')"
    using k'(1) unfolding transfer_children_def by (auto simp: run_then_eq_Ret transfer_zombies.simps [of _ _ _ NULL])
  then show ?thesis using k' by blast
qed

section \<open>Waking the parent\<close>

lemma post_childexit_ok:
  assumes inv: "sched_inv P R (sc k) qs" and q: "q \<in> P" and s: "sem_ok (childexit (proc_of k q))" "set (sleeplist (childexit (proc_of k q))) \<subseteq> {unat q}"
  shows "\<exists>k' qs' st x. post_childexit q k = Some (Ret k') \<and> k' = k\<lparr>sc := sc k'\<rparr> \<and> sched_inv P R (sc k') qs' \<and> running (sc k') = running (sc k) \<and>
    clocks (sc k') = clocks (sc k) \<and> procs (sc k') = (procs (sc k))(q := (procs (sc k) q)\<lparr>childexit := x, pstate := st\<rparr>) \<and>
    val x = val (childexit (proc_of k q)) + 1 \<and>
    (if sleeplist (childexit (proc_of k q)) \<noteq> [] \<and> pstate (proc_of k q) \<in> {SLEEPING, UNUSED, DEEPSLEEPING}
     then st = RUNNABLE else st = pstate (proc_of k q))"
proof -
  let ?c = "childexit (proc_of k q)"
  obtain w x where po: "post_sem ?c = Ret (w, x)" "val x = val ?c + 1" "w = (if sleeplist ?c = [] then None else Some (unat q))"
    using post_sem_result [OF s(1)] s(2) by (cases "sleeplist ?c") auto
  let ?k = "set_proc q (\<lambda>r. r\<lparr>childexit := x\<rparr>) k"
  have inv1: "sched_inv P R (sc ?k) qs"
    unfolding kernel_simps upd_proc_def by (rule sched_inv_procs [OF inv]) simp_all
  show ?thesis
  proof (cases "sleeplist ?c = []")
    case True
    then have "post_childexit q k = Some (Ret ?k)" using po by (simp add: post_childexit_def)
    then show ?thesis using inv1 po(2) True
      by (intro exI [of _ ?k] exI [of _ qs] exI [of _ "pstate (proc_of k q)"] exI [of _ x]) (auto simp: set_proc_def proc_of_def)
  next
    case False
    obtain b s' qs' where a: "activate_proc q False (sc ?k) = Some (Ret (b, s'))" "sched_inv P R s' qs'" "clocks s' = clocks (sc ?k)" "running s' = running (sc ?k)"
      "procs s' = (procs (sc ?k))(q := (procs (sc ?k) q)\<lparr>pstate := if b then RUNNABLE else pstate (procs (sc ?k) q)\<rparr>)"
      "b \<longleftrightarrow> pstate (procs (sc ?k) q) = SLEEPING \<or> pstate (procs (sc ?k) q) = UNUSED \<or> \<not> False \<and> pstate (procs (sc ?k) q) = DEEPSLEEPING"
      using activate_cases [OF inv1 q, of False] by blast
    have "post_childexit q k = Some (Ret (?k\<lparr>sc := s'\<rparr>))" using po(1,3) False a(1) by (simp add: post_childexit_def)
    then show ?thesis using a po(2) False
      by (intro exI [of _ "?k\<lparr>sc := s'\<rparr>"] exI [of _ qs'] exI [of _ "if b then RUNNABLE else pstate (proc_of k q)"] exI [of _ x])
        (auto simp: set_proc_def proc_of_def)
  qed
qed

section \<open>Exit\<close>

lemma lists_cong:
  assumes "lists P k L" "ptnodes k' = ptnodes k" "\<And>r. children (proc_of k' r) = children (proc_of k r)"
    "\<And>r. zombie_children (proc_of k' r) = zombie_children (proc_of k r)"
  shows "lists P k' L"
proof -
  have "list_of k' i = list_of k i" for i using assms(3,4) by (simp add: list_of_def)
  then show ?thesis using assms(1,2) by (simp add: lists_def)
qed

text \<open>The lists after the exit of \<open>p\<close>, child of \<open>q\<close>.\<close>

definition after_exit :: "u64 \<Rightarrow> u64 \<Rightarrow> u64 \<Rightarrow> (u64 \<times> bool \<Rightarrow> nat list) \<Rightarrow> u64 \<times> bool \<Rightarrow> nat list" where
  "after_exit root p q L =
     (let L1 = L((p, False) := [], (root, False) := L (root, False) @ L (p, False));
          L2 = L1((q, False) := remove1 (unat p) (L1 (q, False)))
      in L2((q, True) := L2 (q, True) @ [unat p]))"

lemma exit_tree:
  assumes l: "lists P k L" and P: "p \<in> P" "root \<in> P" "root \<noteq> p" "q \<in> P" "q \<noteq> p" and m: "unat p \<in> set (L (q, False))" "p \<noteq> 0"
    and c: "length (L (p, False)) \<le> 1" "L (p, True) = []" and pa: "parent (proc_of k p) = q" "p \<notin> of_nat ` set (L (p, False))"
  shows "\<exists>k1 k2 k3. transfer_children root p k = Some (Ret k1) \<and> parent (proc_of k1 p) = q \<and> remove_child q (unat p) k1 = Ret k2 \<and>
    push_zombie q (unat p) k2 = Ret k3 \<and> lists P k3 (after_exit root p q L) \<and> tree_frame k k3 \<and> parent (proc_of k3 p) = q"
proof -
  let ?L1 = "L((p, False) := [], (root, False) := L (root, False) @ L (p, False))"
  let ?L2 = "?L1((q, False) := remove1 (unat p) (?L1 (q, False)))"
  obtain k1 where k1: "transfer_children root p k = Some (Ret k1)" "lists P k1 ?L1" "tree_frame k k1" "parent (proc_of k1 p) = q"
    using transfer_ok [OF l P(1,2,3) c] pa by blast
  have m1: "unat p \<in> set (?L1 (q, False))" using m(1) P(5) by auto
  from remove_ok [where b = False, unfolded if_False, OF k1(2) P(4) m1]
  obtain l2 h2 where r: "remove_child q (unat p) k1 = Ret (with_list (q, False) l2 h2 k1)" "lists P (with_list (q, False) l2 h2 k1) ?L2" by blast
  have fq: "fst (q, False) \<in> P" using P(4) by simp
  have "unat p \<notin> set (?L2 i)" if "fst i \<in> P" for i by (rule removed_everywhere [OF k1(2) fq m1 that])
  moreover have "unat p \<noteq> NULL" using m(2) by (simp add: unat_eq_0)
  ultimately obtain l3 h3 where z: "push_zombie q (unat p) (with_list (q, False) l2 h2 k1) = Ret (with_list (q, True) l3 h3 (with_list (q, False) l2 h2 k1))"
    "lists P (with_list (q, True) l3 h3 (with_list (q, False) l2 h2 k1)) (?L2((q, True) := ?L2 (q, True) @ [unat p]))"
    using push_ok [where b = True, unfolded if_True, OF r(2) P(4)] by blast
  have "tree_frame k (with_list (q, True) l3 h3 (with_list (q, False) l2 h2 k1))"
    by (rule tree_frame_trans [OF k1(3) tree_frame_trans [OF tree_frame_with tree_frame_with]])
  moreover have "parent (proc_of (with_list (q, True) l3 h3 (with_list (q, False) l2 h2 k1)) p) = q" using k1(4) by (auto simp: with_list_def)
  moreover have "?L2((q, True) := ?L2 (q, True) @ [unat p]) = after_exit root p q L" by (simp add: after_exit_def Let_def)
  ultimately show ?thesis using k1 r z by metis
qed


text \<open>
  C18: a process that exits with two or more live children never gets through \<open>exit\<close>. The loop that hands the
  children to the root process reads the successor of a child after it has moved it, follows the list of
  the root process to its head, and stays there forever, with the lock of the process tree held.
\<close>

theorem exit_never_returns:
  assumes "p = me e k" "kp_root e \<noteq> p" "lrep (ptnodes k) (children (proc_of k p)) (c0 # c1 # cs)"
    and "lrep (ptnodes k) (children (proc_of k (kp_root e))) ys" "set (c0 # c1 # cs) \<inter> set ys = {}"
  shows "exit_proc e code k = None"
proof -
  let ?k = "set_proc p (\<lambda>r. r\<lparr>exitcode := code\<rparr>) k"
  have ch: "children (proc_of ?k r) = children (proc_of k r)" for r by simp
  have "circ (ptnodes k) (c0 # c1 # cs)" "head (children (proc_of k p)) = c0" using assms(3) by (auto simp: lrep_def)
  then have "nxt (ptnodes k) c0 = c1" "c0 \<noteq> NULL" by (auto simp: circ_def)
  then have "first_visit (children (proc_of ?k p)) (ptnodes ?k) = Ret c1"
    using \<open>head _ = c0\<close> by (simp add: first_visit_def node_simps)
  moreover have "transfer_alive (kp_root e) p c0 c1 ?k = None"
    using transfer_two [OF assms(2), of ?k c0 c1 cs ys] assms(3-5) unfolding ch kernel_simps(1) by blast
  ultimately have "transfer_children (kp_root e) p ?k = None" using \<open>head _ = c0\<close> by (simp add: transfer_children_def)
  then show ?thesis using assms(1) by (simp add: exit_proc_def Let_def)
qed

section \<open>Kill\<close>

definition wanted :: "int \<Rightarrow> 'c kernel \<Rightarrow> nat \<Rightarrow> bool" where
  "wanted i k n \<longleftrightarrow> pid (proc_of k (of_nat n)) = i \<and> \<not> proc.idle (proc_of k (of_nat n))"

lemma kill_step:
  "n \<noteq> NULL \<Longrightarrow> kill_loop i flag n k =
     (if wanted i k n then
        let k1 = set_proc (of_nat n) (\<lambda>r. r\<lparr>killed := True\<rparr>) k in
        run_then (activate_proc (of_nat n) True (sc k1)) (\<lambda>(_, s). Some (Ret (0, k1\<lparr>sc := s\<rparr>)))
      else run_then (Some (next_visit flag n (ptnodes k))) (\<lambda>m. kill_loop i flag m k))"
  by (subst kill_loop.simps) (simp add: wanted_def Let_def)

lemma kill_walk:
  assumes "seg (ptnodes k) (ys @ [c0])" "NULL \<notin> set (ys @ [c0])" "c0 \<notin> set ys"
  shows "kill_loop i c0 (hd (ys @ [c0])) k =
    (case find (wanted i k) (ys @ [c0]) of
       None \<Rightarrow> Some (Ret (- 1, k))
     | Some n \<Rightarrow> (let k1 = set_proc (of_nat n) (\<lambda>r. r\<lparr>killed := True\<rparr>) k in
         run_then (activate_proc (of_nat n) True (sc k1)) (\<lambda>(_, s). Some (Ret (0, k1\<lparr>sc := s\<rparr>)))))"
  using assms
proof (induction ys)
  case Nil
  then show ?case by (simp add: kill_step next_visit_def kill_loop.simps [of _ _ NULL] Let_def)
next
  case (Cons y ys)
  have nx: "nxt (ptnodes k) y = hd (ys @ [c0])" "seg (ptnodes k) (ys @ [c0])" using Cons.prems(1) by (cases ys; simp)+
  then show ?case using Cons.IH Cons.prems(2,3) by (simp add: kill_step [of y] next_visit_def node_simps)
qed

text \<open>
  C19: \<open>kill\<close> always returns. Where no live child has the number it returns -1 and changes nothing. Otherwise
  it marks the first such child as killed and returns 0; the child becomes ready if it was sleeping, but not
  if its sleep is not to be interrupted, no other process changes, and the run queues are consistent again.
\<close>

theorem kill_marks_child:
  assumes inv: "sched_inv P all_cpus (sc k) qs" and l: "lists P k L" and p: "p = me e k" "p \<in> P" and c: "of_nat ` set (L (p, False)) \<subseteq> P"
  shows "case find (wanted i k) (rotate1 (L (p, False))) of
      None \<Rightarrow> kill e i k = Some (Ret (- 1, k))
    | Some n \<Rightarrow> \<exists>k' qs'. kill e i k = Some (Ret (0, k')) \<and> sched_inv P all_cpus (sc k') qs' \<and>
        proc_of k' = (proc_of k)(of_nat n := (proc_of k (of_nat n))\<lparr>killed := True,
          pstate := if pstate (proc_of k (of_nat n)) \<in> {SLEEPING, UNUSED} then RUNNABLE else pstate (proc_of k (of_nat n))\<rparr>)"
proof (cases "L (p, False)")
  case Nil
  then have "head (children (proc_of k p)) = NULL" using first_visit_none [OF l p(2), of False] by (simp add: list_of_def)
  then show ?thesis using Nil p(1) by (simp add: kill_def first_visit_def kill_loop.simps [of _ _ NULL] Let_def)
next
  case (Cons c0 cs)
  have "lrep (ptnodes k) (list_of k (p, False)) (L (p, False))" using l p(2) unfolding lists_def by simp
  then have r: "circ (ptnodes k) (c0 # cs)" "head (children (proc_of k p)) = c0" unfolding Cons by (auto simp: list_of_def lrep_def)
  then have ci: "circ (ptnodes k) (cs @ [c0])" using circ_rotate by blast
  then have sg: "seg (ptnodes k) (cs @ [c0])" "NULL \<notin> set (cs @ [c0])" "c0 \<notin> set cs"
    using seg_append [of "ptnodes k" cs c0 "[hd (cs @ [c0])]"] by (simp_all add: circ_def)
  have nx: "nxt (ptnodes k) c0 = hd (cs @ [c0])" "c0 \<noteq> NULL"
    using circ_neighbours(1) [of "ptnodes k" "[]" c0 cs] r(1) sg(2) by simp_all
  have k: "kill e i k = kill_loop i c0 (hd (cs @ [c0])) k"
    using r(2) nx p(1) by (simp add: kill_def first_visit_def node_simps Let_def)
  show ?thesis
  proof (cases "find (wanted i k) (cs @ [c0])")
    case None
    then show ?thesis using k kill_walk [OF sg(1-3), of i] Cons by simp
  next
    case (Some n)
    let ?n = "of_nat n :: u64" and ?k = "set_proc (of_nat n) (\<lambda>r. r\<lparr>killed := True\<rparr>) k"
    have "n \<in> set (cs @ [c0])" using Some unfolding find_Some_iff by (metis nth_mem)
    then have "n \<in> set (L (p, False))" unfolding Cons by simp
    then have nP: "?n \<in> P" using c by blast
    have inv1: "sched_inv P all_cpus (sc ?k) qs" unfolding kernel_simps upd_proc_def by (rule sched_inv_procs [OF inv]) simp_all
    obtain b s' qs' where a: "activate_proc ?n True (sc ?k) = Some (Ret (b, s'))" "sched_inv P all_cpus s' qs'"
      "procs s' = (procs (sc ?k))(?n := (procs (sc ?k) ?n)\<lparr>pstate := if b then RUNNABLE else pstate (procs (sc ?k) ?n)\<rparr>)"
      "b \<longleftrightarrow> pstate (procs (sc ?k) ?n) = SLEEPING \<or> pstate (procs (sc ?k) ?n) = UNUSED \<or> \<not> True \<and> pstate (procs (sc ?k) ?n) = DEEPSLEEPING"
      using activate_cases [OF inv1 nP, of True] by (elim exE conjE) (rule that)
    have "kill e i k = Some (Ret (0, ?k\<lparr>sc := s'\<rparr>))" using k kill_walk [OF sg(1-3), of i] Some a(1) by (simp add: Let_def)
    moreover have "proc_of (?k\<lparr>sc := s'\<rparr>) = (proc_of k)(?n := (proc_of k ?n)\<lparr>killed := True,
          pstate := if pstate (proc_of k ?n) \<in> {SLEEPING, UNUSED} then RUNNABLE else pstate (proc_of k ?n)\<rparr>)"
      using a(3,4) by (auto simp: proc_of_def fun_eq_iff)
    ultimately have "\<exists>k' qs'. kill e i k = Some (Ret (0, k')) \<and> sched_inv P all_cpus (sc k') qs' \<and>
        proc_of k' = (proc_of k)(?n := (proc_of k ?n)\<lparr>killed := True,
          pstate := if pstate (proc_of k ?n) \<in> {SLEEPING, UNUSED} then RUNNABLE else pstate (proc_of k ?n)\<rparr>)"
      using a(2) by (intro exI [of _ "?k\<lparr>sc := s'\<rparr>"] exI [of _ qs']) simp
    then show ?thesis using Some Cons by simp
  qed
qed

section \<open>A family of two\<close>

text \<open>
  The first processor runs the process \<open>0x2000\<close>, and \<open>0x3000\<close>, the root process, is ready; \<open>l\<close> and \<open>m\<close> are
  their lists of children.
\<close>

definition family :: "klist \<Rightarrow> klist \<Rightarrow> sched" where
  "family l m =
     demo_sched\<lparr>
       procs := (\<lambda>p. if p = 0x2000 then demo_proc\<lparr>idle := False, pid := 4, children := l, parent := 0x3000\<rparr>
         else if p = 0x3000 then demo_proc\<lparr>idle := False, pid := 8, pstate := RUNNABLE, children := m\<rparr>
         else if p = 0x100 then demo_proc\<lparr>pstate := RUNNABLE\<rparr> else demo_proc),
       rnodes := demo_heap\<lparr>parent_color := (\<lambda>a. 1)\<rparr>, roots := (\<lambda>i. if i = 0 then 0x3000 else 0),
       running := (!) [0x2000, 0x200, 0x300, 0x400]\<rparr>"

lemmas family_eval = family_def demo_eval

lemma family_ready: "Sched.ready demo_procs (family l m) i = (if i = 0 then {0x3000} else {})"
  unfolding Sched.ready_def by (cases "i = 0") (auto simp: family_eval NCPU_def)

lemma family_inv: "sched_inv demo_procs all_cpus (family l m) (\<lambda>i. if i = 0 then [0x3000] else [])"
proof -
  have c: "all_cpus = {0, 1, 2, 3}" by (auto simp: NCPU_def)
  have a: "al 0x100" "al 0x200" "al 0x300" "al 0x400" "al 0x2000" "al 0x3000" by (simp_all add: al_def take_bit_eq_mod)
  have "rep (rq 0 (family l m)) 0 0x3000 (Br Black Tip 0x3000 Tip)"
    by (simp add: rq_def family_eval demo_heap_def al_def RB_BLACK_def take_bit_eq_mod)
  then have "rb_tree lt (rq 0 (family l m)) [0x3000]" for lt unfolding rb_tree_def
    by (intro conjI exI [of _ "Br Black Tip 0x3000 Tip"]) (simp_all add: rb_inv_def rq_def family_def)
  moreover have "rb_tree lt (rq i (family l m)) []" if "i \<noteq> 0" for lt i unfolding rb_tree_def
    using that by (intro conjI exI [of _ Tip]) (simp_all add: rb_inv_def rq_def family_def)
  ultimately have "queues demo_procs (family l m) (\<lambda>i. if i = 0 then [0x3000] else [])" by (auto simp: queues_def family_ready)
  moreover have "inj_on (idle_of (family l m)) all_cpus" unfolding c by (simp add: family_eval)
  moreover have "inj_on (\<lambda>p. pid (procs (family l m) p)) {p \<in> demo_procs. \<not> proc.idle (procs (family l m) p)}"
    by (rule inj_on_subset [of _ "{0x2000, 0x3000}"]) (auto simp: family_eval)
  ultimately have "proc_table demo_procs (family l m)" using a unfolding proc_table_def less_NCPU by (simp add: family_eval)
  moreover have "on_cpu demo_procs all_cpus (family l m)" unfolding on_cpu_def c less_NCPU by (simp add: family_eval NCPU_def)
  ultimately show ?thesis using \<open>queues _ _ _\<close> by (simp add: sched_inv_def)
qed

lemma family_slices: "slices (\<lambda>i n. 10) (\<lambda>i. 0x5000) (family l m)"
  using demo_slices by (simp add: slices_def family_def)

definition home :: "klist \<Rightarrow> klist \<Rightarrow> lheap \<Rightarrow> unit kernel" where
  "home l m h = \<lparr>sc = family l m, ptnodes = h, pids = bss_pool, kheap = demo_tables, vms = (\<lambda>p. \<lparr>pgtbl = 0, vmregions = []\<rparr>), ucontext = (\<lambda>p. zero_uctx),
     kcontext = (\<lambda>p. zero_kctx), kfiles = fl demo_sys, oftable = (\<lambda>p. init_oftable), cwd_of = (\<lambda>p. 1)\<rparr>"

definition param :: "unit kparam" where
  "param = \<lparr>kp_cpu = 0, kp_counter = (\<lambda>n. 10), kp_timer = (\<lambda>i. 0x5000), kp_root = 0x3000, kp_proc_entry = 0, kp_kernel_entry = 0,
     kp_idle_entry = 0, kp_trap_return = 0, kp_size = 0, kp_node = 0, kp_vms = 0, kp_env = demo_env\<rparr>"

abbreviation loops :: lheap where "loops \<equiv> \<lparr>nxt = (\<lambda>n. n), prv = (\<lambda>n. n)\<rparr>"

abbreviation only_child :: "nat \<Rightarrow> klist" where "only_child n \<equiv> \<lparr>head = n, lsize = 1\<rparr>"

lemma home_proc:
  "proc_of (home l m h) p = procs (family l m) p" "ptnodes (home l m h) = h" "sc (home l m h) = family l m" "me param (home l m h) = 0x2000"
  by (simp_all add: home_def proc_of_def param_def me_def thisproc_def family_def)

lemma param_simps [simp]: "kp_cpu param = 0" "kp_counter param = (\<lambda>n. 10)" "kp_timer param = (\<lambda>i. 0x5000)" "kp_root param = 0x3000"
  by (simp_all add: param_def)

lemma family_simps [simp]:
  "procs (family l m) 0x2000 = demo_proc\<lparr>idle := False, pid := 4, children := l, parent := 0x3000\<rparr>"
  "procs (family l m) 0x3000 = demo_proc\<lparr>idle := False, pid := 8, pstate := RUNNABLE, children := m\<rparr>"
  by (simp_all add: family_def)

lemma home_lists:
  assumes "lrep loops l xs" "lrep loops m ys" "set xs \<inter> set ys = {}"
  shows "lists P (home l m loops) (\<lambda>i. if i = (0x2000, False) then xs else if i = (0x3000, False) then ys else [])"
  using assms lrep_init [of loops] by (auto simp: lists_def list_of_def home_proc family_eval)

lemma home_files: "\<exists>s. exit_files (kp_env param) (oftable (home l m h) p) (cwd_of (home l m h) p) (kfiles (home l m h)) = Ret s"
proof -
  have "close_all e (replicate n None) s = Ret s" for e :: "unit env" and n s by (induction n) simp_all
  then show ?thesis
    by (simp add: exit_files_def param_def home_def init_oftable_def begin_op_def end_op_def put_ip_def inode_put_def demo_sys_def demo_dir_def demo_env_def demo_bc_def
      init_inode_def Let_def)
qed


theorem exit_never_returns_witness:
  "exit_proc param 7 (home \<lparr>head = 0x4000, lsize = 2\<rparr> (only_child 0x2000)
     \<lparr>nxt = (\<lambda>n. if n = 0x4000 then 0x5000 else if n = 0x5000 then 0x4000 else n), prv = (\<lambda>n. if n = 0x4000 then 0x5000 else if n = 0x5000 then 0x4000 else n)\<rparr>) = None"
  by (rule exit_never_returns [of "0x2000" _ _ "0x4000" "0x5000" "[]" "[0x2000]"])
    (simp_all add: home_proc lrep_def circ_def)

theorem kill_marks_child_witness:
  "\<exists>k'. kill param 8 (home (only_child 0x3000) list_init loops) = Some (Ret (0, k')) \<and> killed (proc_of k' 0x3000)"
proof -
  let ?k = "home (only_child 0x3000) list_init loops"
  have "lists demo_procs ?k (\<lambda>i. if i = (0x2000, False) then [0x3000] else if i = (0x3000, False) then [] else [])"
    by (rule home_lists) (simp_all add: lrep_def list_init_def circ_single)
  from kill_marks_child [OF family_inv [of "only_child 0x3000" list_init, folded home_proc(3) [of _ _ loops]] this, of "0x2000" param 8]
  show ?thesis by (auto simp: home_proc wanted_def demo_proc_def)
qed

end
