(* ===== verification/Spec2Isabelle.thy ===== *)
theory Spec2Isabelle
  imports Kstring Bitmap Pid Clist Cache_Props Inode_Props Pipe Console Vmregion Rbtree_Props Proc_Props
begin

text \<open>
  A verification of a small multi-processor kernel for AArch64, written in C under \<^verbatim>\<open>src/src\<close>.

  \<^bold>\<open>The program.\<close> The kernel has five layers. A library of data structures and of synchronisation
  (\<^verbatim>\<open>lib\<close>) is used by all the others. The drivers and the block device feed a block cache with a
  write-ahead log, on which stand inodes, directories, pipes and open files (\<^verbatim>\<open>driver\<close>, \<^verbatim>\<open>fs\<close>). Memory
  is managed in pages and partitions of pages, in page tables and in regions of address spaces
  (\<^verbatim>\<open>kernel/mem.c\<close>, \<^verbatim>\<open>vm\<close>). Processes are scheduled on run queues in slices that a timer ends
  (\<^verbatim>\<open>kernel/cpu.c\<close>, \<^verbatim>\<open>proc\<close>). The system calls on files and the calls on processes join these parts.

  \<^bold>\<open>How code becomes definitions.\<close> A function of the code is a function of the same name on an explicit
  state. Its result is an \<^typ>\<open>'a outcome\<close>: a value, a panic, a thread that has to wait, or undefined
  behaviour. Loops that end are total functions with a termination proof. Loops that may not end, on
  links with a cycle or on addresses that wrap around, are partial functions whose result is
  \<^term>\<open>None\<close> if they do not return; no fuel is used, and what is said about their results includes that they
  return. Integers are words where they wrap around, and numbers with the modulus written out, or with a
  bound that is shown, elsewhere. A section under a spin lock is one step. A function that sleeps is cut
  there in two, so that other calls can come between the parts. Constants of the code (sizes of blocks, of the log, of pipes and
  tables, the number of processors) have their values in the code.

  \<^bold>\<open>The library.\<close>
  \<^item> \<open>Prelude\<close> has the outcomes and lemmas on lists and words; \<open>Bytes\<close> the layout of integers in bytes;
    \<open>Ring\<close> rings with indices that wrap around, an interface that \<open>Pipe\<close> and \<open>Console\<close> interpret.
  \<^item> \<open>Kstring\<close>: \<^verbatim>\<open>lib/string.c\<close> on a memory of bytes, with overlapping arguments.
  \<^item> \<open>Bitmap\<close> (\<^verbatim>\<open>lib/bitmap.h\<close>) implements an array of bits; \<open>Pid\<close> (\<^verbatim>\<open>proc/pid.c\<close>) hands out only free
    numbers and fails only if there is none.
  \<^item> \<open>Clist\<close>: \<^verbatim>\<open>lib/list.c\<close> on a heap of links. Each operation is the list function on the sequence
    of the nodes and changes no other node; the interface \<open>kernel_list\<close> collects this.
  \<^item> \<open>Rbtree\<close> is \<^verbatim>\<open>lib/rbtree.c\<close> on packed words. \<open>Rbtree_Rep\<close> relates nodes to trees,
    \<open>Rbtree_Inv\<close>, \<open>Rbtree_Insert\<close>, \<open>Rbtree_Erase\<close>, \<open>Rbtree_Unlink\<close> and \<open>Rbtree_Delete\<close> follow the loops,
    and \<open>Rbtree_Props\<close> has the result: the operations always end, keep the colour invariants, and act on
    the ordered sequence of the nodes. The interface \<open>ordered_nodes\<close> gives it to the timers and the run queues.
  \<^item> \<open>Sem\<close>: \<^verbatim>\<open>lib/sem.c\<close> and \<^verbatim>\<open>lib/cond.c\<close>; permits are conserved and served in order.

  \<^bold>\<open>Storage.\<close>
  \<^item> \<open>Disk\<close>: the request queue (\<^verbatim>\<open>driver/disk.c\<close>) and the block device (\<^verbatim>\<open>fs/block_device.c\<close>). The card is
    a map from addresses to sectors. The interface \<open>block_dev\<close> says what a device keeps, also when the
    power fails after any write; the SD card interprets it.
  \<^item> \<open>Cache\<close> is \<^verbatim>\<open>fs/cache.c\<close>. \<open>Cache_Log\<close> shows that a commit is atomic and recovery can be repeated,
    \<open>Cache_Ops\<close> that the operations keep the invariant, \<open>Cache_Client\<close> the laws a client relies on as
    the interface \<open>block_cache_laws\<close>, with its interpretation for the cache on the card, and \<open>Cache_Props\<close> the properties.
  \<^item> \<open>Inode\<close> is \<^verbatim>\<open>fs/inode.c\<close> on any block cache. Within the interface, \<open>Inode_File\<close> and \<open>Inode_Write\<close> show that files
    are sequences of bytes, and \<open>Inode_Dir\<close> that directories are lists of entries; \<open>Inode_Props\<close> states this for
    the cache on the card.
  \<^item> \<open>Pipe\<close> (\<^verbatim>\<open>fs/pipe.c\<close>) delivers bytes in order in every interleaving. \<open>Console\<close> (\<^verbatim>\<open>kernel/console.c\<close>,
    \<^verbatim>\<open>driver/uart.c\<close>) edits a line and hands it to readers.
  \<^item> \<open>File\<close> (\<^verbatim>\<open>fs/file.c\<close>) and \<open>Sysfile\<close> (\<^verbatim>\<open>kernel/sysfile.c\<close>): reference counts equal the number of
    descriptors over every sequence of calls.

  \<^bold>\<open>Memory.\<close>
  \<^item> \<open>Mem\<close> is \<^verbatim>\<open>kernel/mem.c\<close>; \<open>Mem_Safe\<close> shows that blocks in use never overlap.
  \<^item> \<open>Pgtbl\<close> (\<^verbatim>\<open>vm/pgtbl.c\<close>): the walk finds what was mapped. \<open>Vmregion\<close> (\<^verbatim>\<open>vm/vmregion.c\<close>): regions, the
    heap, and what the checks of user pointers accept.

  \<^bold>\<open>Processes.\<close>
  \<^item> \<open>Timer\<close> (\<^verbatim>\<open>driver/clock.c\<close>, \<^verbatim>\<open>kernel/cpu.c\<close>): due timers fire in order, and the clock is set for the
    earliest one. The counter register is an argument, the value of each reading.
  \<^item> \<open>Sched\<close> (\<^verbatim>\<open>proc/sched.c\<close>): the process that has run least is chosen, and over every sequence of steps no process runs
    on two processors and each queue has exactly its ready processes.
  \<^item> \<open>Proc\<close> is \<^verbatim>\<open>proc/proc.c\<close>; \<open>Proc_Props\<close> shows what \<^verbatim>\<open>exit\<close> and \<^verbatim>\<open>kill\<close> do to the tree of processes.

  \<^bold>\<open>Where the code goes wrong.\<close> Some theorems state behaviour the code should not have: the log header that can
  be overrun, the block behind the direct ones that is not logged, the lock that \<^verbatim>\<open>openat\<close> releases twice, the
  thread whose kill panics the kernel, the mapping that is not removed, the page that is freed twice, the
  user range that wraps around, and the exit with two children that never ends.

  \<^bold>\<open>Not modelled.\<close> Assembly, traps, system registers and the boot mapping; the registers of the SD card, the mailbox,
  the interrupt controller and the set-up of the serial line; atomic instructions and spin locks; the loading of programs, memory
  mapping and page faults; message queues, which only a test uses; the dispatch of system
  calls; formatted output; the tests and the user programs. The card, the console behind a device file
  and the handlers of timers are parameters, or state that other parts give.
\<close>

end
